(* ===== verification/Prelude.thy ===== *)
theory Prelude
  imports Main "HOL-Library.Word"
begin

text \<open>
  Shared vocabulary of the development: the machine integer types of the C++ code, the
  fact collections the component proofs draw on, and generic lemmas on lists and words
  that more than one component uses.
\<close>

section \<open>Machine types\<close>

type_synonym u8 = "8 word"
type_synonym u16 = "16 word"
type_synonym u32 = "32 word"
type_synonym u64 = "64 word"

section \<open>Fact collections\<close>

text \<open>
  \<open>wf_intros\<close> collects the preservation lemmas of the component invariants,
  \<open>code_defs\<close> the non-recursive definitions a concrete evaluation unfolds.
\<close>

named_theorems wf_intros
named_theorems code_defs

section \<open>Searching and erasing in vectors\<close>

text \<open>
  \<open>std::find_if\<close> over forward and reverse iterators: the index of the first, or the
  last, element that satisfies the predicate; \<open>None\<close> stands for the end iterator.
\<close>

fun find_if :: "('a \<Rightarrow> bool) \<Rightarrow> 'a list \<Rightarrow> nat option" where
  "find_if p [] = None"
| "find_if p (x # xs) = (if p x then Some 0 else map_option Suc (find_if p xs))"

definition rfind_if :: "('a \<Rightarrow> bool) \<Rightarrow> 'a list \<Rightarrow> nat option" where
  "rfind_if p xs = map_option (\<lambda>i. length xs - 1 - i) (find_if p (rev xs))"

text \<open>\<open>std::vector::erase\<close> of one position.\<close>

definition erase_nth :: "nat \<Rightarrow> 'a list \<Rightarrow> 'a list" where
  "erase_nth i xs = take i xs @ drop (Suc i) xs"

lemma find_if_None: "find_if p xs = None \<longleftrightarrow> (\<forall>x\<in>set xs. \<not> p x)"
  by (induction xs) auto

lemma find_if_SomeD:
  "find_if p xs = Some i \<Longrightarrow> i < length xs \<and> p (xs ! i) \<and> (\<forall>j<i. \<not> p (xs ! j))"
proof (induction xs arbitrary: i)
  case Nil
  then show ?case by simp
next
  case (Cons x xs)
  show ?case
  proof (cases "p x")
    case True
    with Cons.prems show ?thesis by simp
  next
    case False
    with Cons.prems obtain k where k: "find_if p xs = Some k" "i = Suc k" by auto
    from Cons.IH [OF k(1)] k(2) False show ?thesis
      by (auto simp: less_Suc_eq_0_disj)
  qed
qed

lemma find_if_split:
  "find_if p xs = Some i \<Longrightarrow> xs = take i xs @ xs ! i # drop (Suc i) xs"
  using find_if_SomeD [of p xs i] by (simp add: id_take_nth_drop)

lemma find_if_append:
  "find_if p (xs @ ys) =
     (case find_if p xs of Some i \<Rightarrow> Some i | None \<Rightarrow> map_option (\<lambda>i. length xs + i) (find_if p ys))"
  by (induction xs; cases "find_if p ys") (auto split: option.splits)

lemma find_if_takeWhile:
  "find_if p xs = Some i \<Longrightarrow> take i xs = takeWhile (\<lambda>x. \<not> p x) xs"
  by (induction xs arbitrary: i) (auto split: if_splits)

lemma rfind_if_None: "rfind_if p xs = None \<longleftrightarrow> (\<forall>x\<in>set xs. \<not> p x)"
  by (simp add: rfind_if_def find_if_None)

lemma rfind_if_SomeD:
  assumes "rfind_if p xs = Some i"
  shows "i < length xs \<and> p (xs ! i) \<and> (\<forall>j. i < j \<and> j < length xs \<longrightarrow> \<not> p (xs ! j))"
proof -
  from assms obtain k where k: "find_if p (rev xs) = Some k" and i: "i = length xs - 1 - k"
    by (auto simp: rfind_if_def)
  from find_if_SomeD [OF k] have kl: "k < length xs" and pk: "p (rev xs ! k)"
    and none: "\<And>j. j < k \<Longrightarrow> \<not> p (rev xs ! j)" by auto
  have "\<not> p (xs ! j)" if "i < j" "j < length xs" for j
    using none [of "length xs - 1 - j"] that i kl by (simp add: rev_nth)
  with pk i kl show ?thesis by (simp add: rev_nth)
qed

lemma length_erase_nth [simp]: "i < length xs \<Longrightarrow> length (erase_nth i xs) = length xs - 1"
  by (simp add: erase_nth_def)

lemma erase_nth_append_Cons [simp]: "erase_nth (length ys) (ys @ x # zs) = ys @ zs"
  by (simp add: erase_nth_def)

lemma set_erase_nth_subset: "set (erase_nth i xs) \<subseteq> set xs"
  by (auto simp: erase_nth_def dest: in_set_takeD in_set_dropD)

lemma in_snd_image: "m \<in> snd ` A \<longleftrightarrow> (\<exists>a. (a, m) \<in> A)"
  by force

section \<open>Words read as natural numbers\<close>

lemma unat_drop_bit_div:
  fixes x :: "'a::len word"
  shows "unat (drop_bit n x) = unat x div 2 ^ n"
  unfolding unat_drop_bit_eq by (rule drop_bit_eq_div)

lemma unat_take_bit_mod:
  fixes x :: "'a::len word"
  shows "unat (take_bit n x) = unat x mod 2 ^ n"
  unfolding unsigned_take_bit_eq by (rule take_bit_eq_mod)

lemma unat_push_bit_small:
  fixes x :: "'a::len word"
  assumes "unat x * 2 ^ n < 2 ^ LENGTH('a)"
  shows "unat (push_bit n x) = unat x * 2 ^ n"
proof -
  have "unat (push_bit n x) = take_bit LENGTH('a) (push_bit n (unat x))"
    by (rule unsigned_push_bit_eq)
  also have "\<dots> = unat x * 2 ^ n"
    unfolding push_bit_eq_mult by (rule take_bit_nat_eq_self [OF assms])
  finally show ?thesis .
qed

section \<open>Decimal notation\<close>

text \<open>The decimal digits of a natural number, as \<open>std::to_string\<close> and the stream operators
  print them.\<close>

fun decimal :: "nat \<Rightarrow> string" where
  "decimal n = (if n < 10 then [] else decimal (n div 10)) @ [char_of (48 + n mod 10)]"

declare decimal.simps [simp del]

text \<open>The value of a digit string, digit by digit.\<close>

definition decimal_value :: "string \<Rightarrow> nat" where
  "decimal_value ds = foldl (\<lambda>v d. 10 * v + (of_char d - 48)) 0 ds"

lemma decimal_value_decimal [simp]: "decimal_value (decimal n) = n"
proof (induction n rule: decimal.induct)
  case (1 n)
  show ?case
  proof (cases "n < 10")
    case True
    then show ?thesis by (simp add: decimal.simps decimal_value_def)
  next
    case False
    with 1 show ?thesis by (subst decimal.simps) (simp add: decimal_value_def)
  qed
qed

lemma decimal_inject [simp]: "decimal m = decimal n \<longleftrightarrow> m = n"
  by (metis decimal_value_decimal)

section \<open>Ordered sets as lists\<close>

text \<open>\<open>std::set\<close>: a strictly sorted list, in iteration order. Insertion and removal report
  whether the set changed.\<close>

definition oset_insert :: "'a::linorder \<Rightarrow> 'a list \<Rightarrow> 'a list \<times> bool" where
  "oset_insert x xs = (if x \<in> set xs then (xs, False) else (insort x xs, True))"

definition oset_erase :: "'a::linorder \<Rightarrow> 'a list \<Rightarrow> 'a list \<times> bool" where
  "oset_erase x xs = (remove1 x xs, x \<in> set xs)"

definition oset :: "'a::linorder list \<Rightarrow> bool" where
  "oset xs \<longleftrightarrow> sorted xs \<and> distinct xs"

lemma oset_Nil [simp]: "oset []"
  by (simp add: oset_def)

lemma oset_insert_set [simp]: "set (fst (oset_insert x xs)) = insert x (set xs)"
  by (auto simp: oset_insert_def set_insort_key)

lemma oset_insert_snd [simp]: "snd (oset_insert x xs) \<longleftrightarrow> x \<notin> set xs"
  by (simp add: oset_insert_def)

lemma oset_insert_oset [simp, intro]: "oset xs \<Longrightarrow> oset (fst (oset_insert x xs))"
  by (simp add: oset_def oset_insert_def sorted_insort distinct_insort)

lemma oset_erase_set [simp]: "oset xs \<Longrightarrow> set (fst (oset_erase x xs)) = set xs - {x}"
  by (auto simp: oset_erase_def oset_def)

lemma oset_erase_snd [simp]: "snd (oset_erase x xs) \<longleftrightarrow> x \<in> set xs"
  by (simp add: oset_erase_def)

lemma oset_erase_oset [simp, intro]: "oset xs \<Longrightarrow> oset (fst (oset_erase x xs))"
  by (simp add: oset_erase_def oset_def sorted_remove1)

lemma oset_distinct [simp]: "oset xs \<Longrightarrow> distinct xs"
  by (simp add: oset_def)

lemma distinct_count_list: "distinct xs \<Longrightarrow> count_list xs a = (if a \<in> set xs then 1 else 0)"
  by (induction xs) auto

end
