(* ===== verification/Int512.thy ===== *)
theory Int512
  imports Prelude
begin

text \<open>
  The 512-bit integers of the factorisation program: \<open>boost::multiprecision::int512_t\<close>
  (cpp_int.hpp) is a sign and a 512-bit magnitude without overflow checks, without
  expression templates, with division that truncates towards zero and throws on a zero
  divisor. On top of it the greatest common divisor of boost/math/common_factor_rt.hpp.
\<close>

section \<open>Arithmetic\<close>

datatype mp_error = Division_by_zero

text \<open>\<open>normalize()\<close>: the magnitude loses the bits above the 512th, zero loses its sign.\<close>

definition normalize512 :: "int \<Rightarrow> int" where
  "normalize512 v = sgn v * (\<bar>v\<bar> mod 2 ^ 512)"

definition add512 :: "int \<Rightarrow> int \<Rightarrow> int" where
  "add512 a b = normalize512 (a + b)"

definition sub512 :: "int \<Rightarrow> int \<Rightarrow> int" where
  "sub512 a b = normalize512 (a - b)"

definition mul512 :: "int \<Rightarrow> int \<Rightarrow> int" where
  "mul512 a b = normalize512 (a * b)"

text \<open>Truncating quotient and remainder; the remainder has the sign of the dividend.\<close>

definition tquot :: "int \<Rightarrow> int \<Rightarrow> int" where
  "tquot a b = sgn a * sgn b * (\<bar>a\<bar> div \<bar>b\<bar>)"

definition trem :: "int \<Rightarrow> int \<Rightarrow> int" where
  "trem a b = sgn a * (\<bar>a\<bar> mod \<bar>b\<bar>)"

definition div512 :: "int \<Rightarrow> int \<Rightarrow> mp_error + int" where
  "div512 a b = (if b = 0 then Inl Division_by_zero else Inr (tquot a b))"

definition mod512 :: "int \<Rightarrow> int \<Rightarrow> mp_error + int" where
  "mod512 a b = (if b = 0 then Inl Division_by_zero else Inr (trem a b))"

text \<open>\<open>pow\<close> with an unsigned exponent, by repeated squaring in 512 bits.\<close>

function pow_loop :: "int \<Rightarrow> int \<Rightarrow> nat \<Rightarrow> int" where
  "pow_loop result x p2 =
     (if p2 div 2 = 0 then result
      else let x' = mul512 x x
           in pow_loop (if odd (p2 div 2) then mul512 result x' else result) x' (p2 div 2))"
  by pat_completeness auto
termination
  by (relation "measure (\<lambda>(r, x, p). p)") auto

declare pow_loop.simps [simp del]

definition pow512 :: "int \<Rightarrow> nat \<Rightarrow> int" where
  "pow512 t p = pow_loop (if odd p then t else 1) t p"

definition in512 :: "int \<Rightarrow> bool" where
  "in512 v \<longleftrightarrow> \<bar>v\<bar> < 2 ^ 512"

section \<open>Greatest common divisor\<close>

text \<open>\<open>gcd_euclidean\<close>: the loop alternates the two remainders.\<close>

function gcd_euclidean :: "int \<Rightarrow> int \<Rightarrow> int" where
  "gcd_euclidean a b =
     (if a = 0 then b
      else let b' = trem b a
           in if b' = 0 then a else gcd_euclidean (trem a b') b')"
  by pat_completeness auto
termination
proof (relation "measure (\<lambda>(a, b). nat \<bar>a\<bar>)")
  fix a b b' :: int
  assume "a \<noteq> 0" "b' = trem b a" "b' \<noteq> 0"
  then have "\<bar>b'\<bar> < \<bar>a\<bar>" by (simp add: trem_def abs_mult abs_sgn_eq)
  moreover from \<open>b' \<noteq> 0\<close> have "\<bar>trem a b'\<bar> < \<bar>b'\<bar>"
    by (simp add: trem_def abs_mult abs_sgn_eq)
  ultimately show "((trem a b', b'), a, b) \<in> measure (\<lambda>(a, b). nat \<bar>a\<bar>)" by simp
qed simp

declare gcd_euclidean.simps [simp del]

definition gcd_integer :: "int \<Rightarrow> int \<Rightarrow> int" where
  "gcd_integer a b = (let result = gcd_euclidean a b in if result < 0 then - result else result)"

section \<open>Lemmas\<close>

lemma normalize512_in512 [simp]: "in512 (normalize512 v)"
proof -
  have "\<bar>v\<bar> mod 2 ^ 512 < (2 ^ 512 :: int)" by (rule pos_mod_bound) simp
  moreover have "0 \<le> \<bar>v\<bar> mod (2 ^ 512 :: int)" by (rule pos_mod_sign) simp
  ultimately show ?thesis
    by (cases v "0 :: int" rule: linorder_cases) (simp_all add: in512_def normalize512_def)
qed

lemma normalize512_id: "in512 v \<Longrightarrow> normalize512 v = v"
  by (cases v "0 :: int" rule: linorder_cases)
    (simp_all add: in512_def normalize512_def mod_pos_pos_trivial)

lemma normalize512_nonneg: "0 \<le> v \<Longrightarrow> 0 \<le> normalize512 v"
  by (simp add: normalize512_def sgn_if)

lemma trem_nonneg: "0 \<le> a \<Longrightarrow> trem a b = a mod \<bar>b\<bar>"
  by (simp add: trem_def sgn_if)

lemma trem_bounds: "b \<noteq> 0 \<Longrightarrow> \<bar>trem a b\<bar> < \<bar>b\<bar>"
  by (simp add: trem_def abs_mult abs_sgn_eq)

lemma trem_0_iff: "trem a b = 0 \<longleftrightarrow> b dvd a"
  by (auto simp: trem_def sgn_if dvd_eq_mod_eq_0 [symmetric])

lemma gcd_trem: "gcd (trem a b) b = gcd a (b :: int)"
proof -
  have "gcd (trem a b) b = gcd (\<bar>a\<bar> mod \<bar>b\<bar>) \<bar>b\<bar>"
    by (simp add: trem_def sgn_if)
  also have "\<dots> = gcd \<bar>a\<bar> \<bar>b\<bar>"
    by (metis gcd.commute gcd_red_int)
  finally show ?thesis by simp
qed

lemma gcd_euclidean_abs: "\<bar>gcd_euclidean a b\<bar> = gcd a b"
proof (induction a b rule: gcd_euclidean.induct)
  case (1 a b)
  show ?case
  proof (cases "a = 0 \<or> trem b a = 0")
    case True
    then show ?thesis
      by (auto simp: gcd_euclidean.simps [of a b] trem_0_iff gcd_proj1_if_dvd)
  next
    case False
    with 1 have "\<bar>gcd_euclidean (trem a (trem b a)) (trem b a)\<bar> = gcd (trem a (trem b a)) (trem b a)"
      by simp
    also have "\<dots> = gcd a (trem b a)" by (rule gcd_trem)
    also have "\<dots> = gcd a b" by (metis gcd.commute gcd_trem)
    finally show ?thesis using False by (simp add: gcd_euclidean.simps [of a b] Let_def)
  qed
qed

lemma gcd_integer_gcd: "gcd_integer a b = gcd a b"
  using gcd_euclidean_abs [of a b] by (simp add: gcd_integer_def Let_def abs_if split: if_splits)

text \<open>The integer quotient \<open>1/4\<close> is 0, so a number to that power is 1.\<close>

lemma pow512_0 [simp]: "pow512 n 0 = 1"
  by (simp add: pow512_def pow_loop.simps)

end
