(* ===== verification/Miller_Rabin.thy ===== *)
theory Miller_Rabin
  imports Int512
begin

text \<open>
  The primality test behind \<open>is_probable_prime\<close> of vslab/src/main.cpp: the Miller-Rabin test
  of boost/multiprecision/miller_rabin.hpp with modular exponentiation from
  detail/integer_ops.hpp. The test's random bases are an argument \<open>dist\<close>, the \<open>i\<close>-th value
  drawn from \<open>uniform_int_distribution(2, n - 2)\<close>. Shown: every odd prime passes whatever
  the bases are, and up to 227 the test is exact on odd numbers.
\<close>

section \<open>Definitions\<close>

text \<open>\<open>eval_powm\<close> computes in twice the argument's precision, so no product wraps around.\<close>

function powm_loop :: "int \<Rightarrow> int \<Rightarrow> int \<Rightarrow> int \<Rightarrow> int" where
  "powm_loop x y b c =
     (if b > 0
      then powm_loop (if odd b then trem (x * y) c else x) (trem (y * y) c) (b div 2) c
      else x)"
  by pat_completeness auto
termination
  by (relation "measure (\<lambda>(x, y, b, c). nat b)") auto

declare powm_loop.simps [simp del]

definition powm :: "int \<Rightarrow> int \<Rightarrow> int \<Rightarrow> int" where
  "powm a p c = trem (powm_loop 1 a p c) c"

definition integer_modulus :: "int \<Rightarrow> int \<Rightarrow> int" where
  "integer_modulus x v = \<bar>trem x v\<bar>"

definition small_factor_groups :: "(int \<times> int list) list" where
  "small_factor_groups =
     [(223092870, [3, 5, 7, 11, 13, 17, 19, 23]),
      (2756205443, [29, 31, 37, 41, 43, 47]),
      (907383479, [53, 59, 61, 67, 71]),
      (4132280413, [73, 79, 83, 89, 97]),
      (121330189, [101, 103, 107, 109]),
      (113 * 127 * 131 * 137, [113, 127, 131, 137]),
      (139 * 149 * 151 * 157, [139, 149, 151, 157]),
      (163 * 167 * 173 * 179, [163, 167, 173, 179]),
      (181 * 191 * 193 * 197, [181, 191, 193, 197]),
      (199 * 211 * 223 * 227, [199, 211, 223, 227])]"

definition check_small_factors :: "int \<Rightarrow> bool" where
  "check_small_factors n =
     list_all (\<lambda>(pp, factors). let m1 = integer_modulus n pp in list_all (\<lambda>f. m1 mod f \<noteq> 0) factors)
       small_factor_groups"

definition small_primes :: "int list" where
  "small_primes =
     [3, 5, 7, 11, 13, 17, 19, 23, 29, 31,
      37, 41, 43, 47, 53, 59, 61, 67, 71, 73,
      79, 83, 89, 97, 101, 103, 107, 109, 113,
      127, 131, 137, 139, 149, 151, 157, 163,
      167, 173, 179, 181, 191, 193, 197, 199,
      211, 223, 227]"

definition is_small_prime :: "int \<Rightarrow> bool" where
  "is_small_prime n = list_ex (\<lambda>p. n = p) small_primes"

text \<open>\<open>lsb(q)\<close>: the position of the lowest set bit of a positive number.\<close>

function lsb :: "int \<Rightarrow> nat" where
  "lsb q = (if q \<le> 0 \<or> odd q then 0 else Suc (lsb (q div 2)))"
  by pat_completeness auto
termination
  by (relation "measure nat") auto

declare lsb.simps [simp del]

text \<open>
  The inner loop of one trial. The counter \<open>j\<close> starts at 0 and \<open>k\<close> is positive, so the
  test \<open>++j == k\<close> is met before \<open>j\<close> can pass \<open>k\<close>.
\<close>

function mr_inner :: "int \<Rightarrow> nat \<Rightarrow> nat \<Rightarrow> int \<Rightarrow> bool" where
  "mr_inner y j k n =
     (if y = n - 1 then True
      else if y = 1 then j = 0
      else if k \<le> Suc j then False
      else mr_inner (powm y 2 n) (Suc j) k n)"
  by pat_completeness auto
termination
  by (relation "measure (\<lambda>(y, j, k, n). k - j)") auto

declare mr_inner.simps [simp del]

fun mr_trials :: "(nat \<Rightarrow> int) \<Rightarrow> nat \<Rightarrow> nat \<Rightarrow> int \<Rightarrow> nat \<Rightarrow> int \<Rightarrow> bool" where
  "mr_trials dist i 0 q k n = True"
| "mr_trials dist i (Suc t) q k n =
     (if mr_inner (powm (dist i) q n) 0 k n then mr_trials dist (Suc i) t q k n else False)"

definition miller_rabin_test :: "int \<Rightarrow> nat \<Rightarrow> (nat \<Rightarrow> int) \<Rightarrow> bool" where
  "miller_rabin_test n trials dist =
     (if even n then False
      else if n \<le> 227 then is_small_prime n
      else if \<not> check_small_factors n then False
      else let nm1 = n - 1; x = powm 228 nm1 n
           in if x \<noteq> 1 then False
              else let k = lsb nm1 in mr_trials dist 0 trials (nm1 div 2 ^ k) k n)"

definition is_probable_prime :: "(nat \<Rightarrow> int) \<Rightarrow> int \<Rightarrow> bool" where
  "is_probable_prime dist value = miller_rabin_test value 25 dist"

section \<open>Modular exponentiation\<close>

lemma powm_loop_spec:
  "0 < c \<Longrightarrow> 0 \<le> x \<Longrightarrow> 0 \<le> y \<Longrightarrow> 0 \<le> b \<Longrightarrow> powm_loop x y b c mod c = x * y ^ nat b mod c \<and> 0 \<le> powm_loop x y b c"
proof (induction x y b c rule: powm_loop.induct)
  case (1 x y b c)
  show ?case
  proof (cases "b > 0")
    case False
    with 1 show ?thesis by (subst (1 2) powm_loop.simps) simp
  next
    case True
    let ?x = "if odd b then trem (x * y) c else x" and ?y = "trem (y * y) c"
    have t: "trem (x * y) c = x * y mod c" "?y = y * y mod c"
      using 1 by (simp_all add: trem_nonneg)
    have nn: "0 \<le> ?x" "0 \<le> ?y" using 1 t by auto
    have "nat b = 2 * nat (b div 2) + (if odd b then 1 else 0)"
      using True by (auto simp: nat_mult_distrib [symmetric] nat_add_distrib [symmetric] elim!: oddE evenE)
    then have "x * y ^ nat b = (if odd b then x * y else x) * (y * y) ^ nat (b div 2)"
      by (simp add: power_add power_mult power2_eq_square)
    also have "\<dots> mod c = ?x * ?y ^ nat (b div 2) mod c"
      unfolding t using power_mod [of "y * y" c "nat (b div 2)"]
      by (auto intro: mod_mult_cong)
    finally have eq: "x * y ^ nat b mod c = ?x * ?y ^ nat (b div 2) mod c" .
    from "1.IH" [OF True "1.prems"(1) nn] True have
      "powm_loop ?x ?y (b div 2) c mod c = ?x * ?y ^ nat (b div 2) mod c \<and> 0 \<le> powm_loop ?x ?y (b div 2) c"
      by simp
    with eq True show ?thesis by (simp add: powm_loop.simps [of x y b c])
  qed
qed

lemma powm_eq: "0 < c \<Longrightarrow> 0 \<le> a \<Longrightarrow> 0 \<le> p \<Longrightarrow> powm a p c = a ^ nat p mod c"
  using powm_loop_spec [of c 1 a p] by (simp add: powm_def trem_nonneg)

section \<open>Primes and Fermat's little theorem\<close>

definition is_prime :: "int \<Rightarrow> bool" where
  "is_prime p \<longleftrightarrow> 1 < p \<and> (\<forall>d>0. d dvd p \<longrightarrow> d = 1 \<or> d = p)"

lemma is_primeD: "is_prime p \<Longrightarrow> 0 < d \<Longrightarrow> d dvd p \<Longrightarrow> d = 1 \<or> d = p"
  by (simp add: is_prime_def)

lemma is_prime_gcd:
  assumes "is_prime p"
  shows "gcd a p = (if p dvd a then p else 1)"
proof (cases "p dvd a")
  case True
  with assms show ?thesis by (simp add: gcd_proj2_if_dvd is_prime_def)
next
  case False
  have "0 < gcd a p" using assms by (auto simp: is_prime_def)
  then have "gcd a p = 1 \<or> gcd a p = p" using assms by (auto simp: is_prime_def)
  with False show ?thesis by (metis gcd_dvd1)
qed

lemma is_prime_dvd_mult:
  assumes "is_prime p" and "p dvd a * b"
  shows "p dvd a \<or> p dvd b"
proof (cases "p dvd a")
  case False
  then have "coprime p a"
    using is_prime_gcd [OF assms(1), of a] by (simp add: coprime_iff_gcd_eq_1 gcd.commute)
  with assms(2) show ?thesis by (simp add: coprime_dvd_mult_right_iff)
qed simp

lemma prime_dvd_choose:
  assumes "is_prime (int p)" and "0 < k" and "k < p"
  shows "int p dvd int (p choose k)"
proof -
  have "k * (p choose k) = p * (p - 1 choose (k - 1))"
    using assms(2,3) binomial_absorption [of "k - 1" p] by simp
  then have "int p dvd int k * int (p choose k)"
    by (metis dvd_triv_left of_nat_mult)
  moreover have "\<not> int p dvd int k"
    using assms(2,3) by (auto dest: zdvd_imp_le)
  ultimately show ?thesis using is_prime_dvd_mult [OF assms(1)] by blast
qed

lemma fermat_succ:
  assumes "is_prime (int p)"
  shows "(a + 1) ^ p mod int p = (a ^ p + 1) mod int p"
proof -
  have p: "1 < p" using assms by (simp add: is_prime_def)
  let ?t = "\<lambda>k. int (p choose k) * a ^ k"
  have "(a + 1) ^ p = (\<Sum>k\<le>p. ?t k)"
    using binomial_ring [of a 1 p] by simp
  also have "{..p} = insert 0 (insert p {1..<p})" using p by auto
  also have "(\<Sum>k\<in>insert 0 (insert p {1..<p}). ?t k) = 1 + (a ^ p + (\<Sum>k\<in>{1..<p}. ?t k))"
    using p by simp
  finally have "(a + 1) ^ p = (a ^ p + 1) + (\<Sum>k\<in>{1..<p}. ?t k)" by simp
  moreover have "int p dvd (\<Sum>k\<in>{1..<p}. ?t k)"
    using assms by (intro dvd_sum dvd_mult2 prime_dvd_choose) auto
  ultimately show ?thesis by (metis dvd_eq_mod_eq_0 mod_add_right_eq add.right_neutral)
qed

lemma fermat_nat:
  assumes "is_prime (int p)"
  shows "int a ^ p mod int p = int a mod int p"
proof (induction a)
  case 0
  show ?case using assms by (auto simp: is_prime_def power_0_left)
next
  case (Suc a)
  have "int (Suc a) ^ p mod int p = (int a ^ p + 1) mod int p"
    using fermat_succ [OF assms, of "int a"] by (simp add: add.commute)
  also have "\<dots> = (int a + 1) mod int p" using Suc by (metis mod_add_left_eq)
  finally show ?case by (simp add: add.commute)
qed

lemma fermat_little:
  assumes "is_prime p" and "0 \<le> a" and "\<not> p dvd a"
  shows "a ^ nat (p - 1) mod p = 1"
proof -
  have p: "1 < p" using assms(1) by (simp add: is_prime_def)
  have "a ^ nat p mod p = a mod p"
    using fermat_nat [of "nat p" "nat a"] assms p by simp
  moreover have "a ^ nat p = a * a ^ nat (p - 1)"
    using p by (metis One_nat_def Suc_nat_eq_nat_zadd1 add.commute diff_add_cancel
        diff_ge_0_iff_ge less_imp_le power_Suc)
  ultimately have "p dvd a * a ^ nat (p - 1) - a" by (simp add: mod_eq_dvd_iff)
  then have "p dvd a * (a ^ nat (p - 1) - 1)" by (simp add: right_diff_distrib)
  with assms is_prime_dvd_mult have "p dvd a ^ nat (p - 1) - 1" by blast
  then have "a ^ nat (p - 1) mod p = 1 mod p" by (simp add: mod_eq_dvd_iff)
  with p show ?thesis by simp
qed

lemma sqrt_of_one:
  assumes "is_prime p" and "0 \<le> y" and "y < p" and "y * y mod p = 1"
  shows "y = 1 \<or> y = p - 1"
proof -
  have p: "1 < p" using assms(1) by (simp add: is_prime_def)
  with assms(4) have "p dvd y * y - 1" by (metis mod_eq_dvd_iff mod_pos_pos_trivial zero_le_one)
  then have "p dvd (y - 1) * (y + 1)" by (simp add: algebra_simps)
  with assms(1) consider "p dvd y - 1" | "p dvd y + 1" using is_prime_dvd_mult by blast
  then show ?thesis
  proof cases
    case 1
    have "0 < y" using assms(2,4) by (cases "y = 0") auto
    with 1 assms(3) have "y - 1 = 0" using zdvd_not_zless [of "y - 1" p] by fastforce
    then show ?thesis by simp
  next
    case 2
    with assms p have "p \<le> y + 1" by (intro zdvd_imp_le) auto
    with assms show ?thesis by simp
  qed
qed

section \<open>Completeness\<close>

lemma lsb_decompose: "0 < q \<Longrightarrow> q = q div 2 ^ lsb q * 2 ^ lsb q"
proof (induction q rule: lsb.induct)
  case (1 q)
  show ?case
  proof (cases "odd q")
    case True
    then show ?thesis by (simp add: lsb.simps [of q])
  next
    case False
    with 1 have "q div 2 = q div 2 div 2 ^ lsb (q div 2) * 2 ^ lsb (q div 2)" by auto
    then have "2 * (q div 2) = q div 2 div 2 ^ lsb (q div 2) * (2 * 2 ^ lsb (q div 2))" by simp
    with False "1.prems" show ?thesis by (simp add: lsb.simps [of q] zdiv_zmult2_eq)
  qed
qed

lemma lsb_pos: "0 < q \<Longrightarrow> even q \<Longrightarrow> 0 < lsb q"
  by (simp add: lsb.simps)

lemma mr_inner_prime:
  assumes "is_prime n" "0 \<le> y" "y < n" "y ^ (2 ^ (k - j)) mod n = 1" "j < k" "0 < j \<Longrightarrow> y \<noteq> 1"
  shows "mr_inner y j k n"
  using assms
proof (induction y j k n rule: mr_inner.induct)
  case (1 y j k n)
  have n: "1 < n" using "1.prems" by (simp add: is_prime_def)
  show ?case
  proof (cases "y = n - 1 \<or> y = 1")
    case True
    with "1.prems" show ?thesis by (auto simp: mr_inner.simps [of y j k n])
  next
    case False
    then have ne: "y * y mod n \<noteq> 1" using sqrt_of_one [of n y] "1.prems" by blast
    have y2: "powm y 2 n = y * y mod n"
      using n "1.prems" by (simp add: powm_eq power2_eq_square)
    have "y ^ (2 ^ (k - j)) = (y * y) ^ (2 ^ (k - Suc j))"
      using "1.prems" by (simp add: power_mult [symmetric] power2_eq_square [symmetric]
          power_Suc [symmetric] Suc_diff_Suc del: power_Suc)
    then have rest: "(y * y mod n) ^ (2 ^ (k - Suc j)) mod n = 1"
      using "1.prems" by (simp add: power_mod)
    with ne have "Suc j < k" using n "1.prems" by (cases "k = Suc j") auto
    with False "1.IH" [of] "1.prems" rest ne n y2 show ?thesis
      by (simp add: mr_inner.simps [of y j k n])
  qed
qed

lemma mr_trials_prime:
  assumes "is_prime n" and "\<And>i. 2 \<le> bases i \<and> bases i \<le> n - 2" and "n - 1 = q * 2 ^ k"
    and "0 < k" and "0 \<le> q"
  shows "mr_trials bases i t q k n"
proof (induction t arbitrary: i)
  case (Suc t)
  let ?a = "bases i"
  have a: "0 < ?a" "?a < n" using assms(2) [of i] by auto
  have "\<not> n dvd ?a" using a by (auto dest: zdvd_imp_le)
  then have "?a ^ nat (n - 1) mod n = 1" using assms(1) a by (intro fermat_little) auto
  also have "nat (n - 1) = nat q * 2 ^ k" using assms(3,5) by (simp add: nat_mult_distrib nat_power_eq)
  finally have one: "(?a ^ nat q mod n) ^ (2 ^ k) mod n = 1"
    by (simp add: power_mult power_mod)
  have "mr_inner (powm ?a q n) 0 k n"
    using assms a one by (intro mr_inner_prime) (auto simp: powm_eq is_prime_def)
  with Suc show ?case by simp
qed simp

lemma check_small_factors_prime: "is_prime n \<Longrightarrow> 227 < n \<Longrightarrow> check_small_factors n"
proof -
  assume n: "is_prime n" "227 < n"
  have groups: "\<forall>(pp, fs)\<in>set small_factor_groups. 0 < pp \<and> (\<forall>f\<in>set fs. f dvd pp \<and> 1 < f \<and> f \<le> 227)"
    by (simp add: small_factor_groups_def)
  have "integer_modulus n pp mod f \<noteq> 0" if "0 < pp" "f dvd pp" "1 < f" "f \<le> 227" for pp f
  proof -
    have "integer_modulus n pp mod f = n mod f"
      using that n by (simp add: integer_modulus_def trem_nonneg mod_mod_cancel)
    moreover have "\<not> f dvd n" using is_primeD [OF n(1), of f] that n(2) by auto
    ultimately show ?thesis by (simp add: dvd_eq_mod_eq_0)
  qed
  with groups show ?thesis by (fastforce simp: check_small_factors_def list_all_iff Let_def)
qed

text \<open>Up to 227 the table holds exactly the odd primes.\<close>

definition no_small_divisor :: "int \<Rightarrow> bool" where
  "no_small_divisor n \<longleftrightarrow> (\<forall>d\<in>set [2..15]. d dvd n \<longrightarrow> d = n)"

lemma no_small_divisorD: "no_small_divisor n \<Longrightarrow> 2 \<le> d \<Longrightarrow> d \<le> 15 \<Longrightarrow> d dvd n \<Longrightarrow> d = n"
  unfolding no_small_divisor_def set_upto by simp

lemma small_table: "\<forall>n\<in>set [2..227]. is_small_prime n \<longleftrightarrow> odd n \<and> no_small_divisor n"
  by code_simp

lemma small_tableD: "2 \<le> n \<Longrightarrow> n \<le> 227 \<Longrightarrow> is_small_prime n \<longleftrightarrow> odd n \<and> no_small_divisor n"
  by (rule bspec [OF small_table [unfolded set_upto]]) simp

lemma prime_small_iff:
  assumes "2 \<le> n" "n \<le> 227"
  shows "is_prime n \<longleftrightarrow> no_small_divisor n"
proof
  assume "is_prime n"
  then have "d = n" if "2 \<le> d" "d dvd n" for d using is_primeD [of n d] that by auto
  then show "no_small_divisor n"
    unfolding no_small_divisor_def set_upto by simp
next
  assume small: "no_small_divisor n"
  have "d = 1 \<or> d = n" if d: "0 < d" "d dvd n" for d
  proof (rule ccontr)
    assume ne: "\<not> (d = 1 \<or> d = n)"
    from d obtain e where e: "n = d * e" by (auto elim: dvdE)
    have "0 < d * e" using e assms by simp
    with d have "0 < e" by (simp add: zero_less_mult_iff)
    have "d \<le> 15 \<or> e \<le> 15"
    proof (rule ccontr)
      assume "\<not> ?thesis"
      then have "16 * 16 \<le> d * e" by (intro mult_mono) auto
      with e assms show False by simp
    qed
    moreover have "e \<noteq> 1" "e \<noteq> n" using ne e \<open>0 < e\<close> assms by auto
    ultimately show False
      using no_small_divisorD [OF small, of d] no_small_divisorD [OF small, of e] ne d e \<open>0 < e\<close>
      by auto
  qed
  with assms show "is_prime n" by (auto simp: is_prime_def)
qed

lemma miller_rabin_small:
  assumes "2 \<le> n" "n \<le> 227"
  shows "miller_rabin_test n trials bases \<longleftrightarrow> odd n \<and> is_prime n"
  using assms by (simp add: miller_rabin_test_def small_tableD prime_small_iff)

lemma miller_rabin_prime:
  assumes "is_prime n" and "odd n" and "\<And>i. 2 \<le> bases i \<and> bases i \<le> n - 2"
  shows "miller_rabin_test n trials bases"
proof (cases "n \<le> 227")
  case True
  with assms show ?thesis by (simp add: miller_rabin_small is_prime_def)
next
  case False
  let ?k = "lsb (n - 1)"
  have k: "0 < ?k" and d: "n - 1 = (n - 1) div 2 ^ ?k * 2 ^ ?k"
    using False assms(2) by (auto intro: lsb_pos lsb_decompose)
  have "n \<noteq> 228" using assms(2) by auto
  then have "\<not> n dvd 228" using False zdvd_imp_le [of n 228] by auto
  then have "powm 228 (n - 1) n = 1"
    using False assms(1) by (simp add: powm_eq fermat_little)
  moreover have "mr_trials bases 0 trials ((n - 1) div 2 ^ ?k) ?k n"
    using mr_trials_prime [OF assms(1,3) d k] False by (simp add: pos_imp_zdiv_nonneg_iff)
  ultimately show ?thesis
    using False assms by (simp add: miller_rabin_test_def check_small_factors_prime Let_def)
qed

section \<open>Properties\<close>

text \<open>
  C40. No odd prime is rejected: whatever bases the random generator draws from
  \<open>[2, n - 2]\<close>, \<open>is_probable_prime\<close> accepts every odd prime \<open>n\<close>.
\<close>

theorem is_probable_prime_complete:
  assumes "is_prime n" and "odd n" and "\<And>i. 2 \<le> bases i \<and> bases i \<le> n - 2"
  shows "is_probable_prime bases n"
  unfolding is_probable_prime_def using assms by (rule miller_rabin_prime)

theorem is_probable_prime_complete_witness: "is_probable_prime (\<lambda>i. 2 + int i mod 5) 13"
proof (rule is_probable_prime_complete)
  show "is_prime 13" by (subst prime_small_iff) (simp, simp, code_simp)
  show "odd (13::int)" by simp
  show "2 \<le> 2 + int i mod 5 \<and> 2 + int i mod 5 \<le> 13 - 2" for i
    using pos_mod_bound [of 5 "int i"] by simp
qed

text \<open>
  Up to 227 the test needs no random base and is exact on odd numbers; on even numbers
  it answers no, so that the prime 2 is rejected.
\<close>

theorem is_probable_prime_small:
  assumes "2 \<le> n" and "n \<le> 227"
  shows "is_probable_prime bases n \<longleftrightarrow> is_prime n \<and> n \<noteq> 2"
proof -
  have "is_probable_prime bases n \<longleftrightarrow> odd n \<and> is_prime n"
    unfolding is_probable_prime_def using assms by (rule miller_rabin_small)
  moreover have "even n \<longleftrightarrow> n = 2" if "is_prime n"
    using is_primeD [OF that, of 2] by auto
  ultimately show ?thesis by blast
qed

theorem is_probable_prime_small_witness:
  "is_probable_prime (\<lambda>_. 2) 2 \<longleftrightarrow> is_prime 2 \<and> (2::int) \<noteq> 2"
  by (rule is_probable_prime_small) simp_all

end
