(* ===== verification/Vslab_Worker.thy ===== *)
theory Vslab_Worker
  imports Miller_Rabin "HOL-Library.Multiset"
begin

text \<open>
  The worker actor of the factorisation program (\<open>worker\<close> in vslab/src/main.cpp): Pollard's
  rho method, cut into slices of \<open>MAX_ITERATIONS\<close> that the worker requests from itself by
  message, with a state number that invalidates the slices of an abandoned computation.
  The values of the random generator, the clock and the bases of the primality test are
  inputs of each handler.
\<close>

section \<open>Messages\<close>

text \<open>
  The messages of the program, one constructor per leading atom, with the argument types its
  handlers match. Integers are \<open>int512_t\<close>, processor times \<open>std::clock_t\<close>.
\<close>

datatype vs_msg =
    Calculate int                    \<comment> \<open>n\<close>
  | Continue int int int int int     \<comment> \<open>n, a, cycles, cpu_time, state\<close>
  | Factor int int int               \<comment> \<open>p, cycles, cpu_time\<close>
  | Nofactor int                     \<comment> \<open>cpu_time\<close>
  | Ping
  | Pong
  | SWorkers
  | KWorkers
  | Suicide
  | Quit
  | Result

datatype vs_dest = To_self | To_server | To_workers

section \<open>Definitions\<close>

definition MAX_ITERATIONS :: nat where
  "MAX_ITERATIONS = 1000"

text \<open>What a handler reads from outside: one value of \<open>random_gen\<close>, the processor clock, and
  the bases the primality test would draw.\<close>

record worker_env =
  draw :: int
  clock :: int
  bases :: "nat \<Rightarrow> int"

record worker =
  state_id :: int

datatype slice_result =
    Slice_factor int nat   \<comment> \<open>a factor, reported in iteration i\<close>
  | Slice_retry nat        \<comment> \<open>the trivial factor n in iteration i\<close>
  | Slice_nofactor
  | Slice_exhausted

text \<open>\<open>(x * x + a) % n\<close> in 512-bit arithmetic.\<close>

definition rho_fun :: "int \<Rightarrow> int \<Rightarrow> int \<Rightarrow> mp_error + int" where
  "rho_fun a n x = mod512 (add512 (mul512 x x) a) n"

definition rho_diff :: "int \<Rightarrow> int \<Rightarrow> int \<Rightarrow> mp_error + int" where
  "rho_diff n x y = (if sub512 y x > 0 then mod512 (sub512 y x) n else mod512 (- sub512 y x) n)"

text \<open>The computation loop; the first argument counts the remaining iterations.\<close>

fun rho_slice :: "(nat \<Rightarrow> int) \<Rightarrow> nat \<Rightarrow> nat \<Rightarrow> int \<Rightarrow> int \<Rightarrow> int \<Rightarrow> int \<Rightarrow> int \<Rightarrow> int
    \<Rightarrow> mp_error + slice_result" where
  "rho_slice bs 0 i x y a n cycles limit = Inr Slice_exhausted"
| "rho_slice bs (Suc r) i x y a n cycles limit =
     (case rho_fun a n x of Inl e \<Rightarrow> Inl e | Inr x' \<Rightarrow>
      case rho_fun a n y of Inl e \<Rightarrow> Inl e | Inr y' \<Rightarrow>
      case rho_fun a n y' of Inl e \<Rightarrow> Inl e | Inr y'' \<Rightarrow>
      case rho_diff n x' y'' of Inl e \<Rightarrow> Inl e | Inr d \<Rightarrow>
      (let p = gcd_integer d n
       in if p \<noteq> 1
          then if p \<noteq> n \<or> is_probable_prime bs p then Inr (Slice_factor p i) else Inr (Slice_retry i)
          else if cycles > limit then Inr Slice_nofactor
          else rho_slice bs r (Suc i) x' y'' a n cycles limit))"

text \<open>The handler of \<open>calculate\<close>: a new polynomial, a new state number.\<close>

definition worker_calculate ::
  "worker_env \<Rightarrow> worker \<Rightarrow> int \<Rightarrow> mp_error + worker \<times> (vs_dest \<times> vs_msg) list" where
  "worker_calculate env w n =
     (case mod512 (draw env) n of Inl e \<Rightarrow> Inl e | Inr r \<Rightarrow>
       let a = add512 r 1; cycles = 0; cpu_time = clock env
       in Inr (w\<lparr>state_id := add512 (state_id w) 1\<rparr>,
               [(To_self, Continue n a cycles cpu_time (add512 (state_id w) 1))]))"

text \<open>The handler of \<open>continue\<close>: one slice, then a report or a message to itself. The
  exponent of \<open>limit\<close> is the integer quotient \<open>1/4\<close>.\<close>

definition worker_continue ::
  "worker_env \<Rightarrow> worker \<Rightarrow> int \<Rightarrow> int \<Rightarrow> int \<Rightarrow> int \<Rightarrow> int \<Rightarrow> mp_error + worker \<times> (vs_dest \<times> vs_msg) list" where
  "worker_continue env w n a cycles cpu_time state =
     (if state \<noteq> state_id w then Inr (w, [])
      else case mod512 (draw env) n of Inl e \<Rightarrow> Inl e | Inr r \<Rightarrow>
        (let x0 = add512 r 1; x = (if x0 = 0 then add512 x0 1 else x0); y = x; limit = pow512 n (1 div 4)
         in case rho_slice (bases env) MAX_ITERATIONS 0 x y a n cycles limit of
              Inl e \<Rightarrow> Inl e
            | Inr (Slice_factor p i) \<Rightarrow> Inr (w, [(To_server, Factor p (add512 cycles (int i)) cpu_time)])
            | Inr (Slice_retry i) \<Rightarrow> Inr (w, [(To_self, Continue n a (add512 cycles (int i)) cpu_time state)])
            | Inr Slice_nofactor \<Rightarrow> Inr (w, [(To_server, Nofactor cpu_time), (To_self, Calculate n)])
            | Inr Slice_exhausted \<Rightarrow>
                Inr (w, [(To_self, Continue n a (add512 cycles (int MAX_ITERATIONS)) cpu_time state)])))"

text \<open>The worker's behavior: \<open>None\<close> for a message no handler matches.\<close>

definition worker_handle ::
  "worker_env \<Rightarrow> worker \<Rightarrow> vs_msg \<Rightarrow> (mp_error + worker \<times> (vs_dest \<times> vs_msg) list) option" where
  "worker_handle env w m = (case m of
      Calculate n \<Rightarrow> Some (worker_calculate env w n)
    | Continue n a cycles cpu_time state \<Rightarrow> Some (worker_continue env w n a cycles cpu_time state)
    | _ \<Rightarrow> None)"

section \<open>A slice reports only true divisors\<close>

lemma rho_fun_defined: "n \<noteq> 0 \<Longrightarrow> \<exists>z. rho_fun a n x = Inr z"
  by (simp add: rho_fun_def mod512_def)

lemma rho_diff_defined: "n \<noteq> 0 \<Longrightarrow> \<exists>z. rho_diff n x y = Inr z"
  by (simp add: rho_diff_def mod512_def)

text \<open>
  One unfolding of the loop for a non-zero modulus: what iteration \<open>i\<close> decides from the
  divisor \<open>p\<close> it found, if anything.
\<close>

definition slice_verdict :: "(nat \<Rightarrow> int) \<Rightarrow> nat \<Rightarrow> int \<Rightarrow> int \<Rightarrow> int \<Rightarrow> int \<Rightarrow> slice_result option" where
  "slice_verdict bs i p n cycles limit =
     (if p \<noteq> 1
      then Some (if p \<noteq> n \<or> is_probable_prime bs p then Slice_factor p i else Slice_retry i)
      else if cycles > limit then Some Slice_nofactor else None)"

lemma rho_slice_step:
  assumes "n \<noteq> 0"
  obtains x' y' y'' d where "rho_fun a n x = Inr x'" "rho_fun a n y = Inr y'" "rho_fun a n y' = Inr y''"
    "rho_diff n x' y'' = Inr d"
    "rho_slice bs (Suc r) i x y a n cycles limit =
      (case slice_verdict bs i (gcd d n) n cycles limit of
         Some v \<Rightarrow> Inr v | None \<Rightarrow> rho_slice bs r (Suc i) x' y'' a n cycles limit)"
proof -
  from assms obtain x' y' where 1: "rho_fun a n x = Inr x'" "rho_fun a n y = Inr y'"
    using rho_fun_defined by blast
  from assms obtain y'' where 2: "rho_fun a n y' = Inr y''" using rho_fun_defined by blast
  from assms obtain d where 3: "rho_diff n x' y'' = Inr d" using rho_diff_defined by blast
  from 1 2 3 show thesis
    by (intro that [OF 1 2 3]) (simp add: gcd_integer_gcd slice_verdict_def Let_def)
qed

lemma slice_verdict_factor:
  assumes "slice_verdict bs i (gcd d n) n cycles limit = Some (Slice_factor p j)" and "0 < n"
  shows "p dvd n \<and> 1 < p \<and> (p = n \<longrightarrow> is_probable_prime bs n) \<and> j = i"
proof -
  from assms(1) have "p = gcd d n" "p \<noteq> 1" "p \<noteq> n \<or> is_probable_prime bs p" "j = i"
    by (auto simp: slice_verdict_def split: if_splits)
  moreover from this assms(2) have "0 < p" "p dvd n" by simp_all
  moreover from this \<open>p \<noteq> 1\<close> have "1 < p" by linarith
  ultimately show ?thesis by blast
qed

lemma rho_slice_factor:
  assumes "0 < n" and "rho_slice bs r i x y a n cycles limit = Inr (Slice_factor p j)"
  shows "p dvd n \<and> 1 < p \<and> (p = n \<longrightarrow> is_probable_prime bs n) \<and> i \<le> j \<and> j < i + r"
  using assms(2)
proof (induction r arbitrary: i x y)
  case 0
  then show ?case by simp
next
  case (Suc r)
  have "n \<noteq> 0" using assms(1) by simp
  then obtain x' y'' d where step: "rho_slice bs (Suc r) i x y a n cycles limit =
      (case slice_verdict bs i (gcd d n) n cycles limit of
         Some v \<Rightarrow> Inr v | None \<Rightarrow> rho_slice bs r (Suc i) x' y'' a n cycles limit)"
    by (rule rho_slice_step)
  show ?case
  proof (cases "slice_verdict bs i (gcd d n) n cycles limit")
    case None
    with Suc.prems step Suc.IH [of "Suc i" x' y''] show ?thesis by auto
  next
    case (Some v)
    with Suc.prems step slice_verdict_factor [OF _ assms(1)] show ?thesis by fastforce
  qed
qed

lemma rho_slice_defined: "n \<noteq> 0 \<Longrightarrow> \<exists>res. rho_slice bs r i x y a n cycles limit = Inr res"
proof (induction r arbitrary: i x y)
  case (Suc r)
  from Suc.prems obtain x' y'' d where "rho_slice bs (Suc r) i x y a n cycles limit =
      (case slice_verdict bs i (gcd d n) n cycles limit of
         Some v \<Rightarrow> Inr v | None \<Rightarrow> rho_slice bs r (Suc i) x' y'' a n cycles limit)"
    by (rule rho_slice_step)
  with Suc show ?case by (auto split: option.split)
qed simp

section \<open>Without overflow a slice is Floyd's cycle search\<close>

definition rho_poly :: "int \<Rightarrow> int \<Rightarrow> int \<Rightarrow> int" where
  "rho_poly a n z = (z * z + a) mod n"

text \<open>The divisor iteration \<open>j\<close> looks at: tortoise after \<open>j + 1\<close>, hare after \<open>2 (j + 1)\<close> steps.\<close>

definition floyd_gcd :: "int \<Rightarrow> int \<Rightarrow> int \<Rightarrow> nat \<Rightarrow> int" where
  "floyd_gcd a n x0 j = gcd ((rho_poly a n ^^ (2 * Suc j)) x0 - (rho_poly a n ^^ Suc j) x0) n"

definition no_overflow :: "int \<Rightarrow> bool" where
  "no_overflow n \<longleftrightarrow> 0 < n \<and> n * n + n < 2 ^ 512"

lemma rho_fun_exact:
  assumes "no_overflow n" "0 \<le> a" "a \<le> n" "0 \<le> x" "x \<le> n"
  shows "rho_fun a n x = Inr (rho_poly a n x)"
proof -
  have "x * x \<le> n * n" using assms by (intro mult_mono) auto
  with assms have b: "x * x + a < 2 ^ 512" "0 \<le> x * x" by (auto simp: no_overflow_def)
  with assms(2) have "in512 (x * x)" "in512 (x * x + a)" unfolding in512_def by linarith+
  with assms b show ?thesis
    by (simp add: rho_fun_def mul512_def add512_def normalize512_id mod512_def trem_nonneg
        rho_poly_def no_overflow_def)
qed

lemma rho_poly_range: "no_overflow n \<Longrightarrow> 0 \<le> rho_poly a n x \<and> rho_poly a n x < n"
  by (simp add: rho_poly_def no_overflow_def)

lemma no_overflow_less: "no_overflow n \<Longrightarrow> n < 2 ^ 512"
proof -
  assume "no_overflow n"
  moreover have "0 \<le> n * n" by simp
  ultimately show ?thesis unfolding no_overflow_def by linarith
qed

lemma rho_diff_exact:
  assumes "no_overflow n" "0 \<le> x" "x < n" "0 \<le> y" "y < n"
  shows "rho_diff n x y = Inr \<bar>y - x\<bar>"
proof -
  have "\<bar>y - x\<bar> < n" "0 < n" using assms by (auto simp: no_overflow_def)
  moreover have "n < 2 ^ 512" using assms(1) by (rule no_overflow_less)
  ultimately have "in512 (y - x)" unfolding in512_def by linarith
  with assms show ?thesis
    by (auto simp: rho_diff_def sub512_def normalize512_id mod512_def trem_nonneg no_overflow_def)
qed

lemma iterate_range:
  assumes "no_overflow n" "0 \<le> x0" "x0 \<le> n"
  shows "0 \<le> (rho_poly a n ^^ k) x0 \<and> (rho_poly a n ^^ k) x0 \<le> n"
  using assms rho_poly_range [OF assms(1)] by (cases k) (auto intro: less_imp_le)

lemma rho_slice_floyd:
  assumes "no_overflow n" "0 \<le> a" "a \<le> n" "0 \<le> x0" "x0 \<le> n" "cycles \<le> limit"
  shows "rho_slice bs r i ((rho_poly a n ^^ i) x0) ((rho_poly a n ^^ (2 * i)) x0) a n cycles limit =
    Inr (case List.find (\<lambda>j. floyd_gcd a n x0 j \<noteq> 1) [i..<i + r] of
           None \<Rightarrow> Slice_exhausted
         | Some j \<Rightarrow> the (slice_verdict bs j (floyd_gcd a n x0 j) n cycles limit))"
proof (induction r arbitrary: i)
  case 0
  show ?case by simp
next
  case (Suc r)
  let ?f = "rho_poly a n"
  have f: "rho_fun a n ((?f ^^ k) x0) = Inr ((?f ^^ Suc k) x0)" for k
    using rho_fun_exact [OF assms(1-3)] iterate_range [OF assms(1,4,5)] by simp
  have x: "rho_fun a n ((?f ^^ i) x0) = Inr ((?f ^^ Suc i) x0)"
    and y: "rho_fun a n ((?f ^^ (2 * i)) x0) = Inr ((?f ^^ Suc (2 * i)) x0)"
      "rho_fun a n ((?f ^^ Suc (2 * i)) x0) = Inr ((?f ^^ (2 * Suc i)) x0)"
    using f [of i] f [of "2 * i"] f [of "Suc (2 * i)"] by (simp_all del: funpow.simps)
  have r: "0 \<le> (?f ^^ Suc k) x0" "(?f ^^ Suc k) x0 < n" for k
    using rho_poly_range [OF assms(1)] by simp_all
  have d: "rho_diff n ((?f ^^ Suc i) x0) ((?f ^^ (2 * Suc i)) x0) =
      Inr \<bar>(?f ^^ (2 * Suc i)) x0 - (?f ^^ Suc i) x0\<bar>"
    using r [of i] r [of "Suc (2 * i)"] by (intro rho_diff_exact [OF assms(1)]) simp_all
  have "rho_slice bs (Suc r) i ((?f ^^ i) x0) ((?f ^^ (2 * i)) x0) a n cycles limit =
      (case slice_verdict bs i (floyd_gcd a n x0 i) n cycles limit of
         Some v \<Rightarrow> Inr v
       | None \<Rightarrow> rho_slice bs r (Suc i) ((?f ^^ Suc i) x0) ((?f ^^ (2 * Suc i)) x0) a n cycles limit)"
    using x y d by (simp add: gcd_integer_gcd slice_verdict_def Let_def floyd_gcd_def
        del: funpow.simps mult_Suc_right)
  then show ?case
    unfolding Suc.IH [of "Suc i"] using assms(6)
    by (simp add: upt_conv_Cons slice_verdict_def del: upt_Suc)
qed

section \<open>The handlers\<close>

text \<open>What the code relies on of the random engine: its values are 512-bit magnitudes.\<close>

definition rng_ok :: "worker_env \<Rightarrow> bool" where
  "rng_ok env \<longleftrightarrow> 0 \<le> draw env \<and> draw env < 2 ^ 512"

lemma start_value:
  assumes "0 < n" "n < 2 ^ 512" "rng_ok env"
  shows "mod512 (draw env) n = Inr (draw env mod n)"
    and "add512 (draw env mod n) 1 = draw env mod n + 1"
    and "1 \<le> draw env mod n + 1 \<and> draw env mod n + 1 \<le> n"
proof -
  have r: "0 \<le> draw env mod n" "draw env mod n < n" using assms(1) by simp_all
  then show "1 \<le> draw env mod n + 1 \<and> draw env mod n + 1 \<le> n" by simp
  from r assms(2) have "in512 (draw env mod n + 1)" unfolding in512_def by linarith
  then show "add512 (draw env mod n) 1 = draw env mod n + 1"
    by (simp add: add512_def normalize512_id)
  from assms show "mod512 (draw env) n = Inr (draw env mod n)"
    by (simp add: mod512_def trem_nonneg rng_ok_def)
qed

text \<open>The five ways a slice handler ends on a live continuation with a non-zero modulus.\<close>

lemma worker_continue_cases:
  assumes "n \<noteq> 0" and "state = state_id w"
  obtains (factor) p i x where
      "rho_slice (bases env) MAX_ITERATIONS 0 x x a n cycles 1 = Inr (Slice_factor p i)"
      "worker_continue env w n a cycles t state = Inr (w, [(To_server, Factor p (add512 cycles (int i)) t)])"
  | (retry) i x where
      "rho_slice (bases env) MAX_ITERATIONS 0 x x a n cycles 1 = Inr (Slice_retry i)"
      "worker_continue env w n a cycles t state = Inr (w, [(To_self, Continue n a (add512 cycles (int i)) t state)])"
  | (nofactor) x where
      "rho_slice (bases env) MAX_ITERATIONS 0 x x a n cycles 1 = Inr Slice_nofactor"
      "worker_continue env w n a cycles t state = Inr (w, [(To_server, Nofactor t), (To_self, Calculate n)])"
  | (exhausted) x where
      "rho_slice (bases env) MAX_ITERATIONS 0 x x a n cycles 1 = Inr Slice_exhausted"
      "worker_continue env w n a cycles t state =
         Inr (w, [(To_self, Continue n a (add512 cycles (int MAX_ITERATIONS)) t state)])"
proof -
  obtain r where r: "mod512 (draw env) n = Inr r" using assms(1) by (simp add: mod512_def)
  define x where "x = (if add512 r 1 = 0 then add512 (add512 r 1) 1 else add512 r 1)"
  obtain res where res: "rho_slice (bases env) MAX_ITERATIONS 0 x x a n cycles 1 = Inr res"
    using rho_slice_defined [OF assms(1)] by blast
  note def = worker_continue_def Let_def x_def [symmetric] r assms(2)
  show thesis
  proof (cases res)
    case (Slice_factor p i)
    note slice = res [unfolded Slice_factor]
    then show thesis by (rule factor) (simp add: def slice)
  next
    case (Slice_retry i)
    note slice = res [unfolded Slice_retry]
    then show thesis by (rule retry) (simp add: def slice)
  next
    case Slice_nofactor
    note slice = res [unfolded Slice_nofactor]
    then show thesis by (rule nofactor) (simp add: def slice)
  next
    case Slice_exhausted
    note slice = res [unfolded Slice_exhausted]
    then show thesis by (rule exhausted) (simp add: def slice)
  qed
qed

text \<open>Once the cycle count exceeds the limit, the first iteration without a divisor ends the slice.\<close>

lemma rho_slice_over_limit:
  assumes "n \<noteq> 0" and "cycles > limit"
  shows "(\<exists>p. rho_slice bs (Suc r) i x y a n cycles limit = Inr (Slice_factor p i))
    \<or> rho_slice bs (Suc r) i x y a n cycles limit = Inr (Slice_retry i)
    \<or> rho_slice bs (Suc r) i x y a n cycles limit = Inr Slice_nofactor"
proof -
  from assms(1) obtain x' y'' d where "rho_slice bs (Suc r) i x y a n cycles limit =
      (case slice_verdict bs i (gcd d n) n cycles limit of
         Some v \<Rightarrow> Inr v | None \<Rightarrow> rho_slice bs r (Suc i) x' y'' a n cycles limit)"
    by (rule rho_slice_step)
  with assms(2) show ?thesis by (auto simp: slice_verdict_def)
qed

lemma rho_slice_no_factor_1: "rho_slice bs r i x y a 1 cycles limit \<noteq> Inr (Slice_factor p j)"
  using rho_slice_factor [of 1 bs r i x y a cycles limit p j] by auto

lemma rho_slice_no_factor_2: "rho_slice bs r i x y a 2 cycles limit \<noteq> Inr (Slice_factor p j)"
proof
  assume "rho_slice bs r i x y a 2 cycles limit = Inr (Slice_factor p j)"
  from rho_slice_factor [OF _ this] have p: "p dvd 2" "1 < p" "p = 2 \<longrightarrow> is_probable_prime bs 2"
    by auto
  then have "p = 2" using zdvd_imp_le [of p 2] by auto
  with p show False by (simp add: is_probable_prime_def miller_rabin_test_def)
qed

section \<open>A worker and its mailbox\<close>

text \<open>
  The worker takes the first message its behavior matches; messages it does not match stay
  in the mailbox. An exception ends the worker. \<open>ncalc\<close> counts the handled
  \<open>calculate\<close> messages, \<open>reports\<close> what the worker sent to its group.
\<close>

record wsys =
  wactor :: "worker option"
  mbox :: "vs_msg list"
  reports :: "vs_msg list"
  ncalc :: nat

definition self_msgs :: "(vs_dest \<times> vs_msg) list \<Rightarrow> vs_msg list" where
  "self_msgs out = map snd (filter (\<lambda>(d, m). d = To_self) out)"

definition group_msgs :: "(vs_dest \<times> vs_msg) list \<Rightarrow> vs_msg list" where
  "group_msgs out = map snd (filter (\<lambda>(d, m). d \<noteq> To_self) out)"

definition is_continue :: "vs_msg \<Rightarrow> bool" where
  "is_continue m \<longleftrightarrow> (case m of Continue _ _ _ _ _ \<Rightarrow> True | _ \<Rightarrow> False)"

definition is_calculate :: "vs_msg \<Rightarrow> bool" where
  "is_calculate m \<longleftrightarrow> (case m of Calculate _ \<Rightarrow> True | _ \<Rightarrow> False)"

definition worker_matches :: "vs_msg \<Rightarrow> bool" where
  "worker_matches m \<longleftrightarrow> is_continue m \<or> is_calculate m"

inductive worker_step :: "wsys \<Rightarrow> wsys \<Rightarrow> bool" where
  deliver: "\<not> is_continue m \<Longrightarrow> worker_step s (s\<lparr>mbox := mbox s @ [m]\<rparr>)"
| handle: "wactor s = Some w \<Longrightarrow> mbox s = xs @ m # ys \<Longrightarrow> \<forall>x\<in>set xs. \<not> worker_matches x \<Longrightarrow>
    worker_handle env w m = Some (Inr (w', out)) \<Longrightarrow>
    worker_step s (s\<lparr>wactor := Some w', mbox := xs @ ys @ self_msgs out, reports := reports s @ group_msgs out,
      ncalc := ncalc s + (if is_calculate m then 1 else 0)\<rparr>)"
| crash: "wactor s = Some w \<Longrightarrow> mbox s = xs @ m # ys \<Longrightarrow> \<forall>x\<in>set xs. \<not> worker_matches x \<Longrightarrow>
    worker_handle env w m = Some (Inl e) \<Longrightarrow>
    worker_step s (s\<lparr>wactor := None, mbox := []\<rparr>)"

definition worker_init :: wsys where
  "worker_init = \<lparr>wactor = Some \<lparr>state_id = 0\<rparr>, mbox = [], reports = [], ncalc = 0\<rparr>"

inductive worker_reach :: "wsys \<Rightarrow> bool" where
  init: "worker_reach worker_init"
| step: "worker_reach s \<Longrightarrow> worker_step s s' \<Longrightarrow> worker_reach s'"

inductive_cases worker_stepE [elim]: "worker_step s s'"

definition live :: "int \<Rightarrow> vs_msg \<Rightarrow> bool" where
  "live sid m \<longleftrightarrow> (case m of Continue _ _ _ _ st \<Rightarrow> st = sid | _ \<Rightarrow> False)"

definition not_future :: "int \<Rightarrow> vs_msg \<Rightarrow> bool" where
  "not_future sid m \<longleftrightarrow> (case m of Continue _ _ _ _ st \<Rightarrow> st \<le> sid | _ \<Rightarrow> True)"

text \<open>
  While fewer than \<open>2^512\<close> computations were started: the state number counts them, no
  pending slice is from the future, and at most one is live.
\<close>

definition worker_inv :: "wsys \<Rightarrow> bool" where
  "worker_inv s \<longleftrightarrow> (ncalc s < 2 ^ 512 \<longrightarrow> (case wactor s of
      None \<Rightarrow> True
    | Some w \<Rightarrow> state_id w = int (ncalc s) \<and> list_all (not_future (state_id w)) (mbox s)
                \<and> length (filter (live (state_id w)) (mbox s)) \<le> 1))"

lemma not_continue_not_live [simp]: "\<not> is_continue m \<Longrightarrow> \<not> live sid m \<and> not_future sid m"
  by (auto simp: is_continue_def live_def not_future_def split: vs_msg.splits)

lemma not_future_Suc: "not_future sid m \<Longrightarrow> \<not> live (sid + 1) m \<and> not_future (sid + 1) m"
  by (auto simp: live_def not_future_def split: vs_msg.splits)

text \<open>The effect of the two handlers on the invariant's ingredients.\<close>

lemma worker_calculate_effect:
  assumes "worker_calculate env w n = Inr (w', out)" and "0 \<le> state_id w" "state_id w + 1 < 2 ^ 512"
  shows "state_id w' = state_id w + 1 \<and> (\<exists>a t. self_msgs out = [Continue n a 0 t (state_id w')])
    \<and> group_msgs out = []"
proof -
  from assms(2,3) have "in512 (state_id w + 1)" unfolding in512_def by linarith
  then have "add512 (state_id w) 1 = state_id w + 1" by (simp add: add512_def normalize512_id)
  with assms(1) show ?thesis
    by (auto simp: worker_calculate_def Let_def self_msgs_def group_msgs_def split: sum.splits)
qed

lemma worker_continue_obsolete: "state \<noteq> state_id w \<Longrightarrow> worker_continue env w n a c t state = Inr (w, [])"
  by (simp add: worker_continue_def)

lemma worker_continue_zero: "worker_continue env w 0 a c t (state_id w) = Inl Division_by_zero"
  by (simp add: worker_continue_def mod512_def)

lemma worker_continue_effect:
  assumes "worker_continue env w n a c t state = Inr (w', out)"
  shows "w' = w \<and> (if state \<noteq> state_id w then out = []
    else length (self_msgs out) \<le> 1 \<and> list_all (\<lambda>m. is_calculate m \<or> live (state_id w) m) (self_msgs out))"
proof (cases "state = state_id w")
  case True
  have "n \<noteq> 0" using assms True worker_continue_zero by (cases "n = 0") auto
  from this True show ?thesis
    by (rule worker_continue_cases [where env = env and a = a and cycles = c and t = t])
      (use assms True in \<open>auto simp: self_msgs_def is_calculate_def live_def\<close>)
qed (use assms worker_continue_obsolete in auto)

lemma filter_live_not_future: "list_all (not_future sid) ms \<Longrightarrow> filter (live (sid + 1)) ms = []"
  by (auto simp: list_all_iff filter_empty_conv not_future_Suc)

lemma list_all_not_future_Suc: "list_all (not_future sid) ms \<Longrightarrow> list_all (not_future (sid + 1)) ms"
  by (auto simp: list_all_iff not_future_Suc)

lemma calculate_not_live [simp]: "is_calculate m \<Longrightarrow> \<not> live sid m \<and> not_future sid m"
  by (auto simp: is_calculate_def live_def not_future_def split: vs_msg.splits)

lemma live_not_future: "live sid m \<Longrightarrow> not_future sid m"
  by (auto simp: live_def not_future_def split: vs_msg.splits)

lemma worker_inv_handle:
  assumes inv: "worker_inv s" and w: "wactor s = Some w" and mb: "mbox s = xs @ m # ys"
    and h: "worker_handle env w m = Some (Inr (w', out))"
  shows "worker_inv (s\<lparr>wactor := Some w', mbox := xs @ ys @ self_msgs out,
    reports := reports s @ group_msgs out, ncalc := ncalc s + (if is_calculate m then 1 else 0)\<rparr>)"
proof (cases m)
  case (Calculate n)
  show ?thesis
  proof (cases "Suc (ncalc s) < 2 ^ 512")
    case False
    then show ?thesis by (simp add: worker_inv_def Calculate is_calculate_def)
  next
    case b: True
    with inv w have sid: "state_id w = int (ncalc s)" and nf: "list_all (not_future (state_id w)) (xs @ m # ys)"
      by (auto simp: worker_inv_def mb)
    from b have "int (Suc (ncalc s)) < int (2 ^ 512)" by (simp only: of_nat_less_iff)
    with sid have bs: "0 \<le> state_id w" "state_id w + 1 < 2 ^ 512" by auto
    from h Calculate have "worker_calculate env w n = Inr (w', out)" by (simp add: worker_handle_def)
    from worker_calculate_effect [OF this bs] obtain a t where
      w': "state_id w' = state_id w + 1" "self_msgs out = [Continue n a 0 t (state_id w')]" by blast
    moreover have "not_future (state_id w') (Continue n a 0 t (state_id w'))"
      by (simp add: not_future_def)
    ultimately show ?thesis
      using nf sid by (simp add: worker_inv_def Calculate is_calculate_def filter_live_not_future
          list_all_not_future_Suc)
  qed
next
  case (Continue n a c t st)
  from h Continue have "worker_continue env w n a c t st = Inr (w', out)" by (simp add: worker_handle_def)
  note eff = worker_continue_effect [OF this]
  have "list_all (not_future (state_id w)) (self_msgs out)"
    using eff by (auto simp: self_msgs_def list_all_iff dest: live_not_future split: if_splits)
  moreover have "length (filter (live (state_id w)) (self_msgs out)) \<le> (if live (state_id w) m then 1 else 0)"
    using eff Continue length_filter_le [of "live (state_id w)" "self_msgs out"]
    by (auto simp: live_def self_msgs_def split: if_splits)
  ultimately show ?thesis
    using inv w eff Continue by (auto simp: worker_inv_def mb is_calculate_def split: if_splits)
qed (use h in \<open>simp_all add: worker_handle_def\<close>)

lemma worker_step_inv: "worker_step s s' \<Longrightarrow> worker_inv s \<Longrightarrow> worker_inv s'"
proof (induction rule: worker_step.induct)
  case (deliver m s)
  then show ?case by (auto simp: worker_inv_def split: option.splits)
next
  case (handle s w xs m ys env w' out)
  then show ?case by (intro worker_inv_handle)
next
  case (crash s w xs m ys env e)
  then show ?case by (simp add: worker_inv_def)
qed

lemma worker_reach_inv: "worker_reach s \<Longrightarrow> worker_inv s"
proof (induction rule: worker_reach.induct)
  case init
  show ?case by (simp add: worker_inv_def worker_init_def)
next
  case (step s s')
  then show ?case by (blast intro: worker_step_inv)
qed

section \<open>Properties\<close>

lemma worker_continue_factorD:
  assumes "0 < n" and "worker_continue env w n a c t state = Inr (w', out)"
    and "(To_server, Factor p c' t') \<in> set out"
  shows "p dvd n \<and> 1 < p \<and> (p = n \<longrightarrow> is_probable_prime (bases env) n)
    \<and> out = [(To_server, Factor p c' t)] \<and> t' = t \<and> state = state_id w"
proof (cases "state = state_id w")
  case True
  from assms(1) have "n \<noteq> 0" by simp
  from this True show ?thesis
  proof (cases rule: worker_continue_cases [where env = env and a = a and cycles = c and t = t])
    case (factor q i x)
    with assms True rho_slice_factor [OF assms(1) factor(1)] show ?thesis by auto
  qed (use assms True in auto)
qed (use assms worker_continue_obsolete in auto)

text \<open>
  C7. A reported factor is a factor: whatever the random values were and even where the
  512-bit arithmetic wrapped around, a worker reports for \<open>n > 0\<close> only a divisor greater
  than 1, and \<open>n\<close> itself only if the primality test accepts it; the report carries the
  processor time of the current computation, and nothing else is sent with it.
\<close>

theorem worker_reports_divisors:
  assumes "0 < n" and "worker_continue env w n a c t state = Inr (w', out)"
    and "(To_server, Factor p c' t') \<in> set out"
  shows "p dvd n \<and> 1 < p \<and> (p = n \<longrightarrow> is_probable_prime (bases env) n)
    \<and> out = [(To_server, Factor p c' t)] \<and> t' = t \<and> state = state_id w"
  using assms by (rule worker_continue_factorD)

theorem worker_reports_divisors_witness: "(3::int) dvd 15 \<and> (1::int) < 3"
proof -
  let ?env = "\<lparr>draw = 1, clock = 0, bases = \<lambda>_. 2\<rparr>" and ?w = "\<lparr>state_id = 1\<rparr>"
  have "worker_continue ?env ?w 15 1 0 7 1 = Inr (?w, [(To_server, Factor 3 0 7)])"
    by code_simp
  from worker_reports_divisors [OF _ this, of 3 0 7] show ?thesis by simp
qed

text \<open>
  C28. A first slice is Floyd's cycle search: for \<open>n\<close> small enough that no product wraps
  around, a polynomial \<open>z^2 + a\<close> with \<open>0 \<le> a \<le> n\<close> and a live continuation with no cycles
  yet, the worker looks at the divisors \<open>gcd (f^(2j+2) x - f^(j+1) x) n\<close> for
  \<open>j = 0, 1, \<dots>, 999\<close> in this order, from the start value \<open>x = draw mod n + 1\<close>, acts on
  the first that is not 1, and otherwise asks for the next slice.
\<close>

theorem worker_slice_is_floyd:
  assumes "no_overflow n" "0 \<le> a" "a \<le> n" "rng_ok env" "c \<le> 1"
  shows "worker_continue env w n a c t (state_id w) =
    (let x = draw env mod n + 1
     in Inr (w, case List.find (\<lambda>j. floyd_gcd a n x j \<noteq> 1) [0..<MAX_ITERATIONS] of
          None \<Rightarrow> [(To_self, Continue n a (add512 c (int MAX_ITERATIONS)) t (state_id w))]
        | Some j \<Rightarrow>
            if floyd_gcd a n x j \<noteq> n \<or> is_probable_prime (bases env) n
            then [(To_server, Factor (floyd_gcd a n x j) (add512 c (int j)) t)]
            else [(To_self, Continue n a (add512 c (int j)) t (state_id w))]))"
proof -
  let ?x = "draw env mod n + 1"
  have "0 < n" using assms(1) by (simp only: no_overflow_def)
  note sv = start_value [OF this no_overflow_less [OF assms(1)] assms(4)]
  have nz: "?x \<noteq> 0" using sv(3) by linarith
  have slice: "rho_slice (bases env) MAX_ITERATIONS 0 ?x ?x a n c 1 =
    Inr (case List.find (\<lambda>j. floyd_gcd a n ?x j \<noteq> 1) [0..<MAX_ITERATIONS] of
           None \<Rightarrow> Slice_exhausted
         | Some j \<Rightarrow> the (slice_verdict (bases env) j (floyd_gcd a n ?x j) n c 1))"
    using rho_slice_floyd [OF assms(1-3) _ _ assms(5), of ?x "bases env" MAX_ITERATIONS 0] sv(3) by simp
  have run: "worker_continue env w n a c t (state_id w) =
      (case rho_slice (bases env) MAX_ITERATIONS 0 ?x ?x a n c 1 of
              Inl e \<Rightarrow> Inl e
            | Inr (Slice_factor p i) \<Rightarrow> Inr (w, [(To_server, Factor p (add512 c (int i)) t)])
            | Inr (Slice_retry i) \<Rightarrow> Inr (w, [(To_self, Continue n a (add512 c (int i)) t (state_id w))])
            | Inr Slice_nofactor \<Rightarrow> Inr (w, [(To_server, Nofactor t), (To_self, Calculate n)])
            | Inr Slice_exhausted \<Rightarrow>
                Inr (w, [(To_self, Continue n a (add512 c (int MAX_ITERATIONS)) t (state_id w))]))"
    using sv(1,2) nz by (simp add: worker_continue_def Let_def)
  show ?thesis
  proof (cases "List.find (\<lambda>j. floyd_gcd a n ?x j \<noteq> 1) [0..<MAX_ITERATIONS]")
    case None
    then show ?thesis by (simp add: run slice Let_def)
  next
    case (Some j)
    then have "floyd_gcd a n ?x j \<noteq> 1" by (auto simp: find_Some_iff)
    with Some show ?thesis by (simp add: run slice Let_def slice_verdict_def)
  qed
qed

theorem worker_slice_is_floyd_witness:
  "worker_continue \<lparr>draw = 1, clock = 0, bases = \<lambda>_. 2\<rparr> \<lparr>state_id = 1\<rparr> 15 1 0 7 (state_id \<lparr>state_id = 1\<rparr>) =
     Inr (\<lparr>state_id = 1\<rparr>, [(To_server, Factor 3 0 7)])"
proof -
  have g: "floyd_gcd 1 15 (1 mod 15 + 1) 0 = 3" by code_simp
  have "0 < MAX_ITERATIONS" by (simp add: MAX_ITERATIONS_def)
  then have u: "[0..<MAX_ITERATIONS] = 0 # [Suc 0..<MAX_ITERATIONS]" by (rule upt_conv_Cons)
  have "no_overflow 15" "rng_ok \<lparr>draw = 1, clock = 0, bases = \<lambda>_. 2\<rparr>" "add512 0 0 = 0"
    by (simp_all add: no_overflow_def rng_ok_def add512_def normalize512_def)
  with g show ?thesis
    by (subst worker_slice_is_floyd) (simp_all add: u)
qed

text \<open>
  C23. One computation at a time: in every reachable state of a worker, as long as fewer
  than \<open>2^512\<close> computations were started, at most one pending \<open>continue\<close> message carries
  the current state number; all others are dropped when their turn comes.
\<close>

theorem worker_one_live_slice:
  assumes "worker_reach s" and "ncalc s < 2 ^ 512" and "wactor s = Some w"
  shows "length (filter (live (state_id w)) (mbox s)) \<le> 1 \<and> state_id w = int (ncalc s)
    \<and> (\<forall>env n a c t st. \<not> live (state_id w) (Continue n a c t st) \<longrightarrow>
         worker_handle env w (Continue n a c t st) = Some (Inr (w, [])))"
  using worker_reach_inv [OF assms(1)] assms(2,3)
  by (auto simp: worker_inv_def worker_handle_def worker_continue_obsolete live_def)

theorem worker_one_live_slice_witness:
  "length (filter (live 0) (mbox (worker_init\<lparr>mbox := [Calculate 15]\<rparr>))) \<le> 1"
proof -
  have "worker_step worker_init (worker_init\<lparr>mbox := mbox worker_init @ [Calculate 15]\<rparr>)"
    by (rule worker_step.deliver) (simp add: is_continue_def)
  then have "worker_reach (worker_init\<lparr>mbox := [Calculate 15]\<rparr>)"
    by (intro worker_reach.step [OF worker_reach.init]) (simp add: worker_init_def)
  from worker_one_live_slice [OF this, of "\<lparr>state_id = 0\<rparr>"] show ?thesis
    by (simp add: worker_init_def)
qed

text \<open>
  The iteration limit does not grow with \<open>n\<close>: the limit the code raises \<open>n\<close> to the power
  \<open>1/4\<close> for is 1, since the exponent is an integer quotient. So a second slice never runs to
  its end: for every non-zero \<open>n\<close> a continuation with more than one cycle ends in its first
  iteration, by a factor, by a retry or by giving the polynomial up.
\<close>

theorem worker_gives_up_after_first_slice:
  assumes "n \<noteq> 0" and "1 < c"
  shows "pow512 n (1 div 4) = 1 \<and>
    (\<exists>out. worker_continue env w n a c t (state_id w) = Inr (w, out) \<and>
      (out = [(To_server, Nofactor t), (To_self, Calculate n)]
       \<or> out = [(To_self, Continue n a (add512 c 0) t (state_id w))]
       \<or> (\<exists>p. out = [(To_server, Factor p (add512 c 0) t)])))"
proof -
  obtain r where r: "MAX_ITERATIONS = Suc r" by (auto simp: MAX_ITERATIONS_def intro: that [of 999])
  note over = rho_slice_over_limit [OF assms(1,2), of "bases env" r 0, folded r]
  from assms(1) refl show ?thesis
  proof (cases rule: worker_continue_cases [where env = env and w = w and a = a and cycles = c and t = t])
    case (factor p i x)
    with over [of x x a] show ?thesis by auto
  next
    case (retry i x)
    with over [of x x a] show ?thesis by auto
  next
    case (exhausted x)
    with over [of x x a] show ?thesis by auto
  qed simp
qed

theorem worker_gives_up_after_first_slice_witness: "pow512 (2 ^ 80) (1 div 4) = 1"
  using worker_gives_up_after_first_slice [of "2 ^ 80" 1000 undefined undefined undefined undefined]
  by simp

text \<open>
  The numbers 1 and 2 are never answered: for \<open>n = 1\<close>, the request the client sends
  once its number is used up, and for the prime \<open>n = 2\<close>, no slice reports a factor, and
  every live slice leaves the worker with another message to itself, so it keeps computing.
\<close>

theorem worker_never_answers_1_2:
  assumes "n = 1 \<or> n = 2"
  shows "\<exists>out. worker_continue env w n a c t (state_id w) = Inr (w, out)
    \<and> (\<forall>p c' t'. (To_server, Factor p c' t') \<notin> set out)
    \<and> (\<exists>m\<in>set (self_msgs out). worker_matches m)"
proof -
  have nf: "rho_slice bs r i x y a n cycles limit \<noteq> Inr (Slice_factor p j)"
    for bs r i x y a cycles limit p j
    using assms rho_slice_no_factor_1 rho_slice_no_factor_2 by auto
  from assms have "n \<noteq> 0" by auto
  from this refl show ?thesis
    by (rule worker_continue_cases [where env = env and w = w and a = a and cycles = c and t = t])
      (use nf in \<open>auto simp: self_msgs_def worker_matches_def is_continue_def is_calculate_def\<close>)
qed

theorem worker_never_answers_1_2_witness:
  "\<exists>out. worker_continue \<lparr>draw = 5, clock = 0, bases = \<lambda>_. 2\<rparr> \<lparr>state_id = 1\<rparr> 1 1 0 7 (state_id \<lparr>state_id = 1\<rparr>)
      = Inr (\<lparr>state_id = 1\<rparr>, out)
    \<and> (\<forall>p c' t'. (To_server, Factor p c' t') \<notin> set out)
    \<and> (\<exists>m\<in>set (self_msgs out). worker_matches m)"
  by (rule worker_never_answers_1_2) simp

text \<open>
  C39. A computation is not lost: handling a live continuation for a non-zero \<open>n\<close> raises no
  exception and leaves a report of a factor or exactly one message of the worker to itself
  that resumes or restarts the computation; for \<open>n = 0\<close> both handlers throw.
\<close>

theorem worker_computation_not_lost:
  "(n \<noteq> 0 \<longrightarrow> (\<exists>out. worker_continue env w n a c t (state_id w) = Inr (w, out)
      \<and> ((\<exists>p c'. out = [(To_server, Factor p c' t)])
         \<or> (\<exists>m. self_msgs out = [m] \<and> (m = Calculate n \<or> (\<exists>c'. m = Continue n a c' t (state_id w)))))))
   \<and> (n = 0 \<longrightarrow> worker_continue env w n a c t (state_id w) = Inl Division_by_zero
      \<and> worker_calculate env w n = Inl Division_by_zero)"
proof (cases "n = 0")
  case True
  then show ?thesis by (simp add: worker_continue_zero worker_calculate_def mod512_def)
next
  case False
  from False refl show ?thesis
    by (rule worker_continue_cases [where env = env and w = w and a = a and cycles = c and t = t])
      (use False in \<open>auto simp: self_msgs_def\<close>)
qed

theorem worker_computation_not_lost_witness:
  "worker_calculate \<lparr>draw = 5, clock = 0, bases = \<lambda>_. 2\<rparr> \<lparr>state_id = 1\<rparr> 0 = Inl Division_by_zero"
  using worker_computation_not_lost [of 0 "\<lparr>draw = 5, clock = 0, bases = \<lambda>_. 2\<rparr>" "\<lparr>state_id = 1\<rparr>"]
  by simp

end
