(* ===== verification/Cxx_Text.thy ===== *)
theory Cxx_Text
  imports Prelude
begin

text \<open>
  The text conversions of the C and C++ standard libraries the sources rely on: decimal
  output of integers, decimal input as done by \<open>strtol\<close> and by the stream operators, and two
  digit hexadecimal output of bytes.
\<close>

section \<open>Definitions\<close>

definition is_space :: "char \<Rightarrow> bool" where
  "is_space c \<longleftrightarrow> c \<in> {CHR '' '', CHR 0x09, CHR 0x0A, CHR 0x0B, CHR 0x0C, CHR 0x0D}"

definition is_digit :: "char \<Rightarrow> bool" where
  "is_digit c \<longleftrightarrow> 48 \<le> (of_char c :: nat) \<and> (of_char c :: nat) \<le> 57"

definition is_xdigit :: "char \<Rightarrow> bool" where
  "is_xdigit c \<longleftrightarrow> is_digit c \<or> (65 \<le> (of_char c :: nat) \<and> (of_char c :: nat) \<le> 70)
     \<or> (97 \<le> (of_char c :: nat) \<and> (of_char c :: nat) \<le> 102)"

definition digits_value :: "string \<Rightarrow> int" where
  "digits_value ds = foldl (\<lambda>v d. 10 * v + (of_char d - 48)) 0 ds"

text \<open>Optional white space, an optional sign, digits: whether the sign is a minus, the digits
  and the number of characters up to their end.\<close>

definition scan_number :: "string \<Rightarrow> bool \<times> string \<times> nat" where
  "scan_number s =
     (let ws = length (takeWhile is_space s); s1 = drop ws s;
          neg = (s1 \<noteq> [] \<and> hd s1 = CHR ''-'');
          signed = (s1 \<noteq> [] \<and> hd s1 \<in> {CHR ''-'', CHR ''+''});
          s2 = (if signed then tl s1 else s1); ds = takeWhile is_digit s2
      in (neg, ds, ws + (if signed then 1 else 0) + length ds))"

text \<open>A signed number saturates at the bounds of its type; without digits it is 0 and nothing
  is consumed.\<close>

definition parse_signed :: "int \<Rightarrow> int \<Rightarrow> string \<Rightarrow> int \<times> nat" where
  "parse_signed lo hi s =
     (let (neg, ds, n) = scan_number s; v = (if neg then - digits_value ds else digits_value ds)
      in if ds = [] then (0, 0) else (max lo (min hi v), n))"

text \<open>An unsigned number is read as by \<open>strtoull\<close>, which negates modulo \<open>2^64\<close>, and then
  saturates at the bound of its type.\<close>

definition parse_unsigned :: "int \<Rightarrow> string \<Rightarrow> int \<times> nat" where
  "parse_unsigned hi s =
     (let (neg, ds, n) = scan_number s; v = min (2 ^ 64 - 1) (digits_value ds);
          v' = (if neg \<and> digits_value ds < 2 ^ 64 then (- v) mod 2 ^ 64 else v)
      in if ds = [] then (0, 0) else (min hi v', n))"

definition int_text :: "int \<Rightarrow> string" where
  "int_text i = (if i < 0 then ''-'' else []) @ decimal (nat \<bar>i\<bar>)"

definition hex_digit :: "nat \<Rightarrow> char" where
  "hex_digit n = (if n < 10 then char_of (48 + n) else char_of (87 + n))"

text \<open>\<open>std::hex\<close>, \<open>std::setfill('0')\<close>, \<open>std::setw(2)\<close>.\<close>

definition hex2 :: "nat \<Rightarrow> string" where
  "hex2 b = [hex_digit (b div 16), hex_digit (b mod 16)]"

section \<open>Lemmas\<close>

lemma decimal_digits: "list_all is_digit (decimal n) \<and> decimal n \<noteq> []"
proof (induction n rule: decimal.induct)
  case (1 n)
  have "is_digit (char_of (48 + n mod 10))" by (simp add: is_digit_def)
  with 1 show ?case by (subst (1 2) decimal.simps) auto
qed

lemma digits_value_snoc: "digits_value (ds @ [d]) = 10 * digits_value ds + (of_char d - 48)"
  by (simp add: digits_value_def)

lemma digits_value_decimal [simp]: "digits_value (decimal n) = int n"
proof (induction n rule: decimal.induct)
  case (1 n)
  have d: "of_char (char_of (48 + n mod 10)) = 48 + int (n mod 10)"
    using of_nat_of_char [of "char_of (48 + n mod 10)", where ?'a = int] by simp
  show ?case
  proof (cases "n < 10")
    case True
    with d show ?thesis by (simp add: decimal.simps digits_value_def)
  next
    case False
    with 1 have "digits_value (decimal n) = 10 * int (n div 10) + int (n mod 10)"
      by (subst decimal.simps) (simp add: digits_value_snoc d)
    also have "\<dots> = int n" by (metis mult_div_mod_eq of_nat_add of_nat_mult of_nat_numeral)
    finally show ?thesis .
  qed
qed

lemma digit_not_space: "is_digit c \<Longrightarrow> \<not> is_space c \<and> c \<noteq> CHR ''-'' \<and> c \<noteq> CHR ''+''"
  by (auto simp: is_digit_def is_space_def)

lemma decimal_Cons: obtains c cs where "decimal n = c # cs" "is_digit c"
  using decimal_digits [of n] by (cases "decimal n") auto

lemma scan_number_decimal:
  "scan_number ((if neg then ''-'' else []) @ decimal n) = (neg, decimal n, (if neg then 1 else 0) + length (decimal n))"
proof -
  obtain c cs where ds: "decimal n = c # cs" and c: "is_digit c" by (rule decimal_Cons)
  have tw: "takeWhile is_digit (decimal n) = decimal n"
    using decimal_digits [of n] by (simp add: takeWhile_eq_all_conv list_all_iff)
  have "\<not> is_space (CHR ''-'')" by (simp add: is_space_def)
  then show ?thesis
    using tw digit_not_space [OF c] by (cases neg) (simp_all add: scan_number_def ds)
qed

lemma parse_signed_decimal:
  "parse_signed lo hi ((if neg then ''-'' else []) @ decimal n) =
     (max lo (min hi (if neg then - int n else int n)), (if neg then 1 else 0) + length (decimal n))"
  unfolding parse_signed_def scan_number_decimal using decimal_digits [of n] by simp

lemma parse_signed_int_text:
  assumes "lo \<le> i" "i \<le> hi"
  shows "parse_signed lo hi (int_text i) = (i, length (int_text i))"
  using assms parse_signed_decimal [of lo hi "i < 0" "nat \<bar>i\<bar>"] by (auto simp: int_text_def)

lemma parse_unsigned_int_text:
  assumes "0 \<le> i" "i \<le> hi" "hi < 2 ^ 64"
  shows "parse_unsigned hi (int_text i) = (i, length (int_text i))"
  using assms scan_number_decimal [of False "nat i"] decimal_digits [of "nat i"]
  by (simp add: int_text_def parse_unsigned_def)

lemma int_text_chars: "list_all (\<lambda>c. is_digit c \<or> c = CHR ''-'') (int_text i) \<and> int_text i \<noteq> []"
  using decimal_digits [of "nat \<bar>i\<bar>"] by (auto simp: int_text_def list_all_iff)

end
