(* ===== verification/Vslab_Actors.thy ===== *)
theory Vslab_Actors
  imports Vslab_Worker Cxx_Text
begin

text \<open>
  The client and the manager actor of the factorisation program (vslab/src/main.cpp) and its
  command line. A handler maps the actor's state (the arguments its behavior closes over) to a
  new state and the list of its effects in program order; the result of
  \<open>io::remote_group\<close>, the clocks and the random generator are inputs.
\<close>

section \<open>Definitions\<close>

subsection \<open>Effects\<close>

datatype vs_group = Wgroup | Cmgroup   \<comment> \<open>the group of the workers, the group of the server\<close>

datatype vs_out =
    Out_line string
  | Out_factor int                     \<comment> \<open>\<open>cout << p << " "\<close>\<close>
  | Out_done int int int               \<comment> \<open>processor time, wall time, cycles\<close>

datatype vs_effect =
    Eff_print vs_out
  | Eff_join vs_group
  | Eff_send vs_group vs_msg
  | Eff_send_self vs_msg
  | Eff_spawn_worker                   \<comment> \<open>\<open>spawn_in_group(wkr_grp, worker, wkr_grp, 0)\<close>\<close>
  | Eff_quit
  | Eff_undefined                      \<comment> \<open>a message sent through \<open>invalid_group\<close>\<close>

text \<open>A send through the captured \<open>server\<close>, which may be \<open>invalid_group\<close>.\<close>

definition send_server :: "vs_group option \<Rightarrow> vs_msg \<Rightarrow> vs_effect" where
  "send_server server m = (case server of Some g \<Rightarrow> Eff_send g m | None \<Rightarrow> Eff_undefined)"

subsection \<open>The manager\<close>

record manager =
  mgr_workers :: int
  mgr_host :: string
  mgr_port :: int
  mgr_server :: "vs_group option"

text \<open>
  \<open>manager\<close> up to \<open>become\<close>. \<open>remote\<close> is the group \<open>io::remote_group\<close> returns, or \<open>None\<close> if it
  throws; after a success the function calls itself once with the group it got.
\<close>

definition manager_init :: "manager \<Rightarrow> manager \<times> vs_effect list" where
  "manager_init m = (m, [Eff_print (Out_line ''manager: manager()''), Eff_join Wgroup])"

definition manager_start :: "vs_group option \<Rightarrow> manager \<Rightarrow> manager \<times> vs_effect list" where
  "manager_start remote m =
     (let (m1, e1) = manager_init m
      in if mgr_server m1 \<noteq> None then (m1, e1)
         else case remote of
             Some new_serv \<Rightarrow>
               let (m2, e2) = manager_init (m1\<lparr>mgr_server := Some new_serv\<rparr>)
               in (m2, e1 @ [Eff_print (Out_line ''manager: trying to connect to: ''),
                             Eff_join new_serv,
                             Eff_print (Out_line ''manager: connection to server succeeded''),
                             Eff_send_self SWorkers] @ e2)
           | None \<Rightarrow> (m1, e1 @ [Eff_print (Out_line ''manager: trying to connect to: ''),
                                Eff_print (Out_line ''manager: connection to server failed -> quitting''),
                                Eff_quit]))"

text \<open>The behavior of the manager; \<open>None\<close> for a message no handler matches.\<close>

definition manager_handle :: "manager \<Rightarrow> vs_msg \<Rightarrow> vs_effect list option" where
  "manager_handle m msg = (case msg of
      Ping \<Rightarrow> Some [Eff_print (Out_line ''Manager: got PING! ''), Eff_print (Out_line ''Manager: sending PONG! ''),
                    send_server (mgr_server m) Pong]
    | SWorkers \<Rightarrow> Some (Eff_print (Out_line ''manager: spawning workers: '')
                       # replicate (nat (mgr_workers m)) Eff_spawn_worker)
    | KWorkers \<Rightarrow> Some (Eff_print (Out_line ''manager: killing workers: '')
                       # replicate (nat (mgr_workers m)) (Eff_send Wgroup Suicide))
    | Factor p cycles cpu_time \<Rightarrow>
        Some [Eff_print (Out_line ''manager: got factor: ''), Eff_print (Out_line ''manager: forwarding factor to client''),
              send_server (mgr_server m) (Factor p cycles cpu_time)]
    | Nofactor cpu_time \<Rightarrow>
        Some [Eff_print (Out_line ''manager: got no factor: ''), Eff_print (Out_line ''manager: forwarding factor to client''),
              send_server (mgr_server m) (Nofactor cpu_time)]
    | Calculate n \<Rightarrow>
        Some [Eff_print (Out_line ''manager: calculate: ''), Eff_print (Out_line ''manager: forwarding to worker''),
              Eff_send Wgroup (Calculate n)]
    | Quit \<Rightarrow> Some [Eff_print (Out_line ''manager: got quit message -> quitting! ''), Eff_quit]
    | _ \<Rightarrow> None)"

subsection \<open>The client\<close>

record client =
  cl_host :: string
  cl_port :: int
  cl_n :: int
  cl_server :: "vs_group option"
  cl_cycles :: int
  cl_cpu_time :: int
  cl_wall_time :: int

record client_env =
  cl_clock :: int    \<comment> \<open>\<open>std::clock()\<close>\<close>
  cl_now :: int      \<comment> \<open>\<open>high_resolution_clock::now()\<close>\<close>

definition client_start :: "vs_group option \<Rightarrow> client \<Rightarrow> client \<times> vs_effect list" where
  "client_start remote c =
     (let e1 = [Eff_print (Out_line ''client: client()'')]
      in if cl_server c \<noteq> None then (c, e1)
         else case remote of
             Some new_serv \<Rightarrow>
               (c\<lparr>cl_server := Some new_serv\<rparr>,
                e1 @ [Eff_print (Out_line ''client: trying to connect to: ''),
                      Eff_join new_serv,
                      Eff_print (Out_line ''client: connection to server succeeded''),
                      Eff_send new_serv (Calculate (cl_n c))] @ e1)
           | None \<Rightarrow> (c, e1 @ [Eff_print (Out_line ''client: trying to connect to: ''),
                               Eff_print (Out_line ''client: connection to server failed -> quitting''),
                               Eff_quit]))"

text \<open>
  The loop \<open>while(!(tmp_n % p))\<close>, with the output so far. \<open>None\<close>: the loop does not end.
  An exception carries the output that was printed before it.
\<close>

partial_function (option) divide_out ::
  "int \<Rightarrow> int \<Rightarrow> vs_effect list \<Rightarrow> (mp_error \<times> vs_effect list + int \<times> vs_effect list) option" where
  "divide_out p tmp_n out =
     (case mod512 tmp_n p of
        Inl e \<Rightarrow> Some (Inl (e, out))
      | Inr r \<Rightarrow>
          if r \<noteq> 0 then Some (Inr (tmp_n, out))
          else case div512 tmp_n p of
              Inl e \<Rightarrow> Some (Inl (e, out))
            | Inr q \<Rightarrow> divide_out p q (out @ [Eff_print (Out_factor p)]))"

declare divide_out.simps [code]

text \<open>A re-entered \<open>client(...)\<close> with a valid server prints its name and installs the new state.\<close>

definition client_factor :: "client_env \<Rightarrow> client \<Rightarrow> int \<Rightarrow> int \<Rightarrow> int
    \<Rightarrow> (mp_error \<times> vs_effect list + client \<times> vs_effect list) option" where
  "client_factor env c p new_cycles new_cpu_time =
     (let tmp_cycles = add512 (cl_cycles c) new_cycles;
          tmp_cpu_time = cl_cpu_time c + new_cpu_time
      in case divide_out p (cl_n c) [Eff_print (Out_line ''client: got factor: ''), Eff_print (Out_factor p)] of
           None \<Rightarrow> None
         | Some (Inl e) \<Rightarrow> Some (Inl e)
         | Some (Inr (tmp_n, out)) \<Rightarrow>
             (case div512 tmp_n p of
                Inl e \<Rightarrow> Some (Inl (e, out))
              | Inr q \<Rightarrow>
                  if q = 1
                  then Some (Inr (c, out @ [Eff_print (Out_line ''***** PRIME FACTORISATION *****''),
                         Eff_print (Out_done (cl_clock env - tmp_cpu_time) (cl_now env - cl_wall_time c) tmp_cycles)]))
                  else let c' = c\<lparr>cl_n := tmp_n, cl_cycles := tmp_cycles, cl_cpu_time := tmp_cpu_time\<rparr>;
                           (c'', e2) = client_start None c'
                       in Some (Inr (c'', out @ [send_server (cl_server c) (Calculate tmp_n)] @ e2))))"

definition client_nofactor :: "client \<Rightarrow> int \<Rightarrow> client \<times> vs_effect list" where
  "client_nofactor c new_cpu_time =
     (let (c', e) = client_start None (c\<lparr>cl_cpu_time := cl_cpu_time c + new_cpu_time\<rparr>)
      in (c', Eff_print (Out_line ''client: got no factor'') # e))"

text \<open>
  The behavior of the client: \<open>None\<close> for a message no handler matches, \<open>Some None\<close> for a
  handler that does not return.
\<close>

definition client_handle :: "client_env \<Rightarrow> client \<Rightarrow> vs_msg
    \<Rightarrow> (mp_error \<times> vs_effect list + client \<times> vs_effect list) option option" where
  "client_handle env c msg = (case msg of
      Result \<Rightarrow> Some (Some (Inr (c, [Eff_print (Out_line ''client: got quit message -> quitting! ''), Eff_quit])))
    | Pong \<Rightarrow> Some (Some (Inr (c, [Eff_print (Out_line ''client: got PONG! ''), Eff_print (Out_line ''client: sending PING! ''),
                                   send_server (cl_server c) Ping])))
    | Factor p new_cycles new_cpu_time \<Rightarrow> Some (client_factor env c p new_cycles new_cpu_time)
    | Nofactor new_cpu_time \<Rightarrow> Some (Some (Inr (client_nofactor c new_cpu_time)))
    | _ \<Rightarrow> None)"

subsection \<open>The command line\<close>

definition LONG_MAX :: int where
  "LONG_MAX = 2 ^ 63 - 1"

definition LONG_MIN :: int where
  "LONG_MIN = - (2 ^ 63)"

text \<open>\<open>strtol(s, &last, 10)\<close> for a 64-bit \<open>long\<close>: the value and the number of characters
  consumed.\<close>

definition strtol :: "string \<Rightarrow> int \<times> nat" where
  "strtol s = parse_signed LONG_MIN LONG_MAX s"

definition long_arg :: "string \<Rightarrow> int option" where
  "long_arg arg = (let (res, last) = strtol arg in if last = length arg then Some res else None)"

datatype vs_command =
    Run_server int
  | Run_manager int string int
  | Run_client string int
  | Usage

text \<open>The match expression of \<open>main\<close>: the first case whose patterns and projections accept.\<close>

definition main_command :: "string list \<Rightarrow> vs_command" where
  "main_command args = (case args of
      [a0, a1] \<Rightarrow> (if a0 = ''-s'' then (case long_arg a1 of Some port \<Rightarrow> Run_server port | None \<Rightarrow> Usage) else Usage)
    | [a0, a1, a2, a3] \<Rightarrow>
        (if a0 = ''-m''
         then (case (long_arg a1, long_arg a3) of (Some w, Some port) \<Rightarrow> Run_manager w a2 port | _ \<Rightarrow> Usage)
         else Usage)
    | [a0, a1, a2] \<Rightarrow> (if a0 = ''-c'' then (case long_arg a2 of Some port \<Rightarrow> Run_client a1 port | None \<Rightarrow> Usage) else Usage)
    | _ \<Rightarrow> Usage)"

definition run_manager :: "int \<Rightarrow> string \<Rightarrow> int \<Rightarrow> manager" where
  "run_manager workers host port =
     \<lparr>mgr_workers = workers, mgr_host = host, mgr_port = port, mgr_server = None\<rparr>"

definition run_client :: "string \<Rightarrow> int \<Rightarrow> int \<Rightarrow> int \<Rightarrow> client" where
  "run_client host port n wall_time =
     \<lparr>cl_host = host, cl_port = port, cl_n = n, cl_server = None, cl_cycles = 0, cl_cpu_time = 0,
      cl_wall_time = wall_time\<rparr>"

text \<open>The console loop of \<open>run_server\<close>: the messages printed for the lines before \<open>quit\<close>.\<close>

fun server_console :: "string list \<Rightarrow> string list" where
  "server_console [] = []"
| "server_console (line # lines) =
     (if line = ''quit'' then [] else ''illegal command'' # server_console lines)"

section \<open>The division loop of the client\<close>

lemma tquot_mult: "b \<noteq> 0 \<Longrightarrow> tquot (b * q) b = q"
proof -
  assume "b \<noteq> 0"
  then have "tquot (b * q) b = (sgn b * sgn b) * (sgn q * \<bar>q\<bar>)"
    by (simp add: tquot_def sgn_mult abs_mult)
  also have "\<dots> = q" using \<open>b \<noteq> 0\<close> by (simp add: sgn_if mult_sgn_abs)
  finally show ?thesis .
qed

lemma divide_out_stop:
  assumes "p \<noteq> 0" "\<not> p dvd m"
  shows "divide_out p m out = Some (Inr (m, out))"
  using assms by (simp add: divide_out.simps [of p m] mod512_def trem_0_iff)

lemma divide_out_step:
  assumes "p \<noteq> 0"
  shows "divide_out p (p * m) out = divide_out p m (out @ [Eff_print (Out_factor p)])"
  using assms by (simp add: divide_out.simps [of p "p * m"] mod512_def div512_def trem_0_iff tquot_mult)

lemma divide_out_power:
  assumes "p \<noteq> 0" "\<not> p dvd m"
  shows "divide_out p (p ^ k * m) out = Some (Inr (m, out @ replicate k (Eff_print (Out_factor p))))"
proof (induction k arbitrary: out)
  case 0
  show ?case by (simp add: divide_out_stop [OF assms])
next
  case (Suc k)
  have "divide_out p (p ^ Suc k * m) out = divide_out p (p * (p ^ k * m)) out" by (simp add: mult.assoc)
  then show ?case by (simp add: divide_out_step [OF assms(1)] Suc)
qed

text \<open>Every non-zero number is a power of \<open>p\<close> times a number that \<open>p\<close> does not divide.\<close>

lemma split_power:
  fixes n p :: int
  assumes "1 < \<bar>p\<bar>" "n \<noteq> 0"
  obtains k m where "n = p ^ k * m" "\<not> p dvd m"
proof -
  have "\<exists>k m. n = p ^ k * m \<and> \<not> p dvd m"
    using assms(2)
  proof (induction "nat \<bar>n\<bar>" arbitrary: n rule: less_induct)
    case less
    show ?case
    proof (cases "p dvd n")
      case True
      then obtain q where n: "n = p * q" by blast
      with less.prems have "q \<noteq> 0" by auto
      with assms(1) have "\<bar>q\<bar> < \<bar>n\<bar>" by (simp add: n abs_mult)
      then have "nat \<bar>q\<bar> < nat \<bar>n\<bar>" by linarith
      from less.hyps [OF this \<open>q \<noteq> 0\<close>] obtain k m where "q = p ^ k * m" "\<not> p dvd m" by blast
      with n have "n = p ^ Suc k * m" by simp
      with \<open>\<not> p dvd m\<close> show ?thesis by blast
    next
      case False
      then have "n = p ^ 0 * n" by simp
      with False show ?thesis by blast
    qed
  qed
  with that show thesis by blast
qed

text \<open>For a unit, and for zero, the loop condition never becomes false.\<close>

lemma divide_out_loops:
  assumes "divide_out p n out = Some r"
  shows "p = 0 \<or> (n \<noteq> 0 \<and> \<bar>p\<bar> \<noteq> 1)"
proof (rule divide_out.raw_induct [where P = "\<lambda>p n out r. p = 0 \<or> (n \<noteq> 0 \<and> \<bar>p\<bar> \<noteq> 1)", OF _ assms])
  fix loop :: "int \<Rightarrow> int \<Rightarrow> vs_effect list \<Rightarrow> (mp_error \<times> vs_effect list + int \<times> vs_effect list) option"
  fix p n :: int and out r
  assume IH: "\<And>p n out r. loop p n out = Some r \<Longrightarrow> p = 0 \<or> (n \<noteq> 0 \<and> \<bar>p\<bar> \<noteq> 1)"
  assume body: "(case mod512 n p of Inl e \<Rightarrow> Some (Inl (e, out))
      | Inr r \<Rightarrow> if r \<noteq> 0 then Some (Inr (n, out))
          else case div512 n p of Inl e \<Rightarrow> Some (Inl (e, out))
            | Inr q \<Rightarrow> loop p q (out @ [Eff_print (Out_factor p)])) = Some r"
  show "p = 0 \<or> (n \<noteq> 0 \<and> \<bar>p\<bar> \<noteq> 1)"
  proof (rule ccontr)
    assume "\<not> ?thesis"
    then have p: "p \<noteq> 0" "n = 0 \<or> \<bar>p\<bar> = 1" by blast+
    then have "p dvd n" by (metis abs_dvd_iff dvd_0_right one_dvd)
    with body p have "loop p (tquot n p) (out @ [Eff_print (Out_factor p)]) = Some r"
      by (simp add: mod512_def div512_def trem_0_iff)
    from IH [OF this] p have "tquot n p \<noteq> 0" "\<bar>p\<bar> \<noteq> 1" by blast+
    with p show False by (auto simp: tquot_def)
  qed
qed

section \<open>Properties\<close>

lemma client_factor_power:
  assumes "p \<noteq> 0" "\<not> p dvd m" "cl_n c = p ^ k * m" "cl_server c = Some g"
  shows "client_factor env c p nc nt =
    (let printed = Eff_print (Out_line ''client: got factor: '') # replicate (Suc k) (Eff_print (Out_factor p));
         cycles = add512 (cl_cycles c) nc
     in if tquot m p = 1
        then Some (Inr (c, printed @ [Eff_print (Out_line ''***** PRIME FACTORISATION *****''),
               Eff_print (Out_done (cl_clock env - (cl_cpu_time c + nt)) (cl_now env - cl_wall_time c) cycles)]))
        else Some (Inr (c\<lparr>cl_n := m, cl_cycles := cycles, cl_cpu_time := cl_cpu_time c + nt\<rparr>,
               printed @ [Eff_send g (Calculate m), Eff_print (Out_line ''client: client()'')])))"
  using assms
  by (simp add: client_factor_def divide_out_power div512_def client_start_def send_server_def Let_def
      replicate_append_same)

text \<open>
  A connected client that receives a factor \<open>p\<close> of its number, \<open>|p| > 1\<close>, always returns
  from the handler: it prints \<open>p\<close> once more often than \<open>p\<close> divides its number, and goes on
  with the cofactor, which \<open>p\<close> does not divide, by asking the server group for it, unless
  the truncated quotient of that cofactor by \<open>p\<close> is 1.
\<close>

theorem client_divides_out:
  assumes "1 < \<bar>p\<bar>" "cl_n c \<noteq> 0" "cl_server c = Some g"
  shows "\<exists>k m c' effs. cl_n c = p ^ k * m \<and> \<not> p dvd m
    \<and> client_factor env c p nc nt = Some (Inr (c', effs))
    \<and> length (filter (\<lambda>e. e = Eff_print (Out_factor p)) effs) = Suc k
    \<and> (if tquot m p = 1 then c' = c \<and> (\<forall>h x. Eff_send h x \<notin> set effs)
       else cl_n c' = m \<and> cl_cycles c' = add512 (cl_cycles c) nc \<and> Eff_send g (Calculate m) \<in> set effs)"
proof -
  from assms(1,2) obtain k m where n: "cl_n c = p ^ k * m" "\<not> p dvd m" by (rule split_power)
  have "p \<noteq> 0" using assms(1) by auto
  note res = client_factor_power [OF this n(2,1) assms(3), of env nc nt]
  show ?thesis
    by (rule exI [of _ k], rule exI [of _ m]) (use n in \<open>auto simp: res Let_def\<close>)
qed

theorem client_divides_out_witness:
  "\<exists>k m c' effs. (12::int) = 2 ^ k * m \<and> \<not> 2 dvd m
    \<and> client_factor \<lparr>cl_clock = 0, cl_now = 0\<rparr> ((run_client ''h'' 1 12 0)\<lparr>cl_server := Some Cmgroup\<rparr>) 2 0 0
        = Some (Inr (c', effs))
    \<and> length (filter (\<lambda>e. e = Eff_print (Out_factor 2)) effs) = Suc k"
  using client_divides_out [of 2 "(run_client ''h'' 1 12 0)\<lparr>cl_server := Some Cmgroup\<rparr>" Cmgroup
      "\<lparr>cl_clock = 0, cl_now = 0\<rparr>" 0 0]
  by (simp add: run_client_def) blast

text \<open>
  The handler of a factor returns, normally or by the division error, unless the factor
  is a unit or the client's number is 0: in these cases its division loop never ends.
\<close>

theorem client_factor_returns_iff:
  "(\<exists>r. client_factor env c p nc nt = Some r) \<longleftrightarrow> p = 0 \<or> (cl_n c \<noteq> 0 \<and> \<bar>p\<bar> \<noteq> 1)"
proof
  assume "\<exists>r. client_factor env c p nc nt = Some r"
  then obtain r where
    "divide_out p (cl_n c) [Eff_print (Out_line ''client: got factor: ''), Eff_print (Out_factor p)] = Some r"
    by (auto simp: client_factor_def Let_def split: option.splits)
  then show "p = 0 \<or> (cl_n c \<noteq> 0 \<and> \<bar>p\<bar> \<noteq> 1)" by (rule divide_out_loops)
next
  assume r: "p = 0 \<or> (cl_n c \<noteq> 0 \<and> \<bar>p\<bar> \<noteq> 1)"
  show "\<exists>r. client_factor env c p nc nt = Some r"
  proof (cases "p = 0")
    case True
    then show ?thesis by (simp add: client_factor_def divide_out.simps [of 0] mod512_def Let_def)
  next
    case False
    with r have "1 < \<bar>p\<bar>" "cl_n c \<noteq> 0" by auto
    then obtain k m where "cl_n c = p ^ k * m" "\<not> p dvd m" by (rule split_power)
    with False show ?thesis
      by (simp add: client_factor_def divide_out_power div512_def Let_def split: prod.split)
  qed
qed

text \<open>
  The completion test compares the quotient by \<open>p\<close> and not the cofactor with 1. For a
  number fully divided out (the cofactor is 1) the client does not report completion but
  asks for the factors of 1; it reports completion exactly when the cofactor lies strictly
  between \<open>p\<close> and \<open>2 p\<close>, and then the cofactor is never printed.
\<close>

theorem client_completion_test:
  assumes "1 < p" "0 < m" "\<not> p dvd m" "cl_n c = p ^ k * m" "cl_server c = Some g"
  shows "\<exists>c' effs. client_factor env c p nc nt = Some (Inr (c', effs))
    \<and> ((\<exists>t w z. Eff_print (Out_done t w z) \<in> set effs) \<longleftrightarrow> p < m \<and> m < 2 * p)
    \<and> (\<forall>q. Eff_print (Out_factor q) \<in> set effs \<longrightarrow> q = p)
    \<and> (m = 1 \<longrightarrow> Eff_send g (Calculate 1) \<in> set effs)"
proof -
  have q: "tquot m p = 1 \<longleftrightarrow> p < m \<and> m < 2 * p"
  proof -
    have "m \<noteq> p" using assms(3) by auto
    moreover have "tquot m p = m div p" using assms(1,2) by (simp add: tquot_def)
    moreover have "m div p = 1 \<longleftrightarrow> p \<le> m \<and> m < 2 * p"
    proof
      assume "m div p = 1"
      then have "p + m mod p = m" using div_mult_mod_eq [of m p] by simp
      moreover have "0 \<le> m mod p" "m mod p < p" using assms(1) by simp_all
      ultimately show "p \<le> m \<and> m < 2 * p" by linarith
    next
      assume "p \<le> m \<and> m < 2 * p"
      then show "m div p = 1" using assms(1) by (intro int_div_pos_eq [where r = "m - p"]) auto
    qed
    ultimately show ?thesis by auto
  qed
  have "p \<noteq> 0" using assms(1) by auto
  note res = client_factor_power [OF this assms(3-5), of env nc nt]
  show ?thesis using assms(1) by (auto simp: res q Let_def)
qed

theorem client_completion_test_witness:
  "\<exists>c' effs. client_factor \<lparr>cl_clock = 0, cl_now = 0\<rparr> ((run_client ''h'' 1 15 0)\<lparr>cl_server := Some Cmgroup\<rparr>) 3 0 0
      = Some (Inr (c', effs)) \<and> (\<exists>t w z. Eff_print (Out_done t w z) \<in> set effs)
    \<and> Eff_print (Out_factor 5) \<notin> set effs"
proof -
  have "(\<not> (3::int) dvd 5)" by simp
  from client_completion_test [OF _ _ this, of "(run_client ''h'' 1 15 0)\<lparr>cl_server := Some Cmgroup\<rparr>" 1 Cmgroup
      "\<lparr>cl_clock = 0, cl_now = 0\<rparr>" 0 0] show ?thesis
    by (simp add: run_client_def) force
qed

text \<open>
  The projection \<open>long_arg\<close> accepts the decimal notation of every number, with or without
  a minus sign, and gives the number itself if it fits a \<open>long\<close> and the nearest bound
  otherwise; it also accepts the empty argument, as 0.
\<close>

theorem long_arg_decimal:
  "long_arg ((if neg then ''-'' else []) @ decimal n) =
      Some (max LONG_MIN (min LONG_MAX (if neg then - int n else int n))) \<and> long_arg [] = Some 0"
proof
  show "long_arg ((if neg then ''-'' else []) @ decimal n) =
      Some (max LONG_MIN (min LONG_MAX (if neg then - int n else int n)))"
    unfolding long_arg_def strtol_def parse_signed_decimal by simp
qed (simp add: long_arg_def strtol_def parse_signed_def scan_number_def)

end
