(* ===== verification/Group_Manager.thy ===== *)
theory Group_Manager
  imports Prelude "HOL-Library.AList"
begin

text \<open>
  Groups (libcaf_core/src/group_manager.cpp): the local group with its broker, the proxy of a
  group of another node with its proxy broker, the module that hands out group instances, and
  the group manager. Actors are numbers, an \<open>actor_addr\<close> is an optional number. The locale
  \<open>group_bus\<close> is what an application relies on when it sends to a group.
\<close>

section \<open>Definitions\<close>

subsection \<open>Messages\<close>

text \<open>What the brokers distinguish: their control messages and everything else.\<close>

datatype 'm gmsg =
    User 'm
  | JOIN "nat option"
  | LEAVE "nat option"
  | FORWARD "'m gmsg"
  | DOWN

text \<open>A delivery: receiver, sender, content.\<close>

type_synonym 'm delivery = "nat \<times> nat option \<times> 'm gmsg"

subsection \<open>Local groups\<close>

record local_group =
  subscribers :: "nat list"    \<comment> \<open>\<open>m_subscribers\<close>\<close>
  group_broker :: nat          \<comment> \<open>\<open>m_broker\<close>\<close>

definition send_all_subscribers :: "'z local_group_scheme \<Rightarrow> nat option \<Rightarrow> 'm gmsg \<Rightarrow> 'm delivery list" where
  "send_all_subscribers g sender msg = map (\<lambda>s. (s, sender, msg)) (subscribers g)"

definition local_group_enqueue :: "local_group \<Rightarrow> nat option \<Rightarrow> 'm gmsg \<Rightarrow> 'm delivery list" where
  "local_group_enqueue g sender msg = send_all_subscribers g sender msg @ [(group_broker g, sender, msg)]"

definition add_subscriber :: "'z local_group_scheme \<Rightarrow> nat option \<Rightarrow> 'z local_group_scheme \<times> bool \<times> nat" where
  "add_subscriber g who = (case who of
      None \<Rightarrow> (g, False, length (subscribers g))
    | Some a \<Rightarrow>
        let (subs, inserted) = oset_insert a (subscribers g)
        in if inserted then (g\<lparr>subscribers := subs\<rparr>, True, length subs)
           else (g, False, length (subscribers g)))"

definition erase_subscriber :: "'z local_group_scheme \<Rightarrow> nat option \<Rightarrow> 'z local_group_scheme \<times> bool \<times> nat" where
  "erase_subscriber g who = (case who of
      None \<Rightarrow> (g, False, length (subscribers g))
    | Some a \<Rightarrow>
        let (subs, success) = oset_erase a (subscribers g)
        in (g\<lparr>subscribers := subs\<rparr>, success, length subs))"

text \<open>The Boolean is whether a \<open>subscription\<close> attachable is returned.\<close>

definition subscribe :: "local_group \<Rightarrow> nat option \<Rightarrow> local_group \<times> bool" where
  "subscribe g who = (let (g', added, n) = add_subscriber g who in (g', added))"

definition unsubscribe :: "local_group \<Rightarrow> nat option \<Rightarrow> local_group" where
  "unsubscribe g who = fst (erase_subscriber g who)"

subsection \<open>The broker of a local group\<close>

record local_broker =
  acquaintances :: "nat list"    \<comment> \<open>\<open>m_acquaintances\<close>\<close>
  monitored :: "nat list"        \<comment> \<open>actors the broker monitors\<close>

definition send_to_acquaintances :: "local_broker \<Rightarrow> nat option \<Rightarrow> 'm gmsg \<Rightarrow> 'm delivery list" where
  "send_to_acquaintances b sender what = map (\<lambda>a. (a, sender, what)) (acquaintances b)"

definition local_broker_handle ::
  "local_group \<Rightarrow> local_broker \<Rightarrow> nat option \<Rightarrow> 'm gmsg \<Rightarrow> local_broker \<times> 'm delivery list" where
  "local_broker_handle g b sender msg = (case msg of
      JOIN other \<Rightarrow> (case other of
          None \<Rightarrow> (b, [])
        | Some o' \<Rightarrow>
            let (acq, inserted) = oset_insert o' (acquaintances b)
            in if inserted then (b\<lparr>acquaintances := acq, monitored := o' # monitored b\<rparr>, []) else (b, []))
    | LEAVE other \<Rightarrow> (case other of
          None \<Rightarrow> (b, [])
        | Some o' \<Rightarrow>
            let (acq, erased) = oset_erase o' (acquaintances b)
            in if erased then (b\<lparr>acquaintances := acq, monitored := removeAll o' (monitored b)\<rparr>, []) else (b, []))
    | FORWARD what \<Rightarrow> (b, send_all_subscribers g sender what @ send_to_acquaintances b sender what)
    | DOWN \<Rightarrow> (case sender of
          None \<Rightarrow> (b, [])
        | Some s \<Rightarrow> (b\<lparr>acquaintances := fst (oset_erase s (acquaintances b))\<rparr>, []))
    | User _ \<Rightarrow> (b, send_to_acquaintances b sender msg))"

subsection \<open>Proxies of remote groups\<close>

record local_group_proxy = local_group +
  proxy_broker :: nat    \<comment> \<open>\<open>m_proxy_broker\<close>; \<open>group_broker\<close> is the broker of the origin\<close>

text \<open>The result lists what is sent to the broker of the origin.\<close>

definition proxy_subscribe ::
  "local_group_proxy \<Rightarrow> nat option \<Rightarrow> local_group_proxy \<times> bool \<times> 'm delivery list" where
  "proxy_subscribe g who =
     (let (g', added, n) = add_subscriber g who
      in if added
         then (g', True, if n = 1 then [(group_broker g, None, JOIN (Some (proxy_broker g)))] else [])
         else (g', False, []))"

definition proxy_unsubscribe :: "local_group_proxy \<Rightarrow> nat option \<Rightarrow> local_group_proxy \<times> 'm delivery list" where
  "proxy_unsubscribe g who =
     (let (g', erased, n) = erase_subscriber g who
      in (g', if erased \<and> n = 0 then [(group_broker g, None, LEAVE (Some (proxy_broker g)))] else []))"

definition proxy_enqueue :: "local_group_proxy \<Rightarrow> nat option \<Rightarrow> 'm gmsg \<Rightarrow> 'm delivery list" where
  "proxy_enqueue g sender msg = [(group_broker g, sender, FORWARD msg)]"

definition proxy_broker_handle :: "local_group_proxy \<Rightarrow> nat option \<Rightarrow> 'm gmsg \<Rightarrow> 'm delivery list" where
  "proxy_broker_handle g sender msg = send_all_subscribers g sender msg"

subsection \<open>The local group module\<close>

text \<open>Group instances are numbered; a proxy instance belongs to a remote broker. A new
  local instance spawns its broker.\<close>

record local_group_module =
  m_instances :: "(string \<times> nat) list"
  m_proxies :: "(nat \<times> nat) list"
  next_instance :: nat

definition module_get :: "local_group_module \<Rightarrow> string \<Rightarrow> local_group_module \<times> nat" where
  "module_get md identifier = (case map_of (m_instances md) identifier of
      Some i \<Rightarrow> (md, i)
    | None \<Rightarrow> (md\<lparr>m_instances := (identifier, next_instance md) # m_instances md,
                  next_instance := Suc (next_instance md)\<rparr>, next_instance md))"

text \<open>\<open>deserialize\<close>, given the identifier and the broker that were read; \<open>remote\<close> tells
  whether an actor is remote. \<open>None\<close> is \<open>invalid_group\<close>.\<close>

definition module_deserialize ::
  "(nat \<Rightarrow> bool) \<Rightarrow> local_group_module \<Rightarrow> string \<times> nat option \<Rightarrow> local_group_module \<times> nat option" where
  "module_deserialize remote md source = (let (identifier, broker) = source in
     case broker of
       None \<Rightarrow> (md, None)
     | Some b \<Rightarrow>
         if \<not> remote b then (let (md', i) = module_get md identifier in (md', Some i))
         else (case map_of (m_proxies md) b of
             Some i \<Rightarrow> (md, Some i)
           | None \<Rightarrow> (md\<lparr>m_proxies := (b, next_instance md) # m_proxies md,
                         next_instance := Suc (next_instance md)\<rparr>, Some (next_instance md))))"

subsection \<open>The group manager\<close>

datatype gm_error = No_module string | Module_defined string

text \<open>Modules by name; all modules are modelled by the same type.\<close>

record group_manager =
  m_mmap :: "(string \<times> local_group_module) list"
  m_ad_hoc_id :: nat

definition empty_module :: local_group_module where
  "empty_module = \<lparr>m_instances = [], m_proxies = [], next_instance = 0\<rparr>"

definition group_manager_new :: group_manager where
  "group_manager_new = \<lparr>m_mmap = [(''local'', empty_module)], m_ad_hoc_id = 0\<rparr>"

definition get_module :: "group_manager \<Rightarrow> string \<Rightarrow> local_group_module option" where
  "get_module gm mname = map_of (m_mmap gm) mname"

definition gm_get :: "group_manager \<Rightarrow> string \<Rightarrow> string \<Rightarrow> gm_error + group_manager \<times> nat" where
  "gm_get gm module_name group_identifier = (case get_module gm module_name of
      Some md \<Rightarrow> (let (md', i) = module_get md group_identifier
                  in Inr (gm\<lparr>m_mmap := AList.update module_name md' (m_mmap gm)\<rparr>, i))
    | None \<Rightarrow> Inl (No_module module_name))"

definition gm_anonymous :: "group_manager \<Rightarrow> gm_error + group_manager \<times> nat" where
  "gm_anonymous gm =
     (let n = Suc (m_ad_hoc_id gm)
      in gm_get (gm\<lparr>m_ad_hoc_id := n\<rparr>) ''local'' (''__#'' @ decimal n))"

definition add_module :: "group_manager \<Rightarrow> (string \<times> local_group_module) option \<Rightarrow> gm_error + group_manager" where
  "add_module gm mptr = (case mptr of
      None \<Rightarrow> Inr gm
    | Some (mname, md) \<Rightarrow>
        if map_of (m_mmap gm) mname = None then Inr (gm\<lparr>m_mmap := (mname, md) # m_mmap gm\<rparr>)
        else Inl (Module_defined mname))"

section \<open>The interface of a group\<close>

text \<open>
  What a sender relies on: members come and go by the two operations, and a message is
  delivered to every member exactly once, whoever sent it.
\<close>

locale group_bus =
  fixes valid :: "'g \<Rightarrow> bool"
    and members :: "'g \<Rightarrow> nat set"
    and join :: "'g \<Rightarrow> nat \<Rightarrow> 'g"
    and leave :: "'g \<Rightarrow> nat \<Rightarrow> 'g"
    and publish :: "'g \<Rightarrow> nat option \<Rightarrow> 'c \<Rightarrow> (nat \<times> nat option \<times> 'c) list"
  assumes join_valid: "valid g \<Longrightarrow> valid (join g a)"
    and leave_valid: "valid g \<Longrightarrow> valid (leave g a)"
    and join_members: "valid g \<Longrightarrow> members (join g a) = insert a (members g)"
    and leave_members: "valid g \<Longrightarrow> members (leave g a) = members g - {a}"
    and publish_distinct: "valid g \<Longrightarrow> distinct (map fst (publish g s c))"
    and publish_set: "valid g \<Longrightarrow> set (publish g s c) = (\<lambda>a. (a, s, c)) ` members g"
begin

lemma published_once:
  assumes "valid g"
  shows "length (filter (\<lambda>d. fst d = a) (publish g s c)) = (if a \<in> members g then 1 else 0)"
proof -
  have "length (filter (\<lambda>d. fst d = a) (publish g s c)) = count_list (map fst (publish g s c)) a"
    by (simp add: count_list_eq_length_filter filter_map comp_def eq_commute)
  also have "\<dots> = (if a \<in> set (map fst (publish g s c)) then 1 else 0)"
    using publish_distinct [OF assms] by (simp add: distinct_count_list)
  also have "set (map fst (publish g s c)) = members g"
    using publish_set [OF assms] by (simp add: image_image)
  finally show ?thesis .
qed

lemma sender_receives:
  "valid g \<Longrightarrow> a \<in> members g \<Longrightarrow> (a, Some a, c) \<in> set (publish g (Some a) c)"
  by (simp add: publish_set)

lemma joined_receives: "valid g \<Longrightarrow> (a, s, c) \<in> set (publish (join g a) s c)"
  by (simp add: publish_set join_valid join_members)

lemma left_receives_nothing: "valid g \<Longrightarrow> (a, s', c') \<notin> set (publish (leave g a) s c)"
  by (auto simp: publish_set leave_valid leave_members)

end

definition valid_group :: "local_group \<Rightarrow> bool" where
  "valid_group g \<longleftrightarrow> oset (subscribers g)"

lemma subscribe_Some:
  "fst (subscribe g (Some a)) = g\<lparr>subscribers := fst (oset_insert a (subscribers g))\<rparr>"
  "snd (subscribe g (Some a)) \<longleftrightarrow> a \<notin> set (subscribers g)"
  by (auto simp: subscribe_def add_subscriber_def oset_insert_def Let_def)

lemma unsubscribe_Some:
  "unsubscribe g (Some a) = g\<lparr>subscribers := fst (oset_erase a (subscribers g))\<rparr>"
  by (simp add: unsubscribe_def erase_subscriber_def split_beta Let_def)

interpretation lgrp: group_bus valid_group "\<lambda>g. set (subscribers g)" "\<lambda>g a. fst (subscribe g (Some a))"
  "\<lambda>g a. unsubscribe g (Some a)" send_all_subscribers
  by unfold_locales
    (auto simp: valid_group_def subscribe_Some unsubscribe_Some send_all_subscribers_def comp_def)

section \<open>A group and its proxies\<close>

text \<open>
  The origin node with its local group and broker, and the nodes that hold a proxy, named by
  their proxy brokers. The mailboxes of the brokers are queues.
\<close>

record 'm gsys =
  nodes :: "nat set"
  home :: local_group
  brk :: local_broker
  brk_box :: "(nat option \<times> 'm gmsg) list"
  proxies :: "nat \<Rightarrow> local_group_proxy"
  proxy_box :: "nat \<Rightarrow> (nat option \<times> 'm gmsg) list"

text \<open>The part of a list of deliveries that goes to one actor.\<close>

definition delivered_to :: "nat \<Rightarrow> 'm delivery list \<Rightarrow> (nat option \<times> 'm gmsg) list" where
  "delivered_to a ds = map snd (filter (\<lambda>d. fst d = a) ds)"

inductive gsys_step :: "'m gsys \<Rightarrow> 'm gsys \<Rightarrow> bool" where
  home_join: "a \<notin> nodes s \<Longrightarrow> gsys_step s (s\<lparr>home := fst (subscribe (home s) (Some a))\<rparr>)"
| home_leave: "gsys_step s (s\<lparr>home := unsubscribe (home s) (Some a)\<rparr>)"
| home_send: "gsys_step s (s\<lparr>brk_box := brk_box s @ [(sender, User m)]\<rparr>)"
| proxy_join: "i \<in> nodes s \<Longrightarrow> proxy_subscribe (proxies s i) (Some a) = (g', added, ds) \<Longrightarrow>
    gsys_step s (s\<lparr>proxies := (proxies s)(i := g'), brk_box := brk_box s @ map snd ds\<rparr>)"
| proxy_leave: "i \<in> nodes s \<Longrightarrow> proxy_unsubscribe (proxies s i) (Some a) = (g', ds) \<Longrightarrow>
    gsys_step s (s\<lparr>proxies := (proxies s)(i := g'), brk_box := brk_box s @ map snd ds\<rparr>)"
| proxy_send: "i \<in> nodes s \<Longrightarrow>
    gsys_step s (s\<lparr>brk_box := brk_box s @ map snd (proxy_enqueue (proxies s i) sender (User m))\<rparr>)"
| broker: "brk_box s = (sender, msg) # rest \<Longrightarrow> local_broker_handle (home s) (brk s) sender msg = (b', ds) \<Longrightarrow>
    gsys_step s (s\<lparr>brk := b', brk_box := rest,
      proxy_box := (\<lambda>i. proxy_box s i @ (if i \<in> nodes s then delivered_to i ds else []))\<rparr>)"
| proxy: "proxy_box s i = d # rest \<Longrightarrow> gsys_step s (s\<lparr>proxy_box := (proxy_box s)(i := rest)\<rparr>)"

definition gsys_init :: "'m gsys \<Rightarrow> bool" where
  "gsys_init s \<longleftrightarrow> subscribers (home s) = [] \<and> acquaintances (brk s) = [] \<and> brk_box s = []
     \<and> (\<forall>i. subscribers (proxies s i) = [] \<and> proxy_broker (proxies s i) = i)"

inductive gsys_reach :: "'m gsys \<Rightarrow> bool" where
  init: "gsys_init s \<Longrightarrow> gsys_reach s"
| step: "gsys_reach s \<Longrightarrow> gsys_step s s' \<Longrightarrow> gsys_reach s'"

text \<open>Whether node \<open>i\<close> is an acquaintance after the broker has handled the pending messages.\<close>

fun joined_after :: "nat \<Rightarrow> bool \<Rightarrow> (nat option \<times> 'm gmsg) list \<Rightarrow> bool" where
  "joined_after i j [] = j"
| "joined_after i j ((s, m) # ms) =
     joined_after i (case m of JOIN (Some k) \<Rightarrow> if k = i then True else j
                             | LEAVE (Some k) \<Rightarrow> if k = i then False else j | _ \<Rightarrow> j) ms"

definition gsys_inv :: "'m gsys \<Rightarrow> bool" where
  "gsys_inv s \<longleftrightarrow> valid_group (home s) \<and> oset (acquaintances (brk s))
     \<and> set (subscribers (home s)) \<inter> nodes s = {}
     \<and> (\<forall>x\<in>set (brk_box s). snd x \<noteq> DOWN)
     \<and> (\<forall>i. oset (subscribers (proxies s i)) \<and> proxy_broker (proxies s i) = i
          \<and> joined_after i (i \<in> set (acquaintances (brk s))) (brk_box s) = (subscribers (proxies s i) \<noteq> []))"

lemma joined_after_append [simp]: "joined_after i j (xs @ ys) = joined_after i (joined_after i j xs) ys"
  by (induction i j xs rule: joined_after.induct) auto

text \<open>The first subscriber of a proxy announces the node, the last one that leaves retracts it.\<close>

lemma proxy_subscribe_effect:
  assumes "oset (subscribers g)" "proxy_subscribe g (Some a) = (g', added, ds)"
  shows "oset (subscribers g') \<and> proxy_broker g' = proxy_broker g \<and> subscribers g' \<noteq> []
    \<and> ds = (if subscribers g = [] then [(group_broker g, None, JOIN (Some (proxy_broker g)))] else [])"
proof (cases "a \<in> set (subscribers g)")
  case True
  with assms show ?thesis
    by (auto simp: proxy_subscribe_def add_subscriber_def oset_insert_def)
next
  case False
  then have "g' = g\<lparr>subscribers := insort a (subscribers g)\<rparr>"
    "ds = (if subscribers g = [] then [(group_broker g, None, JOIN (Some (proxy_broker g)))] else [])"
    using assms(2) by (auto simp: proxy_subscribe_def add_subscriber_def oset_insert_def)
  with False oset_insert_oset [OF assms(1), of a] show ?thesis by (simp add: oset_insert_def)
qed

lemma proxy_unsubscribe_effect:
  assumes "oset (subscribers g)" "proxy_unsubscribe g (Some a) = (g', ds)"
  shows "oset (subscribers g') \<and> proxy_broker g' = proxy_broker g
    \<and> ds = (if subscribers g \<noteq> [] \<and> subscribers g' = [] then [(group_broker g, None, LEAVE (Some (proxy_broker g)))] else [])
    \<and> (subscribers g = [] \<longrightarrow> subscribers g' = [])"
proof -
  have g': "g' = g\<lparr>subscribers := remove1 a (subscribers g)\<rparr>"
    using assms(2) by (auto simp: proxy_unsubscribe_def erase_subscriber_def oset_erase_def)
  have "oset (subscribers g')" using oset_erase_oset [OF assms(1), of a] g' by (simp add: oset_erase_def)
  moreover have "a \<notin> set (subscribers g) \<Longrightarrow> subscribers g' = subscribers g"
    using g' by (simp add: remove1_idem)
  moreover have "ds = (if a \<in> set (subscribers g) \<and> subscribers g' = []
      then [(group_broker g, None, LEAVE (Some (proxy_broker g)))] else [])"
    using assms(2) g' by (auto simp: proxy_unsubscribe_def erase_subscriber_def oset_erase_def)
  ultimately show ?thesis using g' by (cases "a \<in> set (subscribers g)") auto
qed

lemma broker_joined:
  assumes "local_broker_handle g b sender msg = (b', ds)" "oset (acquaintances b)" "msg \<noteq> DOWN"
  shows "oset (acquaintances b') \<and> joined_after i (i \<in> set (acquaintances b')) rest =
    joined_after i (i \<in> set (acquaintances b)) ((sender, msg) # rest)"
proof (cases msg)
  case (JOIN x)
  then show ?thesis
    using assms oset_insert_oset [OF assms(2)] oset_insert_set [of _ "acquaintances b"]
    by (cases x) (auto simp: local_broker_handle_def split_beta Let_def split: if_splits)
next
  case (LEAVE x)
  then show ?thesis
    using assms oset_erase_oset [OF assms(2)] oset_erase_set [OF assms(2)]
    by (cases x) (auto simp: local_broker_handle_def split_beta Let_def split: if_splits)
qed (use assms in \<open>auto simp: local_broker_handle_def\<close>)

text \<open>A change of one proxy, with the message it announces, keeps the bookkeeping.\<close>

lemma gsys_inv_proxy_update:
  assumes "gsys_inv s" "oset (subscribers g')" "proxy_broker g' = i" "\<forall>x\<in>set ms. snd x \<noteq> DOWN"
    and "\<And>k j. joined_after k j ms =
      (if k = i then (if ms = [] then j else subscribers g' \<noteq> []) else j)"
    and "ms = [] \<Longrightarrow> (subscribers g' \<noteq> []) = (subscribers (proxies s i) \<noteq> [])"
  shows "gsys_inv (s\<lparr>proxies := (proxies s)(i := g'), brk_box := brk_box s @ ms\<rparr>)"
  using assms by (auto simp: gsys_inv_def)

lemma gsys_step_inv: "gsys_step s s' \<Longrightarrow> gsys_inv s \<Longrightarrow> gsys_inv s'"
proof (induction rule: gsys_step.induct)
  case (home_join a s)
  then show ?case
    using lgrp.join_valid [of "home s" a] by (simp add: gsys_inv_def subscribe_Some)
next
  case (home_leave s a)
  then show ?case
    using lgrp.leave_valid [of "home s" a] lgrp.leave_members [of "home s" a] by (auto simp: gsys_inv_def)
next
  case (home_send s sender m)
  then show ?case by (simp add: gsys_inv_def)
next
  case (proxy_join i s a g' added ds)
  then have g: "oset (subscribers (proxies s i))" "proxy_broker (proxies s i) = i" by (simp_all add: gsys_inv_def)
  from proxy_subscribe_effect [OF g(1) proxy_join(2)] g(2) proxy_join(3) show ?case
    by (intro gsys_inv_proxy_update) (auto split: if_splits)
next
  case (proxy_leave i s a g' ds)
  then have g: "oset (subscribers (proxies s i))" "proxy_broker (proxies s i) = i" by (simp_all add: gsys_inv_def)
  from proxy_unsubscribe_effect [OF g(1) proxy_leave(2)] g(2) proxy_leave(3) show ?case
    by (intro gsys_inv_proxy_update) (auto split: if_splits)
next
  case (proxy_send i s sender m)
  then show ?case by (simp add: gsys_inv_def proxy_enqueue_def)
next
  case (broker s sender msg rest b' ds)
  then have "oset (acquaintances (brk s))" "msg \<noteq> DOWN" by (simp_all add: gsys_inv_def)
  from broker_joined [OF broker(2) this] broker(1,3) show ?case by (simp add: gsys_inv_def)
next
  case (proxy s i d rest)
  then show ?case by (simp add: gsys_inv_def)
qed

lemma gsys_reach_inv: "gsys_reach s \<Longrightarrow> gsys_inv s"
proof (induction rule: gsys_reach.induct)
  case (init s)
  then show ?case by (simp add: gsys_init_def gsys_inv_def valid_group_def)
qed (blast intro: gsys_step_inv)

lemma delivered_to_append [simp]: "delivered_to a (xs @ ys) = delivered_to a xs @ delivered_to a ys"
  by (simp add: delivered_to_def)

lemma delivered_to_Nil [simp]: "delivered_to a [] = []"
  by (simp add: delivered_to_def)

lemma delivered_to_once:
  "distinct xs \<Longrightarrow> delivered_to a (map (\<lambda>s. (s, sender, msg)) xs) = (if a \<in> set xs then [(sender, msg)] else [])"
  by (induction xs) (auto simp: delivered_to_def)

section \<open>Properties\<close>


definition gsys_example :: "nat gsys" where
  "gsys_example = \<lparr>nodes = {7}, home = \<lparr>subscribers = [], group_broker = 0\<rparr>,
     brk = \<lparr>acquaintances = [], monitored = []\<rparr>, brk_box = [],
     proxies = (\<lambda>i. \<lparr>subscribers = [], group_broker = 0, proxy_broker = i\<rparr>), proxy_box = (\<lambda>i. [])\<rparr>"

lemma gsys_example_reach: "gsys_reach gsys_example"
  by (rule gsys_reach.init) (simp add: gsys_init_def gsys_example_def)


text \<open>What the subscribers of node \<open>i\<close> receive when its proxy broker has handled the messages
  in a list of deliveries.\<close>

definition node_deliveries :: "'m gsys \<Rightarrow> nat \<Rightarrow> 'm delivery list \<Rightarrow> 'm delivery list" where
  "node_deliveries s i ds = concat (map (\<lambda>(sender, msg). proxy_broker_handle (proxies s i) sender msg) (delivered_to i ds))"

text \<open>
  A message sent to a group through the proxy of any node reaches, once the announcements
  are handled, every subscriber exactly once: those of the origin directly from its broker,
  those of each other node, the sending one included, through that node's proxy broker.
\<close>

theorem group_message_reaches_all_once:
  assumes "gsys_reach s" "brk_box s = []" "i \<in> nodes s" "a \<notin> set (acquaintances (brk s))"
    and "local_broker_handle (home s) (brk s) sender (FORWARD (User m)) = (b', ds)"
  shows "delivered_to a ds = (if a \<in> set (subscribers (home s)) then [(sender, User m)] else [])
    \<and> delivered_to c (node_deliveries s i ds) =
      (if c \<in> set (subscribers (proxies s i)) then [(sender, User m)] else [])"
proof -
  have inv: "gsys_inv s" using assms(1) by (rule gsys_reach_inv)
  then have d: "distinct (subscribers (home s))" "distinct (acquaintances (brk s))"
      "distinct (subscribers (proxies s i))" "i \<notin> set (subscribers (home s))"
    using assms(3) by (auto simp: gsys_inv_def valid_group_def)
  from inv assms(2) have i: "i \<in> set (acquaintances (brk s)) \<longleftrightarrow> subscribers (proxies s i) \<noteq> []"
    by (simp add: gsys_inv_def)
  from assms(5) have ds: "ds = map (\<lambda>s. (s, sender, User m)) (subscribers (home s))
      @ map (\<lambda>s. (s, sender, User m)) (acquaintances (brk s))"
    by (auto simp: local_broker_handle_def send_all_subscribers_def send_to_acquaintances_def)
  from d i show ?thesis
    using assms(4)
    by (simp add: ds delivered_to_once node_deliveries_def proxy_broker_handle_def send_all_subscribers_def)
qed

definition gsys_example_home :: "nat gsys" where
  "gsys_example_home = gsys_example\<lparr>home := fst (subscribe (home gsys_example) (Some 1))\<rparr>"

lemma gsys_example_home_reach: "gsys_reach gsys_example_home"
  unfolding gsys_example_home_def
  by (rule gsys_reach.step [OF gsys_example_reach], rule gsys_step.home_join) (simp add: gsys_example_def)

theorem group_message_reaches_all_once_witness:
  "delivered_to 1 (snd (local_broker_handle (home gsys_example_home) (brk gsys_example_home) (Some 3)
     (FORWARD (User (5::nat))))) = [(Some 3, User 5)]"
proof -
  have h: "local_broker_handle (home gsys_example_home) (brk gsys_example_home) (Some 3) (FORWARD (User (5::nat)))
      = (brk gsys_example_home, [(1, Some 3, User 5)])"
    by (simp add: gsys_example_home_def gsys_example_def subscribe_Some oset_insert_def local_broker_handle_def
        send_all_subscribers_def send_to_acquaintances_def)
  from group_message_reaches_all_once [OF gsys_example_home_reach _ _ _ h, of 7 1] show ?thesis
    unfolding h by (simp add: gsys_example_home_def gsys_example_def subscribe_Some)
qed

text \<open>The instances a module has handed out are different numbers below its counter.\<close>

definition module_wf :: "local_group_module \<Rightarrow> bool" where
  "module_wf md \<longleftrightarrow> distinct (map snd (m_instances md) @ map snd (m_proxies md))
     \<and> (\<forall>i\<in>snd ` set (m_instances md) \<union> snd ` set (m_proxies md). i < next_instance md)"

lemma module_get_wf:
  assumes "module_wf md"
  shows "module_wf (fst (module_get md n))"
proof (cases "map_of (m_instances md) n")
  case None
  have "next_instance md \<notin> snd ` set (m_instances md) \<union> snd ` set (m_proxies md)"
    using assms by (auto simp: module_wf_def)
  with None assms show ?thesis by (auto simp: module_wf_def module_get_def less_Suc_eq)
next
  case (Some i)
  with assms show ?thesis by (simp add: module_get_def)
qed

lemma map_of_distinct_snd:
  "distinct (map snd xs) \<Longrightarrow> map_of xs a = Some i \<Longrightarrow> map_of xs b = Some i \<Longrightarrow> a = b"
  by (induction xs) (force split: if_splits dest: map_of_SomeD)+

text \<open>
  Asking the group manager twice for a group gives the same instance and changes nothing
  the second time; two different names of one module give two different instances; a module
  name that is not registered is an error.
\<close>

theorem group_get_stable:
  assumes "get_module gm md = Some m" "module_wf m" "gm_get gm md x = Inr (gm1, i)"
  shows "gm_get gm1 md x = Inr (gm1, i)
    \<and> (y \<noteq> x \<longrightarrow> (\<forall>gm2 j. gm_get gm1 md y = Inr (gm2, j) \<longrightarrow> j \<noteq> i))
    \<and> (get_module gm other = None \<longrightarrow> gm_get gm other x = Inl (No_module other))"
proof -
  obtain m1 where m1: "module_get m x = (m1, i)" "gm1 = gm\<lparr>m_mmap := AList.update md m1 (m_mmap gm)\<rparr>"
    using assms(1,3) by (auto simp: gm_get_def split: prod.splits)
  have get1: "get_module gm1 md = Some m1" by (simp add: m1(2) get_module_def update_conv)
  have x: "map_of (m_instances m1) x = Some i"
    using m1(1) by (auto simp: module_get_def split: option.splits)
  have wf1: "module_wf m1" using module_get_wf [OF assms(2), of x] m1(1) by simp
  have "gm_get gm1 md x = Inr (gm1, i)"
    using get1 x by (simp add: gm_get_def module_get_def m1(2) AList.update_triv)
  moreover have "j \<noteq> i" if "y \<noteq> x" "gm_get gm1 md y = Inr (gm2, j)" for gm2 j
  proof (cases "map_of (m_instances m1) y")
    case None
    with that(2) get1 have "j = next_instance m1" by (auto simp: gm_get_def module_get_def)
    moreover have "i < next_instance m1"
      using wf1 x by (force simp: module_wf_def dest: map_of_SomeD)
    ultimately show ?thesis by simp
  next
    case (Some k)
    with that(2) get1 have "j = k" by (auto simp: gm_get_def module_get_def)
    with Some x that(1) wf1 map_of_distinct_snd [of "m_instances m1" x i y] show ?thesis
      by (auto simp: module_wf_def)
  qed
  ultimately show ?thesis by (auto simp: gm_get_def)
qed

theorem group_get_stable_witness:
  "\<exists>gm1. gm_get group_manager_new ''local'' ''wgroup'' = Inr (gm1, 0)
    \<and> gm_get gm1 ''local'' ''wgroup'' = Inr (gm1, 0)"
proof -
  obtain gm1 where gm1: "gm_get group_manager_new ''local'' ''wgroup'' = Inr (gm1, 0)"
    by (simp add: gm_get_def get_module_def group_manager_new_def empty_module_def module_get_def)
  have m: "get_module group_manager_new ''local'' = Some empty_module" "module_wf empty_module"
    by (simp_all add: get_module_def group_manager_new_def empty_module_def module_wf_def)
  from group_get_stable [OF m gm1] gm1 show ?thesis by blast
qed

end
