(* ===== verification/Vslab_System.thy ===== *)
theory Vslab_System
  imports Vslab_Actors Group_Manager
begin

text \<open>
  The running program: one client, one manager, its workers and the two groups they use, as
  a step relation. A step lets one actor handle a message of its mailbox, in any order, which
  covers the delays between nodes. A message to a group is delivered by
  \<open>send_all_subscribers\<close> to every subscriber.
\<close>

section \<open>The system\<close>

record vsys =
  wgroup :: local_group
  cmgroup :: local_group
  sclient :: "client option"
  smanager :: "manager option"
  sworkers :: "nat \<Rightarrow> worker option"
  next_actor :: nat
  boxes :: "nat \<Rightarrow> vs_msg list"
  printed :: "vs_out list"

abbreviation client_id :: nat where "client_id \<equiv> 0"
abbreviation manager_id :: nat where "manager_id \<equiv> 1"

definition the_group :: "vs_group \<Rightarrow> vsys \<Rightarrow> local_group" where
  "the_group g s = (case g of Wgroup \<Rightarrow> wgroup s | Cmgroup \<Rightarrow> cmgroup s)"

definition set_group :: "vs_group \<Rightarrow> local_group \<Rightarrow> vsys \<Rightarrow> vsys" where
  "set_group g x s = (case g of Wgroup \<Rightarrow> s\<lparr>wgroup := x\<rparr> | Cmgroup \<Rightarrow> s\<lparr>cmgroup := x\<rparr>)"

definition user_content :: "nat option \<times> 'm gmsg \<Rightarrow> 'm list" where
  "user_content d = (case snd d of User m \<Rightarrow> [m] | _ \<Rightarrow> [])"

definition group_send :: "nat \<Rightarrow> vs_group \<Rightarrow> vs_msg \<Rightarrow> vsys \<Rightarrow> vsys" where
  "group_send self g m s = s\<lparr>boxes := (\<lambda>a. boxes s a @ concat (map user_content
     (delivered_to a (send_all_subscribers (the_group g s) (Some self) (User m)))))\<rparr>"

definition terminate :: "nat \<Rightarrow> vsys \<Rightarrow> vsys" where
  "terminate self s =
     (let s1 = s\<lparr>wgroup := unsubscribe (wgroup s) (Some self), cmgroup := unsubscribe (cmgroup s) (Some self),
                 boxes := (boxes s)(self := [])\<rparr>
      in if self = client_id then s1\<lparr>sclient := None\<rparr>
         else if self = manager_id then s1\<lparr>smanager := None\<rparr>
         else s1\<lparr>sworkers := (sworkers s1)(self := None)\<rparr>)"

definition perform :: "nat \<Rightarrow> vs_effect \<Rightarrow> vsys \<Rightarrow> vsys" where
  "perform self e s = (case e of
      Eff_print out \<Rightarrow> s\<lparr>printed := printed s @ [out]\<rparr>
    | Eff_join g \<Rightarrow> set_group g (fst (subscribe (the_group g s) (Some self))) s
    | Eff_send g m \<Rightarrow> group_send self g m s
    | Eff_send_self m \<Rightarrow> s\<lparr>boxes := (boxes s)(self := boxes s self @ [m])\<rparr>
    | Eff_spawn_worker \<Rightarrow>
        s\<lparr>sworkers := (sworkers s)(next_actor s \<mapsto> \<lparr>state_id = 0\<rparr>),
          wgroup := fst (subscribe (wgroup s) (Some (next_actor s))), next_actor := Suc (next_actor s)\<rparr>
    | Eff_quit \<Rightarrow> terminate self s
    | Eff_undefined \<Rightarrow> s)"

definition perform_all :: "nat \<Rightarrow> vs_effect list \<Rightarrow> vsys \<Rightarrow> vsys" where
  "perform_all self es s = fold (perform self) es s"

text \<open>The messages of a worker; its \<open>server\<close> is the group of the workers.\<close>

definition worker_effect :: "vs_dest \<times> vs_msg \<Rightarrow> vs_effect" where
  "worker_effect d = (case fst d of To_self \<Rightarrow> Eff_send_self (snd d) | _ \<Rightarrow> Eff_send Wgroup (snd d))"

inductive vsys_step :: "vsys \<Rightarrow> vsys \<Rightarrow> bool" where
  client: "sclient s = Some c \<Longrightarrow> boxes s client_id = xs @ m # ys \<Longrightarrow>
    client_handle env c m = Some (Some (Inr (c', es))) \<Longrightarrow>
    vsys_step s (perform_all client_id es (s\<lparr>sclient := Some c', boxes := (boxes s)(client_id := xs @ ys)\<rparr>))"
| client_crash: "sclient s = Some c \<Longrightarrow> boxes s client_id = xs @ m # ys \<Longrightarrow>
    client_handle env c m = Some (Some (Inl (e, es))) \<Longrightarrow> vsys_step s (terminate client_id (perform_all client_id es s))"
| manager: "smanager s = Some mg \<Longrightarrow> boxes s manager_id = xs @ m # ys \<Longrightarrow> manager_handle mg m = Some es \<Longrightarrow>
    vsys_step s (perform_all manager_id es (s\<lparr>boxes := (boxes s)(manager_id := xs @ ys)\<rparr>))"
| worker: "sworkers s i = Some w \<Longrightarrow> boxes s i = xs @ m # ys \<Longrightarrow> worker_handle wenv w m = Some (Inr (w', out)) \<Longrightarrow>
    vsys_step s (perform_all i (map worker_effect out)
      (s\<lparr>sworkers := (sworkers s)(i \<mapsto> w'), boxes := (boxes s)(i := xs @ ys)\<rparr>))"
| worker_crash: "sworkers s i = Some w \<Longrightarrow> boxes s i = xs @ m # ys \<Longrightarrow> worker_handle wenv w m = Some (Inl e) \<Longrightarrow>
    vsys_step s (terminate i s)"

text \<open>
  Both programs started and connected: \<open>main\<close> has spawned the manager, then the client,
  and \<open>io::remote_group\<close> has given both the group of the server.
\<close>

definition vsys_start :: "int \<Rightarrow> int \<Rightarrow> vsys" where
  "vsys_start workers n =
     (let s0 = \<lparr>wgroup = \<lparr>subscribers = [], group_broker = 0\<rparr>, cmgroup = \<lparr>subscribers = [], group_broker = 0\<rparr>,
                sclient = None, smanager = None, sworkers = (\<lambda>i. None), next_actor = 2, boxes = (\<lambda>a. []), printed = []\<rparr>;
          (mg, es1) = manager_start (Some Cmgroup) (run_manager workers ''host'' 6667);
          s1 = perform_all manager_id es1 (s0\<lparr>smanager := Some mg\<rparr>);
          (c, es2) = client_start (Some Cmgroup) (run_client ''host'' 6667 n 0)
      in perform_all client_id es2 (s1\<lparr>sclient := Some c\<rparr>))"

inductive vsys_reach :: "int \<Rightarrow> int \<Rightarrow> vsys \<Rightarrow> bool" for workers n where
  start: "vsys_reach workers n (vsys_start workers n)"
| step: "vsys_reach workers n s \<Longrightarrow> vsys_step s s' \<Longrightarrow> vsys_reach workers n s'"

section \<open>The invariant\<close>

text \<open>What a message and an output may contain when \<open>N\<close> is to be factored.\<close>

definition msg_ok :: "int \<Rightarrow> vs_msg \<Rightarrow> bool" where
  "msg_ok N m \<longleftrightarrow> (case m of
      Calculate n \<Rightarrow> 0 < n \<and> n dvd N
    | Continue n _ _ _ _ \<Rightarrow> 0 < n \<and> n dvd N
    | Factor p _ _ \<Rightarrow> 1 < p \<and> p dvd N
    | Quit \<Rightarrow> False
    | Result \<Rightarrow> False
    | _ \<Rightarrow> True)"

definition out_ok :: "int \<Rightarrow> vs_out \<Rightarrow> bool" where
  "out_ok N out \<longleftrightarrow> (case out of Out_factor p \<Rightarrow> 1 < p \<and> p dvd N | _ \<Rightarrow> True)"

definition eff_ok :: "int \<Rightarrow> vs_effect \<Rightarrow> bool" where
  "eff_ok N e \<longleftrightarrow> (case e of
      Eff_print out \<Rightarrow> out_ok N out
    | Eff_join g \<Rightarrow> True
    | Eff_send g m \<Rightarrow> msg_ok N m
    | Eff_send_self m \<Rightarrow> msg_ok N m
    | Eff_spawn_worker \<Rightarrow> True
    | Eff_quit \<Rightarrow> False
    | Eff_undefined \<Rightarrow> False)"

definition vsys_inv :: "int \<Rightarrow> vsys \<Rightarrow> bool" where
  "vsys_inv N s \<longleftrightarrow> valid_group (wgroup s) \<and> valid_group (cmgroup s)
     \<and> (\<forall>a. list_all (msg_ok N) (boxes s a)) \<and> list_all (out_ok N) (printed s)
     \<and> (\<forall>c. sclient s = Some c \<longrightarrow> 0 < cl_n c \<and> cl_n c dvd N \<and> cl_server c = Some Cmgroup)
     \<and> (\<forall>mg. smanager s = Some mg \<longrightarrow> mgr_server mg = Some Cmgroup)
     \<and> 2 \<le> next_actor s \<and> (\<forall>i. sworkers s i \<noteq> None \<longrightarrow> 2 \<le> i)"

lemma valid_the_group: "vsys_inv N s \<Longrightarrow> valid_group (the_group g s)"
  by (simp add: vsys_inv_def the_group_def split: vs_group.split)

text \<open>What actors find in their mailboxes after a message to a group.\<close>

lemma group_send_boxes:
  assumes "valid_group (the_group g s)"
  shows "boxes (group_send self g m s) a =
    boxes s a @ (if a \<in> set (subscribers (the_group g s)) then [m] else [])"
  using assms
  by (simp add: group_send_def send_all_subscribers_def delivered_to_once valid_group_def user_content_def)

lemma group_send_frame [simp]:
  "wgroup (group_send self g m s) = wgroup s" "cmgroup (group_send self g m s) = cmgroup s"
  "sclient (group_send self g m s) = sclient s" "smanager (group_send self g m s) = smanager s"
  "printed (group_send self g m s) = printed s" "sworkers (group_send self g m s) = sworkers s"
  "next_actor (group_send self g m s) = next_actor s"
  by (simp_all add: group_send_def)

lemma perform_inv:
  assumes "vsys_inv N s" "eff_ok N e"
  shows "vsys_inv N (perform self e s)"
proof (cases e)
  case (Eff_join g)
  have v: "valid_group (fst (subscribe (the_group g s) (Some self)))"
    using lgrp.join_valid [OF valid_the_group [OF assms(1)]] .
  with assms(1) Eff_join show ?thesis
    by (cases g) (simp_all add: perform_def set_group_def vsys_inv_def)
next
  case (Eff_send g m)
  with assms valid_the_group [OF assms(1), of g] show ?thesis
    by (simp add: perform_def vsys_inv_def eff_ok_def group_send_boxes)
next
  case Eff_spawn_worker
  with assms(1) lgrp.join_valid [of "wgroup s" "next_actor s"] show ?thesis
    by (simp add: perform_def vsys_inv_def)
qed (use assms in \<open>simp_all add: perform_def vsys_inv_def eff_ok_def\<close>)

lemma perform_all_inv: "vsys_inv N s \<Longrightarrow> list_all (eff_ok N) es \<Longrightarrow> vsys_inv N (perform_all self es s)"
  unfolding perform_all_def by (induction es arbitrary: s) (auto simp: perform_inv)

section \<open>The handlers keep the invariant\<close>

definition client_ok :: "int \<Rightarrow> client \<Rightarrow> bool" where
  "client_ok N c \<longleftrightarrow> 0 < cl_n c \<and> cl_n c dvd N \<and> cl_server c = Some Cmgroup"

lemma client_factor_ok:
  assumes "client_ok N c" "1 < p" "p dvd N"
  shows "\<exists>c' es. client_factor env c p nc nt = Some (Inr (c', es)) \<and> client_ok N c' \<and> list_all (eff_ok N) es"
proof -
  have "1 < \<bar>p\<bar>" "cl_n c \<noteq> 0" using assms by (auto simp: client_ok_def)
  then obtain k m where n: "cl_n c = p ^ k * m" "\<not> p dvd m" by (rule split_power)
  moreover have "0 < p ^ k * m" using assms(1) n(1) by (simp add: client_ok_def)
  ultimately have "0 < m" "m dvd N" "cl_server c = Some Cmgroup"
    using assms by (auto simp: client_ok_def zero_less_mult_iff intro: dvd_trans dest: dvd_mult_right)
  moreover have "p \<noteq> 0" using assms(2) by simp
  note client_factor_power [OF this n(2,1) \<open>cl_server c = Some Cmgroup\<close>, of env nc nt]
  ultimately show ?thesis
    using assms by (auto simp: client_ok_def Let_def eff_ok_def out_ok_def msg_ok_def list_all_iff)
qed

lemma client_handle_ok:
  assumes "client_ok N c" "msg_ok N m"
  obtains "client_handle env c m = None"
  | c' es where "client_handle env c m = Some (Some (Inr (c', es)))" "client_ok N c'" "list_all (eff_ok N) es"
proof (cases m)
  case (Factor p nc nt)
  with assms client_factor_ok [OF assms(1), of p env nc nt] that(2) show thesis
    by (auto simp: client_handle_def msg_ok_def)
next
  case (Nofactor nt)
  with assms that(2) show thesis
    by (auto simp: client_handle_def client_nofactor_def client_start_def client_ok_def eff_ok_def out_ok_def)
next
  case Pong
  with assms that(2) show thesis
    by (auto simp: client_handle_def client_ok_def eff_ok_def out_ok_def send_server_def msg_ok_def)
qed (use assms that(1) in \<open>auto simp: client_handle_def msg_ok_def\<close>)

lemma manager_handle_ok:
  assumes "mgr_server mg = Some Cmgroup" "msg_ok N m" "manager_handle mg m = Some es"
  shows "list_all (eff_ok N) es"
  using assms
  by (cases m) (auto simp: manager_handle_def send_server_def eff_ok_def out_ok_def msg_ok_def list_all_iff)

lemma worker_continue_ok:
  assumes "0 < n" "n dvd N"
  shows "\<exists>w' out. worker_continue env w n a c t st = Inr (w', out) \<and> list_all (eff_ok N) (map worker_effect out)"
proof (cases "st = state_id w")
  case True
  from assms(1) have "n \<noteq> 0" by simp
  from this True show ?thesis
  proof (cases rule: worker_continue_cases [where env = env and a = a and cycles = c and t = t])
    case (factor q i x)
    with assms rho_slice_factor [OF assms(1) factor(1)] True show ?thesis
      by (auto simp: worker_effect_def eff_ok_def msg_ok_def intro: dvd_trans)
  qed (use assms True in \<open>auto simp: worker_effect_def eff_ok_def msg_ok_def\<close>)
qed (use assms worker_continue_obsolete in auto)

lemma worker_handle_ok:
  assumes "msg_ok N m" "worker_handle env w m = Some r"
  shows "\<exists>w' out. r = Inr (w', out) \<and> list_all (eff_ok N) (map worker_effect out)"
proof (cases m)
  case (Calculate n)
  with assms show ?thesis
    by (auto simp: worker_handle_def worker_calculate_def mod512_def Let_def msg_ok_def worker_effect_def eff_ok_def)
next
  case (Continue n a c t st)
  with assms have n: "0 < n" "n dvd N" by (simp_all add: msg_ok_def)
  from worker_continue_ok [OF n, of env w a c t st] assms(2) Continue show ?thesis
    by (auto simp: worker_handle_def)
qed (use assms in \<open>simp_all add: worker_handle_def\<close>)

lemma vsys_inv_client: "vsys_inv N s \<Longrightarrow> sclient s = Some c \<Longrightarrow> client_ok N c"
  by (simp add: vsys_inv_def client_ok_def)

lemma vsys_inv_msgs: "vsys_inv N s \<Longrightarrow> list_all (msg_ok N) (boxes s a)"
  by (simp add: vsys_inv_def)

lemma vsys_inv_box: "vsys_inv N s \<Longrightarrow> boxes s a = xs @ m # ys \<Longrightarrow> msg_ok N m"
  using vsys_inv_msgs [of N s a] by simp

lemma vsys_inv_take:
  assumes "vsys_inv N s" "boxes s a = xs @ m # ys"
  shows "vsys_inv N (s\<lparr>boxes := (boxes s)(a := xs @ ys)\<rparr>)"
proof -
  have "list_all (msg_ok N) (xs @ ys)" using vsys_inv_msgs [OF assms(1), of a] assms(2) by simp
  with assms(1) show ?thesis by (simp add: vsys_inv_def)
qed

lemma vsys_step_inv: "vsys_step s s' \<Longrightarrow> vsys_inv N s \<Longrightarrow> vsys_inv N s'"
proof (induction rule: vsys_step.induct)
  case (client s c xs m ys env c' es)
  note ok = vsys_inv_client [OF client(4,1)] vsys_inv_box [OF client(4,2)]
  from ok(1) ok(2) have "client_ok N c' \<and> list_all (eff_ok N) es"
    by (rule client_handle_ok [where env = env]) (use client(3) in auto)
  moreover from this vsys_inv_take [OF client(4,2)]
  have "vsys_inv N (s\<lparr>sclient := Some c', boxes := (boxes s)(client_id := xs @ ys)\<rparr>)"
    by (simp add: vsys_inv_def client_ok_def)
  ultimately show ?case by (blast intro: perform_all_inv)
next
  case (client_crash s c xs m ys env e es)
  note ok = vsys_inv_client [OF client_crash(4,1)] vsys_inv_box [OF client_crash(4,2)]
  from ok(1) ok(2) have False
    by (rule client_handle_ok [where env = env]) (use client_crash(3) in auto)
  then show ?case ..
next
  case (manager s mg xs m ys es)
  then have "mgr_server mg = Some Cmgroup" by (simp add: vsys_inv_def)
  from manager_handle_ok [OF this vsys_inv_box [OF manager(4,2)] manager(3)] vsys_inv_take [OF manager(4,2)]
  show ?case by (blast intro: perform_all_inv)
next
  case (worker s i w xs m ys wenv w' out)
  from worker_handle_ok [OF vsys_inv_box [OF worker(4,2)] worker(3)] have "list_all (eff_ok N) (map worker_effect out)"
    by simp
  moreover from vsys_inv_take [OF worker(4,2)] worker(1,4)
  have "vsys_inv N (s\<lparr>sworkers := (sworkers s)(i \<mapsto> w'), boxes := (boxes s)(i := xs @ ys)\<rparr>)"
    by (simp add: vsys_inv_def)
  ultimately show ?case by (blast intro: perform_all_inv)
next
  case (worker_crash s i w xs m ys wenv e)
  from worker_handle_ok [OF vsys_inv_box [OF worker_crash(4,2)] worker_crash(3)] show ?case by simp
qed

section \<open>Membership and mail\<close>

text \<open>No actor leaves a group or terminates as long as no effect is \<open>Eff_quit\<close>.\<close>

definition all_joined :: "vsys \<Rightarrow> bool" where
  "all_joined s \<longleftrightarrow> sclient s \<noteq> None \<and> smanager s \<noteq> None \<and> manager_id \<in> set (subscribers (wgroup s))
     \<and> {client_id, manager_id} \<subseteq> set (subscribers (cmgroup s))"

lemma perform_keeps:
  assumes "vsys_inv N s" "eff_ok N e"
  shows "set (boxes s a) \<subseteq> set (boxes (perform self e s) a)"
    and "set (subscribers (the_group g s)) \<subseteq> set (subscribers (the_group g (perform self e s)))"
    and "all_joined s \<Longrightarrow> all_joined (perform self e s)"
proof -
  have v: "valid_group (the_group h s)" for h using assms(1) by (rule valid_the_group)
  show "set (boxes s a) \<subseteq> set (boxes (perform self e s) a)"
    using v assms(2)
    by (cases e) (auto simp: perform_def set_group_def group_send_boxes eff_ok_def split: vs_group.split)
  show "set (subscribers (the_group g s)) \<subseteq> set (subscribers (the_group g (perform self e s)))"
    using assms(2)
    by (cases e) (auto simp: perform_def set_group_def eff_ok_def the_group_def subscribe_Some split: vs_group.splits)
  then show "all_joined (perform self e s)" if "all_joined s"
    using that assms(2)
    by (cases e) (auto simp: perform_def set_group_def eff_ok_def all_joined_def the_group_def subscribe_Some
        split: vs_group.splits)
qed

lemma perform_all_keeps:
  assumes "vsys_inv N s" "list_all (eff_ok N) es"
  shows "set (boxes s a) \<subseteq> set (boxes (perform_all self es s) a)
    \<and> (all_joined s \<longrightarrow> all_joined (perform_all self es s))"
  using assms
proof (induction es arbitrary: s)
  case (Cons e es)
  then have "vsys_inv N (perform self e s)" by (simp add: perform_inv)
  note IH = Cons.IH [OF this]
  have "eff_ok N e" using Cons.prems by simp
  with IH Cons.prems perform_keeps(1,3) [OF Cons.prems(1), where self = self] show ?case
    by (auto simp: perform_all_def) blast+
qed (simp add: perform_all_def)

lemma perform_all_delivers:
  assumes "vsys_inv N s" "list_all (eff_ok N) (es @ [Eff_send g m])" "a \<in> set (subscribers (the_group g s))"
  shows "m \<in> set (boxes (perform_all self (es @ [Eff_send g m]) s) a)"
proof -
  have "vsys_inv N (fold (perform self) es s) \<and> a \<in> set (subscribers (the_group g (fold (perform self) es s)))"
    using assms
  proof (induction es arbitrary: s)
    case (Cons e es)
    then have "eff_ok N e" by simp
    note step = perform_inv [OF Cons.prems(1) this] perform_keeps(2) [OF Cons.prems(1) this]
    from Cons.IH [OF step(1)] Cons.prems step(2) show ?case by (simp add: subset_iff)
  qed simp
  note s' = this
  with valid_the_group [OF conjunct1 [OF s'], of g] show ?thesis
    by (simp add: perform_all_def perform_def group_send_boxes)
qed

lemma start_effects_ok:
  "0 < n \<Longrightarrow> list_all (eff_ok n) (snd (client_start (Some Cmgroup) (run_client h p n t)))"
  "list_all (eff_ok n) (snd (manager_start (Some Cmgroup) (run_manager k h p)))"
  by (simp_all add: client_start_def run_client_def manager_start_def manager_init_def run_manager_def
      eff_ok_def out_ok_def msg_ok_def)

lemma vsys_inv_set_client:
  "vsys_inv N s \<Longrightarrow> client_ok N c \<Longrightarrow> vsys_inv N (s\<lparr>sclient := Some c\<rparr>)"
  by (simp add: vsys_inv_def client_ok_def)

lemma vsys_start_inv:
  assumes "0 < n"
  shows "vsys_inv n (vsys_start workers n) \<and> all_joined (vsys_start workers n)"
proof
  note defs = manager_start_def manager_init_def client_start_def run_manager_def run_client_def
  have "client_ok n (fst (client_start (Some Cmgroup) (run_client h p n t)))" for h p t
    using assms by (simp add: client_ok_def client_start_def run_client_def)
  then show "vsys_inv n (vsys_start workers n)"
    unfolding vsys_start_def Let_def split_beta
    by (intro perform_all_inv vsys_inv_set_client start_effects_ok assms)
      (simp_all add: vsys_inv_def valid_group_def defs)
  show "all_joined (vsys_start workers n)"
    by (simp add: vsys_start_def defs perform_all_def perform_def the_group_def set_group_def subscribe_Some
        all_joined_def)
qed

lemma vsys_reach_inv:
  assumes "vsys_reach workers n s" "0 < n"
  shows "vsys_inv n s"
  using assms(1)
proof induction
  case start
  show ?case using vsys_start_inv [OF assms(2)] by simp
qed (blast intro: vsys_step_inv)

text \<open>The messages the manager passes on to a group it belongs to itself.\<close>

definition forwarded :: "vs_msg \<Rightarrow> bool" where
  "forwarded m \<longleftrightarrow> (case m of Calculate _ \<Rightarrow> True | Factor _ _ _ \<Rightarrow> True | Nofactor _ \<Rightarrow> True | _ \<Rightarrow> False)"

lemma manager_forwards:
  assumes "forwarded m" "mgr_server mg = Some Cmgroup" "manager_handle mg m = Some es"
  obtains es' g where "es = es' @ [Eff_send g m]"
  using assms that
  by (cases m) (auto simp: forwarded_def manager_handle_def send_server_def intro: that [of "[_, _]"])

lemma manager_joined: "all_joined s \<Longrightarrow> manager_id \<in> set (subscribers (the_group g s))"
  by (cases g) (simp_all add: all_joined_def the_group_def)

lemma vsys_step_keeps:
  assumes "vsys_step s s'" "vsys_inv N s" "all_joined s"
  shows "all_joined s' \<and> (forwarded m \<longrightarrow> m \<in> set (boxes s manager_id) \<longrightarrow> m \<in> set (boxes s' manager_id))"
  using assms
proof (induction rule: vsys_step.induct)
  case (client s c xs x ys env c' es)
  note ok = vsys_inv_client [OF client(4,1)] vsys_inv_box [OF client(4,2)]
  let ?s = "s\<lparr>sclient := Some c', boxes := (boxes s)(client_id := xs @ ys)\<rparr>"
  from ok(1) ok(2) have c': "client_ok N c'" "list_all (eff_ok N) es"
    by (rule client_handle_ok [where env = env], use client(3) in auto)+
  with vsys_inv_take [OF client(4,2)] have "vsys_inv N ?s"
    by (simp add: vsys_inv_def client_ok_def)
  from perform_all_keeps [OF this c'(2), of manager_id client_id] client(5) show ?case
    by (auto simp: all_joined_def)
next
  case (client_crash s c xs x ys env e es)
  note ok = vsys_inv_client [OF client_crash(4,1)] vsys_inv_box [OF client_crash(4,2)]
  from ok(1) ok(2) have False
    by (rule client_handle_ok [where env = env]) (use client_crash(3) in auto)
  then show ?case ..
next
  case (manager s mg xs x ys es)
  let ?s = "s\<lparr>boxes := (boxes s)(manager_id := xs @ ys)\<rparr>"
  from manager have server: "mgr_server mg = Some Cmgroup" by (simp add: vsys_inv_def)
  note ok = manager_handle_ok [OF server vsys_inv_box [OF manager(4,2)] manager(3)]
  note inv = vsys_inv_take [OF manager(4,2)]
  have joined: "all_joined ?s" using manager(5) by (simp add: all_joined_def)
  have "m \<in> set (boxes (perform_all manager_id es ?s) manager_id)"
    if "forwarded m" "m \<in> set (boxes s manager_id)"
  proof (cases "m = x")
    case True
    with that server manager(3) obtain es' g where es: "es = es' @ [Eff_send g m]"
      using manager_forwards by blast
    from perform_all_delivers [OF inv ok [unfolded es] manager_joined [OF joined]] show ?thesis
      by (simp add: es)
  next
    case False
    with that(2) manager(2) have "m \<in> set (boxes ?s manager_id)" by auto
    with perform_all_keeps [OF inv ok] show ?thesis by blast
  qed
  with perform_all_keeps [OF inv ok, of manager_id manager_id] joined show ?case by blast
next
  case (worker s i w xs x ys wenv w' out)
  let ?s = "s\<lparr>sworkers := (sworkers s)(i \<mapsto> w'), boxes := (boxes s)(i := xs @ ys)\<rparr>"
  from worker_handle_ok [OF vsys_inv_box [OF worker(4,2)] worker(3)]
  have ok: "list_all (eff_ok N) (map worker_effect out)" by simp
  from worker(1,4) have i: "2 \<le> i" by (simp add: vsys_inv_def)
  with vsys_inv_take [OF worker(4,2)] have "vsys_inv N ?s" by (simp add: vsys_inv_def)
  from perform_all_keeps [OF this ok, of manager_id i] worker(5) i show ?case
    by (auto simp: all_joined_def)
next
  case (worker_crash s i w xs x ys wenv e)
  from worker_handle_ok [OF vsys_inv_box [OF worker_crash(4,2)] worker_crash(3)] show ?case by simp
qed

lemma vsys_reach_joined:
  assumes "vsys_reach workers n s" "0 < n"
  shows "all_joined s"
  using assms(1)
proof induction
  case start
  show ?case using vsys_start_inv [OF assms(2)] by simp
next
  case (step s s')
  with vsys_step_keeps vsys_reach_inv [OF step(1) assms(2)] show ?case by blast
qed

section \<open>Properties\<close>

text \<open>
  C1. In every reachable state of the program started for \<open>n > 0\<close>, whatever the random
  values, clocks and message delays: every factor the client has printed is a divisor of
  \<open>n\<close> greater than 1; the client's current number is a positive divisor of \<open>n\<close>; the
  client's handler for any message it has received returns without an exception; and no
  worker's handler throws.
\<close>

theorem program_safe:
  assumes "vsys_reach workers n s" "0 < n"
  shows "(Out_factor p \<in> set (printed s) \<longrightarrow> 1 < p \<and> p dvd n)
    \<and> (\<exists>c. sclient s = Some c \<and> 0 < cl_n c \<and> cl_n c dvd n
         \<and> (\<forall>m\<in>set (boxes s client_id). client_handle env c m = None
              \<or> (\<exists>c' es. client_handle env c m = Some (Some (Inr (c', es))))))
    \<and> (\<forall>i w m e. sworkers s i = Some w \<longrightarrow> m \<in> set (boxes s i) \<longrightarrow> worker_handle wenv w m \<noteq> Some (Inl e))"
proof (intro conjI allI impI)
  have inv: "vsys_inv n s" by (rule vsys_reach_inv [OF assms])
  assume "Out_factor p \<in> set (printed s)"
  with inv have "out_ok n (Out_factor p)" unfolding vsys_inv_def list_all_iff by blast
  then show "1 < p" "p dvd n" by (simp_all add: out_ok_def)
next
  have inv: "vsys_inv n s" by (rule vsys_reach_inv [OF assms])
  obtain c where c: "sclient s = Some c" using vsys_reach_joined [OF assms] by (auto simp: all_joined_def)
  have ok: "client_ok n c" by (rule vsys_inv_client [OF inv c])
  have "client_handle env c m = None \<or> (\<exists>c' es. client_handle env c m = Some (Some (Inr (c', es))))"
    if "m \<in> set (boxes s client_id)" for m
  proof -
    have "msg_ok n m" using vsys_inv_msgs [OF inv] that by (auto simp: list_all_iff)
    with ok show ?thesis by (rule client_handle_ok [where env = env]) auto
  qed
  with c ok show "\<exists>c. sclient s = Some c \<and> 0 < cl_n c \<and> cl_n c dvd n
         \<and> (\<forall>m\<in>set (boxes s client_id). client_handle env c m = None
              \<or> (\<exists>c' es. client_handle env c m = Some (Some (Inr (c', es)))))"
    by (auto simp: client_ok_def)
next
  fix i w m e
  assume "sworkers s i = Some w" "m \<in> set (boxes s i)"
  then have "msg_ok n m"
    using vsys_inv_msgs [OF vsys_reach_inv [OF assms]] by (auto simp: list_all_iff)
  with worker_handle_ok [of n m wenv w] show "worker_handle wenv w m \<noteq> Some (Inl e)" by blast
qed

theorem program_safe_witness:
  "\<exists>c. sclient (vsys_start 4 15) = Some c \<and> 0 < cl_n c \<and> cl_n c dvd 15"
  using program_safe [OF vsys_reach.start [of 4 15]] by fastforce

text \<open>
  The manager is a member of the groups it forwards to, and no actor ever sends \<open>quit\<close>:
  once a \<open>calculate\<close>, \<open>factor\<close> or \<open>nofactor\<close> message has reached the manager, a copy of it
  is in the manager's mailbox in every later state, however often the manager handles it.
\<close>

theorem manager_forwards_forever:
  assumes "vsys_reach workers n s" "0 < n" "forwarded m" "m \<in> set (boxes s manager_id)"
    and "vsys_step\<^sup>*\<^sup>* s s'"
  shows "m \<in> set (boxes s' manager_id) \<and> smanager s' \<noteq> None"
proof -
  from assms(5) have "vsys_reach workers n s' \<and> m \<in> set (boxes s' manager_id)"
  proof induction
    case base
    with assms show ?case by simp
  next
    case (step x y)
    then have r: "vsys_reach workers n x" by blast
    note keep = vsys_step_keeps [OF step(2) vsys_reach_inv [OF r assms(2)] vsys_reach_joined [OF r assms(2)]]
    from r step(2) have "vsys_reach workers n y" by (rule vsys_reach.step)
    with keep assms(3) step show ?case by blast
  qed
  with vsys_reach_joined [of workers n s'] assms(2) show ?thesis by (auto simp: all_joined_def)
qed

theorem manager_forwards_forever_witness:
  "{s'. vsys_step\<^sup>*\<^sup>* (vsys_start 4 15) s'} \<subseteq> {s'. Calculate 15 \<in> set (boxes s' manager_id)}"
proof -
  have "Calculate 15 \<in> set (boxes (vsys_start 4 15) manager_id)"
    by code_simp
  with manager_forwards_forever [OF vsys_reach.start [of 4 15]] show ?thesis
    by (auto simp: forwarded_def)
qed

end
