(* ===== verification/Atom_Val.thy ===== *)
theory Atom_Val
  imports Prelude
begin

text \<open>
  Atoms (caf/detail/atom_val.hpp, caf/atom.hpp) and their printing
  (\<open>to_string(const atom_value&)\<close> of string_serialization.cpp): up to ten characters are
  packed six bits each behind a leading marker \<open>0xF\<close> into a 64-bit integer, and read back
  from it. The theory shows that printing inverts packing up to the characters the
  encoding table does not know, so that atoms are injective on their alphabet.
\<close>

unbundle bit_operations_syntax

section \<open>Definitions\<close>

definition encoding_table :: "nat list" where
  "encoding_table =
    [0,  0,  0,  0,  0,  0,  0,  0,  0,  0,  0,  0,  0,  0,  0,  0,
     0,  0,  0,  0,  0,  0,  0,  0,  0,  0,  0,  0,  0,  0,  0,  0,
     0,  0,  0,  0,  0,  0,  0,  0,  0,  0,  0,  0,  0,  0,  0,  0,
     1,  2,  3,  4,  5,  6,  7,  8,  9,  10, 0,  0,  0,  0,  0,  0,
     0, 11, 12, 13, 14, 15, 16, 17, 18, 19, 20, 21, 22, 23, 24, 25,
    26, 27, 28, 29, 30, 31, 32, 33, 34, 35, 36,  0,  0,  0,  0, 37,
     0, 38, 39, 40, 41, 42, 43, 44, 45, 46, 47, 48, 49, 50, 51, 52,
    53, 54, 55, 56, 57, 58, 59, 60, 61, 62, 63,  0,  0,  0,  0,  0]"

definition decoding_table :: string where
  "decoding_table =
     '' 0123456789'' @ ''ABCDEFGHIJKLMNOPQRSTUVWXYZ_'' @ ''abcdefghijklmnopqrstuvwxyz''"

definition next_interim :: "u64 \<Rightarrow> nat \<Rightarrow> u64" where
  "next_interim current char_code =
     push_bit 6 current OR word_of_nat (encoding_table ! (if char_code \<le> 0x7F then char_code else 0))"

text \<open>
  The recursion over the C string stops at the terminating NUL. A character is converted
  with \<open>static_cast<size_t>\<close>; a negative one becomes a value above \<open>0x7F\<close>, as does the
  code of a byte above 127 here.
\<close>

fun atom_val :: "string \<Rightarrow> u64 \<Rightarrow> u64" where
  "atom_val [] interim = interim"
| "atom_val (c # cs) interim =
     (if of_char c = (0::nat) then interim else atom_val cs (next_interim interim (of_char c)))"

text \<open>\<open>atom(str)\<close>; the length limit is the header's static assertion.\<close>

definition atom :: "string \<Rightarrow> u64 option" where
  "atom str = (if length str \<le> 10 then Some (atom_val str 0xF) else None)"

text \<open>One pass of the loop of \<open>to_string\<close> per bit shift; the mask moves with it.\<close>

fun to_string_loop :: "u64 \<Rightarrow> nat list \<Rightarrow> u64 \<Rightarrow> bool \<Rightarrow> string \<Rightarrow> string" where
  "to_string_loop x [] msk read_chars result = result"
| "to_string_loop x (bitshift # bs) msk read_chars result =
     (let v = drop_bit bitshift (x AND msk)
      in if read_chars
         then to_string_loop x bs (drop_bit 6 msk) read_chars (result @ [decoding_table ! unat v])
         else to_string_loop x bs (drop_bit 6 msk) (v = 0xF) result)"

definition atom_to_string :: "u64 \<Rightarrow> string" where
  "atom_to_string x =
     (let read_chars = (drop_bit 60 (x AND 0xF000000000000000) = 0xF)
      in to_string_loop x [54, 48, 42, 36, 30, 24, 18, 12, 6, 0] 0x0FC0000000000000 read_chars [])"

section \<open>The code of a character\<close>

definition char_enc :: "char \<Rightarrow> nat" where
  "char_enc c = encoding_table ! (if of_char c \<le> (0x7F::nat) then of_char c else 0)"

definition char_canon :: "char \<Rightarrow> char" where
  "char_canon c = decoding_table ! char_enc c"

text \<open>The alphabet on which packing loses nothing: the 63 coded characters and the space.\<close>

definition atom_char :: "char \<Rightarrow> bool" where
  "atom_char c \<longleftrightarrow> c \<in> set decoding_table"

lemma encoding_table_bound: "i < 128 \<Longrightarrow> encoding_table ! i < 64"
proof -
  assume i: "i < 128"
  have "list_all (\<lambda>v. v < 64) encoding_table" "length encoding_table = 128"
    by (simp_all add: encoding_table_def)
  with i show ?thesis by (simp add: list_all_length)
qed

lemma char_enc_bound: "char_enc c < 64"
  unfolding char_enc_def by (rule encoding_table_bound) auto

lemma char_canon_atom_char: "atom_char c \<Longrightarrow> char_canon c = c"
proof -
  have "list_all (\<lambda>c. char_canon c = c) decoding_table"
    by code_simp
  then show "atom_char c \<Longrightarrow> char_canon c = c"
    by (auto simp: atom_char_def list_all_iff)
qed

lemma atom_char_nonzero: "atom_char c \<Longrightarrow> of_char c \<noteq> (0::nat)"
proof -
  have "list_all (\<lambda>c. of_char c \<noteq> (0::nat)) decoding_table"
    by code_simp
  then show "atom_char c \<Longrightarrow> of_char c \<noteq> (0::nat)"
    by (auto simp: atom_char_def list_all_iff)
qed

section \<open>Packing as base-64 arithmetic\<close>

fun pack64 :: "nat list \<Rightarrow> nat \<Rightarrow> nat" where
  "pack64 [] acc = acc"
| "pack64 (d # ds) acc = pack64 ds (acc * 64 + d)"

lemma pack64_shift: "pack64 ds acc = acc * 64 ^ length ds + pack64 ds 0"
proof (induction ds arbitrary: acc)
  case Nil
  show ?case by simp
next
  case (Cons d ds)
  from Cons [of "acc * 64 + d"] Cons [of d] show ?case
    by (simp add: algebra_simps)
qed

lemma pack64_bound: "\<forall>d\<in>set ds. d < 64 \<Longrightarrow> pack64 ds 0 < 64 ^ length ds"
proof (induction ds)
  case Nil
  show ?case by simp
next
  case (Cons d ds)
  then have "pack64 ds 0 < 64 ^ length ds" "d \<le> 63" by auto
  moreover from \<open>d \<le> 63\<close> have "d * 64 ^ length ds \<le> 63 * 64 ^ length ds"
    by (rule mult_le_mono1)
  ultimately have "d * 64 ^ length ds + pack64 ds 0 < 64 * 64 ^ length ds"
    by linarith
  then show ?case using pack64_shift [of ds d] by simp
qed

lemma pack64_mono: "acc \<le> pack64 ds acc"
proof -
  have "acc * 1 \<le> acc * 64 ^ length ds" by (rule mult_le_mono2) simp
  then show ?thesis using pack64_shift [of ds acc] by linarith
qed

lemma push_bit_or_add:
  fixes x :: u64
  assumes "e < 64" and "unat x * 64 + e < 2 ^ 64"
  shows "unat (push_bit 6 x OR word_of_nat e) = unat x * 64 + e"
proof -
  have tb: "take_bit 6 (word_of_nat e :: u64) = word_of_nat e"
    using assms(1) by (simp add: take_bit_of_nat take_bit_nat_eq_self)
  have "push_bit 6 x AND word_of_nat e = push_bit 6 x AND take_bit 6 (word_of_nat e)"
    by (simp only: tb)
  also have "\<dots> = 0"
    by (rule bit_eqI) (simp add: bit_and_iff bit_push_bit_iff bit_take_bit_iff del: take_bit_of_nat)
  finally have "push_bit 6 x OR word_of_nat e = push_bit 6 x + word_of_nat e"
    by (simp only: disjunctive_add_eq_or)
  moreover have "unat (push_bit 6 x) = unat x * 64"
    using unat_push_bit_small [of x 6] assms(2) by simp
  ultimately show ?thesis
    using assms by (simp add: unat_word_ariths unat_of_nat)
qed

lemma unat_atom_val:
  assumes "\<forall>c\<in>set s. of_char c \<noteq> (0::nat)"
    and "pack64 (map char_enc s) (unat w) < 2 ^ 64"
  shows "unat (atom_val s w) = pack64 (map char_enc s) (unat w)"
  using assms
proof (induction s arbitrary: w)
  case Nil
  then show ?case by simp
next
  case (Cons c s)
  have "unat w * 64 + char_enc c < 2 ^ 64"
    using pack64_mono [of "unat w * 64 + char_enc c" "map char_enc s"] Cons.prems(2) by simp
  then have step: "unat (next_interim w (of_char c)) = unat w * 64 + char_enc c"
    unfolding next_interim_def char_enc_def [symmetric]
    by (rule push_bit_or_add [OF char_enc_bound])
  with Cons show ?case by simp
qed

section \<open>Unpacking\<close>

definition group64 :: "nat \<Rightarrow> nat \<Rightarrow> nat" where
  "group64 x i = x div 64 ^ i mod 64"

lemma unat_masked_group:
  fixes x :: u64
  shows "unat (drop_bit b (x AND push_bit b 63)) = unat x div 2 ^ b mod 64"
proof -
  have m: "(63 :: u64) = mask 6" by (simp add: mask_eq_exp_minus_1)
  have "drop_bit b (x AND push_bit b 63) = take_bit 6 (drop_bit b x)"
    unfolding m
    by (rule bit_word_eqI)
      (auto simp: bit_and_iff bit_drop_bit_eq bit_push_bit_iff bit_take_bit_iff bit_mask_iff
        simp del: mask_numeral dest: bit_imp_le_length)
  then show ?thesis
    by (simp add: unat_take_bit_mod unat_drop_bit_div)
qed

text \<open>The shifts and masks of the loop when \<open>n\<close> groups are still to be read.\<close>

definition shifts :: "nat \<Rightarrow> nat list" where
  "shifts n = map (\<lambda>i. 6 * i) (rev [0..<n])"

definition group_mask :: "nat \<Rightarrow> u64" where
  "group_mask n = (if n = 0 then 0 else push_bit (6 * (n - 1)) 63)"

lemma shifts_Suc: "shifts (Suc n) = 6 * n # shifts n"
  by (simp add: shifts_def)

lemma group_mask_Suc: "drop_bit 6 (group_mask (Suc n)) = group_mask n" if "n < 10"
proof (cases n)
  case 0
  then show ?thesis by (simp add: group_mask_def)
next
  case (Suc k)
  with that have "k = 0 \<or> k = 1 \<or> k = 2 \<or> k = 3 \<or> k = 4 \<or> k = 5 \<or> k = 6 \<or> k = 7 \<or> k = 8"
    by auto
  with Suc show ?thesis by (auto simp: group_mask_def)
qed

lemma group_mask_group:
  "unat (drop_bit (6 * n) (x AND group_mask (Suc n))) = group64 (unat x) n"
  by (simp add: group_mask_def unat_masked_group group64_def power_mult del: push_bit_numeral drop_bit_and)

lemma loop_reading:
  assumes "n \<le> 10"
  shows "to_string_loop x (shifts n) (group_mask n) True r =
    r @ map (\<lambda>i. decoding_table ! group64 (unat x) i) (rev [0..<n])"
  using assms
proof (induction n arbitrary: r)
  case 0
  show ?case by (simp add: shifts_def)
next
  case (Suc n)
  then show ?case
    by (simp add: shifts_Suc group_mask_Suc group_mask_group del: upt_Suc drop_bit_and)
      (simp add: upt_Suc)
qed

lemma loop_searching:
  assumes "k < n" and "n \<le> 10" and "group64 (unat x) k = 15"
    and "\<And>i. k < i \<Longrightarrow> i < n \<Longrightarrow> group64 (unat x) i \<noteq> 15"
  shows "to_string_loop x (shifts n) (group_mask n) False [] =
    map (\<lambda>i. decoding_table ! group64 (unat x) i) (rev [0..<k])"
  using assms
proof (induction n)
  case 0
  then show ?case by simp
next
  case (Suc n)
  have is15: "drop_bit (6 * n) (x AND group_mask (Suc n)) = 0xF \<longleftrightarrow> group64 (unat x) n = 15"
    by (simp add: word_unat_eq_iff group_mask_group del: drop_bit_and)
  show ?case
  proof (cases "n = k")
    case True
    with Suc.prems is15 show ?thesis
      by (simp add: shifts_Suc group_mask_Suc loop_reading del: drop_bit_and)
  next
    case False
    with Suc.prems have "k < n" "group64 (unat x) n \<noteq> 15" by auto
    with Suc is15 show ?thesis
      by (simp add: shifts_Suc group_mask_Suc del: drop_bit_and)
  qed
qed

section \<open>Printing inverts packing\<close>

lemma pack64_group:
  assumes "\<forall>d\<in>set ds. d < 64" and "i < length ds"
  shows "group64 (pack64 ds a) i = ds ! (length ds - 1 - i)"
  using assms
proof (induction ds arbitrary: a)
  case Nil
  then show ?case by simp
next
  case (Cons d ds)
  show ?case
  proof (cases "i < length ds")
    case True
    with Cons show ?thesis by (simp add: nth_Cons')
  next
    case False
    with Cons.prems have i: "i = length ds" by simp
    have "pack64 ds 0 < 64 ^ length ds" using Cons.prems(1) by (auto intro: pack64_bound)
    then have "pack64 ds (a * 64 + d) div 64 ^ length ds = a * 64 + d"
      by (subst pack64_shift) simp
    with Cons.prems i show ?thesis by (simp add: group64_def)
  qed
qed

lemma pack64_high:
  assumes "\<forall>d\<in>set ds. d < 64"
  shows "pack64 ds a div 64 ^ (length ds + k) = a div 64 ^ k"
proof -
  have "pack64 ds 0 < 64 ^ length ds" using assms by (rule pack64_bound)
  then have "pack64 ds a div 64 ^ length ds = a" by (subst pack64_shift) simp
  then show ?thesis by (simp add: power_add div_mult2_eq)
qed

lemma shifts_10: "shifts 10 = [54, 48, 42, 36, 30, 24, 18, 12, 6, 0]"
  by code_simp

lemma group_mask_10: "group_mask 10 = 0x0FC0000000000000"
  by (simp add: group_mask_def)

lemma top_bits: "drop_bit 60 (x AND 0xF000000000000000 :: u64) = 0xF \<longleftrightarrow> unat x div 2 ^ 60 = 15"
proof -
  have "drop_bit 60 (x AND 0xF000000000000000) = drop_bit 60 x"
  proof (rule bit_word_eqI)
    fix n
    assume "n < LENGTH(64)"
    have m: "(0xF000000000000000 :: u64) = push_bit 60 (mask 4)"
      by (simp add: mask_eq_exp_minus_1)
    show "bit (drop_bit 60 (x AND 0xF000000000000000)) n \<longleftrightarrow> bit (drop_bit 60 x) n"
      unfolding m
      by (auto simp: bit_and_iff bit_drop_bit_eq bit_push_bit_iff bit_mask_iff
          simp del: mask_numeral dest: bit_imp_le_length)
  qed
  then have "drop_bit 60 (x AND 0xF000000000000000 :: u64) = 0xF \<longleftrightarrow> unat (drop_bit 60 x) = unat (0xF :: u64)"
    by (simp only: word_unat_eq_iff)
  then show ?thesis by (simp add: unat_drop_bit_div)
qed

lemma map_rev_upt: "map (\<lambda>i. f (xs ! (length xs - 1 - i))) (rev [0..<length xs]) = map f xs"
  by (rule nth_equalityI) (auto simp: rev_nth)

lemma char_enc_digits: "\<forall>d\<in>set (map char_enc s). d < 64"
  by (auto intro: char_enc_bound)

lemma unat_atom:
  assumes "length s \<le> 10" and "\<forall>c\<in>set s. of_char c \<noteq> (0::nat)"
  shows "unat (atom_val s 0xF) = pack64 (map char_enc s) 15"
proof -
  let ?ds = "map char_enc s"
  have "pack64 ?ds 15 < 16 * 64 ^ length s"
    using pack64_shift [of ?ds 15] pack64_bound [OF char_enc_digits] by (simp del: map_map)
  moreover have "16 * 64 ^ length s \<le> (16 * 64 ^ 10 :: nat)"
    using assms(1) by (intro mult_le_mono2 power_increasing) auto
  ultimately have "pack64 ?ds 15 < 2 ^ 64" by simp
  with unat_atom_val [of s "0xF"] assms(2) show ?thesis by simp
qed

lemma pack64_chars:
  "map (\<lambda>i. decoding_table ! group64 (pack64 (map char_enc s) a) i) (rev [0..<length s]) =
     map char_canon s"
proof -
  let ?ds = "map char_enc s"
  have "map (\<lambda>i. decoding_table ! group64 (pack64 ?ds a) i) (rev [0..<length s]) =
      map (\<lambda>i. decoding_table ! (?ds ! (length ?ds - 1 - i))) (rev [0..<length ?ds])"
    by (rule map_cong) (auto simp: pack64_group [OF char_enc_digits])
  also have "\<dots> = map (\<lambda>d. decoding_table ! d) ?ds" by (rule map_rev_upt)
  finally show ?thesis by (simp add: char_canon_def comp_def)
qed

lemma atom_to_string_canon:
  assumes "length s \<le> 10" and "\<forall>c\<in>set s. of_char c \<noteq> (0::nat)"
  shows "atom_to_string (atom_val s 0xF) = map char_canon s"
proof -
  let ?k = "length s" and ?x = "atom_val s 0xF"
  note x = unat_atom [OF assms]
  have chars: "map (\<lambda>i. decoding_table ! group64 (unat ?x) i) (rev [0..<?k]) = map char_canon s"
    unfolding x by (rule pack64_chars)
  have grp: "unat ?x div 64 ^ (?k + i) = 15 div 64 ^ i" for i
    using pack64_high [OF char_enc_digits, of s 15 i] by (simp add: x)
  show ?thesis
  proof (cases "?k = 10")
    case True
    with grp [of 0] have "unat ?x div 2 ^ 60 = 15" by simp
    with True chars show ?thesis
      by (simp add: atom_to_string_def top_bits shifts_10 [symmetric] group_mask_10 [symmetric]
          loop_reading del: drop_bit_and)
  next
    case False
    with assms(1) have k: "?k < 10" by simp
    have at: "group64 (unat ?x) ?k = 15" using grp [of 0] by (simp add: group64_def)
    have above: "group64 (unat ?x) i \<noteq> 15" if "?k < i" for i
    proof -
      from that obtain j where "i = ?k + Suc j" by (auto simp: less_iff_Suc_add)
      with grp [of "Suc j"] show ?thesis by (simp add: group64_def div_mult2_eq)
    qed
    have "unat ?x div 2 ^ 60 = 15 div 64 ^ (10 - ?k)" using grp [of "10 - ?k"] k by simp
    also have "\<dots> = 0" using k by (cases "10 - ?k") (auto simp: div_mult2_eq)
    finally have "unat ?x div 2 ^ 60 \<noteq> 15" by simp
    with loop_searching [OF k, of ?x] at above chars show ?thesis
      by (simp add: atom_to_string_def top_bits shifts_10 [symmetric] group_mask_10 [symmetric]
          del: drop_bit_and)
  qed
qed

text \<open>
  Atoms are injective on their alphabet: two strings of at most ten characters from the
  encoding table's alphabet (digits, letters, underscore, space) that give the same atom are
  equal, because printing the atom gives the string back. The actors' message tags can
  therefore be compared as 64-bit integers.
\<close>

theorem atom_roundtrip:
  assumes "list_all atom_char s" and "atom s = Some a"
  shows "atom_to_string a = s \<and> (\<forall>t. list_all atom_char t \<longrightarrow> atom t = Some a \<longrightarrow> t = s)"
proof -
  have "atom_to_string a = t" if "list_all atom_char t" "atom t = Some a" for t
  proof -
    from that have "length t \<le> 10" "a = atom_val t 0xF"
      by (auto simp: atom_def split: if_splits)
    moreover have "map char_canon t = t" "\<forall>c\<in>set t. of_char c \<noteq> (0::nat)"
      using that(1) by (auto simp: list_all_iff char_canon_atom_char atom_char_nonzero intro: map_idI)
    ultimately show ?thesis using atom_to_string_canon by simp
  qed
  with assms show ?thesis by blast
qed

theorem atom_roundtrip_witness:
  "atom_to_string (atom_val ''calculate'' 0xF) = ''calculate''"
  by (rule conjunct1 [OF atom_roundtrip]) (code_simp, code_simp)

end
