(* ===== verification/Message_Id.thy ===== *)
theory Message_Id
  imports Prelude
begin

text \<open>
  Message identifiers (caf/message_id.hpp): a 64-bit integer whose three top bits flag
  responses, answered requests and high priority, and whose remaining 61 bits number the
  request. The theory shows that the flag operations do not disturb each other or the
  request number, and that the class's three-way comparison is a linear order.
\<close>

unbundle bit_operations_syntax

section \<open>Definitions\<close>

datatype message_id = Message_id (m_value: u64)

definition response_flag_mask :: u64 where
  "response_flag_mask = 0x8000000000000000"

definition answered_flag_mask :: u64 where
  "answered_flag_mask = 0x4000000000000000"

definition high_prioity_flag_mask :: u64 where
  "high_prioity_flag_mask = 0x2000000000000000"

definition request_id_mask :: u64 where
  "request_id_mask = 0x1FFFFFFFFFFFFFFF"

text \<open>Both constructors without an integer, and the conversion from \<open>invalid_message_id\<close>.\<close>

definition invalid_message_id :: message_id where
  "invalid_message_id = Message_id 0"

definition mid_inc :: "message_id \<Rightarrow> message_id" where
  "mid_inc m = Message_id (m_value m + 1)"

definition is_response :: "message_id \<Rightarrow> bool" where
  "is_response m \<longleftrightarrow> m_value m AND response_flag_mask \<noteq> 0"

definition is_answered :: "message_id \<Rightarrow> bool" where
  "is_answered m \<longleftrightarrow> m_value m AND answered_flag_mask \<noteq> 0"

definition is_high_priority :: "message_id \<Rightarrow> bool" where
  "is_high_priority m \<longleftrightarrow> m_value m AND high_prioity_flag_mask \<noteq> 0"

definition mid_valid :: "message_id \<Rightarrow> bool" where
  "mid_valid m \<longleftrightarrow> m_value m AND request_id_mask \<noteq> 0"

definition is_request :: "message_id \<Rightarrow> bool" where
  "is_request m \<longleftrightarrow> mid_valid m \<and> \<not> is_response m"

definition response_id :: "message_id \<Rightarrow> message_id" where
  "response_id m = Message_id (if is_request m then m_value m OR response_flag_mask else 0)"

definition request_id :: "message_id \<Rightarrow> message_id" where
  "request_id m = Message_id (m_value m AND request_id_mask)"

definition with_high_priority :: "message_id \<Rightarrow> message_id" where
  "with_high_priority m = Message_id (m_value m OR high_prioity_flag_mask)"

definition with_normal_priority :: "message_id \<Rightarrow> message_id" where
  "with_normal_priority m = Message_id (m_value m AND NOT high_prioity_flag_mask)"

definition mark_as_answered :: "message_id \<Rightarrow> message_id" where
  "mark_as_answered m = Message_id (m_value m OR answered_flag_mask)"

definition from_integer_value :: "u64 \<Rightarrow> message_id" where
  "from_integer_value v = Message_id v"

definition mid_compare :: "message_id \<Rightarrow> message_id \<Rightarrow> int" where
  "mid_compare a b = (if m_value a = m_value b then 0 else if m_value a < m_value b then -1 else 1)"

lemmas message_id_defs [code_defs] =
  response_flag_mask_def answered_flag_mask_def high_prioity_flag_mask_def request_id_mask_def
  invalid_message_id_def mid_inc_def is_response_def is_answered_def is_high_priority_def
  mid_valid_def is_request_def response_id_def request_id_def with_high_priority_def
  with_normal_priority_def mark_as_answered_def from_integer_value_def

section \<open>The order of message identifiers\<close>

instantiation message_id :: linorder
begin

definition less_eq_message_id :: "message_id \<Rightarrow> message_id \<Rightarrow> bool" where
  "less_eq_message_id a b \<longleftrightarrow> mid_compare a b \<le> 0"

definition less_message_id :: "message_id \<Rightarrow> message_id \<Rightarrow> bool" where
  "less_message_id a b \<longleftrightarrow> mid_compare a b < 0"

instance
  by standard
    (auto simp: less_eq_message_id_def less_message_id_def mid_compare_def message_id.expand
      split: if_splits)

end

section \<open>Bits of the masks\<close>

lemma mask_bits:
  "bit response_flag_mask n \<longleftrightarrow> n = 63"
  "bit answered_flag_mask n \<longleftrightarrow> n = 62"
  "bit high_prioity_flag_mask n \<longleftrightarrow> n = 61"
  "bit request_id_mask n \<longleftrightarrow> n < 61"
proof -
  have p: "response_flag_mask = push_bit 63 1" "answered_flag_mask = push_bit 62 1"
    "high_prioity_flag_mask = push_bit 61 1" "request_id_mask = mask 61"
    by (simp_all add: message_id_defs mask_eq_exp_minus_1)
  show "bit response_flag_mask n \<longleftrightarrow> n = 63" "bit answered_flag_mask n \<longleftrightarrow> n = 62"
    "bit high_prioity_flag_mask n \<longleftrightarrow> n = 61" "bit request_id_mask n \<longleftrightarrow> n < 61"
    unfolding p
    by (auto simp: bit_push_bit_iff bit_mask_iff bit_1_iff simp del: push_bit_of_1 mask_numeral)
qed

lemma word_nonzero_iff_bit: "(w :: 'a::len word) \<noteq> 0 \<longleftrightarrow> (\<exists>n. bit w n)"
  by (metis bit_0_eq bit_eqI bot_apply bot_bool_def)

text \<open>Each query reads its own bits.\<close>

lemma flag_bits:
  "is_response m \<longleftrightarrow> bit (m_value m) 63"
  "is_answered m \<longleftrightarrow> bit (m_value m) 62"
  "is_high_priority m \<longleftrightarrow> bit (m_value m) 61"
  "mid_valid m \<longleftrightarrow> (\<exists>n<61. bit (m_value m) n)"
  by (auto simp: is_response_def is_answered_def is_high_priority_def mid_valid_def
      word_nonzero_iff_bit bit_and_iff mask_bits)

lemma update_bits:
  "bit (m_value (with_high_priority m)) n \<longleftrightarrow> bit (m_value m) n \<or> n = 61"
  "bit (m_value (with_normal_priority m)) n \<longleftrightarrow> bit (m_value m) n \<and> n \<noteq> 61"
  "bit (m_value (mark_as_answered m)) n \<longleftrightarrow> bit (m_value m) n \<or> n = 62"
  "bit (m_value (request_id m)) n \<longleftrightarrow> bit (m_value m) n \<and> n < 61"
  "bit (m_value (response_id m)) n \<longleftrightarrow> is_request m \<and> (bit (m_value m) n \<or> n = 63)"
  by (auto simp: with_high_priority_def with_normal_priority_def mark_as_answered_def
      request_id_def response_id_def bit_or_iff bit_and_iff bit_not_iff mask_bits
      dest: bit_imp_le_length)

lemma message_id_eqI: "(\<And>n. bit (m_value a) n \<longleftrightarrow> bit (m_value b) n) \<Longrightarrow> a = b"
  by (rule message_id.expand) (rule bit_eqI, simp)

section \<open>Requests and responses\<close>

lemma is_request_bits: "is_request m \<longleftrightarrow> (\<exists>n<61. bit (m_value m) n) \<and> \<not> bit (m_value m) 63"
  by (simp add: is_request_def flag_bits)

lemma response_id_invalid [simp]: "\<not> is_request m \<Longrightarrow> response_id m = invalid_message_id"
  by (simp add: response_id_def invalid_message_id_def)

lemma response_id_not_request: "\<not> is_request (response_id m)"
  by (auto simp: is_request_bits update_bits)

lemma response_id_is_response: "is_request m \<Longrightarrow> is_response (response_id m)"
  by (simp add: flag_bits update_bits)

lemma response_id_valid: "is_request m \<Longrightarrow> mid_valid (response_id m)"
  by (auto simp: flag_bits update_bits is_request_bits)

lemma response_id_request_id: "is_request m \<Longrightarrow> request_id (response_id m) = request_id m"
  by (rule message_id_eqI) (auto simp: update_bits)

lemma priority_response_id:
  "is_request m \<Longrightarrow> is_high_priority (response_id m) = is_high_priority m"
  by (simp add: flag_bits update_bits)

lemma invalid_mid [simp]:
  "\<not> mid_valid invalid_message_id" "\<not> is_response invalid_message_id"
  "\<not> is_request invalid_message_id" "\<not> is_high_priority invalid_message_id"
  by (simp_all add: flag_bits is_request_bits invalid_message_id_def)

lemma with_high_priority_queries [simp]:
  "is_high_priority (with_high_priority m)"
  "is_response (with_high_priority m) = is_response m"
  "is_answered (with_high_priority m) = is_answered m"
  "mid_valid (with_high_priority m) = mid_valid m"
  "is_request (with_high_priority m) = is_request m"
  by (auto simp: flag_bits is_request_bits update_bits)

lemma mark_as_answered_queries [simp]:
  "is_answered (mark_as_answered m)"
  "is_request (mark_as_answered m) = is_request m"
  "mid_valid (mark_as_answered m) = mid_valid m"
  by (auto simp: flag_bits is_request_bits update_bits)

text \<open>
  The identifier a reply carries: for a request it is a valid response identifier with
  the same request number, priority and answered flag, it is no request itself (so replying
  to a reply yields the invalid identifier), and marking the request as answered or changing
  its priority beforehand changes nothing but that flag; for anything that is not a request
  the reply identifier is the invalid one.
\<close>

theorem response_id_correct:
  "(if is_request m
    then is_response (response_id m) \<and> mid_valid (response_id m)
       \<and> request_id (response_id m) = request_id m
       \<and> is_high_priority (response_id m) = is_high_priority m
       \<and> is_answered (response_id m) = is_answered m
       \<and> response_id (mark_as_answered m) = mark_as_answered (response_id m)
       \<and> response_id (with_high_priority m) = with_high_priority (response_id m)
       \<and> with_normal_priority (with_high_priority (response_id m))
           = with_normal_priority (response_id m)
    else response_id m = invalid_message_id)
   \<and> response_id (response_id m) = invalid_message_id"
proof (cases "is_request m")
  case True
  have "response_id (mark_as_answered m) = mark_as_answered (response_id m)"
    "response_id (with_high_priority m) = with_high_priority (response_id m)"
    "with_normal_priority (with_high_priority (response_id m)) = with_normal_priority (response_id m)"
    using True by (auto intro!: message_id_eqI simp: update_bits)
  moreover have "is_answered (response_id m) = is_answered m"
    using True by (simp add: flag_bits update_bits)
  ultimately show ?thesis
    using True by (simp add: response_id_is_response response_id_valid response_id_request_id
        priority_response_id response_id_not_request)
qed (simp add: response_id_not_request)

section \<open>The request counter\<close>

lemma small_value_bits: "unat (m_value m) < 2 ^ 61 \<Longrightarrow> bit (m_value m) n \<Longrightarrow> n < 61"
proof -
  assume small: "unat (m_value m) < 2 ^ 61" and b: "bit (m_value m) n"
  from small have "take_bit 61 (m_value m) = m_value m"
    by (simp add: word_unat_eq_iff unat_take_bit_mod)
  with b show "n < 61" by (metis bit_take_bit_iff)
qed

lemma small_value_request:
  assumes "0 < unat (m_value m)" and "unat (m_value m) < 2 ^ 61"
  shows "is_request m \<and> \<not> is_answered m \<and> \<not> is_high_priority m"
proof -
  from assms(1) have "m_value m \<noteq> 0" by auto
  then obtain n where "bit (m_value m) n" by (auto simp: word_nonzero_iff_bit)
  moreover note bits = small_value_bits [OF assms(2)]
  ultimately have "\<exists>n<61. bit (m_value m) n" by blast
  moreover have "\<not> bit (m_value m) 61" "\<not> bit (m_value m) 62" "\<not> bit (m_value m) 63"
    using bits [of 61] bits [of 62] bits [of 63] by auto
  ultimately show ?thesis by (simp add: is_request_bits flag_bits)
qed

text \<open>
  Counting requests: while the counter is below \<open>2^61 - 1\<close> its successor is a
  fresh, valid request identifier without any flag; the successor of \<open>2^61 - 1\<close> has no
  request number left and carries the high-priority flag instead.
\<close>

theorem mid_inc_counts:
  "(unat (m_value m) + 1 < 2 ^ 61 \<longrightarrow>
      is_request (mid_inc m) \<and> \<not> is_answered (mid_inc m) \<and> \<not> is_high_priority (mid_inc m)
      \<and> m < mid_inc m \<and> request_id (mid_inc m) = mid_inc m)
   \<and> (unat (m_value m) + 1 = 2 ^ 61 \<longrightarrow> \<not> mid_valid (mid_inc m) \<and> is_high_priority (mid_inc m))"
proof (intro conjI impI)
  assume small: "unat (m_value m) + 1 < 2 ^ 61"
  then have v: "unat (m_value (mid_inc m)) = unat (m_value m) + 1"
    by (simp add: mid_inc_def unat_word_ariths)
  with small have "0 < unat (m_value (mid_inc m))" "unat (m_value (mid_inc m)) < 2 ^ 61" by simp_all
  note r = small_value_request [OF this] and bits = small_value_bits [OF this(2)]
  from r show "is_request (mid_inc m)" "\<not> is_answered (mid_inc m)" "\<not> is_high_priority (mid_inc m)"
    by auto
  from v have "m_value m < m_value (mid_inc m)" by (simp add: word_less_nat_alt)
  then show "m < mid_inc m" by (auto simp: less_message_id_def mid_compare_def)
  show "request_id (mid_inc m) = mid_inc m"
    by (rule message_id_eqI) (auto simp: update_bits dest: bits)
next
  assume "unat (m_value m) + 1 = 2 ^ 61"
  then have "unat (m_value (mid_inc m)) = unat (high_prioity_flag_mask)"
    by (simp add: mid_inc_def unat_word_ariths high_prioity_flag_mask_def)
  then have "m_value (mid_inc m) = high_prioity_flag_mask" by (simp only: word_unat_eq_iff)
  then show "\<not> mid_valid (mid_inc m)" "is_high_priority (mid_inc m)"
    by (auto simp: flag_bits mask_bits)
qed

theorem mid_inc_counts_witness:
  "is_request (mid_inc (Message_id 41)) \<and> \<not> mid_valid (mid_inc (Message_id (2 ^ 61 - 1)))"
  using mid_inc_counts [of "Message_id 41"] mid_inc_counts [of "Message_id (2 ^ 61 - 1)"] by simp

end
