(* ===== verification/Behavior_Stack.thy ===== *)
theory Behavior_Stack
  imports Message_Id "HOL-Library.Multiset"
begin

text \<open>
  The behavior stack of an actor (caf/detail/behavior_stack.hpp, src/behavior_stack.cpp) and
  the \<open>become\<close>/\<open>unbecome\<close> family of caf/mixin/behavior_stack_based.hpp. Asynchronous
  behaviors and the one-shot handlers of pending responses share one vector; removed
  behaviors are kept aside until \<open>cleanup\<close>, because one of them may be running.
\<close>

section \<open>Definitions\<close>

record 'b behavior_stack =
  m_elements :: "('b \<times> message_id) list"
  m_erased_elements :: "'b list"

definition empty_stack :: "'b behavior_stack" where
  "empty_stack = \<lparr>m_elements = [], m_erased_elements = []\<rparr>"

text \<open>\<open>erase_at(i)\<close>; \<open>None\<close> is the end iterator.\<close>

definition erase_at :: "nat option \<Rightarrow> 'b behavior_stack \<Rightarrow> 'b behavior_stack" where
  "erase_at i st = (case i of
      None \<Rightarrow> st
    | Some k \<Rightarrow> st\<lparr>m_erased_elements := m_erased_elements st @ [fst (m_elements st ! k)],
                   m_elements := erase_nth k (m_elements st)\<rparr>)"

definition erase_if :: "('b \<times> message_id \<Rightarrow> bool) \<Rightarrow> 'b behavior_stack \<Rightarrow> 'b behavior_stack" where
  "erase_if p st = erase_at (find_if p (m_elements st)) st"

definition rerase_if :: "('b \<times> message_id \<Rightarrow> bool) \<Rightarrow> 'b behavior_stack \<Rightarrow> 'b behavior_stack" where
  "rerase_if p st = erase_at (rfind_if p (m_elements st)) st"

definition bs_erase :: "message_id \<Rightarrow> 'b behavior_stack \<Rightarrow> 'b behavior_stack" where
  "bs_erase rid st = erase_if (\<lambda>e. snd e = rid) st"

definition sync_handler :: "'b behavior_stack \<Rightarrow> message_id \<Rightarrow> 'b option" where
  "sync_handler st expected_response =
     (if mid_valid expected_response
      then map_option (\<lambda>i. fst (m_elements st ! i))
             (rfind_if (\<lambda>e. snd e = expected_response) (m_elements st))
      else None)"

definition pop_async_back :: "'b behavior_stack \<Rightarrow> 'b behavior_stack" where
  "pop_async_back st =
     (if m_elements st = [] then st
      else if \<not> mid_valid (snd (last (m_elements st)))
      then erase_at (Some (length (m_elements st) - 1)) st
      else rerase_if (\<lambda>e. \<not> mid_valid (snd e)) st)"

definition bs_clear :: "'b behavior_stack \<Rightarrow> 'b behavior_stack" where
  "bs_clear st =
     (if m_elements st \<noteq> []
      then st\<lparr>m_erased_elements := m_erased_elements st @ map fst (m_elements st), m_elements := []\<rparr>
      else st)"

definition bs_empty :: "'b behavior_stack \<Rightarrow> bool" where
  "bs_empty st \<longleftrightarrow> m_elements st = []"

text \<open>\<open>back\<close> and \<open>back_id\<close> require a non-empty stack; \<open>None\<close> is the violated requirement.\<close>

definition bs_back :: "'b behavior_stack \<Rightarrow> 'b option" where
  "bs_back st = (if m_elements st = [] then None else Some (fst (last (m_elements st))))"

definition bs_back_id :: "'b behavior_stack \<Rightarrow> message_id option" where
  "bs_back_id st = (if m_elements st = [] then None else Some (snd (last (m_elements st))))"

definition bs_push_back :: "'b \<Rightarrow> message_id \<Rightarrow> 'b behavior_stack \<Rightarrow> 'b behavior_stack" where
  "bs_push_back what rid st = st\<lparr>m_elements := m_elements st @ [(what, rid)]\<rparr>"

definition bs_cleanup :: "'b behavior_stack \<Rightarrow> 'b behavior_stack" where
  "bs_cleanup st = st\<lparr>m_erased_elements := []\<rparr>"

section \<open>Both erase operations remove one occurrence\<close>

definition async_elem :: "'b \<times> message_id \<Rightarrow> bool" where
  "async_elem e \<longleftrightarrow> \<not> mid_valid (snd e)"

text \<open>The views of the specification: the asynchronous behaviors, bottom to top, and the
  handlers of the pending responses.\<close>

definition async_view :: "'b behavior_stack \<Rightarrow> 'b list" where
  "async_view st = map fst (filter async_elem (m_elements st))"

definition sync_view :: "'b behavior_stack \<Rightarrow> ('b \<times> message_id) list" where
  "sync_view st = filter (\<lambda>e. \<not> async_elem e) (m_elements st)"

text \<open>Everything the stack still holds: the live and the set-aside behaviors.\<close>

definition held :: "'b behavior_stack \<Rightarrow> 'b multiset" where
  "held st = mset (map fst (m_elements st)) + mset (m_erased_elements st)"

definition bs_wf :: "'b behavior_stack \<Rightarrow> bool" where
  "bs_wf st \<longleftrightarrow> distinct (map snd (sync_view st))"

lemma erase_at_split:
  "m_elements st = xs @ x # ys \<Longrightarrow> erase_at (Some (length xs)) st =
     st\<lparr>m_erased_elements := m_erased_elements st @ [fst x], m_elements := xs @ ys\<rparr>"
  by (simp add: erase_at_def)

lemma rfind_if_last_split:
  assumes "rfind_if p xs = Some i"
  obtains ys x zs where "xs = ys @ x # zs" "i = length ys" "p x" "\<forall>z\<in>set zs. \<not> p z"
proof
  from rfind_if_SomeD [OF assms] have i: "i < length xs" "p (xs ! i)"
    and none: "\<And>j. i < j \<Longrightarrow> j < length xs \<Longrightarrow> \<not> p (xs ! j)" by auto
  from i show "xs = take i xs @ xs ! i # drop (Suc i) xs" by (simp add: id_take_nth_drop)
  from i show "i = length (take i xs)" "p (xs ! i)" by auto
  show "\<forall>z\<in>set (drop (Suc i) xs). \<not> p z"
    using none by (auto simp: in_set_conv_nth)
qed

lemma find_if_first_split:
  assumes "find_if p xs = Some i"
  obtains ys x zs where "xs = ys @ x # zs" "i = length ys" "p x" "\<forall>y\<in>set ys. \<not> p y"
proof
  from find_if_SomeD [OF assms] have i: "i < length xs" "p (xs ! i)"
    and none: "\<And>j. j < i \<Longrightarrow> \<not> p (xs ! j)" by auto
  from i show "xs = take i xs @ xs ! i # drop (Suc i) xs" by (simp add: id_take_nth_drop)
  from i show "i = length (take i xs)" "p (xs ! i)" by auto
  show "\<forall>y\<in>set (take i xs). \<not> p y"
    using none by (auto simp: in_set_conv_nth)
qed

text \<open>\<open>pop_async_back\<close> as a case distinction on where the last asynchronous behavior is.\<close>

lemma pop_async_back_cases:
  obtains (none) "filter async_elem (m_elements st) = []" "pop_async_back st = st"
  | (some) xs x ys where "m_elements st = xs @ x # ys" "async_elem x" "filter async_elem ys = []"
      "pop_async_back st = st\<lparr>m_erased_elements := m_erased_elements st @ [fst x],
                              m_elements := xs @ ys\<rparr>"
proof (cases "rfind_if (\<lambda>e. \<not> mid_valid (snd e)) (m_elements st)")
  case None
  then have no: "filter async_elem (m_elements st) = []"
    by (auto simp: rfind_if_None async_elem_def filter_empty_conv)
  with None have "pop_async_back st = st"
    by (cases "m_elements st" rule: rev_cases)
      (auto simp: pop_async_back_def rerase_if_def erase_at_def async_elem_def)
  with no show thesis by (rule none)
next
  case (Some i)
  then obtain xs x ys where s: "m_elements st = xs @ x # ys" "i = length xs"
      "\<not> mid_valid (snd x)" "\<forall>z\<in>set ys. \<not> \<not> mid_valid (snd z)"
    by (rule rfind_if_last_split)
  then have f: "async_elem x" "filter async_elem ys = []"
    by (auto simp: async_elem_def filter_empty_conv)
  have "pop_async_back st = erase_at (Some (length xs)) st"
  proof (cases ys rule: rev_cases)
    case Nil
    with s show ?thesis by (simp add: pop_async_back_def)
  next
    case (snoc zs z)
    with s Some show ?thesis by (simp add: pop_async_back_def rerase_if_def)
  qed
  with erase_at_split [OF s(1)] some [OF s(1) f] show thesis by simp
qed

section \<open>The contract of a handler store\<close>

text \<open>
  What the actor relies on: a stack of asynchronous behaviors and a finite map from
  response identifiers to handlers, which do not interfere.
\<close>

locale handler_store =
  fixes push :: "'b \<Rightarrow> message_id \<Rightarrow> 's \<Rightarrow> 's"
    and pop_async :: "'s \<Rightarrow> 's"
    and erase :: "message_id \<Rightarrow> 's \<Rightarrow> 's"
    and handler_of :: "'s \<Rightarrow> message_id \<Rightarrow> 'b option"
    and asyncs :: "'s \<Rightarrow> 'b list"
    and ok :: "'s \<Rightarrow> bool"
  assumes asyncs_push: "asyncs (push b m s) = (if mid_valid m then asyncs s else asyncs s @ [b])"
    and asyncs_pop: "asyncs (pop_async s) = butlast (asyncs s)"
    and asyncs_erase: "mid_valid m \<Longrightarrow> asyncs (erase m s) = asyncs s"
    and handler_push: "handler_of (push b m s) m' =
      (if mid_valid m \<and> m' = m then Some b else handler_of s m')"
    and handler_pop: "handler_of (pop_async s) m' = handler_of s m'"
    and handler_erase: "ok s \<Longrightarrow> mid_valid m \<Longrightarrow>
      handler_of (erase m s) m' = (if m' = m then None else handler_of s m')"
    and ok_push: "ok s \<Longrightarrow> handler_of s m = None \<Longrightarrow> ok (push b m s)"
    and ok_pop: "ok s \<Longrightarrow> ok (pop_async s)"
    and ok_erase: "ok s \<Longrightarrow> ok (erase m s)"
begin

text \<open>\<open>become\<close> with the default policy: the newest asynchronous behavior is replaced.\<close>

lemma become_discard:
  assumes "\<not> mid_valid m"
  shows "asyncs (push b m (pop_async s)) = butlast (asyncs s) @ [b]"
    and "handler_of (push b m (pop_async s)) m' = handler_of s m'"
  using assms by (simp_all add: asyncs_push asyncs_pop handler_push handler_pop)

lemma unbecome_become_keep:
  assumes "\<not> mid_valid m"
  shows "asyncs (pop_async (push b m s)) = asyncs s"
    and "handler_of (pop_async (push b m s)) m' = handler_of s m'"
  using assms by (simp_all add: asyncs_push asyncs_pop handler_push handler_pop)

text \<open>A response handler is used once: awaiting a response and removing its handler
  afterwards leaves both views as they were.\<close>

lemma await_then_remove:
  assumes "ok s" "mid_valid m" "handler_of s m = None"
  shows "handler_of (push b m s) m = Some b"
    and "asyncs (erase m (push b m s)) = asyncs s"
    and "handler_of (erase m (push b m s)) m' = handler_of s m'"
  using assms by (simp_all add: asyncs_push asyncs_erase handler_push handler_erase ok_push)

end

section \<open>The behavior stack implements it\<close>

lemma async_view_push:
  "async_view (bs_push_back b m st) = (if mid_valid m then async_view st else async_view st @ [b])"
  by (simp add: async_view_def bs_push_back_def async_elem_def)

lemma async_view_pop: "async_view (pop_async_back st) = butlast (async_view st)"
  by (rule pop_async_back_cases [of st]) (auto simp: async_view_def butlast_append)

lemma sync_view_pop: "sync_view (pop_async_back st) = sync_view st"
  by (rule pop_async_back_cases [of st]) (auto simp: sync_view_def)

lemma bs_erase_cases:
  obtains (none) "\<forall>e\<in>set (m_elements st). snd e \<noteq> rid" "bs_erase rid st = st"
  | (some) xs x ys where "m_elements st = xs @ x # ys" "snd x = rid" "\<forall>e\<in>set xs. snd e \<noteq> rid"
      "bs_erase rid st = st\<lparr>m_erased_elements := m_erased_elements st @ [fst x], m_elements := xs @ ys\<rparr>"
proof (cases "find_if (\<lambda>e. snd e = rid) (m_elements st)")
  case None
  then have "\<forall>e\<in>set (m_elements st). snd e \<noteq> rid" by (simp add: find_if_None)
  with None show thesis by (intro none) (simp_all add: bs_erase_def erase_if_def erase_at_def)
next
  case (Some i)
  then obtain xs x ys where s: "m_elements st = xs @ x # ys" "i = length xs" "snd x = rid"
      "\<forall>e\<in>set xs. snd e \<noteq> rid"
    by (rule find_if_first_split)
  with Some erase_at_split [OF s(1)] show thesis
    by (intro some [OF s(1,3,4)]) (simp add: bs_erase_def erase_if_def)
qed

text \<open>The handler of a response is the last entry of the map the stack denotes.\<close>

lemma find_if_map_of:
  "map_option (\<lambda>i. fst (xs ! i)) (find_if (\<lambda>e. snd e = m) xs) = map_of (map prod.swap xs) m"
  by (induction xs) (auto simp: option.map_comp comp_def)

lemma rfind_if_map_of:
  "map_option (\<lambda>i. fst (xs ! i)) (rfind_if (\<lambda>e. snd e = m) xs) = map_of (map prod.swap (rev xs)) m"
proof -
  have "map_option (\<lambda>i. fst (xs ! i)) (rfind_if (\<lambda>e. snd e = m) xs) =
      map_option (\<lambda>i. fst (rev xs ! i)) (find_if (\<lambda>e. snd e = m) (rev xs))"
    by (cases "find_if (\<lambda>e. snd e = m) (rev xs)")
      (auto simp: rfind_if_def rev_nth dest: find_if_SomeD)
  also have "\<dots> = map_of (map prod.swap (rev xs)) m" by (rule find_if_map_of)
  finally show ?thesis .
qed

lemma map_of_swap_sync:
  "mid_valid m \<Longrightarrow> map_of (map prod.swap xs) m =
     map_of (map prod.swap (filter (\<lambda>e. \<not> async_elem e) xs)) m"
  by (induction xs) (auto simp: async_elem_def)

lemma sync_handler_map:
  "sync_handler st m =
     (if mid_valid m then map_of (map prod.swap (rev (sync_view st))) m else None)"
  by (simp add: sync_handler_def rfind_if_map_of map_of_swap_sync [of m "rev (m_elements st)"]
      sync_view_def rev_filter)

lemma sync_view_push:
  "sync_view (bs_push_back b m st) = sync_view st @ (if mid_valid m then [(b, m)] else [])"
  by (simp add: sync_view_def bs_push_back_def async_elem_def)

lemma sync_view_erase:
  assumes "bs_wf st"
  shows "sync_view (bs_erase m st) = (if mid_valid m then filter (\<lambda>e. snd e \<noteq> m) (sync_view st) else sync_view st)"
proof (cases rule: bs_erase_cases [of st m])
  case none
  then have "filter (\<lambda>e. snd e \<noteq> m) (sync_view st) = sync_view st"
    by (auto simp: sync_view_def intro!: filter_cong)
  with none show ?thesis by simp
next
  case (some xs x ys)
  show ?thesis
  proof (cases "mid_valid m")
    case True
    with assms some have "\<forall>e\<in>set ys. \<not> async_elem e \<longrightarrow> snd e \<noteq> m"
      by (auto simp: bs_wf_def sync_view_def async_elem_def in_snd_image)
    with True some show ?thesis
      by (auto simp: sync_view_def async_elem_def intro!: arg_cong2 [where f = append] filter_cong)
  next
    case False
    with some show ?thesis by (simp add: sync_view_def async_elem_def)
  qed
qed

lemma async_view_erase: "mid_valid m \<Longrightarrow> async_view (bs_erase m st) = async_view st"
  by (rule bs_erase_cases [of st m]) (auto simp: async_view_def async_elem_def)

lemma map_of_swap_None: "map_of (map prod.swap xs) m = None \<longleftrightarrow> m \<notin> snd ` set xs"
  by (induction xs) auto

lemma map_of_swap_filter:
  "m' \<noteq> m \<Longrightarrow> map_of (map prod.swap (filter (\<lambda>e. snd e \<noteq> m) xs)) m' = map_of (map prod.swap xs) m'"
  by (induction xs) auto

interpretation bstack: handler_store bs_push_back pop_async_back bs_erase sync_handler async_view bs_wf
proof unfold_locales
  fix s :: "'a behavior_stack" and m m' b
  show "async_view (bs_push_back b m s) = (if mid_valid m then async_view s else async_view s @ [b])"
    by (rule async_view_push)
  show "async_view (pop_async_back s) = butlast (async_view s)" by (rule async_view_pop)
  show "mid_valid m \<Longrightarrow> async_view (bs_erase m s) = async_view s" by (rule async_view_erase)
  show "sync_handler (bs_push_back b m s) m' =
      (if mid_valid m \<and> m' = m then Some b else sync_handler s m')"
    by (auto simp: sync_handler_map sync_view_push)
  show "sync_handler (pop_async_back s) m' = sync_handler s m'"
    by (simp add: sync_handler_map sync_view_pop)
  show "bs_wf s \<Longrightarrow> sync_handler s m = None \<Longrightarrow> bs_wf (bs_push_back b m s)"
    by (auto simp: bs_wf_def sync_view_push sync_handler_map map_of_swap_None in_snd_image)
  show "bs_wf s \<Longrightarrow> bs_wf (pop_async_back s)" by (simp add: bs_wf_def sync_view_pop)
  assume wf: "bs_wf s"
  then show "bs_wf (bs_erase m s)"
    by (auto simp: sync_view_erase bs_wf_def distinct_map_filter)
  show "mid_valid m \<Longrightarrow> sync_handler (bs_erase m s) m' = (if m' = m then None else sync_handler s m')"
    using wf by (auto simp: sync_handler_map sync_view_erase map_of_swap_None map_of_swap_filter
        rev_filter)
qed

section \<open>Properties\<close>

lemma held_pop: "held (pop_async_back st) = held st"
  by (rule pop_async_back_cases [of st]) (auto simp: held_def)

lemma held_erase: "held (bs_erase m st) = held st"
  by (rule bs_erase_cases [of st m]) (auto simp: held_def)

lemma held_clear: "held (bs_clear st) = held st"
  by (simp add: held_def bs_clear_def)

lemma held_cleanup:
  "held (bs_cleanup st) = mset (map fst (m_elements st))" "m_elements (bs_cleanup st) = m_elements st"
  by (simp_all add: held_def bs_cleanup_def)

lemma bs_empty_clear: "bs_empty (bs_clear st)" "bs_back (bs_clear st) = None"
  by (simp_all add: bs_empty_def bs_back_def bs_clear_def)

text \<open>
  Changing behavior while responses are pending: \<open>become\<close> with the default policy
  replaces exactly the newest asynchronous behavior, \<open>unbecome\<close> after a keeping
  \<open>become\<close> restores the asynchronous behaviors, and neither loses, adds or redirects a
  response handler.
\<close>

theorem become_respects_sync_handlers:
  "async_view (bs_push_back b invalid_message_id (pop_async_back st)) = butlast (async_view st) @ [b]
   \<and> sync_handler (bs_push_back b invalid_message_id (pop_async_back st)) = sync_handler st
   \<and> async_view (pop_async_back (bs_push_back b invalid_message_id st)) = async_view st
   \<and> sync_handler (pop_async_back (bs_push_back b invalid_message_id st)) = sync_handler st"
  by (simp add: bstack.become_discard bstack.unbecome_become_keep fun_eq_iff)

text \<open>
  A response handler lives for one response: on a stack whose pending response
  identifiers are distinct, pushing a handler for a fresh valid identifier makes it the
  handler of that response, erasing the identifier removes it again, and the asynchronous
  behaviors and all other handlers are as before.
\<close>

theorem response_handler_once:
  assumes "bs_wf st" and "mid_valid m" and "sync_handler st m = None"
  shows "sync_handler (bs_push_back b m st) m = Some b
    \<and> bs_wf (bs_push_back b m st) \<and> bs_wf (bs_erase m (bs_push_back b m st))
    \<and> sync_handler (bs_erase m (bs_push_back b m st)) = sync_handler st
    \<and> async_view (bs_erase m (bs_push_back b m st)) = async_view st"
  using assms
  by (simp add: bstack.await_then_remove bstack.ok_push bstack.ok_erase fun_eq_iff)

theorem response_handler_once_witness:
  "sync_handler (bs_push_back True (Message_id 0x8000000000000007) empty_stack)
     (Message_id 0x8000000000000007) = Some True"
proof -
  have "bs_wf (empty_stack :: bool behavior_stack)"
    "mid_valid (Message_id 0x8000000000000007)"
    "sync_handler (empty_stack :: bool behavior_stack) (Message_id 0x8000000000000007) = None"
    by (simp_all add: bs_wf_def sync_view_def empty_stack_def mid_valid_def request_id_mask_def
        sync_handler_def rfind_if_def)
  from response_handler_once [OF this] show ?thesis by blast
qed

text \<open>
  No behavior is destroyed while it may be running: \<open>pop_async_back\<close>, \<open>erase\<close> and
  \<open>clear\<close> move behaviors to the set-aside list and drop none, \<open>clear\<close> empties the
  stack, and only \<open>cleanup\<close> lets go, of exactly the set-aside ones.
\<close>

theorem behaviors_survive_until_cleanup:
  "held (pop_async_back st) = held st \<and> held (bs_erase m st) = held st \<and> held (bs_clear st) = held st
   \<and> bs_empty (bs_clear st) \<and> bs_back (bs_clear st) = None
   \<and> held (bs_cleanup st) = mset (map fst (m_elements st)) \<and> m_elements (bs_cleanup st) = m_elements st"
  by (simp add: held_pop held_erase held_clear held_cleanup bs_empty_clear)

end
