(* ===== verification/Abstract_Actor.thy ===== *)
theory Abstract_Actor
  imports Group_Manager Message_Id "HOL-Library.Monad_Syntax"
begin

text \<open>
  The life cycle of actors (libcaf_core/src/abstract_actor.cpp, default_attachable.cpp,
  exit_reason.cpp and the part of local_actor.cpp that attaches to other actors and groups):
  attachables, links, monitors, group subscriptions and the cleanup of a terminated actor.
  Actors are numbers in a common store; a mutex makes each operation one step.
\<close>

section \<open>Definitions\<close>

subsection \<open>Exit reasons\<close>

definition not_exited :: nat where "not_exited = 0x00000"
definition normal :: nat where "normal = 0x00001"
definition unhandled_exception :: nat where "unhandled_exception = 0x00002"
definition unhandled_sync_failure :: nat where "unhandled_sync_failure = 0x00004"
definition unhandled_sync_timeout :: nat where "unhandled_sync_timeout = 0x00005"
definition unknown :: nat where "unknown = 0x00006"
definition user_shutdown :: nat where "user_shutdown = 0x00010"
definition remote_link_unreachable :: nat where "remote_link_unreachable = 0x00101"
definition user_defined :: nat where "user_defined = 0x10000"

definition s_names_table :: "string list" where
  "s_names_table = [''not_exited'', ''normal'', ''unhandled_exception'', ''-invalid-'',
     ''unhandled_sync_failure'', ''unhandled_sync_timeout'', ''unknown'']"

definition as_string :: "nat \<Rightarrow> string" where
  "as_string value =
     (if value \<le> unhandled_sync_timeout then s_names_table ! value
      else if value = user_shutdown then ''user_shutdown''
      else if value = remote_link_unreachable then ''remote_link_unreachable''
      else if value < user_defined then ''-invalid-''
      else ''-user defined-'')"

subsection \<open>Actors and attachables\<close>

datatype attachable =
    Att_link nat            \<comment> \<open>\<open>default_attachable\<close> of type \<open>link\<close>, with its observer\<close>
  | Att_monitor nat         \<comment> \<open>\<open>default_attachable\<close> of type \<open>monitor\<close>\<close>
  | Att_subscription nat    \<comment> \<open>\<open>abstract_group::subscription\<close>, with its group\<close>
  | Att_functor nat         \<comment> \<open>\<open>functor_attachable\<close>\<close>

datatype token = Observe_link nat | Observe_monitor nat | Subscription_token nat

datatype sys_msg =
    Exit_msg nat nat    \<comment> \<open>source, reason\<close>
  | Down_msg nat nat

text \<open>\<open>matches\<close> of the attachables; a functor matches no token.\<close>

definition matches :: "attachable \<Rightarrow> token \<Rightarrow> bool" where
  "matches a what = (case (a, what) of
      (Att_link o1, Observe_link o2) \<Rightarrow> o1 = o2
    | (Att_monitor o1, Observe_monitor o2) \<Rightarrow> o1 = o2
    | (Att_subscription g1, Subscription_token g2) \<Rightarrow> g1 = g2
    | _ \<Rightarrow> False)"

record actor_data =
  m_exit_reason :: nat
  m_attachables :: "attachable list"    \<comment> \<open>from \<open>m_attachables_head\<close>\<close>

text \<open>The store: actors, groups, and what was sent to mailboxes and called so far. A sent
  message has a receiver, a sender, an id and a content.\<close>

record actor_store =
  acts :: "nat \<Rightarrow> actor_data"
  grps :: "nat \<Rightarrow> local_group"
  sent :: "(nat \<times> nat \<times> message_id \<times> sys_msg) list"
  called :: "(nat \<times> nat) list"

definition exited :: "nat \<Rightarrow> actor_store \<Rightarrow> bool" where
  "exited a s \<longleftrightarrow> m_exit_reason (acts s a) \<noteq> not_exited"

definition set_attachables :: "nat \<Rightarrow> attachable list \<Rightarrow> actor_store \<Rightarrow> actor_store" where
  "set_attachables a as s = s\<lparr>acts := (acts s)(a := (acts s a)\<lparr>m_attachables := as\<rparr>)\<rparr>"

definition enqueue_to :: "nat \<Rightarrow> nat \<Rightarrow> message_id \<Rightarrow> sys_msg \<Rightarrow> actor_store \<Rightarrow> actor_store" where
  "enqueue_to receiver sender mid msg s = s\<lparr>sent := sent s @ [(receiver, sender, mid, msg)]\<rparr>"

text \<open>What an attachable does when the actor it is attached to exits.\<close>

definition actor_exited :: "nat \<Rightarrow> nat \<Rightarrow> attachable \<Rightarrow> actor_store \<Rightarrow> actor_store" where
  "actor_exited self reason a s = (case a of
      Att_link obs \<Rightarrow> enqueue_to obs self (with_high_priority invalid_message_id) (Exit_msg self reason) s
    | Att_monitor obs \<Rightarrow> enqueue_to obs self (with_high_priority invalid_message_id) (Down_msg self reason) s
    | Att_subscription g \<Rightarrow> s\<lparr>grps := (grps s)(g := unsubscribe (grps s g) (Some self))\<rparr>
    | Att_functor f \<Rightarrow> s\<lparr>called := called s @ [(f, reason)]\<rparr>)"

definition attach_impl :: "nat \<Rightarrow> attachable \<Rightarrow> actor_store \<Rightarrow> actor_store" where
  "attach_impl self ptr s = set_attachables self (ptr # m_attachables (acts s self)) s"

definition attach :: "nat \<Rightarrow> attachable option \<Rightarrow> actor_store \<Rightarrow> actor_store" where
  "attach self ptr s = (case ptr of
      None \<Rightarrow> s
    | Some p \<Rightarrow>
        let reason = m_exit_reason (acts s self)
        in if reason = not_exited then attach_impl self p s else actor_exited self reason p s)"

text \<open>
  \<open>detach_impl\<close> on the list from \<open>ptr\<close>: the number of hits and the remaining list. A dry
  run that does not stop looks at the same element again; \<open>None\<close> is non-termination.
\<close>

partial_function (option) detach_impl ::
  "token \<Rightarrow> attachable list \<Rightarrow> bool \<Rightarrow> bool \<Rightarrow> (nat \<times> attachable list) option" where
  "detach_impl what ptr stop_on_hit dry_run = (case ptr of
      [] \<Rightarrow> Some (0, [])
    | p # next_ptr \<Rightarrow>
        if matches p what
        then let ptr' = (if dry_run then ptr else next_ptr)
             in if stop_on_hit then Some (1, ptr')
                else do { (n, rest) \<leftarrow> detach_impl what ptr' stop_on_hit dry_run; Some (1 + n, rest) }
        else do { (n, rest) \<leftarrow> detach_impl what next_ptr stop_on_hit dry_run; Some (n, p # rest) })"

declare detach_impl.simps [code]

definition detach :: "nat \<Rightarrow> token \<Rightarrow> actor_store \<Rightarrow> (nat \<times> actor_store) option" where
  "detach self what s = (case detach_impl what (m_attachables (acts s self)) False False of
      None \<Rightarrow> None | Some (n, as) \<Rightarrow> Some (n, set_attachables self as s))"

subsection \<open>Links\<close>

text \<open>The calls of \<open>detach_impl\<close> that stop at the first hit.\<close>

definition linked_to :: "attachable list \<Rightarrow> nat \<Rightarrow> bool" where
  "linked_to as other = (case detach_impl (Observe_link other) as True True of Some (n, _) \<Rightarrow> n > 0 | None \<Rightarrow> False)"

definition detach_link :: "attachable list \<Rightarrow> nat \<Rightarrow> nat \<times> attachable list" where
  "detach_link as other = (case detach_impl (Observe_link other) as True False of Some r \<Rightarrow> r | None \<Rightarrow> (0, as))"

definition establish_backlink_impl :: "nat \<Rightarrow> nat option \<Rightarrow> actor_store \<Rightarrow> bool \<times> actor_store" where
  "establish_backlink_impl self other s = (case other of
      None \<Rightarrow> (False, s)
    | Some o' \<Rightarrow>
        if o' = self then (False, s)
        else let reason = m_exit_reason (acts s self)
             in if reason = not_exited
                then if \<not> linked_to (m_attachables (acts s self)) o' then (True, attach_impl self (Att_link o') s)
                     else (False, s)
                else (False, enqueue_to o' self invalid_message_id (Exit_msg self reason) s))"

definition establish_link_impl :: "nat \<Rightarrow> nat option \<Rightarrow> actor_store \<Rightarrow> bool \<times> actor_store" where
  "establish_link_impl self other s = (case other of
      None \<Rightarrow> (False, s)
    | Some o' \<Rightarrow>
        if o' = self then (False, s)
        else if exited self s
        then (False, enqueue_to o' self invalid_message_id (Exit_msg self (m_exit_reason (acts s self))) s)
        else let (ok, s1) = establish_backlink_impl o' (Some self) s
             in if ok then (True, attach_impl self (Att_link o') s1) else (False, s1))"

definition remove_backlink_impl :: "nat \<Rightarrow> nat option \<Rightarrow> actor_store \<Rightarrow> bool \<times> actor_store" where
  "remove_backlink_impl self other s = (case other of
      None \<Rightarrow> (False, s)
    | Some o' \<Rightarrow>
        if o' = self then (False, s)
        else let (n, as) = detach_link (m_attachables (acts s self)) o' in (n > 0, set_attachables self as s))"

definition remove_link_impl :: "nat \<Rightarrow> nat option \<Rightarrow> actor_store \<Rightarrow> bool \<times> actor_store" where
  "remove_link_impl self other s = (case other of
      None \<Rightarrow> (False, s)
    | Some o' \<Rightarrow>
        if o' = self then (False, s)
        else let (n, as) = detach_link (m_attachables (acts s self)) o'; s1 = set_attachables self as s
             in if n > 0 then (True, snd (remove_backlink_impl o' (Some self) s1)) else (False, s1))"

datatype linking_operation = Establish_link_op | Establish_backlink_op | Remove_link_op | Remove_backlink_op

definition link_impl :: "linking_operation \<Rightarrow> nat \<Rightarrow> nat option \<Rightarrow> actor_store \<Rightarrow> bool \<times> actor_store" where
  "link_impl op self other s = (case op of
      Establish_link_op \<Rightarrow> establish_link_impl self other s
    | Establish_backlink_op \<Rightarrow> establish_backlink_impl self other s
    | Remove_link_op \<Rightarrow> remove_link_impl self other s
    | Remove_backlink_op \<Rightarrow> remove_backlink_impl self other s)"

subsection \<open>Termination\<close>

definition cleanup :: "nat \<Rightarrow> nat \<Rightarrow> actor_store \<Rightarrow> actor_store" where
  "cleanup self reason s =
     (if m_exit_reason (acts s self) \<noteq> not_exited then s
      else let head = m_attachables (acts s self);
               s1 = s\<lparr>acts := (acts s)(self := \<lparr>m_exit_reason = reason, m_attachables = []\<rparr>)\<rparr>
           in fold (actor_exited self reason) head s1)"

text \<open>\<open>handle\<close>: the first attachable whose exception handler gives a reason; \<open>Inl\<close> is a
  handler that throws, which is ignored.\<close>

fun handle_loop :: "(attachable \<Rightarrow> unit + nat option) \<Rightarrow> attachable list \<Rightarrow> nat option" where
  "handle_loop handle_exception [] = None"
| "handle_loop handle_exception (i # is) =
     (case handle_exception i of Inr (Some reason) \<Rightarrow> Some reason | _ \<Rightarrow> handle_loop handle_exception is)"

definition handle :: "nat \<Rightarrow> (attachable \<Rightarrow> unit + nat option) \<Rightarrow> actor_store \<Rightarrow> nat option" where
  "handle self handle_exception s = handle_loop handle_exception (m_attachables (acts s self))"

subsection \<open>Monitors and groups\<close>

definition monitor :: "nat \<Rightarrow> nat option \<Rightarrow> actor_store \<Rightarrow> actor_store" where
  "monitor self whom s = (case whom of None \<Rightarrow> s | Some w \<Rightarrow> attach w (Some (Att_monitor self)) s)"

definition demonitor :: "nat \<Rightarrow> nat option \<Rightarrow> actor_store \<Rightarrow> actor_store option" where
  "demonitor self whom s = (case whom of
      None \<Rightarrow> Some s | Some w \<Rightarrow> map_option snd (detach w (Observe_monitor self) s))"

definition join :: "nat \<Rightarrow> nat option \<Rightarrow> actor_store \<Rightarrow> actor_store option" where
  "join self what s = (case what of
      None \<Rightarrow> Some s
    | Some g \<Rightarrow> do {
        (hits, _) \<leftarrow> detach_impl (Subscription_token g) (m_attachables (acts s self)) True True;
        if hits = 0
        then let (grp, ok) = subscribe (grps s g) (Some self); s1 = s\<lparr>grps := (grps s)(g := grp)\<rparr>
             in Some (if ok then attach_impl self (Att_subscription g) s1 else s1)
        else Some s })"

definition leave :: "nat \<Rightarrow> nat option \<Rightarrow> actor_store \<Rightarrow> actor_store option" where
  "leave self what s = (case what of
      None \<Rightarrow> Some s
    | Some g \<Rightarrow> do {
        (n, s1) \<leftarrow> detach self (Subscription_token g) s;
        Some (if n > 0 then s1\<lparr>grps := (grps s1)(g := unsubscribe (grps s1 g) (Some self))\<rparr> else s1) })"

definition joined_groups :: "nat \<Rightarrow> actor_store \<Rightarrow> nat list" where
  "joined_groups self s = List.map_filter (\<lambda>a. case a of Att_subscription g \<Rightarrow> Some g | _ \<Rightarrow> None) (m_attachables (acts s self))"

section \<open>Detaching\<close>

lemma matches_simps [simp]:
  "matches p (Observe_link b) \<longleftrightarrow> p = Att_link b"
  "matches p (Observe_monitor b) \<longleftrightarrow> p = Att_monitor b"
  "matches p (Subscription_token g) \<longleftrightarrow> p = Att_subscription g"
  by (auto simp: matches_def split: attachable.splits)

lemma detach_impl_all:
  "detach_impl what as False False =
     Some (length (filter (\<lambda>p. matches p what) as), filter (\<lambda>p. \<not> matches p what) as)"
  by (induction as) (simp_all add: detach_impl.simps [where ptr = "_ # _"] detach_impl.simps [where ptr = "[]"])

lemma detach_impl_miss:
  "\<forall>p\<in>set as. \<not> matches p what \<Longrightarrow> detach_impl what as stop dry = Some (0, as)"
  by (induction as) (simp_all add: detach_impl.simps [where ptr = "_ # _"] detach_impl.simps [where ptr = "[]"])

text \<open>Stopping at the first hit, for the tokens that match one attachable only.\<close>

lemma detach_impl_first:
  assumes "\<And>p. matches p what \<longleftrightarrow> p = x"
  shows "detach_impl what as True dry =
    Some (if x \<in> set as then (1, if dry then as else remove1 x as) else (0, as))"
proof (induction as)
  case Nil
  show ?case by (simp add: detach_impl.simps)
next
  case (Cons p as)
  then show ?case by (auto simp: detach_impl.simps [where ptr = "_ # _"] assms)
qed

lemma detach_impl_dry_loops:
  assumes "detach_impl what as stop dry = Some r" "\<not> stop" "dry"
  shows "\<forall>p\<in>set as. \<not> matches p what"
proof -
  have "\<not> stop \<longrightarrow> dry \<longrightarrow> (\<forall>p\<in>set as. \<not> matches p what)"
  proof (rule detach_impl.raw_induct [where P = "\<lambda>what as stop dry r. \<not> stop \<longrightarrow> dry \<longrightarrow> (\<forall>p\<in>set as. \<not> matches p what)",
        OF _ assms(1)])
    fix loop :: "token \<Rightarrow> attachable list \<Rightarrow> bool \<Rightarrow> bool \<Rightarrow> (nat \<times> attachable list) option"
    fix what as stop dry r
    assume IH: "\<And>what as stop dry r. loop what as stop dry = Some r \<Longrightarrow>
        \<not> stop \<longrightarrow> dry \<longrightarrow> (\<forall>p\<in>set as. \<not> matches p what)"
    assume "(case as of [] \<Rightarrow> Some (0, [])
        | p # next_ptr \<Rightarrow> if matches p what
            then let ptr' = if dry then as else next_ptr
                 in if stop then Some (1, ptr')
                    else do { (n, rest) \<leftarrow> loop what ptr' stop dry; Some (1 + n, rest) }
            else do { (n, rest) \<leftarrow> loop what next_ptr stop dry; Some (n, p # rest) }) = Some r"
    then show "\<not> stop \<longrightarrow> dry \<longrightarrow> (\<forall>p\<in>set as. \<not> matches p what)"
      by (cases as) (auto simp: Let_def split: if_splits bind_splits dest!: IH)
  qed
  with assms show ?thesis by blast
qed

lemma linked_to_iff [simp]: "linked_to as b \<longleftrightarrow> Att_link b \<in> set as"
  by (simp add: linked_to_def detach_impl_first [where x = "Att_link b"])

lemma detach_link_eq:
  "detach_link as b = (if Att_link b \<in> set as then (1, remove1 (Att_link b) as) else (0, as))"
  by (simp add: detach_link_def detach_impl_first [where x = "Att_link b"])

section \<open>The effect of the operations\<close>

abbreviation att :: "actor_store \<Rightarrow> nat \<Rightarrow> attachable list" where
  "att s a \<equiv> m_attachables (acts s a)"

abbreviation reason_of :: "actor_store \<Rightarrow> nat \<Rightarrow> nat" where
  "reason_of s a \<equiv> m_exit_reason (acts s a)"

lemma acts_set_attachables [simp]:
  "att (set_attachables a as s) b = (if b = a then as else att s b)"
  "reason_of (set_attachables a as s) b = reason_of s b"
  "exited b (set_attachables a as s) = exited b s"
  "sent (set_attachables a as s) = sent s" "grps (set_attachables a as s) = grps s"
  "called (set_attachables a as s) = called s"
  by (simp_all add: set_attachables_def exited_def)

lemma set_attachables_same [simp]: "set_attachables a (att s a) s = s"
  by (simp add: set_attachables_def)

lemma acts_enqueue_to [simp]:
  "acts (enqueue_to r x mid m s) = acts s" "grps (enqueue_to r x mid m s) = grps s"
  "sent (enqueue_to r x mid m s) = sent s @ [(r, x, mid, m)]" "exited b (enqueue_to r x mid m s) = exited b s"
  by (simp_all add: enqueue_to_def exited_def)

lemma acts_attach_impl [simp]:
  "att (attach_impl a p s) b = (if b = a then p # att s a else att s b)"
  "reason_of (attach_impl a p s) b = reason_of s b" "exited b (attach_impl a p s) = exited b s"
  "sent (attach_impl a p s) = sent s" "grps (attach_impl a p s) = grps s"
  by (simp_all add: attach_impl_def)

lemma acts_actor_exited [simp]:
  "acts (actor_exited self r p s) = acts s" "exited b (actor_exited self r p s) = exited b s"
  by (cases p; simp add: actor_exited_def exited_def)+

lemma establish_link_eq:
  assumes "a \<noteq> b"
  shows "snd (establish_link_impl a (Some b) s) =
    (if exited a s then enqueue_to b a invalid_message_id (Exit_msg a (reason_of s a)) s
     else if exited b s then enqueue_to a b invalid_message_id (Exit_msg b (reason_of s b)) s
     else if Att_link a \<in> set (att s b) then s
     else attach_impl a (Att_link b) (attach_impl b (Att_link a) s))"
  using assms by (auto simp: establish_link_impl_def establish_backlink_impl_def exited_def Let_def)

lemma remove_link_eq:
  assumes "a \<noteq> b"
  shows "snd (remove_link_impl a (Some b) s) =
    (if Att_link b \<in> set (att s a)
     then set_attachables b (if Att_link a \<in> set (att s b) then remove1 (Att_link a) (att s b) else att s b)
            (set_attachables a (remove1 (Att_link b) (att s a)) s)
     else set_attachables a (att s a) s)"
  using assms by (auto simp: remove_link_impl_def remove_backlink_impl_def detach_link_eq Let_def)

text \<open>The mail an attachable sends for a terminated actor.\<close>

definition exit_mail :: "nat \<Rightarrow> nat \<Rightarrow> attachable \<Rightarrow> (nat \<times> nat \<times> message_id \<times> sys_msg) list" where
  "exit_mail self r p = (case p of
      Att_link obs \<Rightarrow> [(obs, self, with_high_priority invalid_message_id, Exit_msg self r)]
    | Att_monitor obs \<Rightarrow> [(obs, self, with_high_priority invalid_message_id, Down_msg self r)]
    | _ \<Rightarrow> [])"

lemma fold_exited [simp]:
  "acts (fold (actor_exited self r) as s) = acts s"
  "sent (fold (actor_exited self r) as s) = sent s @ concat (map (exit_mail self r) as)"
  by (induction as arbitrary: s) (auto simp: actor_exited_def exit_mail_def split: attachable.split)

lemma fold_exited_grps:
  assumes "\<forall>g. valid_group (grps s g)"
  shows "valid_group (grps (fold (actor_exited self r) as s) g) \<and>
    set (subscribers (grps (fold (actor_exited self r) as s) g)) =
      set (subscribers (grps s g)) - (if Att_subscription g \<in> set as then {self} else {})"
  using assms
proof (induction as arbitrary: s)
  case (Cons p as)
  have "\<forall>g. valid_group (grps (actor_exited self r p s) g)"
    using Cons.prems lgrp.leave_valid by (cases p) (auto simp: actor_exited_def)
  note IH = Cons.IH [OF this]
  have "set (subscribers (grps (actor_exited self r p s) g)) =
      set (subscribers (grps s g)) - (if p = Att_subscription g then {self} else {})"
    using Cons.prems lgrp.leave_members [of "grps s g" self] by (cases p) (auto simp: actor_exited_def)
  with IH show ?case by auto
qed simp

lemma cleanup_eq:
  "acts (cleanup a r s) = (if exited a s then acts s else (acts s)(a := \<lparr>m_exit_reason = r, m_attachables = []\<rparr>))"
  "sent (cleanup a r s) = sent s @ (if exited a s then [] else concat (map (exit_mail a r) (att s a)))"
  by (simp_all add: cleanup_def exited_def Let_def)

section \<open>Reachable stores\<close>

text \<open>The operations programs use; an actor joins and leaves groups while it runs, and
  terminates with a reason other than \<open>not_exited\<close>.\<close>

inductive actor_step :: "actor_store \<Rightarrow> actor_store \<Rightarrow> bool" where
  link_to: "actor_step s (snd (link_impl Establish_link_op a other s))"
| unlink_from: "actor_step s (snd (link_impl Remove_link_op a other s))"
| monitors: "actor_step s (monitor a whom s)"
| demonitors: "demonitor a whom s = Some s' \<Longrightarrow> actor_step s s'"
| attach_functor: "actor_step s (attach a (Some (Att_functor f)) s)"
| joins: "\<not> exited a s \<Longrightarrow> join a what s = Some s' \<Longrightarrow> actor_step s s'"
| leaves: "\<not> exited a s \<Longrightarrow> leave a what s = Some s' \<Longrightarrow> actor_step s s'"
| exits: "r \<noteq> not_exited \<Longrightarrow> actor_step s (cleanup a r s)"

definition actor_init :: "actor_store \<Rightarrow> bool" where
  "actor_init s \<longleftrightarrow> (\<forall>a. acts s a = \<lparr>m_exit_reason = not_exited, m_attachables = []\<rparr>)
     \<and> (\<forall>g. subscribers (grps s g) = [])"

inductive actor_reach :: "actor_store \<Rightarrow> bool" where
  init: "actor_init s \<Longrightarrow> actor_reach s"
| step: "actor_reach s \<Longrightarrow> actor_step s s' \<Longrightarrow> actor_reach s'"

definition told :: "actor_store \<Rightarrow> nat \<Rightarrow> nat \<Rightarrow> bool" where
  "told s a b \<longleftrightarrow> (\<exists>mid. (a, b, mid, Exit_msg b (reason_of s b)) \<in> set (sent s))"

lemma told_frame [simp]:
  "told (set_attachables x as s) a b = told s a b" "told (attach_impl x p s) a b = told s a b"
  by (simp_all add: told_def)

text \<open>Links: terminated actors hold none, no actor is linked to itself or twice, links between
  running actors are mutual, and who is linked to a terminated actor has been told.\<close>

definition link_inv :: "actor_store \<Rightarrow> bool" where
  "link_inv s \<longleftrightarrow> (\<forall>a. exited a s \<longrightarrow> att s a = []) \<and> (\<forall>a. Att_link a \<notin> set (att s a))
     \<and> (\<forall>a b. count_list (att s a) (Att_link b) \<le> 1)
     \<and> (\<forall>a b. \<not> exited a s \<longrightarrow> \<not> exited b s \<longrightarrow> (Att_link b \<in> set (att s a) \<longleftrightarrow> Att_link a \<in> set (att s b)))
     \<and> (\<forall>a b. Att_link b \<in> set (att s a) \<longrightarrow> exited b s \<longrightarrow> told s a b)"

text \<open>Operations that change no link keep the invariant.\<close>

lemma link_inv_frame:
  assumes "link_inv s" "\<And>a. reason_of s' a = reason_of s a" "set (sent s) \<subseteq> set (sent s')"
    and "\<And>a b. count_list (att s' a) (Att_link b) = count_list (att s a) (Att_link b)"
    and "\<And>a. exited a s \<Longrightarrow> att s' a = []"
  shows "link_inv s'"
proof -
  have m: "Att_link b \<in> set (att s' a) \<longleftrightarrow> Att_link b \<in> set (att s a)" for a b
    using assms(4) [of a b] by (metis count_list_0_iff)
  have e: "exited a s' = exited a s" for a using assms(2) by (simp add: exited_def)
  from assms(1,3) have "told s a b \<Longrightarrow> told s' a b" for a b using assms(2) by (auto simp: told_def)
  with assms(1,4,5) m e show ?thesis unfolding link_inv_def by auto
qed

lemma link_inv_establish:
  assumes "link_inv s"
  shows "link_inv (snd (link_impl Establish_link_op a other s))"
proof (cases "other = None \<or> other = Some a")
  case True
  with assms show ?thesis by (auto simp: link_impl_def establish_link_impl_def)
next
  case False
  then obtain b where b: "other = Some b" "a \<noteq> b" by auto
  have attf: "exited c s \<Longrightarrow> att s c = []" for c using assms by (simp add: link_inv_def)
  consider "exited a s \<or> exited b s \<or> Att_link a \<in> set (att s b)"
    | "\<not> exited a s" "\<not> exited b s" "Att_link a \<notin> set (att s b)" by blast
  then show ?thesis
  proof cases
    case 1
    then have "link_inv (snd (establish_link_impl a other s))"
      unfolding b(1) establish_link_eq [OF b(2)]
      by (auto intro!: link_inv_frame [OF assms] simp: attf)
    then show ?thesis by (simp add: link_impl_def)
  next
    case 2
    let ?s = "attach_impl a (Att_link b) (attach_impl b (Att_link a) s)"
    have "Att_link b \<notin> set (att s a)" using assms 2 by (auto simp: link_inv_def)
    then have "link_inv ?s"
      using assms 2 b(2) count_list_0_iff [of "att s a" "Att_link b"] count_list_0_iff [of "att s b" "Att_link a"]
      unfolding link_inv_def by auto
    with 2 b show ?thesis by (simp add: link_impl_def establish_link_eq)
  qed
qed

lemma count_list_remove1:
  "count_list (remove1 x xs) y = (if x = y then count_list xs y - 1 else count_list xs y)"
  by (induction xs) (auto simp: count_list_0_iff)

lemma link_inv_remove:
  assumes "link_inv s"
  shows "link_inv (snd (link_impl Remove_link_op a other s))"
proof (cases "other = None \<or> other = Some a")
  case True
  with assms show ?thesis by (auto simp: link_impl_def remove_link_impl_def)
next
  case False
  then obtain b where b: "other = Some b" "a \<noteq> b" by auto
  let ?s = "snd (remove_link_impl a (Some b) s)"
  have t: "told ?s c d \<longleftrightarrow> told s c d" "exited c ?s = exited c s" for c d
    by (auto simp: remove_link_eq [OF b(2)] told_def)
  have one: "count_list (att s c) (Att_link d) \<le> 1" for c d using assms by (simp add: link_inv_def)
  have gone: "Att_link e \<in> set (remove1 (Att_link d) (att s c)) \<longleftrightarrow> Att_link e \<in> set (att s c) \<and> e \<noteq> d" for c d e
  proof (cases "e = d")
    case True
    then show ?thesis
      using one [of c d] count_list_remove1 [of "Att_link d" "att s c" "Att_link d"]
      by (metis count_list_0_iff diff_is_0_eq)
  qed (simp add: in_set_remove1)
  show ?thesis
  proof (cases "Att_link b \<in> set (att s a)")
    case False
    then have "?s = s" by (simp add: remove_link_eq [OF b(2)])
    with assms show ?thesis by (simp add: b(1) link_impl_def)
  next
    case True
    have "att ?s c = (if c = a then remove1 (Att_link b) (att s a) else if c = b then remove1 (Att_link a) (att s b) else att s c)" for c
      using True b(2) by (auto simp: remove_link_eq [OF b(2)] remove1_idem)
    with assms t gone one b(2) show ?thesis
      unfolding b(1) link_impl_def link_inv_def by (auto simp: count_list_remove1)
  qed
qed

lemma link_inv_attach:
  assumes "link_inv s" "\<And>b. p \<noteq> Att_link b"
  shows "link_inv (attach a (Some p) s)"
proof (cases "exited a s")
  case True
  have "set (sent s) \<subseteq> set (sent (actor_exited a r p s))" for r
    by (cases p) (auto simp: actor_exited_def)
  moreover have "exited b s \<Longrightarrow> att s b = []" for b using assms(1) by (simp add: link_inv_def)
  ultimately have "link_inv (actor_exited a (reason_of s a) p s)"
    by (intro link_inv_frame [OF assms(1)]) simp_all
  with True show ?thesis by (simp add: attach_def exited_def)
next
  case False
  then have "attach a (Some p) s = attach_impl a p s" by (simp add: attach_def exited_def)
  with False assms show ?thesis by (auto intro!: link_inv_frame [OF assms(1)] simp: link_inv_def)
qed

lemma detach_eq:
  "detach a what s = Some (length (filter (\<lambda>p. matches p what) (att s a)),
     set_attachables a (filter (\<lambda>p. \<not> matches p what) (att s a)) s)"
  by (simp add: detach_def detach_impl_all)

lemma count_list_filter: "P y \<Longrightarrow> count_list (filter P xs) y = count_list xs y"
  by (induction xs) auto

lemma link_inv_detach:
  assumes "link_inv s" "\<And>b. \<not> matches (Att_link b) what"
  shows "link_inv (set_attachables a (filter (\<lambda>p. \<not> matches p what) (att s a)) s)"
  using assms by (intro link_inv_frame [OF assms(1)]) (auto simp: count_list_filter link_inv_def)

lemma link_inv_grps: "link_inv (s\<lparr>grps := g\<rparr>) = link_inv s"
  by (simp add: link_inv_def told_def exited_def)

lemma link_inv_join:
  assumes "link_inv s" "\<not> exited a s" "join a what s = Some s'"
  shows "link_inv s'"
proof -
  have "link_inv (attach_impl a (Att_subscription g) (s\<lparr>grps := f\<rparr>))" for g f
    by (rule link_inv_frame [OF assms(1)])
      (use assms(1,2) in \<open>auto simp: link_inv_def attach_impl_def set_attachables_def exited_def\<close>)
  with assms(1,3) show ?thesis
    by (auto simp: join_def detach_impl_first [where x = "Att_subscription _"] link_inv_grps Let_def
        split: option.splits prod.splits if_splits)
qed

lemma link_inv_leave:
  assumes "link_inv s" "leave a what s = Some s'"
  shows "link_inv s'"
  using assms link_inv_detach [OF assms(1), of "Subscription_token _" a]
  by (auto simp: leave_def detach_eq link_inv_grps split: option.splits if_splits)

lemma link_inv_cleanup:
  assumes "link_inv s" "r \<noteq> not_exited"
  shows "link_inv (cleanup a r s)"
proof (cases "exited a s")
  case True
  then have "cleanup a r s = s" by (simp add: cleanup_def exited_def)
  with assms show ?thesis by simp
next
  case False
  let ?s = "cleanup a r s"
  have acts: "att ?s b = (if b = a then [] else att s b)" "reason_of ?s b = (if b = a then r else reason_of s b)"
      "exited b ?s \<longleftrightarrow> b = a \<or> exited b s" for b
    using False assms(2) by (simp_all add: cleanup_eq exited_def)
  have sent: "set (sent ?s) = set (sent s) \<union> (\<Union>p\<in>set (att s a). set (exit_mail a r p))"
    using False by (simp add: cleanup_eq)
  have "told ?s b a" if "Att_link b \<in> set (att s a)" for b
  proof -
    have "(b, a, with_high_priority invalid_message_id, Exit_msg a r) \<in> set (exit_mail a r (Att_link b))"
      by (simp add: exit_mail_def)
    with that have "(b, a, with_high_priority invalid_message_id, Exit_msg a r) \<in> set (sent ?s)"
      unfolding sent by blast
    then show ?thesis unfolding told_def acts(2) by auto
  qed
  moreover have "told ?s b c" if "told s b c" "c \<noteq> a" for b c
    using that sent by (auto simp: told_def acts)
  moreover have "Att_link b \<in> set (att s a)" if "Att_link a \<in> set (att s b)" "\<not> exited b s" for b
    using assms(1) False that by (simp add: link_inv_def)
  moreover have "att s b = []" if "exited b s" for b using assms(1) that by (simp add: link_inv_def)
  ultimately have t: "told ?s b c" if "Att_link c \<in> set (att s b)" "c = a \<or> exited c s" for b c
    using assms(1) that by (cases "c = a"; cases "exited b s") (auto simp: link_inv_def)
  show ?thesis
    unfolding link_inv_def
    by (intro conjI allI impI) (use assms(1) t in \<open>auto simp: acts link_inv_def split: if_splits\<close>)
qed

lemma actor_step_link_inv: "actor_step s s' \<Longrightarrow> link_inv s \<Longrightarrow> link_inv s'"
proof (induction rule: actor_step.induct)
  case (monitors s a whom)
  then show ?case by (cases whom) (auto simp: monitor_def intro!: link_inv_attach)
next
  case (demonitors a whom s s')
  then show ?case
    using link_inv_detach [of s "Observe_monitor a"]
    by (auto simp: demonitor_def detach_eq split: option.splits)
qed (auto intro: link_inv_establish link_inv_remove link_inv_attach link_inv_join link_inv_leave link_inv_cleanup)

lemma actor_reach_link_inv: "actor_reach s \<Longrightarrow> link_inv s"
proof (induction rule: actor_reach.induct)
  case (init s)
  then show ?case by (simp add: actor_init_def link_inv_def exited_def)
qed (rule actor_step_link_inv)

section \<open>Group membership\<close>

text \<open>An actor holds a subscription exactly if it is a member of the group, at most one per
  group, and a terminated actor is a member of none.\<close>

definition sub_inv :: "actor_store \<Rightarrow> bool" where
  "sub_inv s \<longleftrightarrow> (\<forall>g. valid_group (grps s g))
     \<and> (\<forall>a g. count_list (att s a) (Att_subscription g) = (if a \<in> set (subscribers (grps s g)) then 1 else 0))"

lemma sub_inv_frame:
  assumes "sub_inv s" "grps s' = grps s"
    and "\<And>a g. count_list (att s' a) (Att_subscription g) = count_list (att s a) (Att_subscription g)"
  shows "sub_inv s'"
  using assms by (simp add: sub_inv_def)

lemma sub_inv_mem: "sub_inv s \<Longrightarrow> Att_subscription g \<in> set (att s a) \<longleftrightarrow> a \<in> set (subscribers (grps s g))"
  unfolding sub_inv_def using count_list_0_iff [of "att s a" "Att_subscription g"] by (auto split: if_splits)

lemma sub_inv_attach:
  assumes "sub_inv s" "\<And>g. p \<noteq> Att_subscription g"
  shows "sub_inv (attach a (Some p) s)"
proof (cases "reason_of s a = not_exited")
  case True
  with assms show ?thesis by (auto simp: attach_def intro!: sub_inv_frame [OF assms(1)])
next
  case False
  have "grps (actor_exited a r p s) = grps s" for r using assms(2) by (cases p) (auto simp: actor_exited_def)
  with False assms show ?thesis by (auto simp: attach_def Let_def intro!: sub_inv_frame [OF assms(1)])
qed

lemma sub_inv_link: "sub_inv s \<Longrightarrow> sub_inv (snd (establish_link_impl a other s))"
  by (cases other; cases "other = Some a")
    (auto simp: establish_link_eq intro!: sub_inv_frame [of s] simp: establish_link_impl_def [of _ None]
      establish_link_impl_def [of a "Some a"])

lemma sub_inv_unlink: "sub_inv s \<Longrightarrow> sub_inv (snd (remove_link_impl a other s))"
  by (cases other; cases "other = Some a")
    (auto simp: remove_link_eq count_list_remove1 intro!: sub_inv_frame [of s] simp: remove_link_impl_def [of _ None]
      remove_link_impl_def [of a "Some a"])

lemma sub_inv_join:
  assumes "sub_inv s" "join a what s = Some s'"
  shows "sub_inv s'"
proof (cases what)
  case (Some g)
  show ?thesis
  proof (cases "Att_subscription g \<in> set (att s a)")
    case True
    with Some assms show ?thesis by (simp add: join_def detach_impl_first [where x = "Att_subscription g"])
  next
    case False
    have v: "valid_group (grps s g)" using assms(1) by (simp add: sub_inv_def)
    let ?g = "fst (subscribe (grps s g) (Some a))"
    have a: "a \<notin> set (subscribers (grps s g))" using False sub_inv_mem [OF assms(1)] by simp
    then have "s' = attach_impl a (Att_subscription g) (s\<lparr>grps := (grps s)(g := ?g)\<rparr>)"
      using assms(2) Some False subscribe_Some(2) [of "grps s g" a]
      by (auto simp: join_def detach_impl_first [where x = "Att_subscription g"] Let_def split: prod.splits if_splits)
    with assms(1) a v lgrp.join_valid [OF v] lgrp.join_members [OF v] show ?thesis
      by (auto simp: sub_inv_def attach_impl_def set_attachables_def)
  qed
qed (use assms in \<open>simp add: join_def\<close>)

lemma sub_inv_leave:
  assumes "sub_inv s" "leave a what s = Some s'"
  shows "sub_inv s'"
proof (cases what)
  case (Some g)
  let ?as = "filter (\<lambda>p. p \<noteq> Att_subscription g) (att s a)"
  have v: "valid_group (grps s g)" using assms(1) by (simp add: sub_inv_def)
  show ?thesis
  proof (cases "Att_subscription g \<in> set (att s a)")
    case True
    then have "s' = set_attachables a ?as (s\<lparr>grps := (grps s)(g := unsubscribe (grps s g) (Some a))\<rparr>)"
      using assms(2) Some by (auto simp: leave_def detach_eq set_attachables_def filter_empty_conv)
    moreover have "count_list ?as (Att_subscription g) = 0" by (simp add: count_list_0_iff)
    moreover have "g' \<noteq> g \<Longrightarrow> count_list ?as (Att_subscription g') = count_list (att s a) (Att_subscription g')" for g'
      by (intro count_list_filter) simp
    ultimately show ?thesis
      using assms(1) v lgrp.leave_valid [OF v] lgrp.leave_members [OF v]
      by (auto simp: sub_inv_def set_attachables_def)
  next
    case False
    then have "?as = att s a" by (intro filter_True) auto
    with False Some assms show ?thesis by (simp add: leave_def detach_eq filter_empty_conv set_attachables_def)
  qed
qed (use assms in \<open>simp add: leave_def\<close>)

lemma sub_inv_cleanup:
  assumes "sub_inv s"
  shows "sub_inv (cleanup a r s)"
proof (cases "exited a s")
  case True
  then have "cleanup a r s = s" by (simp add: cleanup_def exited_def)
  with assms show ?thesis by simp
next
  case False
  let ?s = "s\<lparr>acts := (acts s)(a := \<lparr>m_exit_reason = r, m_attachables = []\<rparr>)\<rparr>"
  have s': "cleanup a r s = fold (actor_exited a r) (att s a) ?s" using False by (simp add: cleanup_def exited_def)
  have "\<forall>g. valid_group (grps ?s g)" using assms by (simp add: sub_inv_def)
  note g = fold_exited_grps [OF this, of a r "att s a"]
  have m: "Att_subscription g \<in> set (att s a) \<longleftrightarrow> a \<in> set (subscribers (grps s g))" for g
    by (rule sub_inv_mem [OF assms])
  have subs: "x \<in> set (subscribers (grps (cleanup a r s) g)) \<longleftrightarrow> x \<noteq> a \<and> x \<in> set (subscribers (grps s g))" for x g
    using g [of g] m [of g] by (simp add: s') blast
  show ?thesis
    using g assms subs by (simp add: sub_inv_def s')
qed

lemma actor_step_sub_inv: "actor_step s s' \<Longrightarrow> sub_inv s \<Longrightarrow> sub_inv s'"
proof (induction rule: actor_step.induct)
  case (monitors s a whom)
  then show ?case by (cases whom) (auto simp: monitor_def intro!: sub_inv_attach)
next
  case (demonitors a whom s s')
  have "sub_inv (set_attachables w (filter (\<lambda>p. p \<noteq> Att_monitor a) (att s w)) s)" for w
    by (rule sub_inv_frame [OF demonitors(2)]) (auto simp: count_list_filter)
  with demonitors show ?case by (auto simp: demonitor_def detach_eq split: option.splits)
qed (auto simp: link_impl_def intro: sub_inv_link sub_inv_unlink sub_inv_attach sub_inv_join sub_inv_leave sub_inv_cleanup)

lemma actor_reach_sub_inv: "actor_reach s \<Longrightarrow> sub_inv s"
proof (induction rule: actor_reach.induct)
  case (init s)
  then show ?case by (simp add: actor_init_def sub_inv_def valid_group_def)
qed (rule actor_step_sub_inv)

section \<open>Properties\<close>

text \<open>A store with two linked actors, 1 and 2, and the store after 2 has terminated.\<close>

definition store0 :: actor_store where
  "store0 = \<lparr>acts = (\<lambda>a. \<lparr>m_exit_reason = not_exited, m_attachables = []\<rparr>),
     grps = (\<lambda>g. \<lparr>subscribers = [], group_broker = 0\<rparr>), sent = [], called = []\<rparr>"

definition store_linked :: actor_store where
  "store_linked = snd (link_impl Establish_link_op 1 (Some 2) store0)"

lemma store0_reach: "actor_reach store0"
  by (rule actor_reach.init) (simp add: actor_init_def store0_def)

lemma store_linked_reach: "actor_reach store_linked"
  unfolding store_linked_def by (rule actor_reach.step [OF store0_reach actor_step.link_to])

lemma store_exited_reach: "actor_reach (cleanup 2 normal store_linked)"
  by (rule actor_reach.step [OF store_linked_reach actor_step.exits]) (simp add: normal_def not_exited_def)

text \<open>
  C15. In every reachable store, links between two running actors are mutual, an actor is
  linked to another at most once and never to itself, and an actor that is linked to a
  terminated one has been sent an exit message with that actor's exit reason, whatever the
  order of linking, unlinking and terminating was.
\<close>

theorem links_mutual_and_told:
  assumes "actor_reach s"
  shows "(\<not> exited a s \<and> \<not> exited b s \<longrightarrow> (Att_link b \<in> set (att s a) \<longleftrightarrow> Att_link a \<in> set (att s b)))
    \<and> count_list (att s a) (Att_link b) \<le> (if a = b then 0 else 1)
    \<and> (Att_link b \<in> set (att s a) \<and> exited b s \<longrightarrow>
         (\<exists>mid. (a, b, mid, Exit_msg b (m_exit_reason (acts s b))) \<in> set (sent s)))"
proof -
  have inv: "link_inv s" by (rule actor_reach_link_inv [OF assms])
  then have "count_list (att s a) (Att_link a) = 0" by (simp add: link_inv_def count_list_0_iff)
  with inv show ?thesis by (auto simp: link_inv_def told_def)
qed

theorem links_mutual_and_told_witness:
  "\<exists>mid. (1, 2, mid, Exit_msg 2 normal) \<in> set (sent (cleanup 2 normal store_linked))"
proof -
  have "Att_link 2 \<in> set (att (cleanup 2 normal store_linked) 1)" "exited 2 (cleanup 2 normal store_linked)"
      "m_exit_reason (acts (cleanup 2 normal store_linked) 2) = normal"
    by (code_simp, code_simp, code_simp)
  with links_mutual_and_told [OF store_exited_reach, of 1 2] show ?thesis by simp
qed

text \<open>
  In every reachable store, an actor holds a subscription attachable for a group exactly
  if it is a subscriber of the group; a terminated actor is a subscriber of no group.
\<close>

theorem subscriptions_match_groups:
  assumes "actor_reach s"
  shows "(Att_subscription g \<in> set (att s a) \<longleftrightarrow> a \<in> set (subscribers (grps s g)))
    \<and> (exited a s \<longrightarrow> a \<notin> set (subscribers (grps s g)))"
proof -
  have "exited a s \<longrightarrow> att s a = []" using actor_reach_link_inv [OF assms] by (simp add: link_inv_def)
  with sub_inv_mem [OF actor_reach_sub_inv [OF assms], of g a] show ?thesis by auto
qed

theorem subscriptions_match_groups_witness:
  "2 \<notin> set (subscribers (grps (cleanup 2 normal store_linked) 5))"
  using subscriptions_match_groups [OF store_exited_reach, of 5 2]
  by (simp add: cleanup_eq exited_def normal_def not_exited_def store_linked_def store0_def link_impl_def establish_link_eq)

text \<open>
  The cleanup of a running actor sends, in the order of its attachables, one exit message
  per link and one down message per monitor, all with high priority and the exit reason;
  afterwards nothing is attached, and a second cleanup, with whatever reason, has no effect.
\<close>

theorem cleanup_notifies_once:
  assumes "\<not> exited a s" "r \<noteq> not_exited"
  shows "sent (cleanup a r s) = sent s @ concat (map (\<lambda>p. case p of
      Att_link obs \<Rightarrow> [(obs, a, with_high_priority invalid_message_id, Exit_msg a r)]
    | Att_monitor obs \<Rightarrow> [(obs, a, with_high_priority invalid_message_id, Down_msg a r)]
    | _ \<Rightarrow> []) (att s a))
    \<and> att (cleanup a r s) a = [] \<and> exited a (cleanup a r s)
    \<and> cleanup a r' (cleanup a r s) = cleanup a r s"
proof -
  have "exit_mail a r = (\<lambda>p. case p of
      Att_link obs \<Rightarrow> [(obs, a, with_high_priority invalid_message_id, Exit_msg a r)]
    | Att_monitor obs \<Rightarrow> [(obs, a, with_high_priority invalid_message_id, Down_msg a r)]
    | _ \<Rightarrow> [])"
    by (simp add: exit_mail_def fun_eq_iff)
  moreover have "reason_of (cleanup a r s) a = r" using assms by (simp add: cleanup_eq)
  moreover from this have "cleanup a r' (cleanup a r s) = cleanup a r s"
    using assms(2) by (simp add: cleanup_def [of a r'])
  ultimately show ?thesis
    using assms by (simp add: cleanup_eq exited_def)
qed

theorem cleanup_notifies_once_witness:
  "cleanup 2 unhandled_exception (cleanup 2 normal store_linked) = cleanup 2 normal store_linked"
proof -
  have "\<not> exited 2 store_linked" by code_simp
  moreover have "normal \<noteq> not_exited" by (simp add: normal_def not_exited_def)
  ultimately show ?thesis using cleanup_notifies_once by blast
qed

text \<open>
  \<open>detach\<close> returns and removes every attachable that matches, not only the first, and
  reports their number; the order of the others is kept. The underlying \<open>detach_impl\<close> does
  not return exactly if it is asked for a dry run over all hits and there is a hit.
\<close>

theorem detach_removes_all:
  "detach a what s = Some (length (filter (\<lambda>p. matches p what) (att s a)),
     set_attachables a (filter (\<lambda>p. \<not> matches p what) (att s a)) s)
   \<and> ((\<exists>r. detach_impl what as stop dry = Some r) \<longleftrightarrow> stop \<or> (dry \<longrightarrow> (\<forall>p\<in>set as. \<not> matches p what)))"
proof -
  have "\<exists>r. detach_impl what as True dry = Some r"
  proof (induction as)
    case (Cons p as)
    then show ?case by (auto simp: detach_impl.simps [where ptr = "_ # _"] Let_def)
  qed (simp add: detach_impl.simps [where ptr = "[]"])
  moreover have "\<exists>r. detach_impl what as False False = Some r" using detach_impl_all by blast
  moreover have "(\<exists>r. detach_impl what as False True = Some r) \<longleftrightarrow> (\<forall>p\<in>set as. \<not> matches p what)"
    using detach_impl_miss detach_impl_dry_loops by blast
  ultimately have "(\<exists>r. detach_impl what as stop dry = Some r) \<longleftrightarrow> stop \<or> (dry \<longrightarrow> (\<forall>p\<in>set as. \<not> matches p what))"
    by (cases stop; cases dry) simp_all
  then show ?thesis by (simp add: detach_eq)
qed

theorem detach_removes_all_witness:
  "\<exists>s'. detach 1 (Observe_monitor 3) (attach_impl 1 (Att_monitor 3) (attach_impl 1 (Att_monitor 3) store0)) = Some (2, s')"
  using detach_removes_all [of 1 "Observe_monitor 3" "attach_impl 1 (Att_monitor 3) (attach_impl 1 (Att_monitor 3) store0)" "[]"]
  by (simp add: store0_def)

text \<open>The reason \<open>unknown\<close> has a name in the table but is printed as invalid.\<close>

lemma as_string_unknown: "as_string unknown = ''-invalid-'' \<and> s_names_table ! unknown = ''unknown''"
  by (simp add: as_string_def unknown_def unhandled_sync_timeout_def user_shutdown_def remote_link_unreachable_def
      user_defined_def s_names_table_def)

end
