(* ===== verification/Local_Actor.thy ===== *)
theory Local_Actor
  imports Message_Id Abstract_Actor
begin

text \<open>
  Sending, replying and synchronous requests (libcaf_core/src/local_actor.cpp, the request
  bookkeeping of caf/local_actor.hpp, response_promise.cpp and sync_request_bouncer.cpp). An
  operation returns the actor's new state and the messages it enqueued at other actors;
  messages have an arbitrary content type.
\<close>

section \<open>Definitions\<close>

datatype message_priority = Prio_normal | Prio_high

text \<open>An enqueued message: receiver, sender, id, content; or one handed to the scheduler to be
  enqueued after a delay.\<close>

datatype 'm la_effect =
    Enqueue nat "nat option" message_id 'm
  | Delayed nat nat "nat option" message_id 'm    \<comment> \<open>delay first\<close>

record 'm local_actor =
  la_id :: nat
  m_last_request_id :: message_id
  m_pending_responses :: "message_id list"
  node_sender :: "nat option"     \<comment> \<open>of \<open>m_current_node\<close>\<close>
  node_mid :: message_id
  node_msg :: 'm
  m_planned_exit_reason :: nat
  is_blocking :: bool
  is_registered_flag :: bool

datatype la_error = Actor_exited nat | Invalid_argument

definition new_request_id :: "'m local_actor \<Rightarrow> 'm local_actor \<times> message_id" where
  "new_request_id la =
     (let result = mid_inc (m_last_request_id la)
      in (la\<lparr>m_last_request_id := result, m_pending_responses := response_id result # m_pending_responses la\<rparr>, result))"

definition awaits :: "'m local_actor \<Rightarrow> message_id \<Rightarrow> bool" where
  "awaits la rid \<longleftrightarrow> list_ex (\<lambda>other. rid = other) (m_pending_responses la)"

definition mark_arrived :: "message_id \<Rightarrow> 'm local_actor \<Rightarrow> 'm local_actor" where
  "mark_arrived rid la = la\<lparr>m_pending_responses := removeAll rid (m_pending_responses la)\<rparr>"

definition send_tuple :: "message_priority \<Rightarrow> nat option \<Rightarrow> 'm \<Rightarrow> 'm local_actor \<Rightarrow> 'm la_effect list" where
  "send_tuple prio dest what la = (case dest of
      None \<Rightarrow> []
    | Some d \<Rightarrow> [Enqueue d (Some (la_id la))
        (if prio = Prio_high then with_high_priority invalid_message_id else invalid_message_id) what])"

definition delayed_send_tuple :: "message_priority \<Rightarrow> nat \<Rightarrow> nat \<Rightarrow> 'm \<Rightarrow> 'm local_actor \<Rightarrow> 'm la_effect list" where
  "delayed_send_tuple prio dest rel_time msg la =
     [Delayed rel_time dest (Some (la_id la))
        (if prio = Prio_high then with_high_priority invalid_message_id else invalid_message_id) msg]"

definition reply_message :: "'m \<Rightarrow> 'm local_actor \<Rightarrow> 'm local_actor \<times> 'm la_effect list" where
  "reply_message what la = (case node_sender la of
      None \<Rightarrow> (la, [])
    | Some whom \<Rightarrow>
        let mid = node_mid la
        in if \<not> mid_valid mid \<or> is_response mid then (la, send_tuple Prio_normal (Some whom) what la)
           else if \<not> is_answered mid
           then (la\<lparr>node_mid := mark_as_answered mid\<rparr>, [Enqueue whom (Some (la_id la)) (response_id mid) what])
           else (la, []))"

definition forward_message :: "nat option \<Rightarrow> message_priority \<Rightarrow> 'm local_actor \<Rightarrow> 'm local_actor \<times> 'm la_effect list" where
  "forward_message dest prio la = (case dest of
      None \<Rightarrow> (la, [])
    | Some d \<Rightarrow>
        let mid = (if prio = Prio_high then with_high_priority (node_mid la) else with_normal_priority (node_mid la))
        in (la\<lparr>node_mid := invalid_message_id\<rparr>, [Enqueue d (node_sender la) mid (node_msg la)]))"

text \<open>A response promise: from, to, id.\<close>

type_synonym response_promise = "nat \<times> nat option \<times> message_id"

definition make_response_promise :: "'m local_actor \<Rightarrow> 'm local_actor \<times> response_promise" where
  "make_response_promise la =
     (la\<lparr>node_mid := mark_as_answered (node_mid la)\<rparr>, (la_id la, node_sender la, response_id (node_mid la)))"

definition deliver :: "response_promise \<Rightarrow> 'm \<Rightarrow> 'm la_effect list" where
  "deliver p msg = (let (from_actor, to_actor, mid) = p in case to_actor of
      None \<Rightarrow> [] | Some t \<Rightarrow> [Enqueue t (Some from_actor) mid msg])"

definition quit :: "nat \<Rightarrow> 'm local_actor \<Rightarrow> la_error + 'm local_actor" where
  "quit reason la =
     (let la' = la\<lparr>m_planned_exit_reason := reason\<rparr>
      in if is_blocking la' then Inl (Actor_exited reason) else Inr la')"

definition sync_send_tuple_impl :: "message_priority \<Rightarrow> nat option \<Rightarrow> 'm \<Rightarrow> 'm local_actor
    \<Rightarrow> la_error + 'm local_actor \<times> message_id \<times> 'm la_effect list" where
  "sync_send_tuple_impl mp dest what la = (case dest of
      None \<Rightarrow> Inl Invalid_argument
    | Some d \<Rightarrow>
        let (la', nri) = new_request_id la;
            nri' = (if mp = Prio_high then with_high_priority nri else nri)
        in Inr (la', response_id nri', [Enqueue d (Some (la_id la)) nri' what]))"

definition timed_sync_send_tuple_impl :: "message_priority \<Rightarrow> nat option \<Rightarrow> nat \<Rightarrow> 'm \<Rightarrow> 'm \<Rightarrow> 'm local_actor
    \<Rightarrow> la_error + 'm local_actor \<times> message_id \<times> 'm la_effect list" where
  "timed_sync_send_tuple_impl mp dest rtime sync_timeout_msg what la = (case dest of
      None \<Rightarrow> Inl Invalid_argument
    | Some d \<Rightarrow>
        let (la', nri) = new_request_id la;
            nri' = (if mp = Prio_high then with_high_priority nri else nri);
            rri = response_id nri'
        in Inr (la', rri, [Enqueue d (Some (la_id la)) nri' what,
                           Delayed rtime (la_id la) (Some (la_id la)) rri sync_timeout_msg]))"

text \<open>The result counts how the number of running actors changes.\<close>

definition set_registered :: "bool \<Rightarrow> 'm local_actor \<Rightarrow> 'm local_actor \<times> int" where
  "set_registered value la =
     (if is_registered_flag la = value then (la, 0)
      else (la\<lparr>is_registered_flag := value\<rparr>, if value then 1 else - 1))"

text \<open>\<open>sync_request_bouncer\<close>: what a terminated actor answers to the messages left in its
  mailbox; the content of the answer is made from the reason.\<close>

definition bouncer_reason :: "nat \<Rightarrow> nat" where
  "bouncer_reason r = (if r = not_exited then normal else r)"

definition sync_request_bouncer :: "(nat \<Rightarrow> 'm) \<Rightarrow> nat \<Rightarrow> nat option \<Rightarrow> message_id \<Rightarrow> 'm la_effect list" where
  "sync_request_bouncer sync_exited_msg r sender mid = (case sender of
      None \<Rightarrow> []
    | Some s \<Rightarrow> if is_request mid then [Enqueue s None (response_id mid) (sync_exited_msg (bouncer_reason r))] else [])"

section \<open>Lemmas\<close>

lemma with_high_priority_ne: "\<not> is_high_priority m \<Longrightarrow> with_high_priority m \<noteq> m"
  using with_high_priority_queries(1) by metis

lemma response_id_with_high: "is_request m \<Longrightarrow> response_id (with_high_priority m) = with_high_priority (response_id m)"
  by (rule message_id_eqI) (auto simp: update_bits)

lemma new_request_fresh:
  assumes "unat (m_value (m_last_request_id la)) + 1 < 2 ^ 61"
  shows "is_request (mid_inc (m_last_request_id la)) \<and> \<not> is_answered (mid_inc (m_last_request_id la))
    \<and> \<not> is_high_priority (mid_inc (m_last_request_id la))"
  using assms by (intro small_value_request) (simp_all add: mid_inc_def unat_word_ariths)

text \<open>The request numbers given out so far are those up to the counter.\<close>

definition requests_ok :: "'m local_actor \<Rightarrow> bool" where
  "requests_ok la \<longleftrightarrow> unat (m_value (m_last_request_id la)) < 2 ^ 61
     \<and> (\<forall>rid\<in>set (m_pending_responses la). \<exists>k\<le>unat (m_value (m_last_request_id la)). 0 < k
          \<and> rid = response_id (Message_id (word_of_nat k)))"

lemma word_of_nat_unat: "unat (x :: u64) = n \<Longrightarrow> x = word_of_nat n"
  by auto

lemma word_of_nat_small: "k < 2 ^ 61 \<Longrightarrow> unat (word_of_nat k :: u64) = k"
  by (simp add: unat_of_nat)

lemma response_id_inject:
  assumes "is_request a" "is_request b" "\<not> is_high_priority a" "\<not> is_high_priority b"
    "\<not> is_answered a" "\<not> is_answered b" "response_id a = response_id b"
  shows "a = b"
proof (rule message_id_eqI)
  fix n
  have "bit (m_value (response_id a)) n = bit (m_value (response_id b)) n" using assms(7) by simp
  then have "bit (m_value a) n \<or> n = 63 \<longleftrightarrow> bit (m_value b) n \<or> n = 63"
    using assms(1,2) by (simp add: update_bits)
  with assms(1,2) show "bit (m_value a) n = bit (m_value b) n"
    by (cases "n = 63") (simp_all add: is_request_bits)
qed

lemma new_request_not_pending:
  assumes "requests_ok la" "unat (m_value (m_last_request_id la)) + 1 < 2 ^ 61"
  shows "response_id (mid_inc (m_last_request_id la)) \<notin> set (m_pending_responses la)"
proof
  let ?n = "unat (m_value (m_last_request_id la))"
  assume "response_id (mid_inc (m_last_request_id la)) \<in> set (m_pending_responses la)"
  with assms(1) obtain k where k: "k \<le> ?n" "0 < k"
      "response_id (mid_inc (m_last_request_id la)) = response_id (Message_id (word_of_nat k))"
    by (auto simp: requests_ok_def)
  have kv: "unat (m_value (Message_id (word_of_nat k))) = k" using k(1) assms(2) by (simp add: word_of_nat_small)
  with k(1,2) assms(2) have "is_request (Message_id (word_of_nat k)) \<and> \<not> is_answered (Message_id (word_of_nat k))
      \<and> \<not> is_high_priority (Message_id (word_of_nat k))"
    by (intro small_value_request) simp_all
  with new_request_fresh [OF assms(2)] k(3) have "mid_inc (m_last_request_id la) = Message_id (word_of_nat k)"
    using response_id_inject by blast
  moreover have "unat (m_value (mid_inc (m_last_request_id la))) = ?n + 1"
    using assms(2) by (simp add: mid_inc_def unat_word_ariths)
  ultimately show False using kv k(1) by simp
qed

lemma new_request_ok:
  assumes "requests_ok la" "unat (m_value (m_last_request_id la)) + 1 < 2 ^ 61"
  shows "requests_ok (fst (new_request_id la))"
proof -
  let ?n = "unat (m_value (m_last_request_id la))"
  have v: "unat (m_value (mid_inc (m_last_request_id la))) = ?n + 1"
    using assms(2) by (simp add: mid_inc_def unat_word_ariths)
  then have "mid_inc (m_last_request_id la) = Message_id (word_of_nat (?n + 1))"
    by (metis message_id.exhaust_sel word_of_nat_unat)
  note new = this
  have "\<exists>k\<le>?n + 1. 0 < k \<and> rid = response_id (Message_id (word_of_nat k))"
    if "rid = response_id (mid_inc (m_last_request_id la)) \<or> rid \<in> set (m_pending_responses la)" for rid
  proof (cases "rid \<in> set (m_pending_responses la)")
    case True
    with assms(1) obtain k where "k \<le> ?n" "0 < k" "rid = response_id (Message_id (word_of_nat k))"
      by (auto simp: requests_ok_def)
    then show ?thesis by (intro exI [of _ k]) simp
  next
    case False
    with that new show ?thesis by (intro exI [of _ "?n + 1"]) simp
  qed
  with assms(2) v show ?thesis by (simp add: requests_ok_def new_request_id_def Let_def)
qed

section \<open>Properties\<close>

text \<open>
  A synchronous request of normal priority and its answer fit together: the request is a
  fresh one, the answer the receiver gives with \<open>reply_message\<close> goes to the requesting actor
  under exactly the id the request returned, this id was not pending before, is awaited
  until it is marked as arrived and not afterwards; a second answer is not sent.
\<close>

theorem sync_request_answered:
  assumes "requests_ok la" "unat (m_value (m_last_request_id la)) + 1 < 2 ^ 61"
    and "sync_send_tuple_impl Prio_normal (Some d) what la = Inr (la', rid, [Enqueue d (Some (la_id la)) mid what])"
    and "node_sender rcv = Some (la_id la)" "node_mid rcv = mid"
  shows "is_request mid \<and> \<not> awaits la rid \<and> awaits la' rid \<and> \<not> awaits (mark_arrived rid la') rid
    \<and> requests_ok la'
    \<and> (\<exists>rcv'. reply_message ans rcv = (rcv', [Enqueue (la_id la) (Some (la_id rcv)) rid ans])
         \<and> reply_message ans2 rcv' = (rcv', []))"
proof -
  let ?r = "mid_inc (m_last_request_id la)"
  have e: "mid = ?r" "rid = response_id ?r" "la' = fst (new_request_id la)"
    using assms(3) by (auto simp: sync_send_tuple_impl_def new_request_id_def Let_def)
  note fresh = new_request_fresh [OF assms(2)]
  have "mid_valid ?r" "\<not> is_response ?r" using fresh by (auto simp: is_request_def)
  moreover have "is_response (mark_as_answered ?r) = is_response ?r"
    by (auto simp: flag_bits update_bits)
  ultimately show ?thesis
    using fresh new_request_not_pending [OF assms(1,2)] new_request_ok [OF assms(1,2)] assms(4,5)
    by (auto simp: e awaits_def mark_arrived_def new_request_id_def Let_def list_ex_iff reply_message_def)
qed

definition la_example :: "nat local_actor" where
  "la_example = \<lparr>la_id = 1, m_last_request_id = invalid_message_id, m_pending_responses = [], node_sender = None,
     node_mid = invalid_message_id, node_msg = 0, m_planned_exit_reason = 0, is_blocking = False, is_registered_flag = True\<rparr>"

lemma la_example_ok: "requests_ok la_example" "unat (m_value (m_last_request_id la_example)) + 1 < 2 ^ 61"
  by (simp_all add: requests_ok_def la_example_def invalid_message_id_def)

theorem sync_request_answered_witness:
  "\<exists>la' rid. sync_send_tuple_impl Prio_normal (Some 2) (5::nat) la_example =
      Inr (la', rid, [Enqueue 2 (Some 1) (mid_inc invalid_message_id) 5]) \<and> awaits la' rid"
proof -
  obtain la' rid where s: "sync_send_tuple_impl Prio_normal (Some 2) (5::nat) la_example =
      Inr (la', rid, [Enqueue 2 (Some (la_id la_example)) (mid_inc invalid_message_id) 5])"
    by (simp add: sync_send_tuple_impl_def new_request_id_def la_example_def Let_def)
  have "node_sender (la_example\<lparr>node_sender := Some 1, node_mid := mid_inc invalid_message_id\<rparr>) = Some (la_id la_example)"
    by (simp add: la_example_def)
  from sync_request_answered [OF la_example_ok s this] s show ?thesis by (simp add: la_example_def)
qed

text \<open>
  The answer to a request of high priority is never accepted: the requesting actor waits
  for the response id of the request without its priority flag, while the answer carries the
  flag, so the actor does not await it, although it is the id the request returned.
\<close>

theorem high_priority_answer_not_awaited:
  assumes "requests_ok la" "unat (m_value (m_last_request_id la)) + 1 < 2 ^ 61"
    and "sync_send_tuple_impl Prio_high (Some d) what la = Inr (la', rid, [Enqueue d (Some (la_id la)) mid what])"
    and "node_sender rcv = Some (la_id la)" "node_mid rcv = mid"
  shows "\<exists>rcv'. reply_message ans rcv = (rcv', [Enqueue (la_id la) (Some (la_id rcv)) rid ans])
    \<and> is_response rid \<and> \<not> awaits la' rid \<and> awaits la' (with_normal_priority rid)"
proof -
  let ?r = "mid_inc (m_last_request_id la)"
  note fresh = new_request_fresh [OF assms(2)]
  have e: "mid = with_high_priority ?r" "rid = response_id (with_high_priority ?r)" "la' = fst (new_request_id la)"
    using assms(3) by (auto simp: sync_send_tuple_impl_def new_request_id_def Let_def)
  have rid: "rid = with_high_priority (response_id ?r)" using fresh by (simp add: e response_id_with_high)
  have low: "\<not> is_high_priority (response_id ?r)" using fresh by (simp add: priority_response_id)
  have "rid \<notin> set (m_pending_responses la)"
  proof
    assume "rid \<in> set (m_pending_responses la)"
    with assms(1) obtain k where k: "k \<le> unat (m_value (m_last_request_id la))" "0 < k" "rid = response_id (Message_id (word_of_nat k))"
      by (auto simp: requests_ok_def)
    then have "unat (m_value (Message_id (word_of_nat k))) = k" using assms(2) by (simp add: word_of_nat_small)
    with k assms(2) have "is_request (Message_id (word_of_nat k)) \<and> \<not> is_high_priority (Message_id (word_of_nat k))"
      using small_value_request [of "Message_id (word_of_nat k)"] by simp
    with k(3) rid show False by (metis priority_response_id with_high_priority_queries(1))
  qed
  moreover have "rid \<noteq> response_id ?r" using low with_high_priority_ne [OF low] rid by simp
  moreover have "with_normal_priority rid = response_id ?r"
    unfolding rid using low by (intro message_id_eqI) (auto simp: update_bits flag_bits)
  moreover have "is_response rid" using fresh rid by (simp add: response_id_is_response)
  moreover have "mid_valid mid" "\<not> is_response mid" "\<not> is_answered mid"
    using fresh by (auto simp: e is_request_def)
  ultimately show ?thesis
    using assms(4,5) by (auto simp: e(3) awaits_def new_request_id_def Let_def list_ex_iff reply_message_def e(1,2))
qed

theorem high_priority_answer_not_awaited_witness:
  "\<exists>la' rid. sync_send_tuple_impl Prio_high (Some 2) (5::nat) la_example =
      Inr (la', rid, [Enqueue 2 (Some 1) (with_high_priority (mid_inc invalid_message_id)) 5]) \<and> \<not> awaits la' rid"
proof -
  let ?mid = "with_high_priority (mid_inc invalid_message_id)"
  obtain la' rid where s: "sync_send_tuple_impl Prio_high (Some 2) (5::nat) la_example =
      Inr (la', rid, [Enqueue 2 (Some (la_id la_example)) ?mid 5])"
    by (simp add: sync_send_tuple_impl_def new_request_id_def la_example_def Let_def)
  have "node_sender (la_example\<lparr>node_sender := Some 1, node_mid := ?mid\<rparr>) = Some (la_id la_example)"
    by (simp add: la_example_def)
  from high_priority_answer_not_awaited [OF la_example_ok s this] s show ?thesis by (simp add: la_example_def)
qed

end
