(* ===== verification/Message_Policies.thy ===== *)
theory Message_Policies
  imports Message_Id "HOL-Library.Multiset"
begin

text \<open>
  The two priority policies (caf/policy/not_prioritizing.hpp, caf/policy/prioritizing.hpp):
  the next message of an actor and the cache of the messages its behavior did not match. The
  mailbox is the list of its contents, oldest first. A cache is used through the range from
  \<open>cache_begin\<close> to \<open>cache_end\<close>, which the policies name by positions.
\<close>

section \<open>Definitions\<close>

record 'm mailbox_element =
  el_sender :: "nat option"
  el_mid :: message_id
  el_msg :: 'm
  el_marked :: bool

abbreviation high :: "'m mailbox_element \<Rightarrow> bool" where
  "high e \<equiv> is_high_priority (el_mid e)"

subsection \<open>Without priorities\<close>

type_synonym 'm np_cache = "'m mailbox_element list"

definition np_next_message :: "'m mailbox_element list \<Rightarrow> 'm mailbox_element option \<times> 'm mailbox_element list" where
  "np_next_message mbox = (case mbox of [] \<Rightarrow> (None, []) | e # es \<Rightarrow> (Some e, es))"

definition np_has_next_message :: "'m mailbox_element list \<Rightarrow> bool" where
  "np_has_next_message mbox \<longleftrightarrow> mbox \<noteq> []"

definition np_push_to_cache :: "'m mailbox_element \<Rightarrow> 'm np_cache \<Rightarrow> 'm np_cache" where
  "np_push_to_cache e c = c @ [e]"

definition np_cache_begin :: "'m np_cache \<Rightarrow> nat" where
  "np_cache_begin c = 0"

definition np_cache_end :: "'m np_cache \<Rightarrow> nat" where
  "np_cache_end c = length c"

definition np_cache_erase :: "nat \<Rightarrow> 'm np_cache \<Rightarrow> 'm np_cache" where
  "np_cache_erase i c = erase_nth i c"

definition np_cache_empty :: "'m np_cache \<Rightarrow> bool" where
  "np_cache_empty c \<longleftrightarrow> c = []"

definition np_cache_take_first :: "'m np_cache \<Rightarrow> 'm mailbox_element option \<times> 'm np_cache" where
  "np_cache_take_first c = (case c of [] \<Rightarrow> (None, []) | e # es \<Rightarrow> (Some e, es))"

definition np_cache_prepend :: "'m mailbox_element list \<Rightarrow> 'm np_cache \<Rightarrow> 'm np_cache" where
  "np_cache_prepend es c = es @ c"

subsection \<open>With priorities\<close>

record 'm prioritizing =
  m_cache :: "'m mailbox_element list"
  m_high :: "'m mailbox_element list"
  m_low :: "'m mailbox_element list"

definition prioritizing_new :: "'m prioritizing" where
  "prioritizing_new = \<lparr>m_cache = [], m_high = [], m_low = []\<rparr>"

text \<open>The loop that empties the mailbox into the two lists.\<close>

fun split_mailbox :: "'m mailbox_element list \<Rightarrow> 'm prioritizing \<Rightarrow> 'm prioritizing" where
  "split_mailbox [] p = p"
| "split_mailbox (tmp # mbox) p =
     split_mailbox mbox (if high tmp then p\<lparr>m_high := m_high p @ [tmp]\<rparr> else p\<lparr>m_low := m_low p @ [tmp]\<rparr>)"

definition p_next_message :: "'m mailbox_element list \<Rightarrow> 'm prioritizing
    \<Rightarrow> 'm mailbox_element option \<times> 'm mailbox_element list \<times> 'm prioritizing" where
  "p_next_message mbox p =
     (if m_high p \<noteq> [] then (Some (hd (m_high p)), mbox, p\<lparr>m_high := tl (m_high p)\<rparr>)
      else let p1 = split_mailbox mbox p
           in if m_high p1 \<noteq> [] then (Some (hd (m_high p1)), [], p1\<lparr>m_high := tl (m_high p1)\<rparr>)
              else if m_low p1 \<noteq> [] then (Some (hd (m_low p1)), [], p1\<lparr>m_low := tl (m_low p1)\<rparr>)
              else (None, [], p1))"

definition p_has_next_message :: "'m mailbox_element list \<Rightarrow> 'm prioritizing \<Rightarrow> bool" where
  "p_has_next_message mbox p \<longleftrightarrow> m_high p \<noteq> [] \<or> m_low p \<noteq> [] \<or> mbox \<noteq> []"

definition cache_low_begin :: "'m prioritizing \<Rightarrow> nat" where
  "cache_low_begin p = (case find_if (\<lambda>e. \<not> high e) (m_cache p) of Some i \<Rightarrow> i | None \<Rightarrow> length (m_cache p))"

definition insert_at :: "nat \<Rightarrow> 'a list \<Rightarrow> 'a list \<Rightarrow> 'a list" where
  "insert_at i ys xs = take i xs @ ys @ drop i xs"

definition p_push_to_cache :: "'m mailbox_element \<Rightarrow> 'm prioritizing \<Rightarrow> 'm prioritizing" where
  "p_push_to_cache e p =
     (if high e then p\<lparr>m_cache := insert_at (cache_low_begin p) [e] (m_cache p)\<rparr>
      else p\<lparr>m_cache := m_cache p @ [e]\<rparr>)"

definition p_cache_begin :: "'m prioritizing \<Rightarrow> nat" where
  "p_cache_begin p = 0"

text \<open>As written, \<open>cache_end\<close> returns \<open>m_cache.begin()\<close>.\<close>

definition p_cache_end :: "'m prioritizing \<Rightarrow> nat" where
  "p_cache_end p = 0"

definition p_cache_erase :: "nat \<Rightarrow> 'm prioritizing \<Rightarrow> 'm prioritizing" where
  "p_cache_erase i p = p\<lparr>m_cache := erase_nth i (m_cache p)\<rparr>"

definition p_cache_take_first :: "'m prioritizing \<Rightarrow> 'm mailbox_element option \<times> 'm prioritizing" where
  "p_cache_take_first p = (case m_cache p of [] \<Rightarrow> (None, p) | e # es \<Rightarrow> (Some e, p\<lparr>m_cache := es\<rparr>))"

definition p_cache_prepend :: "'m mailbox_element list \<Rightarrow> 'm prioritizing \<Rightarrow> 'm prioritizing" where
  "p_cache_prepend es p =
     (let hs = filter high es; ls = filter (\<lambda>e. \<not> high e) es; p1 = p\<lparr>m_cache := hs @ m_cache p\<rparr>
      in p1\<lparr>m_cache := insert_at (cache_low_begin p1) ls (m_cache p1)\<rparr>)"

section \<open>Lemmas\<close>

lemma split_mailbox_eq:
  "split_mailbox mbox p = p\<lparr>m_high := m_high p @ filter high mbox, m_low := m_low p @ filter (\<lambda>e. \<not> high e) mbox\<rparr>"
  by (induction mbox arbitrary: p) auto

text \<open>A cache in order: the messages of high priority first.\<close>

definition cache_ordered :: "'m mailbox_element list \<Rightarrow> bool" where
  "cache_ordered c \<longleftrightarrow> (\<exists>hs ls. c = hs @ ls \<and> list_all high hs \<and> list_all (\<lambda>e. \<not> high e) ls)"

lemma cache_ordered_filter: "cache_ordered c \<longleftrightarrow> c = filter high c @ filter (\<lambda>e. \<not> high e) c"
proof
  assume "cache_ordered c"
  then obtain hs ls where c: "c = hs @ ls" "list_all high hs" "list_all (\<lambda>e. \<not> high e) ls"
    by (auto simp: cache_ordered_def)
  then have "filter high hs = hs" "filter high ls = []" "filter (\<lambda>e. \<not> high e) hs = []" "filter (\<lambda>e. \<not> high e) ls = ls"
    by (auto simp: list_all_iff filter_empty_conv intro: filter_True)
  with c(1) show "c = filter high c @ filter (\<lambda>e. \<not> high e) c" by simp
next
  assume "c = filter high c @ filter (\<lambda>e. \<not> high e) c"
  then show "cache_ordered c" unfolding cache_ordered_def
    by (intro exI [of _ "filter high c"] exI [of _ "filter (\<lambda>e. \<not> high e) c"]) (simp add: list_all_iff)
qed

lemma find_if_low:
  assumes "list_all high hs" "list_all (\<lambda>e. \<not> high e) ls"
  shows "(case find_if (\<lambda>e. \<not> high e) (hs @ ls) of Some i \<Rightarrow> i | None \<Rightarrow> length (hs @ ls)) = length hs"
proof -
  have "find_if (\<lambda>e. \<not> high e) hs = None" using assms(1) by (simp add: find_if_None list_all_iff)
  with assms(2) show ?thesis by (cases ls) (auto simp: find_if_append)
qed

lemma cache_low_begin_ordered:
  assumes "m_cache p = hs @ ls" "list_all high hs" "list_all (\<lambda>e. \<not> high e) ls"
  shows "cache_low_begin p = length hs"
  using find_if_low [OF assms(2,3)] unfolding cache_low_begin_def assms(1) .

section \<open>Properties\<close>

text \<open>
  The prioritizing policy keeps its cache ordered, the messages of high priority first,
  and stable: storing an unmatched message appends it to the cached messages of its own
  priority, giving back a list of messages puts them, in their order, before the cached
  messages of their own priority.
\<close>

theorem priority_cache_ordered:
  assumes "cache_ordered (m_cache p)"
  shows "cache_ordered (m_cache (p_push_to_cache e p)) \<and> cache_ordered (m_cache (p_cache_prepend es p))
    \<and> filter high (m_cache (p_push_to_cache e p)) = filter high (m_cache p) @ (if high e then [e] else [])
    \<and> filter (\<lambda>e. \<not> high e) (m_cache (p_push_to_cache e p)) = filter (\<lambda>e. \<not> high e) (m_cache p) @ (if high e then [] else [e])
    \<and> filter high (m_cache (p_cache_prepend es p)) = filter high es @ filter high (m_cache p)
    \<and> filter (\<lambda>e. \<not> high e) (m_cache (p_cache_prepend es p)) = filter (\<lambda>e. \<not> high e) es @ filter (\<lambda>e. \<not> high e) (m_cache p)"
proof -
  obtain hs ls where c: "m_cache p = hs @ ls" "list_all high hs" "list_all (\<lambda>e. \<not> high e) ls"
    using assms by (auto simp: cache_ordered_def)
  let ?h = "filter high es" and ?l = "filter (\<lambda>e. \<not> high e) es"
  have f: "filter high hs = hs" "filter high ls = []" "filter (\<lambda>e. \<not> high e) hs = []" "filter (\<lambda>e. \<not> high e) ls = ls"
    using c(2,3) by (auto simp: list_all_iff filter_empty_conv intro: filter_True)
  have push: "m_cache (p_push_to_cache e p) = (if high e then (hs @ [e]) @ ls else hs @ (ls @ [e]))"
    using cache_low_begin_ordered [OF c] c(1) by (simp add: p_push_to_cache_def insert_at_def)
  have "m_cache (p\<lparr>m_cache := ?h @ m_cache p\<rparr>) = (?h @ hs) @ ls" "list_all high (?h @ hs)"
    using c by (auto simp: list_all_iff)
  from cache_low_begin_ordered [OF this c(3)] c(1)
  have pre: "m_cache (p_cache_prepend es p) = (?h @ hs) @ (?l @ ls)"
    by (simp add: p_cache_prepend_def Let_def insert_at_def)
  show ?thesis
    unfolding cache_ordered_filter push pre c(1) using f by (simp add: filter_empty_conv)
qed

definition element :: "u64 \<Rightarrow> nat \<Rightarrow> nat mailbox_element" where
  "element v m = \<lparr>el_sender = None, el_mid = Message_id v, el_msg = m, el_marked = False\<rparr>"

theorem priority_cache_ordered_witness:
  "cache_ordered (m_cache (p_push_to_cache (element 0x2000000000000000 1) (prioritizing_new\<lparr>m_cache := [element 0 2]\<rparr>)))"
proof -
  have "cache_ordered (m_cache (prioritizing_new\<lparr>m_cache := [element 0 2]\<rparr>))"
    unfolding cache_ordered_filter by code_simp
  with priority_cache_ordered show ?thesis by blast
qed

text \<open>
  The next message of a prioritizing actor is the oldest of high priority if there is one
  among the stored and the new messages, otherwise the oldest one; no message is lost or
  doubled, and there is none exactly if \<open>has_next_message\<close> says so.
\<close>

theorem priority_next_message:
  assumes "p_next_message mbox p = (r, mbox', p')" "list_all high (m_high p)" "list_all (\<lambda>e. \<not> high e) (m_low p)"
  shows "r = (case m_high p @ filter high mbox of e # _ \<Rightarrow> Some e
              | [] \<Rightarrow> (case m_low p @ filter (\<lambda>e. \<not> high e) mbox of e # _ \<Rightarrow> Some e | [] \<Rightarrow> None))
    \<and> mset (m_high p @ m_low p @ mbox) = mset (case r of None \<Rightarrow> [] | Some e \<Rightarrow> [e]) + mset (m_high p' @ m_low p' @ mbox')
    \<and> list_all high (m_high p') \<and> list_all (\<lambda>e. \<not> high e) (m_low p') \<and> m_cache p' = m_cache p
    \<and> (r = None \<longleftrightarrow> \<not> p_has_next_message mbox p)"
proof (cases "m_high p")
  case (Cons e es)
  with assms show ?thesis by (auto simp: p_next_message_def p_has_next_message_def)
next
  case Nil
  have m: "mset (filter high mbox) + mset (filter (\<lambda>e. \<not> high e) mbox) = mset mbox"
    by (simp add: multiset_partition [symmetric])
  show ?thesis
  proof (cases "filter high mbox")
    case (Cons e es)
    with Nil assms m show ?thesis
      by (auto simp: p_next_message_def split_mailbox_eq p_has_next_message_def list_all_iff filter_eq_Cons_iff)
  next
    case Nil': Nil
    have low: "list_all (\<lambda>e. \<not> high e) (m_low p @ filter (\<lambda>e. \<not> high e) mbox)"
      using assms(3) by (auto simp: list_all_iff)
    show ?thesis
    proof (cases "m_low p @ filter (\<lambda>e. \<not> high e) mbox")
      case Nil'': Nil
      with Nil Nil' assms m show ?thesis
        by (auto simp: p_next_message_def split_mailbox_eq p_has_next_message_def filter_empty_conv)
    next
      case (Cons e es)
      then have "mset (m_low p) + mset (filter (\<lambda>e. \<not> high e) mbox) = mset (e # es)" by (metis mset_append)
      with Cons Nil Nil' assms m low show ?thesis
        by (auto simp: p_next_message_def split_mailbox_eq p_has_next_message_def)
    qed
  qed
qed

theorem priority_next_message_witness:
  "fst (p_next_message [element 0 1, element 0x2000000000000000 2] prioritizing_new) = Some (element 0x2000000000000000 2)"
proof -
  obtain r mbox' p' where n: "p_next_message [element 0 1, element 0x2000000000000000 2] prioritizing_new = (r, mbox', p')"
    by (cases "p_next_message [element 0 1, element 0x2000000000000000 2] prioritizing_new") auto
  have "list_all high (m_high prioritizing_new)" "list_all (\<lambda>e. \<not> high e) (m_low prioritizing_new)"
    by (simp_all add: prioritizing_new_def)
  from conjunct1 [OF priority_next_message [OF n this]] n show ?thesis
    by (simp add: prioritizing_new_def element_def is_high_priority_def high_prioity_flag_mask_def)
qed

end
