(* ===== verification/Event_Actor.thy ===== *)
theory Event_Actor
  imports Local_Actor Message_Policies Behavior_Stack
begin

text \<open>
  Event-based actors: how a message is classified and handled (caf/policy/invoke_policy.hpp
  with sequential_invoke.hpp), the timeout of a behavior (caf/mixin/single_timeout.hpp), the
  behavior stack of an actor (caf/mixin/behavior_stack_based.hpp), the cache of unmatched
  messages (caf/detail/proper_actor.hpp) and the loop that runs an actor
  (caf/policy/event_based_resume.hpp), for the policy without priorities. The handlers of
  the user are arbitrary functions on the state of the actor; continuations of handlers that
  return a message id are left out.
\<close>

section \<open>Definitions\<close>

subsection \<open>State and user code\<close>

datatype 'u content =
    C_exit nat nat       \<comment> \<open>\<open>exit_msg\<close>: source, reason\<close>
  | C_timeout u32        \<comment> \<open>\<open>timeout_msg\<close>\<close>
  | C_sync_timeout       \<comment> \<open>\<open>sync_timeout_msg\<close>\<close>
  | C_sync_exited nat    \<comment> \<open>\<open>sync_exited_msg\<close>: reason\<close>
  | C_unit
  | C_user 'u

record ('b, 'u) ev_actor =
  ea_la :: "'u content local_actor"
  ea_stack :: "'b behavior_stack"
  ea_trap_exit :: bool
  ea_has_timeout :: bool
  ea_timeout_id :: u32
  ea_unlinked :: "nat list"                \<comment> \<open>\<open>unlink_from\<close> was called for these\<close>
  ea_effects :: "'u content la_effect list"
  ea_exit_reason :: nat

type_synonym 'u element = "'u content mailbox_element"

datatype exn = Exn_actor_exited nat | Exn_other

text \<open>What a handler answers: \<open>None\<close> if no case matched, otherwise the result message, which may
  be empty. \<open>Inl\<close> is an exception.\<close>

record ('b, 'u) user_code =
  run :: "'b \<Rightarrow> 'u content \<Rightarrow> ('b, 'u) ev_actor \<Rightarrow> (exn + 'u content option option) \<times> ('b, 'u) ev_actor"
  run_timeout :: "'b \<Rightarrow> ('b, 'u) ev_actor \<Rightarrow> ('b, 'u) ev_actor"
  timeout_of :: "'b \<Rightarrow> nat option"         \<comment> \<open>\<open>None\<close>: no valid duration\<close>
  on_exit :: "('b, 'u) ev_actor \<Rightarrow> ('b, 'u) ev_actor"
  sync_failure :: "(('b, 'u) ev_actor \<Rightarrow> ('b, 'u) ev_actor) option"
  handle_exception :: "nat option"          \<comment> \<open>the reason given by an attached exception handler\<close>
  make_behavior :: "('b, 'u) ev_actor \<Rightarrow> (exn + 'b option) \<times> ('b, 'u) ev_actor"

definition ea_quit :: "nat \<Rightarrow> ('b, 'u) ev_actor \<Rightarrow> ('b, 'u) ev_actor" where
  "ea_quit reason a = a\<lparr>ea_la := (ea_la a)\<lparr>m_planned_exit_reason := reason\<rparr>\<rparr>"

definition planned :: "('b, 'u) ev_actor \<Rightarrow> nat" where
  "planned a = m_planned_exit_reason (ea_la a)"

definition emit :: "'u content la_effect list \<Rightarrow> ('b, 'u) ev_actor \<Rightarrow> ('b, 'u) ev_actor" where
  "emit es a = a\<lparr>ea_effects := ea_effects a @ es\<rparr>"

subsection \<open>Timeouts and behaviors\<close>

definition request_timeout :: "nat option \<Rightarrow> ('b, 'u) ev_actor \<Rightarrow> ('b, 'u) ev_actor" where
  "request_timeout d a = (case d of
      Some t \<Rightarrow>
        let tid = ea_timeout_id a + 1; a1 = a\<lparr>ea_has_timeout := True, ea_timeout_id := tid\<rparr>; self = la_id (ea_la a)
        in emit (if t = 0 then [Enqueue self (Some self) invalid_message_id (C_timeout tid)]
                 else [Delayed t self (Some self) invalid_message_id (C_timeout tid)]) a1
    | None \<Rightarrow> a\<lparr>ea_has_timeout := False\<rparr>)"

definition waits_for_timeout :: "u32 \<Rightarrow> ('b, 'u) ev_actor \<Rightarrow> bool" where
  "waits_for_timeout tid a \<longleftrightarrow> ea_has_timeout a \<and> ea_timeout_id a = tid"

definition is_active_timeout :: "u32 \<Rightarrow> ('b, 'u) ev_actor \<Rightarrow> bool" where
  "is_active_timeout tid a = waits_for_timeout tid a"

definition reset_timeout :: "('b, 'u) ev_actor \<Rightarrow> ('b, 'u) ev_actor" where
  "reset_timeout a = a\<lparr>ea_has_timeout := False\<rparr>"

definition do_become :: "('b, 'u) user_code \<Rightarrow> 'b \<Rightarrow> bool \<Rightarrow> ('b, 'u) ev_actor \<Rightarrow> ('b, 'u) ev_actor" where
  "do_become code bhvr discard_old a =
     (let a1 = (if discard_old then a\<lparr>ea_stack := pop_async_back (ea_stack a)\<rparr> else a);
          a2 = request_timeout (timeout_of code bhvr) a1
      in a2\<lparr>ea_stack := bs_push_back bhvr invalid_message_id (ea_stack a2)\<rparr>)"

definition unbecome :: "('b, 'u) ev_actor \<Rightarrow> ('b, 'u) ev_actor" where
  "unbecome a = a\<lparr>ea_stack := pop_async_back (ea_stack a)\<rparr>"

definition ea_handle_timeout :: "('b, 'u) user_code \<Rightarrow> 'b \<Rightarrow> u32 \<Rightarrow> ('b, 'u) ev_actor \<Rightarrow> ('b, 'u) ev_actor" where
  "ea_handle_timeout code bhvr tid a =
     (if is_active_timeout tid a
      then let a1 = run_timeout code bhvr (reset_timeout a)
           in if \<not> ea_has_timeout a1
              then (case bs_back (ea_stack a1) of Some b \<Rightarrow> request_timeout (timeout_of code b) a1 | None \<Rightarrow> a1)
              else a1
      else a)"

subsection \<open>Handling one message\<close>

datatype msg_type =
    Normal_exit | Non_normal_exit | Expired_timeout | Inactive_timeout | Expired_sync_response
  | Timeout u32 | Timeout_response | Ordinary | Sync_response

datatype hm_result = Hm_skip | Hm_drop | Hm_cache | Hm_handled

definition filter_msg :: "'u element \<Rightarrow> ('b, 'u) ev_actor \<Rightarrow> msg_type \<times> ('b, 'u) ev_actor" where
  "filter_msg node a =
     (let mid = el_mid node;
          response_or_ordinary = (\<lambda>a. if is_response mid
             then (if awaits (ea_la a) mid then Sync_response else Expired_sync_response, a) else (Ordinary, a))
      in case el_msg node of
          C_exit source reason \<Rightarrow>
            let a1 = a\<lparr>ea_unlinked := source # ea_unlinked a\<rparr>
            in if \<not> ea_trap_exit a1
               then if reason \<noteq> normal then (Non_normal_exit, ea_quit reason a1) else (Normal_exit, a1)
               else response_or_ordinary a1
        | C_timeout tid \<Rightarrow>
            if is_active_timeout tid a then (Timeout tid, a)
            else if waits_for_timeout tid a then (Inactive_timeout, a) else (Expired_timeout, a)
        | C_sync_timeout \<Rightarrow> if is_response mid then (Timeout_response, a) else response_or_ordinary a
        | _ \<Rightarrow> response_or_ordinary a)"

text \<open>The node under processing is kept in the local actor.\<close>

definition set_node :: "nat option \<Rightarrow> message_id \<Rightarrow> 'u content \<Rightarrow> ('b, 'u) ev_actor \<Rightarrow> ('b, 'u) ev_actor" where
  "set_node s mid m a = a\<lparr>ea_la := (ea_la a)\<lparr>node_sender := s, node_mid := mid, node_msg := m\<rparr>\<rparr>"

definition hm_begin :: "'u element \<Rightarrow> ('b, 'u) ev_actor \<Rightarrow> (nat option \<times> message_id \<times> 'u content) \<times> ('b, 'u) ev_actor" where
  "hm_begin node a = ((node_sender (ea_la a), node_mid (ea_la a), node_msg (ea_la a)),
     set_node (el_sender node) (el_mid node) (el_msg node) a)"

definition hm_cleanup :: "('b, 'u) ev_actor \<Rightarrow> ('b, 'u) ev_actor" where
  "hm_cleanup a = set_node None invalid_message_id C_unit a"

definition hm_revert :: "nat option \<times> message_id \<times> 'u content \<Rightarrow> ('b, 'u) ev_actor \<Rightarrow> ('b, 'u) ev_actor" where
  "hm_revert previous a = (let (s, mid, m) = previous in set_node s mid m a)"

text \<open>Answering through a response promise of the current node.\<close>

definition respond :: "'u content \<Rightarrow> ('b, 'u) ev_actor \<Rightarrow> ('b, 'u) ev_actor" where
  "respond m a = (let (la, p) = make_response_promise (ea_la a) in emit (deliver p m) (a\<lparr>ea_la := la\<rparr>))"

definition invoke_fun :: "('b, 'u) user_code \<Rightarrow> 'b \<Rightarrow> 'u content \<Rightarrow> ('b, 'u) ev_actor \<Rightarrow> (exn + bool) \<times> ('b, 'u) ev_actor" where
  "invoke_fun code bhvr msg a = (case run code bhvr msg a of
      (Inl e, a1) \<Rightarrow> (Inl e, a1)
    | (Inr None, a1) \<Rightarrow> (Inr False, a1)
    | (Inr (Some None), a1) \<Rightarrow>
        (let mid = node_mid (ea_la a1)
         in if is_request mid \<and> \<not> is_answered mid then (Inr True, respond C_unit a1) else (Inr True, a1))
    | (Inr (Some (Some m)), a1) \<Rightarrow> (Inr True, respond m a1))"

definition handle_sync_failure :: "('b, 'u) user_code \<Rightarrow> ('b, 'u) ev_actor \<Rightarrow> ('b, 'u) ev_actor" where
  "handle_sync_failure code a = (case sync_failure code of Some f \<Rightarrow> f a | None \<Rightarrow> ea_quit unhandled_sync_failure a)"

definition remove_awaited :: "message_id \<Rightarrow> ('b, 'u) ev_actor \<Rightarrow> ('b, 'u) ev_actor" where
  "remove_awaited rid a = a\<lparr>ea_la := mark_arrived rid (ea_la a), ea_stack := bs_erase rid (ea_stack a)\<rparr>"

definition handle_response :: "('b, 'u) user_code \<Rightarrow> bool \<Rightarrow> 'b \<Rightarrow> 'u element \<Rightarrow> message_id \<Rightarrow> ('b, 'u) ev_actor
    \<Rightarrow> (exn + hm_result) \<times> ('b, 'u) ev_actor" where
  "handle_response code failure_on_mismatch bhvr node awaited a =
     (if mid_valid awaited \<and> el_mid node = awaited
      then (let (previous, a1) = hm_begin node a
            in case invoke_fun code bhvr (el_msg node) a1 of
                 (Inl e, a2) \<Rightarrow> (Inl e, a2)
               | (Inr res, a2) \<Rightarrow>
                   (let a3 = (if \<not> res \<and> failure_on_mismatch then handle_sync_failure code a2 else a2)
                    in (Inr Hm_handled, hm_cleanup (remove_awaited awaited a3))))
      else (Inr Hm_cache, a))"

definition handle_message :: "('b, 'u) user_code \<Rightarrow> 'b \<Rightarrow> 'u element \<Rightarrow> message_id \<Rightarrow> ('b, 'u) ev_actor
    \<Rightarrow> (exn + hm_result) \<times> ('b, 'u) ev_actor" where
  "handle_message code bhvr node awaited a =
     (let (ty, a1) = filter_msg node a in case ty of
        Normal_exit \<Rightarrow> (Inr Hm_drop, a1)
      | Expired_sync_response \<Rightarrow> (Inr Hm_drop, a1)
      | Expired_timeout \<Rightarrow> (Inr Hm_drop, a1)
      | Inactive_timeout \<Rightarrow> (Inr Hm_skip, a1)
      | Non_normal_exit \<Rightarrow> (Inr Hm_handled, a1)
      | Timeout tid \<Rightarrow>
          (let a2 = ea_handle_timeout code bhvr tid a1
           in (Inr Hm_handled, if mid_valid awaited then remove_awaited awaited a2 else a2))
      | Timeout_response \<Rightarrow> handle_response code False bhvr node awaited a1
      | Sync_response \<Rightarrow> handle_response code True bhvr node awaited a1
      | Ordinary \<Rightarrow>
          if \<not> mid_valid awaited
          then (let (previous, a2) = hm_begin node a1
                in case invoke_fun code bhvr (el_msg node) a2 of
                     (Inl e, a3) \<Rightarrow> (Inl e, a3)
                   | (Inr res, a3) \<Rightarrow> if res then (Inr Hm_handled, hm_cleanup a3) else (Inr Hm_cache, hm_revert previous a3))
          else (Inr Hm_cache, a1))"

text \<open>The result and the element that is left: \<open>None\<close> if the pointer was reset.\<close>

definition invoke_message :: "('b, 'u) user_code \<Rightarrow> 'b \<Rightarrow> message_id \<Rightarrow> 'u element \<Rightarrow> ('b, 'u) ev_actor
    \<Rightarrow> (exn + bool \<times> 'u element option) \<times> ('b, 'u) ev_actor" where
  "invoke_message code bhvr awaited node a = (case handle_message code bhvr node awaited a of
      (Inl e, a1) \<Rightarrow> (Inl e, a1)
    | (Inr Hm_handled, a1) \<Rightarrow> (Inr (True, None), a1)
    | (Inr Hm_cache, a1) \<Rightarrow> (Inr (False, Some node), a1)
    | (Inr Hm_skip, a1) \<Rightarrow> (Inr (False, Some node), a1)
    | (Inr Hm_drop, a1) \<Rightarrow> (Inr (False, None), a1))"

subsection \<open>The cache\<close>

text \<open>The fate of a message that left the mailbox and the cache; \<open>Fate_lost\<close> is the one whose
  handler raised an exception. The log is an observation of the model.\<close>

datatype fate = Fate_handled | Fate_dropped | Fate_bounced | Fate_lost

record ('b, 'u) resumable =
  rs_actor :: "('b, 'u) ev_actor"
  rs_mailbox :: "'u element list"
  rs_cache :: "'u content np_cache"
  rs_closed :: bool
  rs_blocked :: bool
  rs_initialized :: bool
  rs_log :: "(fate \<times> 'u element) list"

definition log_fate :: "fate \<Rightarrow> 'u element \<Rightarrow> ('b, 'u) resumable \<Rightarrow> ('b, 'u) resumable" where
  "log_fate f e rs = rs\<lparr>rs_log := rs_log rs @ [(f, e)]\<rparr>"

text \<open>The scan of \<open>invoke_message_from_cache\<close> from position \<open>i\<close>; after a dropped message it
  starts anew with the current behavior.\<close>

function cache_scan :: "('b, 'u) user_code \<Rightarrow> 'b \<Rightarrow> message_id \<Rightarrow> nat \<Rightarrow> ('b, 'u) resumable
    \<Rightarrow> (exn + bool) \<times> ('b, 'u) resumable" where
  "cache_scan code bhvr awaited i rs =
     (let c = rs_cache rs
      in if i < np_cache_end c
      then (case invoke_message code bhvr awaited (c ! i) (rs_actor rs) of
              (Inl e, a1) \<Rightarrow> (Inl e, rs\<lparr>rs_actor := a1\<rparr>)
            | (Inr (im, kept), a1) \<Rightarrow>
                if im \<or> kept = None
                then let rs1 = rs\<lparr>rs_actor := a1, rs_cache := np_cache_erase i c\<rparr>
                     in if im then (Inr True, log_fate Fate_handled (c ! i) rs1)
                     else (case (bs_back (ea_stack a1), bs_back_id (ea_stack a1)) of
                             (Some b, Some r) \<Rightarrow> cache_scan code b r (np_cache_begin (rs_cache rs1)) (log_fate Fate_dropped (c ! i) rs1)
                           | _ \<Rightarrow> (Inr False, log_fate Fate_dropped (c ! i) rs1))
                else cache_scan code bhvr awaited (Suc i) (rs\<lparr>rs_actor := a1\<rparr>))
      else (Inr False, rs))"
  by pat_completeness auto

termination
  by (relation "measures [\<lambda>(code, b, r, i, rs). length (rs_cache rs), \<lambda>(code, b, r, i, rs). length (rs_cache rs) - i]")
    (auto simp: np_cache_end_def np_cache_erase_def length_erase_nth log_fate_def)

declare cache_scan.simps [simp del]

definition invoke_message_from_cache :: "('b, 'u) user_code \<Rightarrow> ('b, 'u) resumable \<Rightarrow> (exn + bool) \<times> ('b, 'u) resumable" where
  "invoke_message_from_cache code rs = (let a = rs_actor rs in case (bs_back (ea_stack a), bs_back_id (ea_stack a)) of
      (Some b, Some r) \<Rightarrow> cache_scan code b r (np_cache_begin (rs_cache rs)) rs
    | _ \<Rightarrow> (Inr False, rs))"

subsection \<open>Running an actor\<close>

text \<open>\<open>mailbox_based::cleanup\<close> with \<open>local_actor::cleanup\<close>.\<close>

definition rs_cleanup :: "nat \<Rightarrow> ('b, 'u) resumable \<Rightarrow> ('b, 'u) resumable" where
  "rs_cleanup reason rs =
     (let a = emit (concat (map (\<lambda>e. sync_request_bouncer C_sync_exited reason (el_sender e) (el_mid e)) (rs_mailbox rs))) (rs_actor rs);
          a1 = (if ea_exit_reason a = not_exited then a\<lparr>ea_exit_reason := reason\<rparr> else a)
      in rs\<lparr>rs_actor := a1\<lparr>ea_la := fst (set_registered False (ea_la a1))\<rparr>, rs_mailbox := [], rs_closed := True,
            rs_log := rs_log rs @ map (Pair Fate_bounced) (rs_mailbox rs)\<rparr>)"

definition done_cb :: "('b, 'u) user_code \<Rightarrow> ('b, 'u) resumable \<Rightarrow> bool \<times> ('b, 'u) resumable" where
  "done_cb code rs =
     (let a = rs_actor rs; a1 = on_exit code (a\<lparr>ea_stack := bs_cleanup (bs_clear (ea_stack a))\<rparr>)
      in if \<not> bs_empty (ea_stack a1) then (False, rs\<lparr>rs_actor := ea_quit not_exited a1\<rparr>)
         else let rsn = (if planned a1 = not_exited then normal else planned a1)
              in (True, rs_cleanup rsn (rs\<lparr>rs_actor := ea_quit rsn a1\<rparr>)))"

definition actor_done :: "('b, 'u) user_code \<Rightarrow> ('b, 'u) resumable \<Rightarrow> bool \<times> ('b, 'u) resumable" where
  "actor_done code rs =
     (if bs_empty (ea_stack (rs_actor rs)) \<or> planned (rs_actor rs) \<noteq> not_exited then done_cb code rs else (False, rs))"

datatype resume_result = Resume_later | Awaiting_message | Done

text \<open>A handled message leaves the cache, so that the inner loop of \<open>resume\<close> ends.\<close>

lemma rs_frame [simp]:
  "rs_cache (log_fate f e rs) = rs_cache rs" "rs_actor (log_fate f e rs) = rs_actor rs"
  "rs_mailbox (log_fate f e rs) = rs_mailbox rs" "rs_closed (log_fate f e rs) = rs_closed rs"
  "rs_cache (rs_cleanup r rs) = rs_cache rs" "rs_cache (snd (done_cb code rs)) = rs_cache rs"
  "rs_cache (snd (actor_done code rs)) = rs_cache rs"
  by (simp_all add: log_fate_def rs_cleanup_def done_cb_def actor_done_def Let_def)

lemma cache_scan_shrinks:
  "cache_scan code b r i rs = (res, rs') \<Longrightarrow>
     length (rs_cache rs') \<le> length (rs_cache rs) \<and> (res = Inr True \<longrightarrow> length (rs_cache rs') < length (rs_cache rs))"
proof (induction code b r i rs arbitrary: res rs' rule: cache_scan.induct)
  case (1 code b r i rs)
  note dropped = 1(1) [OF refl] and kept = 1(2) [OF refl]
  show ?case
    using 1(3) dropped kept
    by (subst (asm) cache_scan.simps)
      (force simp: Let_def np_cache_end_def np_cache_erase_def length_erase_nth
        split: if_splits sum.splits prod.splits option.splits)
qed

lemma invoke_message_from_cache_shrinks:
  "invoke_message_from_cache code rs = (Inr True, rs') \<Longrightarrow> length (rs_cache rs') < length (rs_cache rs)"
  by (auto simp: invoke_message_from_cache_def Let_def split: option.splits dest: cache_scan_shrinks)

lemma actor_done_cache: "actor_done code rs = (b, rs') \<Longrightarrow> rs_cache rs' = rs_cache rs"
  using rs_frame(7) [of code rs] by simp

function cache_loop :: "('b, 'u) user_code \<Rightarrow> ('b, 'u) resumable \<Rightarrow> (exn + bool) \<times> ('b, 'u) resumable" where
  "cache_loop code rs = (case invoke_message_from_cache code rs of
      (Inl e, rs1) \<Rightarrow> (Inl e, rs1)
    | (Inr found, rs1) \<Rightarrow>
        if \<not> found then (Inr False, rs1)
        else (case actor_done code rs1 of (finished, rs2) \<Rightarrow> if finished then (Inr True, rs2) else cache_loop code rs2))"
  by pat_completeness auto

termination
  by (relation "measure (\<lambda>(code, rs). length (rs_cache rs))")
    (auto dest!: sym [of "(_, _)"] actor_done_cache invoke_message_from_cache_shrinks)

declare cache_loop.simps [simp del]

text \<open>
  Messages other actors enqueue while the actor runs: one list before each \<open>next_message\<close> and
  one before each \<open>try_block\<close>.
\<close>

type_synonym 'u arrivals = "'u element list list"

definition arrive :: "'u arrivals \<Rightarrow> ('b, 'u) resumable \<Rightarrow> ('b, 'u) resumable" where
  "arrive arr rs = (case arr of [] \<Rightarrow> rs | es # _ \<Rightarrow> rs\<lparr>rs_mailbox := rs_mailbox rs @ es\<rparr>)"

definition rs_try_block :: "('b, 'u) resumable \<Rightarrow> bool \<times> ('b, 'u) resumable" where
  "rs_try_block rs = (if rs_mailbox rs = [] then (True, rs\<lparr>rs_blocked := True\<rparr>) else (False, rs))"

definition reset_timeout_if_needed :: "('b, 'u) user_code \<Rightarrow> bool \<Rightarrow> u32 \<Rightarrow> nat \<Rightarrow> ('b, 'u) resumable \<Rightarrow> ('b, 'u) resumable" where
  "reset_timeout_if_needed code had_tout tout handled_msgs rs =
     (let a = rs_actor rs
      in if had_tout \<and> handled_msgs > 0 \<and> tout = ea_timeout_id a
         then (case bs_back (ea_stack a) of
                 Some b \<Rightarrow> rs\<lparr>rs_actor := request_timeout (timeout_of code b) a\<rparr> | None \<Rightarrow> rs)
         else rs)"

text \<open>The body of the loop for the message \<open>ptr\<close>: \<open>Inr True\<close> if the actor is done.\<close>

definition resume_message :: "('b, 'u) user_code \<Rightarrow> 'u element \<Rightarrow> ('b, 'u) resumable \<Rightarrow> (exn + bool \<times> nat) \<times> ('b, 'u) resumable" where
  "resume_message code node rs = (let a = rs_actor rs in case (bs_back (ea_stack a), bs_back_id (ea_stack a)) of
      (Some b, Some r) \<Rightarrow>
        (case invoke_message code b r node a of
           (Inl e, a1) \<Rightarrow> (Inl e, log_fate Fate_lost node (rs\<lparr>rs_actor := a1\<rparr>))
         | (Inr (im, kept), a1) \<Rightarrow>
             (let rs1 = rs\<lparr>rs_actor := a1\<rparr>
              in if im
                 then (case actor_done code (log_fate Fate_handled node rs1) of (finished, rs2) \<Rightarrow>
                         if finished then (Inr (True, 1), rs2)
                         else (case cache_loop code rs2 of
                                 (Inl e, rs3) \<Rightarrow> (Inl e, rs3)
                               | (Inr finished, rs3) \<Rightarrow> (Inr (finished, 1), rs3)))
                 else (case kept of
                         Some ptr \<Rightarrow> (Inr (False, 0), rs1\<lparr>rs_cache := np_push_to_cache ptr (rs_cache rs1)\<rparr>)
                       | None \<Rightarrow> (Inr (False, 0), log_fate Fate_dropped node rs1))))
    | _ \<Rightarrow> (Inr (False, 0), log_fate Fate_lost node rs))"

fun resume_loop :: "('b, 'u) user_code \<Rightarrow> nat \<Rightarrow> bool \<Rightarrow> u32 \<Rightarrow> nat \<Rightarrow> 'u arrivals \<Rightarrow> ('b, 'u) resumable
    \<Rightarrow> (exn + resume_result) \<times> ('b, 'u) resumable" where
  "resume_loop code 0 had_tout tout handled arr rs =
     (if \<not> np_has_next_message (rs_mailbox rs)
      then (case rs_try_block (arrive arr rs) of (blocked, rs1) \<Rightarrow>
              if blocked then (Inr Awaiting_message, reset_timeout_if_needed code had_tout tout handled rs1)
              else (Inr Resume_later, rs1))
      else (Inr Resume_later, rs))"
| "resume_loop code (Suc n) had_tout tout handled arr rs =
     (let rs1 = arrive arr rs in case np_next_message (rs_mailbox rs1) of
        (Some node, mbox) \<Rightarrow>
          (case resume_message code node (rs1\<lparr>rs_mailbox := mbox\<rparr>) of
             (Inl e, rs2) \<Rightarrow> (Inl e, rs2)
           | (Inr (finished, k), rs2) \<Rightarrow>
               if finished then (Inr Done, rs2)
               else resume_loop code n had_tout tout (handled + k) (tl arr) rs2)
      | (None, mbox) \<Rightarrow>
          (case rs_try_block (arrive (tl arr) (rs1\<lparr>rs_mailbox := mbox\<rparr>)) of (blocked, rs2) \<Rightarrow>
             if blocked then (Inr Awaiting_message, reset_timeout_if_needed code had_tout tout handled rs2)
             else resume_loop code n had_tout tout handled (tl (tl arr)) rs2))"

declare resume_loop.simps [simp del]

text \<open>The initialization of an actor that was not run before.\<close>

definition resume_init :: "('b, 'u) user_code \<Rightarrow> ('b, 'u) resumable \<Rightarrow> (exn + bool) \<times> ('b, 'u) resumable" where
  "resume_init code rs =
     (if rs_initialized rs then (Inr False, rs)
      else let rs1 = rs\<lparr>rs_initialized := True\<rparr>
           in case make_behavior code (rs_actor rs1) of
                (Inl e, a1) \<Rightarrow> (Inl e, rs1\<lparr>rs_actor := a1\<rparr>)
              | (Inr bhvr, a1) \<Rightarrow>
                  (case actor_done code (rs1\<lparr>rs_actor := (case bhvr of Some b \<Rightarrow> do_become code b True a1 | None \<Rightarrow> a1)\<rparr>) of
                     (finished, rs2) \<Rightarrow> (Inr finished, rs2)))"

text \<open>The handlers of the exceptions and what follows them.\<close>

definition resume_catch :: "('b, 'u) user_code \<Rightarrow> exn \<Rightarrow> ('b, 'u) resumable \<Rightarrow> resume_result \<times> ('b, 'u) resumable" where
  "resume_catch code e rs =
     (let a = rs_actor rs;
          reason = (case e of Exn_actor_exited r \<Rightarrow> r | Exn_other \<Rightarrow> unhandled_exception);
          a1 = (if ea_exit_reason a = not_exited then ea_quit reason a else a);
          a2 = (case (e, handle_exception code) of (Exn_other, Some r) \<Rightarrow> ea_quit r a1 | _ \<Rightarrow> a1)
      in case actor_done code (rs\<lparr>rs_actor := a2\<rparr>) of (finished, rs1) \<Rightarrow>
           (if finished then Done else Resume_later, rs1))"

definition resume :: "('b, 'u) user_code \<Rightarrow> nat \<Rightarrow> 'u arrivals \<Rightarrow> ('b, 'u) resumable \<Rightarrow> resume_result \<times> ('b, 'u) resumable" where
  "resume code max_throughput arr rs = (case resume_init code rs of
      (Inl e, rs1) \<Rightarrow> resume_catch code e rs1
    | (Inr finished, rs1) \<Rightarrow>
        if finished then (Done, rs1)
        else (case resume_loop code max_throughput (ea_has_timeout (rs_actor rs1)) (ea_timeout_id (rs_actor rs1)) 0 arr rs1 of
                (Inl e, rs2) \<Rightarrow> resume_catch code e rs2
              | (Inr res, rs2) \<Rightarrow> (res, rs2)))"

section \<open>One message\<close>

text \<open>The messages that may be dropped: a normal exit, a timeout, a response nobody waits for.\<close>

definition may_drop :: "'u element \<Rightarrow> bool" where
  "may_drop e \<longleftrightarrow> (case el_msg e of C_exit s r \<Rightarrow> r = normal \<or> is_response (el_mid e)
     | C_timeout tid \<Rightarrow> True | _ \<Rightarrow> is_response (el_mid e))"

text \<open>Code whose handlers leave the actor alone when no case matches.\<close>

definition unmatched_pure :: "('b, 'u) user_code \<Rightarrow> bool" where
  "unmatched_pure code \<longleftrightarrow> (\<forall>b m a a'. run code b m a = (Inr None, a') \<longrightarrow> a' = a)"

lemma node_frame [simp]:
  "ea_stack (set_node s mid m a) = ea_stack a" "planned (set_node s mid m a) = planned a"
  "ea_stack (hm_cleanup a) = ea_stack a" "planned (hm_cleanup a) = planned a"
  "ea_stack (hm_revert p a) = ea_stack a" "planned (hm_revert p a) = planned a"
  "ea_stack (ea_quit r a) = ea_stack a" "planned (ea_quit r a) = r"
  "ea_stack (emit es a) = ea_stack a" "planned (emit es a) = planned a"
  by (simp_all add: set_node_def hm_cleanup_def hm_revert_def ea_quit_def planned_def emit_def split: prod.split)

lemma filter_msg_frame:
  assumes "filter_msg node a = (ty, a1)"
  shows "ea_stack a1 = ea_stack a" "ty \<noteq> Non_normal_exit \<Longrightarrow> planned a1 = planned a"
  using assms
  by (auto simp: filter_msg_def Let_def planned_def split: content.splits if_splits)

lemma filter_msg_dropped:
  "filter_msg node a = (ty, a1) \<Longrightarrow> ty \<in> {Normal_exit, Expired_sync_response, Expired_timeout} \<Longrightarrow> may_drop node"
  by (auto simp: filter_msg_def Let_def may_drop_def split: content.splits if_splits)

lemma invoke_fun_unmatched:
  assumes "unmatched_pure code" "invoke_fun code b m a = (Inr False, a')"
  shows "a' = a"
  using assms by (auto simp: invoke_fun_def unmatched_pure_def Let_def split: prod.splits sum.splits option.splits if_splits)

lemma handle_response_not_handled:
  "handle_response code f b node r a = (Inr res, a') \<Longrightarrow> res \<noteq> Hm_handled \<Longrightarrow> res = Hm_cache \<and> a' = a"
  by (auto simp: handle_response_def Let_def split: prod.splits sum.splits if_splits)

lemma handle_message_dropped:
  assumes "handle_message code b node r a = (Inr Hm_drop, a')"
  shows "may_drop node"
proof -
  obtain ty a1 where ty: "filter_msg node a = (ty, a1)" by fastforce
  with assms have "ty \<in> {Normal_exit, Expired_sync_response, Expired_timeout}"
    by (cases ty) (auto simp: handle_message_def Let_def dest: handle_response_not_handled
        split: prod.splits sum.splits if_splits)
  with ty show ?thesis by (rule filter_msg_dropped)
qed

lemma handle_message_not_handled:
  assumes "unmatched_pure code" "handle_message code b node r a = (Inr res, a')" "res \<noteq> Hm_handled"
  shows "ea_stack a' = ea_stack a \<and> planned a' = planned a"
proof -
  obtain ty a1 where ty: "filter_msg node a = (ty, a1)" by fastforce
  note frame = filter_msg_frame [OF ty]
  show ?thesis
  proof (cases ty)
    case Ordinary
    with assms(2,3) ty frame show ?thesis
      by (auto simp: handle_message_def Let_def hm_begin_def split: prod.splits sum.splits if_splits
          dest!: invoke_fun_unmatched [OF assms(1)])
  next
    case Timeout_response
    with assms(2,3) ty frame show ?thesis
      by (auto simp: handle_message_def dest: handle_response_not_handled)
  next
    case Sync_response
    with assms(2,3) ty frame show ?thesis
      by (auto simp: handle_message_def dest: handle_response_not_handled)
  qed (use assms(2,3) ty frame in \<open>auto simp: handle_message_def Let_def\<close>)
qed

lemma invoke_message_cases:
  assumes "invoke_message code b r node a = (Inr (im, kept), a')"
  obtains (handled) "im" "kept = None" "handle_message code b node r a = (Inr Hm_handled, a')"
  | (kept) res where "\<not> im" "kept = Some node" "handle_message code b node r a = (Inr res, a')" "res \<noteq> Hm_handled"
  | (dropped) "\<not> im" "kept = None" "handle_message code b node r a = (Inr Hm_drop, a')" "may_drop node"
  using assms handle_message_dropped [of code b node r a]
  by (auto simp: invoke_message_def split: prod.splits sum.splits hm_result.splits)

section \<open>Running an actor\<close>

subsection \<open>No message gets lost\<close>

definition total :: "('b, 'u) resumable \<Rightarrow> 'u element multiset" where
  "total rs = mset (rs_cache rs) + mset (rs_mailbox rs) + mset (map snd (rs_log rs))"

definition drops_ok :: "('b, 'u) resumable \<Rightarrow> bool" where
  "drops_ok rs \<longleftrightarrow> list_all (\<lambda>(f, e). f = Fate_dropped \<longrightarrow> may_drop e) (rs_log rs)"

definition accounted :: "('b, 'u) resumable \<Rightarrow> 'u element list \<Rightarrow> ('b, 'u) resumable \<Rightarrow> bool" where
  "accounted rs es rs' \<longleftrightarrow> total rs' = total rs + mset es \<and> (drops_ok rs \<longrightarrow> drops_ok rs')"

lemma accounted_refl: "rs_cache rs' = rs_cache rs \<Longrightarrow> rs_mailbox rs' = rs_mailbox rs \<Longrightarrow> rs_log rs' = rs_log rs \<Longrightarrow> accounted rs [] rs'"
  by (simp add: accounted_def total_def drops_ok_def)

lemma accounted_actor [simp]:
  "accounted (rs\<lparr>rs_actor := a\<rparr>) es rs' = accounted rs es rs'"
  "accounted (rs\<lparr>rs_initialized := i\<rparr>) es rs' = accounted rs es rs'"
  "accounted (rs\<lparr>rs_actor := a, rs_initialized := i\<rparr>) es rs' = accounted rs es rs'"
  by (simp_all add: accounted_def total_def drops_ok_def)

lemma accounted_trans: "accounted rs es rs1 \<Longrightarrow> accounted rs1 es' rs2 \<Longrightarrow> accounted rs (es @ es') rs2"
  by (simp add: accounted_def ac_simps)

lemma accounted_trans': "accounted rs es rs1 \<Longrightarrow> accounted rs1 [] rs2 \<Longrightarrow> accounted rs es rs2"
  by (simp add: accounted_def)

lemma mset_erase_nth: "i < length c \<Longrightarrow> mset (erase_nth i c) + {#c ! i#} = mset c"
  by (subst (3) id_take_nth_drop [of i]) (simp_all add: erase_nth_def)

lemma accounted_erase:
  assumes "i < length (rs_cache rs)" "f = Fate_dropped \<Longrightarrow> may_drop (rs_cache rs ! i)"
  shows "accounted rs [] (log_fate f (rs_cache rs ! i) (rs\<lparr>rs_actor := a, rs_cache := np_cache_erase i (rs_cache rs)\<rparr>))"
  using assms mset_erase_nth [OF assms(1)]
  by (auto simp: accounted_def total_def drops_ok_def log_fate_def np_cache_erase_def)

lemma accounted_cleanup: "accounted rs [] (rs_cleanup r rs)"
  by (auto simp: accounted_def total_def drops_ok_def rs_cleanup_def Let_def list_all_iff comp_def)

lemma accounted_actor_done: "actor_done code rs = (b, rs') \<Longrightarrow> accounted rs [] rs'"
  using accounted_cleanup
  by (auto simp: actor_done_def done_cb_def Let_def split: if_splits
      intro: accounted_refl accounted_trans' [OF accounted_refl accounted_cleanup])

lemma accounted_cache_scan: "cache_scan code b r i rs = (res, rs') \<Longrightarrow> accounted rs [] rs'"
proof (induction code b r i rs arbitrary: res rs' rule: cache_scan.induct)
  case (1 code b r i rs)
  show ?case
  proof (cases "i < np_cache_end (rs_cache rs)")
    case False
    with 1(3) show ?thesis by (subst (asm) cache_scan.simps) (simp add: accounted_refl)
  next
    case True
    then have i: "i < length (rs_cache rs)" by (simp add: np_cache_end_def)
    obtain x a1 where inv: "invoke_message code b r (rs_cache rs ! i) (rs_actor rs) = (x, a1)" by fastforce
    show ?thesis
    proof (cases x)
      case (Inl e)
      with 1(3) True inv show ?thesis by (subst (asm) cache_scan.simps) (auto simp: accounted_refl)
    next
      case (Inr y)
      then obtain im kept where x: "x = Inr (im, kept)" by (cases y) auto
      note IH = 1(1) [OF refl True inv [symmetric] x refl] 1(2) [OF refl True inv [symmetric] x refl]
      note run = 1(3) [unfolded cache_scan.simps [of code b r i rs]]
      from inv [unfolded x] show ?thesis
      proof (cases rule: invoke_message_cases)
        case handled
        with run True inv x i show ?thesis by (auto simp: Let_def intro: accounted_erase)
      next
        case kept
        from kept run True inv x have "cache_scan code b r (Suc i) (rs\<lparr>rs_actor := a1\<rparr>) = (res, rs')" by (simp add: Let_def)
        with kept IH(2) have "accounted (rs\<lparr>rs_actor := a1\<rparr>) [] rs'" by simp
        with accounted_refl [of "rs\<lparr>rs_actor := a1\<rparr>" rs] show ?thesis by (auto intro: accounted_trans')
      next
        case dropped
        then have d: "accounted rs [] (log_fate Fate_dropped (rs_cache rs ! i) (rs\<lparr>rs_actor := a1, rs_cache := np_cache_erase i (rs_cache rs)\<rparr>))"
          using i by (intro accounted_erase) auto
        with dropped run True inv x IH(1) show ?thesis
          by (auto simp: Let_def split: option.splits intro: accounted_trans')
      qed
    qed
  qed
qed

lemma accounted_from_cache: "invoke_message_from_cache code rs = (res, rs') \<Longrightarrow> accounted rs [] rs'"
  by (auto simp: invoke_message_from_cache_def Let_def accounted_refl split: option.splits intro: accounted_cache_scan)

lemma accounted_cache_loop: "cache_loop code rs = (res, rs') \<Longrightarrow> accounted rs [] rs'"
proof (induction code rs arbitrary: res rs' rule: cache_loop.induct)
  case (1 code rs)
  obtain x rs1 where inv: "invoke_message_from_cache code rs = (x, rs1)" by fastforce
  note a1 = accounted_from_cache [OF inv] and run = 1(2) [unfolded cache_loop.simps [of code rs] inv prod.case]
  show ?case
  proof (cases "x = Inr True")
    case True
    obtain fin rs2 where d: "actor_done code rs1 = (fin, rs2)" by fastforce
    note a2 = accounted_trans' [OF a1 accounted_actor_done [OF d]]
    from 1(1) [OF inv [symmetric] True _ d [symmetric]] run True d a2 show ?thesis
      by (auto split: if_splits intro: accounted_trans')
  qed (use run a1 in \<open>auto split: sum.splits if_splits\<close>)
qed

lemma accounted_log: "f \<noteq> Fate_dropped \<or> may_drop e \<Longrightarrow> accounted rs [e] (log_fate f e (rs\<lparr>rs_actor := a\<rparr>))"
  by (auto simp: accounted_def total_def drops_ok_def log_fate_def)

lemma accounted_push: "accounted rs [e] (rs\<lparr>rs_actor := a, rs_cache := np_push_to_cache e (rs_cache rs)\<rparr>)"
  by (simp add: accounted_def total_def drops_ok_def np_push_to_cache_def)

lemma accounted_resume_message:
  assumes "resume_message code node rs = (res, rs')"
  shows "accounted rs [node] rs'"
proof (cases "bs_back (ea_stack (rs_actor rs)) = None \<or> bs_back_id (ea_stack (rs_actor rs)) = None")
  case True
  with assms accounted_log [of Fate_lost node rs "rs_actor rs"] show ?thesis
    by (auto simp: resume_message_def Let_def split: option.splits)
next
  case False
  then obtain b r where br: "bs_back (ea_stack (rs_actor rs)) = Some b" "bs_back_id (ea_stack (rs_actor rs)) = Some r" by auto
  obtain x a1 where inv: "invoke_message code b r node (rs_actor rs) = (x, a1)" by fastforce
  note run = assms [unfolded resume_message_def Let_def br inv prod.case option.case]
  show ?thesis
  proof (cases x)
    case (Inl e)
    with run show ?thesis by (auto intro: accounted_log)
  next
    case (Inr y)
    then obtain im kept where x: "x = Inr (im, kept)" by (cases y) auto
    from inv [unfolded x] show ?thesis
    proof (cases rule: invoke_message_cases)
      case handled
      obtain fin rs2 where d: "actor_done code (log_fate Fate_handled node (rs\<lparr>rs_actor := a1\<rparr>)) = (fin, rs2)" by fastforce
      have "accounted rs [node] rs2" using accounted_trans' [OF accounted_log accounted_actor_done [OF d]] by simp
      with handled run x d show ?thesis
        by (auto split: if_splits prod.splits sum.splits dest!: accounted_cache_loop intro: accounted_trans')
    next
      case kept
      with run x show ?thesis by (auto intro: accounted_push)
    next
      case dropped
      with run x show ?thesis by (auto intro: accounted_log)
    qed
  qed
qed

lemma accounted_arrive: "accounted rs (concat (take 1 arr)) (arrive arr rs)"
  by (cases arr) (simp_all add: accounted_def arrive_def total_def drops_ok_def)

lemma accounted_reset: "accounted rs [] (reset_timeout_if_needed code h t n rs)"
  by (auto simp: reset_timeout_if_needed_def Let_def intro!: accounted_refl split: option.split)

lemma accounted_take:
  "accounted rs [node] rs' \<Longrightarrow> rs_mailbox rs0 = node # mbox \<Longrightarrow> rs = rs0\<lparr>rs_mailbox := mbox\<rparr> \<Longrightarrow> accounted rs0 [] rs'"
  by (simp add: accounted_def total_def drops_ok_def)

lemma accounted_block: "rs_try_block rs = (b, rs') \<Longrightarrow> accounted rs [] rs'"
  by (auto simp: rs_try_block_def accounted_refl split: if_splits)

lemma concat_take_Suc: "concat (take 1 xs) @ concat (take k (tl xs)) = concat (take (Suc k) xs)"
  by (cases xs) auto

text \<open>After a list of arrivals the rest of the run sees the rest of the lists.\<close>

lemma accounted_arrive_then:
  assumes "\<exists>k. accounted (arrive arr rs) (concat (take k (tl arr))) rs'"
  shows "\<exists>k. accounted rs (concat (take k arr)) rs'"
proof -
  from assms obtain k where "accounted (arrive arr rs) (concat (take k (tl arr))) rs'" by blast
  from accounted_trans [OF accounted_arrive this] show ?thesis by (metis concat_take_Suc)
qed

lemma accounted_blocking:
  assumes "rs_try_block (arrive arr rs) = (b, rs1)" "\<exists>k. accounted rs1 (concat (take k (tl arr))) rs'"
  shows "\<exists>k. accounted rs (concat (take k arr)) rs'"
proof (rule accounted_arrive_then)
  from assms(2) obtain k where "accounted rs1 (concat (take k (tl arr))) rs'" by blast
  with accounted_trans [OF accounted_block [OF assms(1)]] show "\<exists>k. accounted (arrive arr rs) (concat (take k (tl arr))) rs'"
    by fastforce
qed

lemma accounted_nothing: "accounted rs [] rs' \<Longrightarrow> \<exists>k. accounted rs (concat (take k arr)) rs'"
  by (intro exI [of _ 0]) simp

lemma accounted_resume_loop:
  "resume_loop code n h t k arr rs = (res, rs') \<Longrightarrow> \<exists>j. accounted rs (concat (take j arr)) rs'"
proof (induction n arbitrary: k arr rs)
  case 0
  obtain b rs1 where b: "rs_try_block (arrive arr rs) = (b, rs1)" by fastforce
  note run = 0 [unfolded resume_loop.simps(1) b prod.case]
  show ?case
  proof (cases "np_has_next_message (rs_mailbox rs)")
    case True
    with run show ?thesis by (auto intro!: accounted_nothing accounted_refl)
  next
    case False
    with run show ?thesis
      by (intro accounted_blocking [OF b] accounted_nothing) (auto split: if_splits intro: accounted_reset accounted_refl)
  qed
next
  case (Suc n)
  let ?rs1 = "arrive arr rs"
  show ?case
  proof (rule accounted_arrive_then, cases "rs_mailbox ?rs1")
    case Nil
    obtain b rs2 where b: "rs_try_block (arrive (tl arr) (?rs1\<lparr>rs_mailbox := []\<rparr>)) = (b, rs2)" by fastforce
    have same: "?rs1\<lparr>rs_mailbox := []\<rparr> = ?rs1" using Nil by simp
    have "\<exists>j. accounted rs2 (concat (take j (tl (tl arr)))) rs'"
    proof (cases b)
      case True
      with Suc.prems Nil b have "rs' = reset_timeout_if_needed code h t k rs2"
        by (simp add: resume_loop.simps(2) Let_def np_next_message_def)
      then show ?thesis by (simp add: accounted_nothing accounted_reset)
    next
      case False
      with Suc.prems Nil b Suc.IH [of k "tl (tl arr)" rs2] show ?thesis
        by (simp add: resume_loop.simps(2) Let_def np_next_message_def)
    qed
    then show "\<exists>j. accounted ?rs1 (concat (take j (tl arr))) rs'" by (rule accounted_blocking [OF b [unfolded same]])
  next
    case (Cons node mbox)
    obtain x rs2 where m: "resume_message code node (?rs1\<lparr>rs_mailbox := mbox\<rparr>) = (x, rs2)" by fastforce
    from accounted_take [OF accounted_resume_message [OF m] Cons refl] have acc: "accounted ?rs1 [] rs2" .
    note run = Suc.prems [unfolded resume_loop.simps(2) Let_def np_next_message_def Cons list.case option.case prod.case m]
    show "\<exists>j. accounted ?rs1 (concat (take j (tl arr))) rs'"
    proof (cases "\<exists>i. x = Inr (False, i)")
      case True
      with run obtain i where "resume_loop code n h t (k + i) (tl arr) rs2 = (res, rs')" by auto
      from Suc.IH [OF this] acc show ?thesis using accounted_trans by fastforce
    qed (use run acc in \<open>auto intro!: accounted_nothing split: sum.splits prod.splits if_splits\<close>)
  qed
qed

lemma accounted_catch: "resume_catch code e rs = (res, rs') \<Longrightarrow> accounted rs [] rs'"
  by (auto simp: resume_catch_def Let_def split: prod.splits dest!: accounted_actor_done)

lemma accounted_init: "resume_init code rs = (x, rs') \<Longrightarrow> accounted rs [] rs'"
  by (auto simp: resume_init_def Let_def accounted_refl split: if_splits prod.splits sum.splits
      dest!: accounted_actor_done)

lemma accounted_resume:
  assumes "resume code n arr rs = (res, rs')"
  shows "\<exists>k. accounted rs (concat (take k arr)) rs'"
proof -
  obtain x rs1 where i: "resume_init code rs = (x, rs1)" by fastforce
  note acc = accounted_init [OF i]
  show ?thesis
  proof (cases "x = Inr False")
    case True
    obtain y rs2 where l: "resume_loop code n (ea_has_timeout (rs_actor rs1)) (ea_timeout_id (rs_actor rs1)) 0 arr rs1 = (y, rs2)"
      by fastforce
    from accounted_resume_loop [OF l] obtain k where "accounted rs (concat (take k arr)) rs2"
      using accounted_trans [OF acc] by fastforce
    with assms i True l show ?thesis
      by (cases y) (auto simp: resume_def dest: accounted_catch intro: accounted_trans')
  next
    case False
    with assms i acc have "accounted rs [] rs'"
      by (auto simp: resume_def split: sum.splits if_splits dest: accounted_catch intro: accounted_trans')
    then show ?thesis by (rule accounted_nothing)
  qed
qed

text \<open>C5. Whatever happens while an actor runs (handlers of any kind, exceptions, termination), no
  message disappears unobserved: the messages in the cache, in the mailbox and those that were
  taken out for good are the ones that were there before and those that arrived; and only normal exits,
  timeouts and responses are dropped.\<close>

theorem resume_loses_nothing:
  assumes "resume code n arr rs = (res, rs')" "drops_ok rs"
  shows "(\<exists>k. total rs' = total rs + mset (concat (take k arr))) \<and> drops_ok rs'"
  using accounted_resume [OF assms(1)] assms(2) by (auto simp: accounted_def)

subsection \<open>An actor is left ready or terminated\<close>

text \<open>What \<open>resume\<close> requires of an initialized actor, and what a terminated one has done.\<close>

definition ready :: "('b, 'u) resumable \<Rightarrow> bool" where
  "ready rs \<longleftrightarrow> \<not> bs_empty (ea_stack (rs_actor rs)) \<and> planned (rs_actor rs) = not_exited"

definition terminated :: "('b, 'u) resumable \<Rightarrow> bool" where
  "terminated rs \<longleftrightarrow> bs_empty (ea_stack (rs_actor rs)) \<and> ea_exit_reason (rs_actor rs) \<noteq> not_exited \<and> rs_closed rs \<and> rs_mailbox rs = []"

lemma actor_done_post: "actor_done code rs = (fin, rs') \<Longrightarrow> if fin then terminated rs' else ready rs'"
  by (auto simp: actor_done_def done_cb_def rs_cleanup_def terminated_def ready_def Let_def emit_def ea_quit_def
      planned_def normal_def not_exited_def split: if_splits)

lemma ready_cong: "ready rs \<Longrightarrow> ea_stack (rs_actor rs') = ea_stack (rs_actor rs) \<Longrightarrow> planned (rs_actor rs') = planned (rs_actor rs) \<Longrightarrow> ready rs'"
  by (simp add: ready_def)

lemma cache_scan_ready:
  "cache_scan code b r i rs = (Inr False, rs') \<Longrightarrow> unmatched_pure code \<Longrightarrow> ready rs \<Longrightarrow> ready rs'"
proof (induction code b r i rs arbitrary: rs' rule: cache_scan.induct)
  case (1 code b r i rs)
  show ?case
  proof (cases "i < np_cache_end (rs_cache rs)")
    case False
    with 1(3,5) show ?thesis by (subst (asm) cache_scan.simps) simp
  next
    case True
    obtain x a1 where inv: "invoke_message code b r (rs_cache rs ! i) (rs_actor rs) = (x, a1)" by fastforce
    note run = 1(3) [unfolded cache_scan.simps [of code b r i rs]]
    from run True inv obtain im kept where x: "x = Inr (im, kept)" and "\<not> im"
      by (cases x) (auto simp: Let_def split: if_splits)
    note IH = 1(1) [OF refl True inv [symmetric] x refl] 1(2) [OF refl True inv [symmetric] x refl]
    from inv [unfolded x] have same: "ea_stack a1 = ea_stack (rs_actor rs) \<and> planned a1 = planned (rs_actor rs)"
    proof (cases rule: invoke_message_cases)
      case handled
      with \<open>\<not> im\<close> show ?thesis by simp
    qed (use handle_message_not_handled [OF 1(4)] in blast)+
    show ?thesis
    proof (cases kept)
      case None
      from 1(5) same obtain b' r' where br: "bs_back (ea_stack a1) = Some b'" "bs_back_id (ea_stack a1) = Some r'"
        by (auto simp: ready_def bs_empty_def bs_back_def bs_back_id_def)
      let ?rs1 = "rs\<lparr>rs_actor := a1, rs_cache := np_cache_erase i (rs_cache rs)\<rparr>"
      have "ready (log_fate Fate_dropped (rs_cache rs ! i) ?rs1)" using same by (intro ready_cong [OF 1(5)]) auto
      with IH(1) [of ?rs1] run True inv x None \<open>\<not> im\<close> br 1(4) show ?thesis by (simp add: Let_def)
    next
      case (Some k)
      have "ready (rs\<lparr>rs_actor := a1\<rparr>)" using same by (intro ready_cong [OF 1(5)]) auto
      with IH(2) run True inv x Some \<open>\<not> im\<close> 1(4) show ?thesis by (simp add: Let_def)
    qed
  qed
qed

lemma cache_loop_post:
  "cache_loop code rs = (Inr fin, rs') \<Longrightarrow> unmatched_pure code \<Longrightarrow> ready rs \<Longrightarrow> if fin then terminated rs' else ready rs'"
proof (induction code rs arbitrary: rs' rule: cache_loop.induct)
  case (1 code rs)
  obtain x rs1 where inv: "invoke_message_from_cache code rs = (x, rs1)" by fastforce
  note run = 1(2) [unfolded cache_loop.simps [of code rs] inv prod.case]
  show ?case
  proof (cases "x = Inr True")
    case True
    obtain d rs2 where d: "actor_done code rs1 = (d, rs2)" by fastforce
    from 1(1) [OF inv [symmetric] True _ d [symmetric]] run True d 1(3) actor_done_post [OF d] show ?thesis
      by (auto split: if_splits)
  next
    case False
    with run inv have "x = Inr False" "rs' = rs1" "\<not> fin" by (auto split: sum.splits if_splits)
    with inv 1(3,4) show ?thesis
      by (auto simp: invoke_message_from_cache_def Let_def split: option.splits dest: cache_scan_ready)
  qed
qed

lemma resume_message_post:
  assumes "resume_message code node rs = (Inr (fin, k), rs')" "unmatched_pure code" "ready rs"
  shows "if fin then terminated rs' else ready rs'"
proof -
  from assms(3) obtain b r where br: "bs_back (ea_stack (rs_actor rs)) = Some b" "bs_back_id (ea_stack (rs_actor rs)) = Some r"
    by (auto simp: ready_def bs_empty_def bs_back_def bs_back_id_def)
  obtain x a1 where inv: "invoke_message code b r node (rs_actor rs) = (x, a1)" by fastforce
  note run = assms(1) [unfolded resume_message_def Let_def br inv prod.case option.case]
  from run obtain im kept where x: "x = Inr (im, kept)" by (cases x) auto
  from inv [unfolded x] show ?thesis
  proof (cases rule: invoke_message_cases)
    case handled
    obtain d rs2 where d: "actor_done code (log_fate Fate_handled node (rs\<lparr>rs_actor := a1\<rparr>)) = (d, rs2)" by fastforce
    show ?thesis
    proof (cases d)
      case True
      with run x handled d actor_done_post [OF d] show ?thesis by auto
    next
      case False
      then have "ready rs2" using actor_done_post [OF d] by simp
      with run x handled d False show ?thesis
        by (cases "cache_loop code rs2") (auto split: sum.splits dest: cache_loop_post [OF _ assms(2)])
    qed
  next
    case (kept res)
    then have "ea_stack a1 = ea_stack (rs_actor rs)" "planned a1 = planned (rs_actor rs)"
      using handle_message_not_handled [OF assms(2)] by blast+
    with run x kept show ?thesis by (auto intro: ready_cong [OF assms(3)])
  next
    case dropped
    then have "ea_stack a1 = ea_stack (rs_actor rs)" "planned a1 = planned (rs_actor rs)"
      using handle_message_not_handled [OF assms(2)] by blast+
    with run x dropped show ?thesis by (auto intro: ready_cong [OF assms(3)])
  qed
qed

lemma request_timeout_frame [simp]: "ea_stack (request_timeout d a) = ea_stack a" "planned (request_timeout d a) = planned a"
  by (simp_all add: request_timeout_def emit_def planned_def Let_def split: option.split)

lemma arrive_frame [simp]: "rs_actor (arrive arr rs) = rs_actor rs"
  by (simp add: arrive_def split: list.split)

definition resume_post :: "resume_result \<Rightarrow> ('b, 'u) resumable \<Rightarrow> bool" where
  "resume_post res rs \<longleftrightarrow> (case res of Done \<Rightarrow> terminated rs | Resume_later \<Rightarrow> ready rs
     | Awaiting_message \<Rightarrow> ready rs \<and> rs_mailbox rs = [] \<and> rs_blocked rs)"

lemma blocked_post:
  assumes "rs_try_block (arrive arr rs) = (True, rs1)" "ready rs"
  shows "resume_post Awaiting_message (reset_timeout_if_needed code h t k rs1)"
  using assms
  by (auto simp: rs_try_block_def resume_post_def reset_timeout_if_needed_def Let_def ready_def split: if_splits option.splits)

lemma not_blocked_ready: "rs_try_block (arrive arr rs) = (False, rs1) \<Longrightarrow> ready rs \<Longrightarrow> ready rs1"
  by (auto simp: rs_try_block_def ready_def split: if_splits)

lemma resume_loop_post:
  "resume_loop code n h t k arr rs = (Inr res, rs') \<Longrightarrow> unmatched_pure code \<Longrightarrow> ready rs \<Longrightarrow> resume_post res rs'"
proof (induction n arbitrary: k arr rs)
  case 0
  then show ?case
    by (auto simp: resume_loop.simps(1) resume_post_def split: if_splits prod.splits
        dest: not_blocked_ready blocked_post [unfolded resume_post_def])
next
  case (Suc n)
  let ?rs1 = "arrive arr rs"
  have r: "ready ?rs1" using Suc.prems(3) by (simp add: ready_def)
  show ?case
  proof (cases "rs_mailbox ?rs1")
    case Nil
    obtain b rs2 where b: "rs_try_block (arrive (tl arr) (?rs1\<lparr>rs_mailbox := []\<rparr>)) = (b, rs2)" by fastforce
    have r': "ready (?rs1\<lparr>rs_mailbox := []\<rparr>)" using r by (simp add: ready_def)
    from Suc.prems Nil b Suc.IH [of k "tl (tl arr)" rs2] not_blocked_ready [of "tl arr" _ rs2, OF _ r']
      blocked_post [of "tl arr" _ rs2, OF _ r'] show ?thesis
      by (cases b) (auto simp: resume_loop.simps(2) Let_def np_next_message_def)
  next
    case (Cons node mbox)
    obtain x rs2 where m: "resume_message code node (?rs1\<lparr>rs_mailbox := mbox\<rparr>) = (x, rs2)" by fastforce
    note run = Suc.prems(1) [unfolded resume_loop.simps(2) Let_def np_next_message_def Cons list.case option.case prod.case m]
    from run obtain fin i where x: "x = Inr (fin, i)" by (cases x) auto
    have "ready (?rs1\<lparr>rs_mailbox := mbox\<rparr>)" using r by (simp add: ready_def)
    from resume_message_post [OF m [unfolded x] Suc.prems(2) this] run x Suc.IH Suc.prems(2) show ?thesis
      by (auto simp: resume_post_def split: if_splits)
  qed
qed

lemma resume_catch_post: "resume_catch code e rs = (res, rs') \<Longrightarrow> resume_post res rs'"
  by (auto simp: resume_catch_def Let_def resume_post_def split: prod.splits dest!: actor_done_post split: if_splits)

text \<open>C12. An event-based actor whose unmatched handlers have no effect is left by \<open>resume\<close> either
  terminated, with an exit reason, an empty stack and a closed and emptied mailbox, or able to
  run again: with a behavior and without a planned exit reason, which is what the next \<open>resume\<close>
  requires. It is reported as waiting only if its mailbox is empty and marked as blocked.\<close>

theorem resume_ready_or_terminated:
  assumes "unmatched_pure code" "rs_initialized rs \<longrightarrow> ready rs" "resume code n arr rs = (res, rs')"
  shows "resume_post res rs'"
proof -
  obtain x rs1 where i: "resume_init code rs = (x, rs1)" by fastforce
  show ?thesis
  proof (cases x)
    case (Inl e)
    with assms(3) i show ?thesis by (auto simp: resume_def dest: resume_catch_post)
  next
    case (Inr fin)
    from i Inr assms(2) have post: "if fin then terminated rs1 else ready rs1"
      by (auto simp: resume_init_def Let_def split: if_splits prod.splits sum.splits dest: actor_done_post)
    show ?thesis
    proof (cases fin)
      case True
      with assms(3) i Inr post show ?thesis by (simp add: resume_def resume_post_def)
    next
      case False
      with post have "ready rs1" by simp
      with assms(1,3) i Inr False show ?thesis
        by (auto simp: resume_def split: prod.splits sum.splits dest: resume_catch_post resume_loop_post)
    qed
  qed
qed

subsection \<open>Waiting for a response\<close>

text \<open>While the behavior of an actor waits for one response, every other message that is
  neither an exit nor a timeout leaves the actor untouched and no handler runs: a response that
  is not awaited any more is dropped, all else goes to the cache. A late \<open>sync_timeout_msg\<close> of
  a request already answered goes there too.\<close>

theorem awaiting_defers_others:
  assumes "mid_valid awaited" "el_mid node \<noteq> awaited" "\<nexists>s r. el_msg node = C_exit s r" "\<nexists>t. el_msg node = C_timeout t"
  shows "handle_message code b node awaited a =
    (Inr (if is_response (el_mid node) \<and> el_msg node \<noteq> C_sync_timeout \<and> \<not> awaits (ea_la a) (el_mid node)
          then Hm_drop else Hm_cache), a)"
  using assms
  by (auto simp: handle_message_def filter_msg_def Let_def handle_response_def split: content.splits)

subsection \<open>Timeouts\<close>

text \<open>Requesting a timeout, or giving it up, makes the pending one obsolete: its message is dropped when it
  arrives, whatever the actor waits for, and the handler of the timeout does not run. Ids are counted with
  32 bits, so the id after the last is zero.\<close>

theorem timeout_superseded:
  assumes "is_active_timeout tid a" "el_msg node = C_timeout tid"
  shows "handle_message code b node awaited (request_timeout d a) = (Inr Hm_drop, request_timeout d a)"
  using assms
  by (auto simp: handle_message_def filter_msg_def Let_def is_active_timeout_def waits_for_timeout_def request_timeout_def emit_def
      split: option.splits)

section \<open>Witnesses\<close>

text \<open>An actor whose behavior \<open>n\<close> handles the message \<open>n\<close> and becomes \<open>n + 1\<close>; message 9 raises
  an exception.\<close>

definition demo_code :: "(nat, nat) user_code" where
  "demo_code = \<lparr>run = (\<lambda>b m a. if m = C_user 9 then (Inl Exn_other, a)
       else if m = C_user b then (Inr (Some None), a\<lparr>ea_stack := bs_push_back (b + 1) invalid_message_id (pop_async_back (ea_stack a))\<rparr>)
       else (Inr None, a)),
     run_timeout = (\<lambda>b a. a), timeout_of = (\<lambda>b. None), on_exit = (\<lambda>a. a), sync_failure = None, handle_exception = None,
     make_behavior = (\<lambda>a. (Inr (Some 0), a))\<rparr>"

definition demo_actor :: "(nat, nat) ev_actor" where
  "demo_actor = \<lparr>ea_la = \<lparr>la_id = 1, m_last_request_id = invalid_message_id, m_pending_responses = [], node_sender = None,
       node_mid = invalid_message_id, node_msg = C_unit, m_planned_exit_reason = 0, is_blocking = False, is_registered_flag = True\<rparr>,
     ea_stack = empty_stack, ea_trap_exit = False, ea_has_timeout = False, ea_timeout_id = 0, ea_unlinked = [],
     ea_effects = [], ea_exit_reason = 0\<rparr>"

definition demo_msg :: "nat content \<Rightarrow> nat element" where
  "demo_msg c = \<lparr>el_sender = Some 2, el_mid = invalid_message_id, el_msg = c, el_marked = False\<rparr>"

definition demo_rs :: "(nat, nat) resumable" where
  "demo_rs = \<lparr>rs_actor = demo_actor, rs_mailbox = map demo_msg [C_user 1, C_user 0, C_exit 2 1], rs_cache = [], rs_closed = False,
     rs_blocked = False, rs_initialized = False, rs_log = []\<rparr>"

lemma demo_unmatched_pure: "unmatched_pure demo_code"
  by (simp add: unmatched_pure_def demo_code_def)

definition demo_arrivals :: "nat arrivals" where
  "demo_arrivals = [[], [], [], [demo_msg (C_user 3)], [demo_msg (C_user 9)]]"

definition demo_run :: "resume_result \<times> (nat, nat) resumable" where
  "demo_run = resume demo_code 8 demo_arrivals demo_rs"

lemma resume_loses_nothing_witness:
  "fst demo_run = Done
   \<and> map (\<lambda>(f, e). (f, el_msg e)) (rs_log (snd demo_run)) =
       [(Fate_handled, C_user 0), (Fate_handled, C_user 1), (Fate_dropped, C_exit 2 1), (Fate_lost, C_user 9)]
   \<and> map el_msg (rs_cache (snd demo_run)) = [C_user 3]
   \<and> (\<exists>k. total (snd demo_run) = total demo_rs + mset (concat (take k demo_arrivals))) \<and> drops_ok (snd demo_run)"
proof -
  have "drops_ok demo_rs" by (simp add: drops_ok_def demo_rs_def)
  with resume_loses_nothing [of demo_code 8 demo_arrivals demo_rs "fst demo_run" "snd demo_run"]
  have "(\<exists>k. total (snd demo_run) = total demo_rs + mset (concat (take k demo_arrivals))) \<and> drops_ok (snd demo_run)"
    by (simp add: demo_run_def)
  moreover have "fst demo_run = Done" by code_simp
  moreover have "map (\<lambda>(f, e). (f, el_msg e)) (rs_log (snd demo_run)) =
       [(Fate_handled, C_user 0), (Fate_handled, C_user 1), (Fate_dropped, C_exit 2 1), (Fate_lost, C_user 9)]" by code_simp
  moreover have "map el_msg (rs_cache (snd demo_run)) = [C_user 3]" by code_simp
  ultimately show ?thesis by blast
qed

lemma resume_ready_or_terminated_witness:
  "fst (resume demo_code 2 [] demo_rs) = Resume_later \<and> resume_post Resume_later (snd (resume demo_code 2 [] demo_rs))
   \<and> fst (resume demo_code 4 [] demo_rs) = Awaiting_message \<and> resume_post Awaiting_message (snd (resume demo_code 4 [] demo_rs))"
proof -
  have post: "resume_post (fst (resume demo_code n [] demo_rs)) (snd (resume demo_code n [] demo_rs))" for n
    by (rule resume_ready_or_terminated [OF demo_unmatched_pure, of demo_rs n "[]"]) (simp_all add: demo_rs_def)
  moreover have "fst (resume demo_code 2 [] demo_rs) = Resume_later" by code_simp
  moreover have "fst (resume demo_code 4 [] demo_rs) = Awaiting_message" by code_simp
  ultimately show ?thesis using post [of 2] post [of 4] by simp
qed

text \<open>The actor waits for the response to its first request: another request is deferred.\<close>

definition demo_request :: message_id where
  "demo_request = mid_inc invalid_message_id"

lemma awaiting_defers_others_witness:
  "handle_message demo_code 0 (demo_msg (C_user 0)) (response_id demo_request) demo_actor = (Inr Hm_cache, demo_actor)"
proof -
  have "mid_valid (response_id demo_request)" by code_simp
  moreover have "response_id demo_request \<noteq> invalid_message_id" by code_simp
  moreover have "\<not> is_response invalid_message_id" by code_simp
  ultimately show ?thesis
    using awaiting_defers_others [of "response_id demo_request" "demo_msg (C_user 0)" demo_code 0 demo_actor]
    by (simp add: demo_msg_def)
qed

lemma timeout_superseded_witness:
  "handle_message demo_code 0 (demo_msg (C_timeout 1)) invalid_message_id (request_timeout (Some 5) (request_timeout (Some 3) demo_actor))
     = (Inr Hm_drop, request_timeout (Some 5) (request_timeout (Some 3) demo_actor))"
proof (rule timeout_superseded)
  show "is_active_timeout 1 (request_timeout (Some 3) demo_actor)" by code_simp
qed (simp add: demo_msg_def)

text \<open>A request in the cache of a terminating actor is not answered, unlike one in its mailbox.\<close>

definition demo_req_msg :: "nat \<Rightarrow> nat content \<Rightarrow> nat element" where
  "demo_req_msg s c = \<lparr>el_sender = Some s, el_mid = demo_request, el_msg = c, el_marked = False\<rparr>"

lemma cached_request_not_bounced:
  "\<exists>rs. fst (resume demo_code 2 [] rs) = Done \<and> rs_mailbox rs = [demo_req_msg 7 (C_user 5), demo_msg (C_exit 2 4), demo_req_msg 8 (C_user 6)]
     \<and> ea_effects (rs_actor (snd (resume demo_code 2 [] rs))) = [Enqueue 8 None (response_id demo_request) (C_sync_exited 4)]"
proof (intro exI conjI)
  let ?rs = "demo_rs\<lparr>rs_mailbox := [demo_req_msg 7 (C_user 5), demo_msg (C_exit 2 4), demo_req_msg 8 (C_user 6)]\<rparr>"
  show "fst (resume demo_code 2 [] ?rs) = Done" by code_simp
  show "ea_effects (rs_actor (snd (resume demo_code 2 [] ?rs))) = [Enqueue 8 None (response_id demo_request) (C_sync_exited 4)]"
    by code_simp
qed (simp)

end
