(* ===== verification/Single_Reader_Queue.thy ===== *)
theory Single_Reader_Queue
  imports Prelude "HOL-Library.Monad_Syntax"
begin

text \<open>
  The mailbox (caf/detail/single_reader_queue.hpp): many writers push nodes on a shared stack
  with compare-and-exchange, one reader takes the whole stack and reverses it into its private
  list. Nodes are numbers with \<open>next\<close> pointers in a store. Each access to the shared \<open>m_stack\<close>
  is one step of the writers; a writer that lost the race continues with the value it saw.
\<close>

section \<open>Definitions\<close>

datatype ptr = Null | Stack_empty_dummy | Reader_blocked_dummy | Node nat

datatype enqueue_result = Success | Unblocked_reader | Queue_closed

text \<open>A violated \<open>CAF_REQUIRE\<close>.\<close>

datatype sq_error = Require_failed

record single_reader_queue =
  m_stack :: ptr
  m_head :: ptr
  nxt :: "nat \<Rightarrow> ptr"

definition is_dummy :: "ptr \<Rightarrow> bool" where
  "is_dummy p \<longleftrightarrow> p = Stack_empty_dummy \<or> p = Reader_blocked_dummy"

definition sq_new :: "(nat \<Rightarrow> ptr) \<Rightarrow> single_reader_queue" where
  "sq_new mem = \<lparr>m_stack = Stack_empty_dummy, m_head = Null, nxt = mem\<rparr>"

subsection \<open>Writers\<close>

text \<open>
  One pass of the loop of \<open>enqueue\<close> for the value \<open>e\<close> loaded before: the node is linked, the
  exchange tried; \<open>Inl\<close> is the value seen by a failed exchange.
\<close>

definition enqueue_pass :: "ptr \<Rightarrow> nat \<Rightarrow> single_reader_queue \<Rightarrow> (ptr + enqueue_result) \<times> single_reader_queue" where
  "enqueue_pass e new_element q =
     (if e = Null then (Inr Queue_closed, q)
      else let q1 = q\<lparr>nxt := (nxt q)(new_element := if is_dummy e then Null else e)\<rparr>
           in if m_stack q1 = e
              then (Inr (if e = Reader_blocked_dummy then Unblocked_reader else Success), q1\<lparr>m_stack := Node new_element\<rparr>)
              else (Inl (m_stack q1), q1))"

text \<open>\<open>enqueue\<close> without interference: the first exchange succeeds.\<close>

definition enqueue :: "nat \<Rightarrow> single_reader_queue \<Rightarrow> (ptr + enqueue_result) \<times> single_reader_queue" where
  "enqueue new_element q = enqueue_pass (m_stack q) new_element q"

subsection \<open>The reader\<close>

definition can_fetch_more :: "single_reader_queue \<Rightarrow> bool" where
  "can_fetch_more q \<longleftrightarrow> m_head q \<noteq> Null \<or> \<not> is_dummy (m_stack q)"

definition sq_empty :: "single_reader_queue \<Rightarrow> bool" where
  "sq_empty q \<longleftrightarrow> m_head q = Null \<and> is_dummy (m_stack q)"

definition closed :: "single_reader_queue \<Rightarrow> bool" where
  "closed q \<longleftrightarrow> m_stack q = Null"

definition blocked :: "single_reader_queue \<Rightarrow> bool" where
  "blocked q \<longleftrightarrow> m_stack q = Reader_blocked_dummy"

definition try_block :: "single_reader_queue \<Rightarrow> bool \<times> single_reader_queue" where
  "try_block q =
     (if m_stack q = Stack_empty_dummy then (True, q\<lparr>m_stack := Reader_blocked_dummy\<rparr>)
      else (m_stack q = Reader_blocked_dummy, q))"

definition try_unblock :: "single_reader_queue \<Rightarrow> bool \<times> single_reader_queue" where
  "try_unblock q =
     (if m_stack q = Reader_blocked_dummy then (True, q\<lparr>m_stack := Stack_empty_dummy\<rparr>) else (False, q))"

text \<open>The loop that moves the nodes from \<open>e\<close> one by one in front of \<open>m_head\<close>.\<close>

partial_function (option) move_nodes :: "(nat \<Rightarrow> ptr) \<Rightarrow> ptr \<Rightarrow> ptr \<Rightarrow> ((nat \<Rightarrow> ptr) \<times> ptr) option" where
  "move_nodes mem e hd_ptr = (case e of
      Node n \<Rightarrow> move_nodes (mem(n := hd_ptr)) (mem n) (Node n)
    | _ \<Rightarrow> Some (mem, hd_ptr))"

declare move_nodes.simps [code]

text \<open>\<open>fetch_new_data(end_ptr)\<close>; a weak exchange that fails is repeated with the new value, so
  the pass that counts sees the current stack.\<close>

definition fetch_new_data :: "ptr \<Rightarrow> single_reader_queue \<Rightarrow> (sq_error + bool \<times> single_reader_queue) option" where
  "fetch_new_data end_ptr q =
     (let e = m_stack q
      in if e = Null \<or> e = Reader_blocked_dummy then Some (Inl Require_failed)
         else if e = end_ptr then Some (Inr (False, q))
         else if is_dummy e then Some (Inr (False, q\<lparr>m_stack := end_ptr\<rparr>))
         else case move_nodes (nxt q) e (m_head q) of
             None \<Rightarrow> None
           | Some (mem, h) \<Rightarrow> Some (Inr (True, q\<lparr>m_stack := end_ptr, nxt := mem, m_head := h\<rparr>)))"

text \<open>\<open>take_head\<close>, which is \<open>try_pop\<close>.\<close>

definition take_head :: "single_reader_queue \<Rightarrow> (sq_error + nat option \<times> single_reader_queue) option" where
  "take_head q =
     (case (if m_head q \<noteq> Null then Some (Inr (True, q)) else fetch_new_data Stack_empty_dummy q) of
        None \<Rightarrow> None
      | Some (Inl e) \<Rightarrow> Some (Inl e)
      | Some (Inr (found, q1)) \<Rightarrow>
          (case m_head q1 of
             Node n \<Rightarrow> if found then Some (Inr (Some n, q1\<lparr>m_head := nxt q1 n\<rparr>)) else Some (Inr (None, q1))
           | _ \<Rightarrow> Some (Inr (None, q1))))"

text \<open>\<open>clear_cached_elements\<close>: the nodes that are deleted, in order.\<close>

partial_function (option) list_nodes :: "(nat \<Rightarrow> ptr) \<Rightarrow> ptr \<Rightarrow> nat list option" where
  "list_nodes mem p = (case p of
      Node n \<Rightarrow> do { ns \<leftarrow> list_nodes mem (mem n); Some (n # ns) }
    | _ \<Rightarrow> Some [])"

declare list_nodes.simps [code]

definition clear_cached_elements :: "single_reader_queue \<Rightarrow> (nat list \<times> single_reader_queue) option" where
  "clear_cached_elements q = map_option (\<lambda>ns. (ns, q\<lparr>m_head := Null\<rparr>)) (list_nodes (nxt q) (m_head q))"

text \<open>\<open>close\<close>: the nodes passed to the functor and deleted.\<close>

definition close :: "single_reader_queue \<Rightarrow> (sq_error + nat list \<times> single_reader_queue) option" where
  "close q = (case clear_cached_elements q of None \<Rightarrow> None | Some (ns, q1) \<Rightarrow>
     case fetch_new_data Null q1 of
       None \<Rightarrow> None
     | Some (Inl e) \<Rightarrow> Some (Inl e)
     | Some (Inr (found, q2)) \<Rightarrow>
         if found then (case clear_cached_elements q2 of None \<Rightarrow> None | Some (ns', q3) \<Rightarrow> Some (Inr (ns @ ns', q3)))
         else Some (Inr (ns, q2)))"

definition count :: "nat \<Rightarrow> single_reader_queue \<Rightarrow> (sq_error + nat \<times> single_reader_queue) option" where
  "count max_count q = (case fetch_new_data Stack_empty_dummy q of
      None \<Rightarrow> None
    | Some (Inl e) \<Rightarrow> Some (Inl e)
    | Some (Inr (found, q1)) \<Rightarrow>
        (case list_nodes (nxt q1) (m_head q1) of None \<Rightarrow> None | Some ns \<Rightarrow> Some (Inr (min max_count (length ns), q1))))"

section \<open>Lists in the store\<close>

fun path :: "(nat \<Rightarrow> ptr) \<Rightarrow> ptr \<Rightarrow> nat list \<Rightarrow> bool" where
  "path mem p [] \<longleftrightarrow> p = Null"
| "path mem p (n # ns) \<longleftrightarrow> p = Node n \<and> path mem (mem n) ns"

lemma path_cong: "(\<And>n. n \<in> set ns \<Longrightarrow> mem n = mem' n) \<Longrightarrow> path mem p ns = path mem' p ns"
  by (induction ns arbitrary: p) auto

lemma path_upd [simp]: "n \<notin> set ns \<Longrightarrow> path (mem(n := x)) p ns = path mem p ns"
  by (rule path_cong) auto

lemma path_Null [simp]: "path mem Null ns \<longleftrightarrow> ns = []"
  by (cases ns) auto

lemma path_dummy: "path mem p ns \<Longrightarrow> \<not> is_dummy p"
  by (cases ns) (auto simp: is_dummy_def)

lemma list_nodes_path: "path mem p ns \<Longrightarrow> list_nodes mem p = Some ns"
  by (induction ns arbitrary: p) (auto simp: list_nodes.simps)

lemma move_nodes_path:
  assumes "path mem e xs" "path mem h ys" "distinct (xs @ ys)"
  shows "\<exists>mem' h'. move_nodes mem e h = Some (mem', h') \<and> path mem' h' (rev xs @ ys)
    \<and> (\<forall>n. n \<notin> set xs \<longrightarrow> mem' n = mem n)"
  using assms
proof (induction xs arbitrary: mem e h ys)
  case Nil
  then show ?case by (simp add: move_nodes.simps)
next
  case (Cons n xs)
  let ?mem = "mem(n := h)"
  from Cons.prems have e: "e = Node n" and p: "path ?mem (mem n) xs" "path ?mem (Node n) (n # ys)" "distinct (xs @ n # ys)"
    by auto
  from Cons.IH [OF p] obtain mem' h' where "move_nodes ?mem (mem n) (Node n) = Some (mem', h')"
      "path mem' h' (rev xs @ n # ys)" "\<forall>k. k \<notin> set xs \<longrightarrow> mem' k = ?mem k" by blast
  then show ?case by (auto simp: e move_nodes.simps [of mem "Node n"])
qed

text \<open>The queue holds the nodes of the reader's list and behind them those of the stack, oldest
  first.\<close>

definition holds :: "single_reader_queue \<Rightarrow> nat list \<Rightarrow> nat list \<Rightarrow> bool" where
  "holds q cached stacked \<longleftrightarrow> path (nxt q) (m_head q) cached
     \<and> (if stacked = [] then m_stack q \<in> {Null, Stack_empty_dummy, Reader_blocked_dummy}
        else path (nxt q) (m_stack q) stacked)
     \<and> distinct (cached @ stacked)"

definition contents :: "nat list \<Rightarrow> nat list \<Rightarrow> nat list" where
  "contents cached stacked = cached @ rev stacked"

lemma fetch_new_data_holds:
  assumes "holds q cached stacked" "\<not> closed q" "\<not> blocked q" "end_ptr = Null \<or> end_ptr = Stack_empty_dummy"
  shows "\<exists>q'. fetch_new_data end_ptr q = Some (Inr (stacked \<noteq> [], q'))
    \<and> holds q' (rev stacked @ cached) [] \<and> m_stack q' = end_ptr"
proof (cases "stacked = []")
  case True
  with assms have "m_stack q = Stack_empty_dummy" by (auto simp: holds_def closed_def blocked_def)
  with assms True show ?thesis by (auto simp: fetch_new_data_def Let_def holds_def is_dummy_def)
next
  case False
  with assms(1) have p: "path (nxt q) (m_stack q) stacked" "path (nxt q) (m_head q) cached" "distinct (stacked @ cached)"
    by (auto simp: holds_def)
  from move_nodes_path [OF p] obtain mem h where
    m: "move_nodes (nxt q) (m_stack q) (m_head q) = Some (mem, h)" "path mem h (rev stacked @ cached)" by blast
  from False p(1) obtain n where "m_stack q = Node n" by (cases stacked) auto
  with m assms(4) False p(3) show ?thesis
    by (auto simp: fetch_new_data_def Let_def holds_def is_dummy_def)
qed

lemma take_head_holds:
  assumes "holds q cached stacked" "\<not> closed q" "\<not> blocked q"
  shows "\<exists>q' cached' stacked'. holds q' cached' stacked' \<and> m_stack q' \<in> {m_stack q, Stack_empty_dummy} \<and>
    (case contents cached stacked of
       [] \<Rightarrow> take_head q = Some (Inr (None, q')) \<and> contents cached' stacked' = []
     | n # ns \<Rightarrow> take_head q = Some (Inr (Some n, q')) \<and> contents cached' stacked' = ns)"
proof (cases cached)
  case (Cons n ns)
  with assms(1) have "m_head q = Node n" "holds (q\<lparr>m_head := nxt q n\<rparr>) ns stacked"
    by (auto simp: holds_def)
  with Cons show ?thesis
    by (intro exI [of _ "q\<lparr>m_head := nxt q n\<rparr>"] exI [of _ ns] exI [of _ stacked]) (simp add: take_head_def contents_def)
next
  case Nil
  from fetch_new_data_holds [OF assms, of Stack_empty_dummy] Nil obtain q1 where
    q1: "fetch_new_data Stack_empty_dummy q = Some (Inr (stacked \<noteq> [], q1))" "holds q1 (rev stacked) []"
      "m_stack q1 = Stack_empty_dummy" by auto
  have h: "m_head q = Null" using assms(1) Nil by (simp add: holds_def)
  show ?thesis
  proof (cases "rev stacked")
    case Nil': Nil
    with q1 h have "take_head q = Some (Inr (None, q1))"
      by (auto simp: take_head_def holds_def split: ptr.split)
    with q1 Nil Nil' show ?thesis
      by (intro exI [of _ q1] exI [of _ "[]"]) (auto simp: contents_def)
  next
    case (Cons n ns)
    with q1(2) have "m_head q1 = Node n" "holds (q1\<lparr>m_head := nxt q1 n\<rparr>) ns []" by (auto simp: holds_def)
    with q1 h Nil Cons show ?thesis
      by (intro exI [of _ "q1\<lparr>m_head := nxt q1 n\<rparr>"] exI [of _ ns] exI [of _ "[]"])
        (auto simp: take_head_def contents_def)
  qed
qed

lemma holds_write: "n \<notin> set (cached @ stacked) \<Longrightarrow> holds (q\<lparr>nxt := (nxt q)(n := x)\<rparr>) cached stacked = holds q cached stacked"
  by (simp add: holds_def)

lemma enqueue_pass_holds:
  assumes "holds q cached stacked" "n \<notin> set (cached @ stacked)" "enqueue_pass e n q = (r, q')"
  shows "case r of
      Inl e' \<Rightarrow> e' = m_stack q \<and> holds q' cached stacked \<and> m_stack q' = m_stack q
    | Inr res \<Rightarrow> if e = Null then res = Queue_closed \<and> q' = q
        else holds q' cached (n # stacked) \<and> m_stack q = e \<and> m_stack q' = Node n
          \<and> res = (if blocked q then Unblocked_reader else Success)"
proof -
  let ?q1 = "q\<lparr>nxt := (nxt q)(n := if is_dummy e then Null else e)\<rparr>"
  have q1: "holds ?q1 cached stacked" using assms(1,2) by (simp add: holds_write)
  consider "e = Null" | "e \<noteq> Null" "m_stack q \<noteq> e" | "e \<noteq> Null" "m_stack q = e" by blast
  then show ?thesis
  proof cases
    case 1
    with assms(3) show ?thesis by (auto simp: enqueue_pass_def)
  next
    case 2
    then have "r = Inl (m_stack q)" "q' = ?q1" using assms(3) by (simp_all add: enqueue_pass_def Let_def)
    with q1 show ?thesis by simp
  next
    case 3
    then have "path (nxt ?q1) (if is_dummy e then Null else e) stacked"
      using q1 path_dummy [of "nxt ?q1" e stacked] by (auto simp: holds_def is_dummy_def split: if_splits)
    with 3 assms q1 show ?thesis
      by (auto simp: enqueue_pass_def Let_def holds_def blocked_def)
  qed
qed

lemma close_holds:
  assumes "holds q cached stacked" "\<not> closed q" "\<not> blocked q"
  shows "\<exists>q'. close q = Some (Inr (contents cached stacked, q')) \<and> holds q' [] [] \<and> closed q'"
proof -
  let ?q1 = "q\<lparr>m_head := Null\<rparr>"
  have c: "clear_cached_elements q = Some (cached, ?q1)"
    using assms(1) by (simp add: clear_cached_elements_def holds_def list_nodes_path)
  have "holds ?q1 [] stacked" "\<not> closed ?q1" "\<not> blocked ?q1"
    using assms by (auto simp: holds_def closed_def blocked_def)
  from fetch_new_data_holds [OF this, of Null] obtain q2 where
    q2: "fetch_new_data Null ?q1 = Some (Inr (stacked \<noteq> [], q2))" "holds q2 (rev stacked) []" "m_stack q2 = Null" by auto
  have "clear_cached_elements q2 = Some (rev stacked, q2\<lparr>m_head := Null\<rparr>)"
    using q2(2) by (simp add: clear_cached_elements_def holds_def list_nodes_path)
  with c q2 show ?thesis
    by (cases "stacked = []") (auto simp: close_def contents_def holds_def closed_def)
qed

section \<open>Writers and reader interleaved\<close>

record sqsys =
  queue :: single_reader_queue
  writers :: "nat \<Rightarrow> (ptr \<times> nat) option"    \<comment> \<open>the value a writer loaded and its new node\<close>
  enqueued :: "nat list"    \<comment> \<open>in the order of the successful exchanges\<close>
  dequeued :: "nat list"    \<comment> \<open>taken by the reader, or deleted when it closed the queue\<close>
  blocks :: nat             \<comment> \<open>how often the reader blocked\<close>
  wakeups :: nat            \<comment> \<open>how often it was unblocked\<close>

definition in_queue :: "single_reader_queue \<Rightarrow> nat \<Rightarrow> bool" where
  "in_queue q n \<longleftrightarrow> (\<exists>cached stacked. holds q cached stacked \<and> n \<in> set (cached @ stacked))"

inductive sq_step :: "sqsys \<Rightarrow> sqsys \<Rightarrow> bool" where
  load: "writers s i = None \<Longrightarrow> \<not> in_queue (queue s) n \<Longrightarrow> (\<And>j e. writers s j \<noteq> Some (e, n)) \<Longrightarrow>
    sq_step s (s\<lparr>writers := (writers s)(i \<mapsto> (m_stack (queue s), n))\<rparr>)"
| retry: "writers s i = Some (e, n) \<Longrightarrow> enqueue_pass e n (queue s) = (Inl e', q') \<Longrightarrow>
    sq_step s (s\<lparr>queue := q', writers := (writers s)(i \<mapsto> (e', n))\<rparr>)"
| rejected: "writers s i = Some (e, n) \<Longrightarrow> enqueue_pass e n (queue s) = (Inr Queue_closed, q') \<Longrightarrow>
    sq_step s (s\<lparr>queue := q', writers := (writers s)(i := None)\<rparr>)"
| pushed: "writers s i = Some (e, n) \<Longrightarrow> enqueue_pass e n (queue s) = (Inr res, q') \<Longrightarrow> res \<noteq> Queue_closed \<Longrightarrow>
    sq_step s (s\<lparr>queue := q', writers := (writers s)(i := None), enqueued := enqueued s @ [n],
      wakeups := wakeups s + (if res = Unblocked_reader then 1 else 0)\<rparr>)"
| pop: "\<not> closed (queue s) \<Longrightarrow> \<not> blocked (queue s) \<Longrightarrow> take_head (queue s) = Some (Inr (r, q')) \<Longrightarrow>
    sq_step s (s\<lparr>queue := q', dequeued := dequeued s @ (case r of None \<Rightarrow> [] | Some n \<Rightarrow> [n])\<rparr>)"
| block: "\<not> can_fetch_more (queue s) \<Longrightarrow> \<not> closed (queue s) \<Longrightarrow> \<not> blocked (queue s) \<Longrightarrow> try_block (queue s) = (True, q') \<Longrightarrow>
    sq_step s (s\<lparr>queue := q', blocks := Suc (blocks s)\<rparr>)"
| unblock: "try_unblock (queue s) = (True, q') \<Longrightarrow> sq_step s (s\<lparr>queue := q', wakeups := Suc (wakeups s)\<rparr>)"
| closes: "\<not> closed (queue s) \<Longrightarrow> \<not> blocked (queue s) \<Longrightarrow> close (queue s) = Some (Inr (ns, q')) \<Longrightarrow>
    sq_step s (s\<lparr>queue := q', dequeued := dequeued s @ ns\<rparr>)"

definition sq_init :: "sqsys \<Rightarrow> bool" where
  "sq_init s \<longleftrightarrow> (\<exists>mem. queue s = sq_new mem) \<and> (\<forall>i. writers s i = None) \<and> enqueued s = [] \<and> dequeued s = []
     \<and> blocks s = 0 \<and> wakeups s = 0"

inductive sq_reach :: "sqsys \<Rightarrow> bool" where
  init: "sq_init s \<Longrightarrow> sq_reach s"
| step: "sq_reach s \<Longrightarrow> sq_step s s' \<Longrightarrow> sq_reach s'"

text \<open>The state of the queue, and what writers hold privately.\<close>

definition writers_ok :: "(nat \<Rightarrow> (ptr \<times> nat) option) \<Rightarrow> nat list \<Rightarrow> bool" where
  "writers_ok ws ns \<longleftrightarrow> (\<forall>i e n. ws i = Some (e, n) \<longrightarrow> n \<notin> set ns \<and> (\<forall>j e'. ws j = Some (e', n) \<longrightarrow> j = i))"

definition sq_inv :: "sqsys \<Rightarrow> nat list \<Rightarrow> nat list \<Rightarrow> bool" where
  "sq_inv s cached stacked \<longleftrightarrow> holds (queue s) cached stacked
     \<and> enqueued s = dequeued s @ contents cached stacked
     \<and> writers_ok (writers s) (contents cached stacked)
     \<and> (blocked (queue s) \<longrightarrow> cached = [] \<and> stacked = [])
     \<and> blocks s = wakeups s + (if blocked (queue s) then 1 else 0)"

lemma path_unique: "path mem p xs \<Longrightarrow> path mem p ys \<Longrightarrow> xs = ys"
proof (induction xs arbitrary: p ys)
  case (Cons n xs)
  then show ?case by (cases ys) auto
qed (auto)

lemma holds_unique:
  assumes "holds q c1 s1" "holds q c2 s2"
  shows "c1 = c2 \<and> s1 = s2"
proof -
  have "c1 = c2" using assms path_unique by (auto simp: holds_def)
  moreover have "s1 = s2"
    using assms path_unique [of "nxt q" "m_stack q" s1 s2] path_dummy [of "nxt q" "m_stack q"]
    by (auto simp: holds_def is_dummy_def split: if_splits)
  ultimately show ?thesis by simp
qed

lemma in_queue_iff: "holds q cached stacked \<Longrightarrow> in_queue q n \<longleftrightarrow> n \<in> set (cached @ stacked)"
  unfolding in_queue_def using holds_unique by blast

lemma writers_ok_upd:
  "writers_ok ws ns \<Longrightarrow> set ns' \<subseteq> set ns \<Longrightarrow> writers_ok (ws(i := None)) ns'"
  "writers_ok ws ns \<Longrightarrow> ws i = Some (e, n) \<Longrightarrow> writers_ok (ws(i \<mapsto> (e', n))) ns"
  "writers_ok ws ns \<Longrightarrow> ws i = Some (e, n) \<Longrightarrow> writers_ok (ws(i := None)) (ns @ [n])"
  "writers_ok ws ns \<Longrightarrow> n \<notin> set ns \<Longrightarrow> (\<And>j e. ws j \<noteq> Some (e, n)) \<Longrightarrow> writers_ok (ws(i \<mapsto> (e', n))) ns"
  "writers_ok ws ns \<Longrightarrow> set ns' \<subseteq> set ns \<Longrightarrow> writers_ok ws ns'"
  by (auto simp: writers_ok_def)

lemma sq_step_inv:
  assumes "sq_step s s'" "sq_inv s cached stacked"
  shows "\<exists>cached' stacked'. sq_inv s' cached' stacked'"
  using assms
proof (induction rule: sq_step.induct)
  case (load s i n)
  then have "n \<notin> set (contents cached stacked)"
    using in_queue_iff [of "queue s" cached stacked n] by (simp add: sq_inv_def contents_def)
  with load show ?case
    by (intro exI [of _ cached] exI [of _ stacked]) (auto simp: sq_inv_def intro: writers_ok_upd(4))
next
  case (retry s i e n e' q')
  then have n: "n \<notin> set (cached @ stacked)" by (auto simp: sq_inv_def writers_ok_def contents_def)
  have h: "holds (queue s) cached stacked" using retry by (simp add: sq_inv_def)
  from enqueue_pass_holds [OF h n retry(2)] have "holds q' cached stacked" "blocked q' = blocked (queue s)"
    by (simp_all add: blocked_def)
  with retry show ?case
    by (intro exI [of _ cached] exI [of _ stacked]) (auto simp: sq_inv_def intro: writers_ok_upd(2))
next
  case (rejected s i e n q')
  then have n: "n \<notin> set (cached @ stacked)" by (auto simp: sq_inv_def writers_ok_def contents_def)
  have h: "holds (queue s) cached stacked" using rejected by (simp add: sq_inv_def)
  from enqueue_pass_holds [OF h n rejected(2)] have "q' = queue s" by (auto split: if_splits)
  with rejected show ?case
    by (intro exI [of _ cached] exI [of _ stacked]) (auto simp: sq_inv_def intro: writers_ok_upd(1))
next
  case (pushed s i e n res q')
  then have n: "n \<notin> set (cached @ stacked)" by (auto simp: sq_inv_def writers_ok_def contents_def)
  have h: "holds (queue s) cached stacked" using pushed by (simp add: sq_inv_def)
  from enqueue_pass_holds [OF h n pushed(2)] pushed(3)
  have q': "holds q' cached (n # stacked)" "\<not> blocked q'" "res = (if blocked (queue s) then Unblocked_reader else Success)"
    by (auto simp: blocked_def split: if_splits)
  moreover have "contents cached (n # stacked) = contents cached stacked @ [n]" by (simp add: contents_def)
  ultimately show ?case
    using pushed by (intro exI [of _ cached] exI [of _ "n # stacked"]) (auto simp: sq_inv_def intro: writers_ok_upd(3))
next
  case (pop s r q')
  have h: "holds (queue s) cached stacked" using pop by (simp add: sq_inv_def)
  from take_head_holds [OF h pop(1,2)] pop(3) obtain c st where
    q': "holds q' c st" "m_stack q' \<in> {m_stack (queue s), Stack_empty_dummy}"
      "contents cached stacked = (case r of None \<Rightarrow> [] | Some n \<Rightarrow> [n]) @ contents c st"
    by (cases "contents cached stacked") auto
  moreover have "\<not> blocked q'" using q'(2) pop(2) by (auto simp: blocked_def)
  ultimately show ?case
    using pop(2,4) by (intro exI [of _ c] exI [of _ st]) (auto simp: sq_inv_def intro: writers_ok_upd(5))
next
  case (block s q')
  then have "m_stack (queue s) = Stack_empty_dummy" "m_head (queue s) = Null" "q' = (queue s)\<lparr>m_stack := Reader_blocked_dummy\<rparr>"
    by (auto simp: can_fetch_more_def is_dummy_def blocked_def try_block_def)
  moreover from this block(5) have "cached = []" "stacked = []"
    using path_dummy [of _ Stack_empty_dummy] by (auto simp: sq_inv_def holds_def is_dummy_def split: if_splits)
  ultimately show ?case
    using block(5) by (intro exI [of _ "[]"]) (auto simp: sq_inv_def holds_def blocked_def)
next
  case (unblock s q')
  then have "m_stack (queue s) = Reader_blocked_dummy" "q' = (queue s)\<lparr>m_stack := Stack_empty_dummy\<rparr>"
    by (auto simp: try_unblock_def split: if_splits)
  with unblock(2) show ?case
    by (intro exI [of _ "[]"]) (auto simp: sq_inv_def holds_def blocked_def)
next
  case (closes s ns q')
  have h: "holds (queue s) cached stacked" using closes by (simp add: sq_inv_def)
  from close_holds [OF h closes(1,2)] closes(3) have "ns = contents cached stacked" "holds q' [] []" "closed q'" by auto
  with closes show ?case
    by (intro exI [of _ "[]"]) (auto simp: sq_inv_def contents_def blocked_def closed_def intro: writers_ok_upd(5))
qed

lemma sq_reach_inv: "sq_reach s \<Longrightarrow> \<exists>cached stacked. sq_inv s cached stacked"
proof (induction rule: sq_reach.induct)
  case (init s)
  then show ?case
    by (intro exI [of _ "[]"]) (auto simp: sq_init_def sq_inv_def sq_new_def holds_def writers_ok_def contents_def blocked_def)
qed (blast intro: sq_step_inv)

section \<open>The interface of a mailbox\<close>

text \<open>What the owner of a mailbox relies on while it is open and not waiting: a first-in
  first-out queue.\<close>

locale fifo_mailbox =
  fixes valid :: "'q \<Rightarrow> bool"
    and content :: "'q \<Rightarrow> 'n list"
    and push :: "'n \<Rightarrow> 'q \<Rightarrow> 'q"
    and pop :: "'q \<Rightarrow> 'n option \<times> 'q"
  assumes push_valid: "valid q \<Longrightarrow> n \<notin> set (content q) \<Longrightarrow> valid (push n q)"
    and push_content: "valid q \<Longrightarrow> n \<notin> set (content q) \<Longrightarrow> content (push n q) = content q @ [n]"
    and pop_valid: "valid q \<Longrightarrow> valid (snd (pop q))"
    and pop_first: "valid q \<Longrightarrow> content q = n # ns \<Longrightarrow> fst (pop q) = Some n \<and> content (snd (pop q)) = ns"
    and pop_empty: "valid q \<Longrightarrow> content q = [] \<Longrightarrow> fst (pop q) = None \<and> content (snd (pop q)) = []"
begin

lemma push_all:
  "valid q \<Longrightarrow> distinct (content q @ ns) \<Longrightarrow> valid (fold push ns q) \<and> content (fold push ns q) = content q @ ns"
proof (induction ns arbitrary: q)
  case (Cons n ns)
  then have n: "n \<notin> set (content q)" by auto
  from Cons.IH [of "push n q"] Cons.prems push_valid [OF _ n] push_content [OF _ n] show ?case by simp
qed simp

lemma pop_all:
  "valid q \<Longrightarrow> content q = ns @ ms \<Longrightarrow>
    map (\<lambda>i. fst (pop (((\<lambda>q. snd (pop q)) ^^ i) q))) [0..<length ns] = map Some ns"
proof (induction ns arbitrary: q)
  case (Cons n ns)
  then have p: "valid (snd (pop q))" "content (snd (pop q)) = ns @ ms" "fst (pop q) = Some n"
    using pop_valid pop_first [of q n "ns @ ms"] by auto
  show ?case
    using Cons.IH [OF p(1,2)] p(3)
    by (simp add: upt_conv_Cons map_Suc_upt [symmetric] comp_def funpow_Suc_right del: upt_Suc map_Suc_upt funpow.simps(2))
qed simp

text \<open>What is pushed into an empty mailbox comes out in the same order.\<close>

lemma pushed_pops_in_order:
  assumes "valid q" "content q = []" "distinct ns"
  shows "map (\<lambda>i. fst (pop (((\<lambda>q. snd (pop q)) ^^ i) (fold push ns q)))) [0..<length ns] = map Some ns"
  using push_all [of q ns] assms pop_all [of "fold push ns q" ns "[]"] by simp

end

text \<open>The queue as such a mailbox.\<close>

definition cached_nodes :: "single_reader_queue \<Rightarrow> nat list" where
  "cached_nodes q = (case list_nodes (nxt q) (m_head q) of Some ns \<Rightarrow> ns | None \<Rightarrow> [])"

definition stacked_nodes :: "single_reader_queue \<Rightarrow> nat list" where
  "stacked_nodes q = (if is_dummy (m_stack q) then [] else
     case list_nodes (nxt q) (m_stack q) of Some ns \<Rightarrow> ns | None \<Rightarrow> [])"

definition open_queue :: "single_reader_queue \<Rightarrow> bool" where
  "open_queue q \<longleftrightarrow> holds q (cached_nodes q) (stacked_nodes q) \<and> \<not> closed q \<and> \<not> blocked q"

definition queue_content :: "single_reader_queue \<Rightarrow> nat list" where
  "queue_content q = contents (cached_nodes q) (stacked_nodes q)"

definition push_node :: "nat \<Rightarrow> single_reader_queue \<Rightarrow> single_reader_queue" where
  "push_node n q = snd (enqueue n q)"

definition try_pop :: "single_reader_queue \<Rightarrow> nat option \<times> single_reader_queue" where
  "try_pop q = (case take_head q of Some (Inr r) \<Rightarrow> r | _ \<Rightarrow> (None, q))"

lemma holds_nodes: "holds q cached stacked \<Longrightarrow> cached_nodes q = cached \<and> stacked_nodes q = stacked"
  by (cases "stacked = []")
    (auto simp: holds_def cached_nodes_def stacked_nodes_def list_nodes_path is_dummy_def
      list_nodes.simps [of _ Null] dest: path_dummy)

lemma open_queueI: "holds q cached stacked \<Longrightarrow> \<not> closed q \<Longrightarrow> \<not> blocked q \<Longrightarrow> open_queue q \<and> queue_content q = contents cached stacked"
  by (simp add: open_queue_def queue_content_def holds_nodes)

lemma push_node_open:
  assumes "open_queue q" "n \<notin> set (queue_content q)"
  shows "open_queue (push_node n q) \<and> queue_content (push_node n q) = queue_content q @ [n]"
proof -
  obtain r q' where r: "enqueue_pass (m_stack q) n q = (r, q')" by (cases "enqueue_pass (m_stack q) n q")
  have h: "holds q (cached_nodes q) (stacked_nodes q)" and n: "n \<notin> set (cached_nodes q @ stacked_nodes q)"
    using assms by (auto simp: open_queue_def queue_content_def contents_def)
  have "m_stack q \<noteq> Null" using assms(1) by (simp add: open_queue_def closed_def)
  with r have "\<not> isl r" by (auto simp: enqueue_pass_def Let_def)
  with enqueue_pass_holds [OF h n r] \<open>m_stack q \<noteq> Null\<close>
  have "holds q' (cached_nodes q) (n # stacked_nodes q)" "m_stack q' = Node n" by (auto split: sum.splits)
  with open_queueI [of q' "cached_nodes q" "n # stacked_nodes q"] show ?thesis
    by (simp add: push_node_def enqueue_def r closed_def blocked_def queue_content_def contents_def)
qed

lemma try_pop_open:
  assumes "open_queue q"
  shows "open_queue (snd (try_pop q)) \<and> (case queue_content q of
      [] \<Rightarrow> fst (try_pop q) = None \<and> queue_content (snd (try_pop q)) = []
    | n # ns \<Rightarrow> fst (try_pop q) = Some n \<and> queue_content (snd (try_pop q)) = ns)"
proof -
  have h: "holds q (cached_nodes q) (stacked_nodes q)" "\<not> closed q" "\<not> blocked q"
    using assms by (simp_all add: open_queue_def)
  from take_head_holds [OF h] obtain q' c st where q': "holds q' c st" "m_stack q' \<in> {m_stack q, Stack_empty_dummy}"
      "case queue_content q of [] \<Rightarrow> take_head q = Some (Inr (None, q')) \<and> contents c st = []
        | n # ns \<Rightarrow> take_head q = Some (Inr (Some n, q')) \<and> contents c st = ns"
    by (auto simp: queue_content_def)
  have "\<not> closed q'" "\<not> blocked q'" using q'(2) h(2,3) by (auto simp: closed_def blocked_def)
  with open_queueI [OF q'(1)] q'(3) show ?thesis
    by (cases "queue_content q") (simp_all add: try_pop_def)
qed

interpretation sq: fifo_mailbox open_queue queue_content push_node try_pop
proof
  fix q n ns
  assume "open_queue q" "queue_content q = n # ns"
  with try_pop_open [of q] show "fst (try_pop q) = Some n \<and> queue_content (snd (try_pop q)) = ns" by simp
next
  fix q
  assume "open_queue q" "queue_content q = []"
  with try_pop_open [of q] show "fst (try_pop q) = None \<and> queue_content (snd (try_pop q)) = []" by simp
qed (simp_all add: push_node_open try_pop_open)

section \<open>Properties\<close>

text \<open>
  C2. The mailbox is first-in first-out under every interleaving of writers and reader: in
  every reachable state the nodes the reader has taken so far are a prefix of the nodes the
  writers have pushed, in the order of their successful exchanges; nothing is lost or taken
  twice, and unless the queue is closed or blocked the reader gets the next one, or nothing
  exactly if it has taken all.
\<close>

theorem mailbox_fifo:
  assumes "sq_reach s"
  shows "\<exists>rest. enqueued s = dequeued s @ rest
    \<and> (\<not> closed (queue s) \<and> \<not> blocked (queue s) \<longrightarrow>
        (\<exists>q'. take_head (queue s) = Some (Inr (case rest of [] \<Rightarrow> None | n # _ \<Rightarrow> Some n, q'))))"
proof -
  obtain cached stacked where inv: "sq_inv s cached stacked" using sq_reach_inv [OF assms] by blast
  then have "holds (queue s) cached stacked" "enqueued s = dequeued s @ contents cached stacked"
    by (simp_all add: sq_inv_def)
  moreover from this(1) have "\<exists>q'. take_head (queue s) = Some (Inr (case contents cached stacked of
      [] \<Rightarrow> None | n # _ \<Rightarrow> Some n, q'))" if "\<not> closed (queue s)" "\<not> blocked (queue s)"
    using take_head_holds [OF _ that] by (fastforce split: list.splits)
  ultimately show ?thesis by blast
qed

definition sq_example :: sqsys where
  "sq_example = \<lparr>queue = sq_new (\<lambda>n. Null), writers = (\<lambda>i. None), enqueued = [], dequeued = [], blocks = 0, wakeups = 0\<rparr>"

lemma sq_example_reach: "sq_reach sq_example"
  by (rule sq_reach.init) (auto simp: sq_init_def sq_example_def)

definition sq_blocked :: sqsys where
  "sq_blocked = sq_example\<lparr>queue := (queue sq_example)\<lparr>m_stack := Reader_blocked_dummy\<rparr>, blocks := 1\<rparr>"

lemma sq_blocked_reach: "sq_reach sq_blocked"
  unfolding sq_blocked_def
  using sq_reach.step [OF sq_example_reach sq_step.block [of sq_example "(queue sq_example)\<lparr>m_stack := Reader_blocked_dummy\<rparr>"]]
  by (simp add: sq_example_def sq_new_def can_fetch_more_def is_dummy_def closed_def blocked_def try_block_def)

definition sq_pushed :: sqsys where
  "sq_pushed = \<lparr>queue = \<lparr>m_stack = Node 7, m_head = Null, nxt = (\<lambda>n. Null)(7 := Null)\<rparr>,
     writers = (\<lambda>i. None), enqueued = [7], dequeued = [], blocks = 0, wakeups = 0\<rparr>"

lemma sq_pushed_reach: "sq_reach sq_pushed"
proof -
  let ?s = "sq_example\<lparr>writers := (writers sq_example)(0 \<mapsto> (m_stack (queue sq_example), 7))\<rparr>"
  have "\<not> in_queue (queue sq_example) 7"
    using in_queue_iff [of "queue sq_example" "[]" "[]"] by (simp add: sq_example_def sq_new_def holds_def)
  then have "sq_step sq_example ?s" by (intro sq_step.load) (simp_all add: sq_example_def)
  note r = sq_reach.step [OF sq_example_reach this]
  have "enqueue_pass Stack_empty_dummy 7 (queue ?s) = (Inr Success, queue sq_pushed)"
    by (simp add: enqueue_pass_def sq_example_def sq_new_def sq_pushed_def is_dummy_def)
  from sq_step.pushed [of ?s 0, OF _ this] have "sq_step ?s sq_pushed"
    by (simp add: sq_example_def sq_new_def sq_pushed_def)
  with r show ?thesis by (rule sq_reach.step)
qed

theorem mailbox_fifo_witness: "\<exists>q'. take_head (queue sq_pushed) = Some (Inr (Some 7, q'))"
  using mailbox_fifo [OF sq_pushed_reach] by (simp add: sq_pushed_def closed_def blocked_def)

text \<open>
  Each time the reader blocks it is woken up exactly once, by the writer whose enqueue
  reports \<open>unblocked_reader\<close> or by its own \<open>try_unblock\<close>; it can only be blocked when it has
  taken every node, so no message waits in the mailbox of a blocked actor.
\<close>

theorem mailbox_wakeup_once:
  assumes "sq_reach s"
  shows "blocks s = wakeups s + (if blocked (queue s) then 1 else 0)
    \<and> (blocked (queue s) \<longrightarrow> dequeued s = enqueued s)"
proof -
  obtain cached stacked where "sq_inv s cached stacked" using sq_reach_inv [OF assms] by blast
  then show ?thesis by (auto simp: sq_inv_def contents_def)
qed

theorem mailbox_wakeup_once_witness:
  "blocked (queue sq_blocked) \<and> blocks sq_blocked = wakeups sq_blocked + 1 \<and> dequeued sq_blocked = enqueued sq_blocked"
  using mailbox_wakeup_once [OF sq_blocked_reach] by (simp add: sq_blocked_def blocked_def)

text \<open>
  \<open>count\<close> moves the stack in front of the nodes the reader already holds: the number it
  returns is right, but it keeps the first-in first-out order only if one of the two lists
  is empty; otherwise newer messages overtake older ones.
\<close>

theorem count_reorders:
  assumes "holds q cached stacked" "\<not> closed q" "\<not> blocked q"
  shows "\<exists>q'. count max_count q = Some (Inr (min max_count (length (cached @ stacked)), q'))
    \<and> holds q' (rev stacked @ cached) []
    \<and> (rev stacked @ cached = contents cached stacked \<longleftrightarrow> cached = [] \<or> stacked = [])"
proof -
  from fetch_new_data_holds [OF assms, of Stack_empty_dummy] obtain q' where
    q': "fetch_new_data Stack_empty_dummy q = Some (Inr (stacked \<noteq> [], q'))" "holds q' (rev stacked @ cached) []" by auto
  have "list_nodes (nxt q') (m_head q') = Some (rev stacked @ cached)"
    using q'(2) by (simp add: holds_def list_nodes_path)
  moreover have "cached = [] \<or> stacked = []" if "rev stacked @ cached = cached @ rev stacked"
  proof (rule ccontr)
    assume "\<not> ?thesis"
    then have "hd (rev stacked @ cached) \<in> set stacked" "hd (cached @ rev stacked) \<in> set cached"
      using hd_in_set [of "rev stacked"] by (simp_all add: hd_append del: hd_in_set) (metis hd_in_set)
    with that assms(1) show False by (auto simp: holds_def)
  qed
  ultimately show ?thesis
    using q' by (intro exI [of _ q']) (auto simp: count_def contents_def add.commute)
qed

theorem count_reorders_witness:
  "\<exists>q'. count 10 \<lparr>m_stack = Node 2, m_head = Node 1, nxt = (\<lambda>n. Null)\<rparr> = Some (Inr (2, q')) \<and> holds q' [2, 1] []"
  using count_reorders [of "\<lparr>m_stack = Node 2, m_head = Node 1, nxt = (\<lambda>n. Null)\<rparr>" "[1]" "[2]" 10]
  by (auto simp: holds_def closed_def blocked_def numeral_2_eq_2)

end
