(* ===== verification/String_Serialization.thy ===== *)
theory String_Serialization
  imports Cxx_Text Atom_Val
begin

text \<open>
  The textual serialization of libcaf_core/src/string_serialization.cpp: \<open>string_serializer\<close>
  writes objects as \<open>type ( value, ... )\<close>, \<open>string_deserializer\<close> reads them back. The
  deserializer's position is the rest of its string; reading at its end gives the
  terminating NUL. Floating point values are left out.
\<close>

unbundle bit_operations_syntax

section \<open>Definitions\<close>

subsection \<open>Values\<close>

datatype int_type = Ty_i8 | Ty_i16 | Ty_i32 | Ty_i64 | Ty_u8 | Ty_u16 | Ty_u32 | Ty_u64

text \<open>\<open>primitive_variant\<close>, and which of its types a read asks for.\<close>

datatype primitive =
    P_int int_type int
  | P_string string
  | P_u16string
  | P_u32string
  | P_atom u64

datatype ptype = T_int int_type | T_string | T_u16string | T_u32string | T_atom


definition int_min :: "int_type \<Rightarrow> int" where
  "int_min t = (case t of Ty_i8 \<Rightarrow> - (2 ^ 7) | Ty_i16 \<Rightarrow> - (2 ^ 15) | Ty_i32 \<Rightarrow> - (2 ^ 31) | Ty_i64 \<Rightarrow> - (2 ^ 63) | _ \<Rightarrow> 0)"

definition int_max :: "int_type \<Rightarrow> int" where
  "int_max t = (case t of Ty_i8 \<Rightarrow> 2 ^ 7 - 1 | Ty_i16 \<Rightarrow> 2 ^ 15 - 1 | Ty_i32 \<Rightarrow> 2 ^ 31 - 1 | Ty_i64 \<Rightarrow> 2 ^ 63 - 1
     | Ty_u8 \<Rightarrow> 2 ^ 8 - 1 | Ty_u16 \<Rightarrow> 2 ^ 16 - 1 | Ty_u32 \<Rightarrow> 2 ^ 32 - 1 | Ty_u64 \<Rightarrow> 2 ^ 64 - 1)"

datatype ser_error =
    No_open_object       \<comment> \<open>\<open>write_value(): m_open_objects.empty()\<close>\<close>
  | Malformed string     \<comment> \<open>\<open>throw_malformed\<close>\<close>
  | Unknown_type string  \<comment> \<open>\<open>read type name ... but no such type is known\<close>\<close>
  | No_object_to_end
  | Unterminated
  | Unsupported          \<comment> \<open>UTF-16 and UTF-32 strings\<close>

definition isbuiltin :: "string \<Rightarrow> bool" where
  "isbuiltin type_name \<longleftrightarrow> type_name = ''@str'' \<or> type_name = ''@atom'' \<or> type_name = ''@tuple''"

subsection \<open>The serializer\<close>

record string_serializer =
  out :: string
  m_after_value :: bool
  m_obj_just_opened :: bool
  m_open_objects :: "string list"

definition string_serializer_new :: string_serializer where
  "string_serializer_new = \<lparr>out = [], m_after_value = False, m_obj_just_opened = False, m_open_objects = []\<rparr>"

definition put :: "string \<Rightarrow> string_serializer \<Rightarrow> string_serializer" where
  "put s ss = ss\<lparr>out := out ss @ s\<rparr>"

definition dquote :: char where "dquote = CHR 0x22"
definition squote :: char where "squote = CHR 0x27"
definition backslash :: char where "backslash = CHR 0x5C"

definition pt_writer :: "bool \<Rightarrow> primitive \<Rightarrow> string" where
  "pt_writer suppress_quotes value = (case value of
      P_int _ i \<Rightarrow> int_text i
    | P_string str \<Rightarrow>
        (if suppress_quotes then [] else [dquote])
        @ concat (map (\<lambda>c. if c = dquote then [backslash, dquote] else [c]) str)
        @ (if suppress_quotes then [] else [dquote])
    | P_u16string \<Rightarrow> []
    | P_u32string \<Rightarrow> []
    | P_atom a \<Rightarrow> [squote] @ atom_to_string a @ [squote])"

definition ss_clear :: "string_serializer \<Rightarrow> string_serializer" where
  "ss_clear ss =
     (if m_after_value ss then (put '', '' ss)\<lparr>m_after_value := False\<rparr>
      else if m_obj_just_opened ss
      then (if m_open_objects ss \<noteq> [] \<and> \<not> isbuiltin (hd (m_open_objects ss)) then put '' ( '' ss else ss)
             \<lparr>m_obj_just_opened := False\<rparr>
      else ss)"

definition ss_begin_object :: "string \<Rightarrow> string_serializer \<Rightarrow> string_serializer" where
  "ss_begin_object tname ss =
     (let ss1 = ss_clear ss; ss2 = ss1\<lparr>m_open_objects := tname # m_open_objects ss1\<rparr>
      in if \<not> isbuiltin tname \<and> tname \<noteq> ''@message'' then (put tname ss2)\<lparr>m_obj_just_opened := True\<rparr>
         else if take 3 tname = ''@<>'' then ss2\<lparr>m_obj_just_opened := True\<rparr>
         else ss2)"

definition ss_end_object :: "string_serializer \<Rightarrow> string_serializer" where
  "ss_end_object ss =
     (let ss1 = ss\<lparr>m_obj_just_opened := False, m_after_value := True\<rparr>
      in case m_open_objects ss1 of
           [] \<Rightarrow> ss1
         | open_obj # rest \<Rightarrow>
             (if \<not> isbuiltin open_obj \<and> open_obj \<noteq> ''@message''
              then put (if m_after_value ss1 then '' )'' else '')'') ss1 else ss1)\<lparr>m_open_objects := rest\<rparr>)"

definition ss_begin_sequence :: "string_serializer \<Rightarrow> string_serializer" where
  "ss_begin_sequence ss = put ''{ '' (ss_clear ss)"

definition ss_end_sequence :: "string_serializer \<Rightarrow> string_serializer" where
  "ss_end_sequence ss = (put (if m_after_value ss then '' }'' else ''}'') ss)\<lparr>m_after_value := True\<rparr>"

definition ss_write_value :: "primitive \<Rightarrow> string_serializer \<Rightarrow> ser_error + string_serializer" where
  "ss_write_value value ss =
     (let ss1 = ss_clear ss
      in if m_open_objects ss1 = [] then Inl No_open_object
         else Inr ((put (pt_writer False value) ss1)\<lparr>m_after_value := True\<rparr>))"

fun ss_write_values :: "primitive list \<Rightarrow> string_serializer \<Rightarrow> ser_error + string_serializer" where
  "ss_write_values [] ss = Inr ss"
| "ss_write_values (v # vs) ss =
     (case ss_write_value v ss of Inl e \<Rightarrow> Inl e | Inr ss' \<Rightarrow> ss_write_values vs ss')"

definition ss_write_tuple :: "primitive list \<Rightarrow> string_serializer \<Rightarrow> ser_error + string_serializer" where
  "ss_write_tuple vs ss =
     (case ss_write_values vs (put ''{'' (ss_clear ss)) of
        Inl e \<Rightarrow> Inl e
      | Inr ss' \<Rightarrow> Inr (put (if m_after_value ss' then '' }'' else ''}'') ss'))"

definition ss_write_raw :: "nat list \<Rightarrow> string_serializer \<Rightarrow> string_serializer" where
  "ss_write_raw buf ss = (put (concat (map hex2 buf)) (ss_clear ss))\<lparr>m_after_value := True\<rparr>"

subsection \<open>The deserializer\<close>

record string_deserializer =
  m_rest :: string    \<comment> \<open>from \<open>m_pos\<close> to the end of \<open>m_str\<close>\<close>
  m_open :: "string list"
  m_obj_had_left_parenthesis :: "bool list"

definition string_deserializer_new :: "string \<Rightarrow> string_deserializer" where
  "string_deserializer_new str = \<lparr>m_rest = str, m_open = [], m_obj_had_left_parenthesis = []\<rparr>"

definition peek :: "string \<Rightarrow> char" where
  "peek s = (case s of [] \<Rightarrow> CHR 0x00 | c # _ \<Rightarrow> c)"

definition skip_space_and_comma :: "string_deserializer \<Rightarrow> string_deserializer" where
  "skip_space_and_comma sd = sd\<lparr>m_rest := dropWhile (\<lambda>c. c = CHR '' '' \<or> c = CHR '','') (m_rest sd)\<rparr>"

definition consume :: "char \<Rightarrow> string_deserializer \<Rightarrow> ser_error + string_deserializer" where
  "consume c sd =
     (let sd1 = skip_space_and_comma sd
      in if peek (m_rest sd1) \<noteq> c then Inl (Malformed ''expected'') else Inr (sd1\<lparr>m_rest := tl (m_rest sd1)\<rparr>))"

definition try_consume :: "char \<Rightarrow> string_deserializer \<Rightarrow> string_deserializer \<times> bool" where
  "try_consume c sd =
     (let sd1 = skip_space_and_comma sd
      in if peek (m_rest sd1) = c then (sd1\<lparr>m_rest := tl (m_rest sd1)\<rparr>, True) else (sd1, False))"

definition is_delimiter :: "char \<Rightarrow> bool" where
  "is_delimiter c \<longleftrightarrow> c \<in> {CHR ''('', CHR '')'', CHR ''{'', CHR ''}'', CHR '' '', CHR '',''}"

definition integrity_check :: "string_deserializer \<Rightarrow> ser_error option" where
  "integrity_check sd =
     (if m_open sd = [] \<or> m_obj_had_left_parenthesis sd = [] then Some (Malformed ''missing begin_object()'')
      else if \<not> hd (m_obj_had_left_parenthesis sd) \<and> \<not> isbuiltin (hd (m_open sd))
      then Some (Malformed ''expected left parenthesis after begin_object call or void value'')
      else None)"

text \<open>\<open>known\<close> is the lookup of a type name in the type map.\<close>

definition sd_begin_object :: "(string \<Rightarrow> bool) \<Rightarrow> string_deserializer \<Rightarrow> ser_error + string \<times> string_deserializer" where
  "sd_begin_object known sd =
     (let sd1 = skip_space_and_comma sd; c = peek (m_rest sd1); name = takeWhile (\<lambda>x. \<not> is_delimiter x) (m_rest sd1)
      in if c \<noteq> dquote \<and> c \<noteq> squote \<and> \<not> is_digit c \<and> name = [] then Inl (Malformed ''could not seek object type name'')
         else let (type_name, rest) =
                (if c = dquote then (''@str'', m_rest sd1)
                 else if c = squote then (''@atom'', m_rest sd1)
                 else if is_digit c then (''@i32'', m_rest sd1)
                 else (name, drop (length name) (m_rest sd1)));
              sd2 = skip_space_and_comma (sd1\<lparr>m_rest := rest, m_open := type_name # m_open sd1\<rparr>);
              (sd3, paren) = try_consume (CHR ''('') sd2;
              sd4 = sd3\<lparr>m_obj_had_left_parenthesis := paren # m_obj_had_left_parenthesis sd3\<rparr>
            in if known type_name then Inr (type_name, sd4) else Inl (Unknown_type type_name))"

definition sd_end_object :: "string_deserializer \<Rightarrow> ser_error + string_deserializer" where
  "sd_end_object sd =
     (if m_open sd = [] then Inl No_object_to_end
      else case (if hd (m_obj_had_left_parenthesis sd) then consume (CHR '')'') sd else Inr sd) of
          Inl e \<Rightarrow> Inl e
        | Inr sd1 \<Rightarrow>
            let sd2 = sd1\<lparr>m_open := tl (m_open sd1), m_obj_had_left_parenthesis := tl (m_obj_had_left_parenthesis sd1)\<rparr>
            in if m_open sd2 = []
               then let sd3 = skip_space_and_comma sd2
                    in if m_rest sd3 \<noteq> [] then Inl (Malformed ''expected end of of string'') else Inr sd3
               else Inr sd2)"

definition sd_begin_sequence :: "string_deserializer \<Rightarrow> ser_error + nat \<times> string_deserializer" where
  "sd_begin_sequence sd = (case integrity_check sd of
      Some e \<Rightarrow> Inl e
    | None \<Rightarrow> (case consume (CHR ''{'') sd of
          Inl e \<Rightarrow> Inl e
        | Inr sd1 \<Rightarrow> Inr (count_list (takeWhile (\<lambda>c. c \<noteq> CHR ''}'') (m_rest sd1)) (CHR '','') + 1, sd1)))"

definition sd_end_sequence :: "string_deserializer \<Rightarrow> ser_error + string_deserializer" where
  "sd_end_sequence sd = (case integrity_check sd of Some e \<Rightarrow> Inl e | None \<Rightarrow> consume (CHR ''}'') sd)"

text \<open>The searches of \<open>read_value\<close>: the end of a plain value, and the first unescaped quote.\<close>

definition is_value_end :: "char \<Rightarrow> bool" where
  "is_value_end c \<longleftrightarrow> c \<in> {CHR '')'', CHR ''}'', CHR '' '', CHR '','', CHR ''@''}"

fun find_quote :: "char \<Rightarrow> char \<Rightarrow> string \<Rightarrow> nat option" where
  "find_quote needle last_char [] = None"
| "find_quote needle last_char (c # cs) =
     (if c = needle \<and> last_char \<noteq> backslash then Some 0 else map_option Suc (find_quote needle c cs))"

text \<open>Replacing escaped quotes: \<open>chunk\<close> is the text from \<open>sbegin\<close> to the current position.\<close>

fun unescape :: "char \<Rightarrow> char \<Rightarrow> string \<Rightarrow> string \<Rightarrow> string \<Rightarrow> string" where
  "unescape needle last_char tmp chunk [] = tmp @ chunk"
| "unescape needle last_char tmp chunk (c # cs) =
     (if c = needle \<and> last_char = backslash
      then unescape needle last_char (tmp @ butlast chunk @ [needle]) [] cs
      else unescape needle c tmp (chunk @ [c]) cs)"

text \<open>\<open>static_cast<char>\<close> and \<open>static_cast<unsigned char>\<close>.\<close>

definition wrap8 :: "bool \<Rightarrow> int \<Rightarrow> int" where
  "wrap8 is_signed i = (if is_signed then (i + 128) mod 256 - 128 else i mod 256)"

definition from_string_reader :: "ptype \<Rightarrow> string \<Rightarrow> ser_error + primitive" where
  "from_string_reader ty str = (case ty of
      T_int Ty_i8 \<Rightarrow> Inr (P_int Ty_i8 (wrap8 True (fst (parse_signed (int_min Ty_i32) (int_max Ty_i32) str))))
    | T_int Ty_u8 \<Rightarrow> Inr (P_int Ty_u8 (wrap8 False (fst (parse_unsigned (int_max Ty_u32) str))))
    | T_int t \<Rightarrow> Inr (P_int t (if int_min t < 0 then fst (parse_signed (int_min t) (int_max t) str)
                               else fst (parse_unsigned (int_max t) str)))
    | T_string \<Rightarrow> Inr (P_string str)
    | T_atom \<Rightarrow> Inr (P_atom (atom_val str 0xF))
    | T_u16string \<Rightarrow> Inl Unsupported
    | T_u32string \<Rightarrow> Inl Unsupported)"

definition sd_read_value :: "ptype \<Rightarrow> string_deserializer \<Rightarrow> ser_error + primitive \<times> string_deserializer" where
  "sd_read_value ty sd = (case integrity_check sd of Some e \<Rightarrow> Inl e | None \<Rightarrow>
     case (let sd1 = skip_space_and_comma sd
           in if hd (m_open sd1) = ''@node'' then consume (CHR '':'') sd1 else Inr sd1) of
       Inl e \<Rightarrow> Inl e
     | Inr sd1 \<Rightarrow>
         let quoted = (ty = T_string \<or> ty = T_atom);
             needle = (if ty = T_string then dquote else squote);
             opened = (quoted \<and> peek (m_rest sd1) = needle);
             text = (if opened then tl (m_rest sd1) else m_rest sd1);
             len = (if opened then find_quote needle needle text else find_if is_value_end text)
         in case len of
              None \<Rightarrow> Inl Unterminated
            | Some n \<Rightarrow>
                let substr = take n text; rest = drop n text
                in if quoted
                   then if peek rest \<noteq> needle then Inl (Malformed ''expected quote'')
                        else (case from_string_reader ty (unescape needle (CHR '' '') [] [] substr) of
                            Inl e \<Rightarrow> Inl e | Inr v \<Rightarrow> Inr (v, sd1\<lparr>m_rest := tl rest\<rparr>))
                   else (case from_string_reader ty substr of
                            Inl e \<Rightarrow> Inl e | Inr v \<Rightarrow> Inr (v, sd1\<lparr>m_rest := rest\<rparr>)))"

text \<open>A hexadecimal digit as \<open>size_t\<close>; letters are taken to be lower case.\<close>

definition next_nibble :: "string \<Rightarrow> ser_error + u64 \<times> string" where
  "next_nibble s =
     (if peek s = CHR 0x00 then Inl (Malformed ''unexpected end-of-string'')
      else if \<not> is_xdigit (peek s) then Inl (Malformed ''unexpected character'')
      else Inr (word_of_int (if is_digit (peek s) then of_char (peek s) - 48 else of_char (peek s) - 97 + 10), tl s))"

fun read_bytes :: "nat \<Rightarrow> string \<Rightarrow> ser_error + nat list \<times> string" where
  "read_bytes 0 s = Inr ([], s)"
| "read_bytes (Suc n) s =
     (case next_nibble s of Inl e \<Rightarrow> Inl e | Inr (hi, s1) \<Rightarrow>
      case next_nibble s1 of Inl e \<Rightarrow> Inl e | Inr (lo, s2) \<Rightarrow>
      case read_bytes n s2 of Inl e \<Rightarrow> Inl e | Inr (bs, s3) \<Rightarrow>
      Inr (unat (ucast (push_bit 4 hi OR lo) :: u8) # bs, s3))"

definition host_id_size :: nat where "host_id_size = 20"

definition sd_read_raw :: "nat \<Rightarrow> string_deserializer \<Rightarrow> ser_error + nat list \<times> string_deserializer" where
  "sd_read_raw buf_size sd =
     (case (if buf_size = host_id_size \<and> m_open sd \<noteq> [] \<and> hd (m_open sd) \<in> {''@actor'', ''@actor_addr''}
            then consume (CHR ''@'') sd else Inr sd) of
        Inl e \<Rightarrow> Inl e
      | Inr sd1 \<Rightarrow> (case integrity_check sd1 of Some e \<Rightarrow> Inl e | None \<Rightarrow>
          let sd2 = skip_space_and_comma sd1
          in case read_bytes buf_size (m_rest sd2) of
               Inl e \<Rightarrow> Inl e | Inr (bs, rest) \<Rightarrow> Inr (bs, sd2\<lparr>m_rest := rest\<rparr>)))"

subsection \<open>Printing and parsing objects\<close>

text \<open>\<open>to_string_impl\<close> for a type of the given name whose \<open>serialize\<close> is \<open>write\<close>.\<close>

definition to_string_impl ::
  "string \<Rightarrow> (string_serializer \<Rightarrow> ser_error + string_serializer) \<Rightarrow> ser_error + string" where
  "to_string_impl tname write = (case write (ss_begin_object tname string_serializer_new) of
      Inl e \<Rightarrow> Inl e | Inr ss \<Rightarrow> Inr (out (ss_end_object ss)))"

text \<open>\<open>from_string_impl\<close>: \<open>read\<close> is the \<open>deserialize\<close> of the type of that name. As
  \<open>begin_object\<close> never returns a null pointer, \<open>end_object\<close> is not reached; an error gives
  an invalid value.\<close>

definition from_string_impl ::
  "(string \<Rightarrow> bool) \<Rightarrow> (string \<Rightarrow> string_deserializer \<Rightarrow> ser_error + 'a \<times> string_deserializer) \<Rightarrow> string \<Rightarrow> 'a option" where
  "from_string_impl known read what = (case sd_begin_object known (string_deserializer_new what) of
      Inl e \<Rightarrow> None
    | Inr (utype, sd) \<Rightarrow> (case read utype sd of Inl e \<Rightarrow> None | Inr (v, sd') \<Rightarrow> Some v))"


definition host_id_to_string :: "nat list \<Rightarrow> string" where
  "host_id_to_string node_id = concat (map (\<lambda>i. hex2 (node_id ! i)) [0..<host_id_size])"

definition node_id_to_string :: "nat list \<times> nat \<Rightarrow> string" where
  "node_id_to_string what = host_id_to_string (fst what) @ '':'' @ decimal (snd what)"

text \<open>An address is an actor id and a node; \<open>None\<close> is \<open>invalid_actor_addr\<close>.\<close>

definition actor_addr_to_string :: "(nat \<times> nat list \<times> nat) option \<Rightarrow> string" where
  "actor_addr_to_string what = (case what of
      None \<Rightarrow> ''0@00000000000000000000:0''
    | Some (aid, node) \<Rightarrow> decimal aid @ ''@'' @ node_id_to_string node)"

section \<open>Quoting\<close>

definition escape :: "string \<Rightarrow> string" where
  "escape s = concat (map (\<lambda>c. if c = dquote then [backslash, dquote] else [c]) s)"

lemma quote_chars [simp]: "dquote \<noteq> backslash" "squote \<noteq> backslash" "backslash \<noteq> dquote" "backslash \<noteq> squote"
  by (simp_all add: dquote_def squote_def backslash_def)

lemma escape_simps [simp]:
  "escape [] = []" "escape (c # cs) = (if c = dquote then [backslash, dquote] else [c]) @ escape cs"
  by (simp_all add: escape_def)

lemma find_quote_escape:
  assumes "if s = [] then l \<noteq> backslash else last s \<noteq> backslash"
  shows "find_quote dquote l (escape s @ dquote # rest) = Some (length (escape s))"
  using assms by (induction s arbitrary: l) (auto split: if_splits)

lemma unescape_escape: "unescape dquote l tmp chunk (escape s) = tmp @ chunk @ s"
  by (induction s arbitrary: l tmp chunk) auto



section \<open>Reading what was written\<close>


definition separators :: "string \<Rightarrow> bool" where
  "separators s \<longleftrightarrow> (\<forall>c\<in>set s. c = CHR '' '' \<or> c = CHR '','')"

lemma dropWhile_separators:
  assumes "separators sep" "s \<noteq> []" "hd s \<noteq> CHR '' ''" "hd s \<noteq> CHR '',''"
  shows "dropWhile (\<lambda>c. c = CHR '' '' \<or> c = CHR '','') (sep @ s) = s"
  using assms by (cases s) (auto simp: separators_def dropWhile_append2)




text \<open>The reader may take a value here: an object is open with its parenthesis.\<close>

definition ready :: "string_deserializer \<Rightarrow> bool" where
  "ready sd \<longleftrightarrow> integrity_check sd = None \<and> hd (m_open sd) \<noteq> ''@node''"

lemma ready_rest [simp]: "ready (sd\<lparr>m_rest := r\<rparr>) = ready sd"
  by (simp add: ready_def integrity_check_def)

lemma read_quoted:
  assumes "ready sd" "m_rest sd = sep @ q # body @ q # rest" "separators sep"
    and "ty = T_string \<and> q = dquote \<or> ty = T_atom \<and> q = squote"
    and "find_quote q q (body @ q # rest) = Some (length body)"
    and "from_string_reader ty (unescape q (CHR '' '') [] [] body) = Inr v"
  shows "sd_read_value ty sd = Inr (v, sd\<lparr>m_rest := rest\<rparr>)"
proof -
  have skip: "skip_space_and_comma sd = sd\<lparr>m_rest := q # body @ q # rest\<rparr>"
    unfolding skip_space_and_comma_def assms(2) using assms(3,4)
    by (subst dropWhile_separators) (auto simp: dquote_def squote_def)
  have i: "integrity_check sd = None" "hd (m_open sd) \<noteq> ''@node''" using assms(1) by (simp_all add: ready_def)
  show ?thesis
    using assms(4)
  proof (elim disjE conjE)
    assume "ty = T_string" "q = dquote"
    with i assms(5,6) show ?thesis by (simp add: sd_read_value_def skip peek_def)
  next
    assume "ty = T_atom" "q = squote"
    with i assms(5,6) show ?thesis by (simp add: sd_read_value_def skip peek_def)
  qed
qed



section \<open>Objects\<close>

text \<open>The text of the values of an object after the first.\<close>

definition more_values :: "primitive list \<Rightarrow> string" where
  "more_values vs = concat (map (\<lambda>v. '', '' @ pt_writer False v) vs)"

lemma more_values_simps [simp]:
  "more_values [] = []" "more_values (v # vs) = CHR '','' # CHR '' '' # pt_writer False v @ more_values vs"
  by (simp_all add: more_values_def)






lemma of_char_code: "n < 256 \<Longrightarrow> of_char (char_of n) = (of_nat n :: int)"
  using of_nat_of_char [of "char_of n", where ?'a = int] by simp

lemma nibble_digit:
  assumes "n < 16"
  shows "next_nibble (hex_digit n # s) = Inr (word_of_nat n, s)"
proof (cases "n < 10")
  case True
  then have "hex_digit n \<noteq> CHR 0x00" "is_digit (hex_digit n)" "of_char (hex_digit n) = 48 + int n"
    by (auto simp: hex_digit_def is_digit_def of_char_code dest: arg_cong [where f = "of_char :: char \<Rightarrow> nat"])
  then show ?thesis by (simp add: next_nibble_def peek_def is_xdigit_def)
next
  case False
  with assms have "hex_digit n \<noteq> CHR 0x00" "\<not> is_digit (hex_digit n)" "is_xdigit (hex_digit n)"
      "of_char (hex_digit n) = 87 + int n"
    by (auto simp: hex_digit_def is_digit_def is_xdigit_def of_char_code
        dest: arg_cong [where f = "of_char :: char \<Rightarrow> nat"])
  then show ?thesis by (simp add: next_nibble_def peek_def)
qed

lemma byte_of_nibbles:
  assumes "b < 256"
  shows "unat (ucast (push_bit 4 (word_of_nat (b div 16)) OR word_of_nat (b mod 16) :: u64) :: u8) = b"
proof -
  have "list_all (\<lambda>b. unat (ucast (push_bit 4 (word_of_nat (b div 16)) OR word_of_nat (b mod 16) :: u64) :: u8) = b)
      [0..<256]" by code_simp
  with assms show ?thesis by (simp add: list_all_iff)
qed

lemma read_bytes_hex:
  assumes "\<forall>b\<in>set bs. b < 256"
  shows "read_bytes (length bs) (concat (map hex2 bs) @ rest) = Inr (bs, rest)"
  using assms
proof (induction bs)
  case (Cons b bs)
  then have "b div 16 < 16" "b mod 16 < 16" "b < 256" by auto
  with Cons show ?case by (simp add: hex2_def nibble_digit byte_of_nibbles)
qed simp

section \<open>Properties\<close>



text \<open>
  Which strings survive: \<open>from_string\<close> of the text of a string object gives the string
  back exactly if the string does not end in a backslash; otherwise the closing quote is
  taken for an escaped one and parsing fails. Quotes inside the string are harmless.
\<close>

theorem string_text_roundtrip:
  assumes "known ''@str''"
  shows "\<exists>text. to_string_impl ''@str'' (ss_write_values [P_string s]) = Inr text
    \<and> from_string_impl known (\<lambda>name sd. sd_read_value T_string sd) text =
        (if s \<noteq> [] \<and> last s = backslash then None else Some (P_string s))"
proof -
  let ?sd = "\<lparr>m_rest = dquote # escape s @ [dquote], m_open = [''@str''], m_obj_had_left_parenthesis = [False]\<rparr>"
  have t: "to_string_impl ''@str'' (ss_write_values [P_string s]) = Inr (dquote # escape s @ [dquote])"
    by (simp add: to_string_impl_def ss_begin_object_def string_serializer_new_def ss_clear_def put_def
        isbuiltin_def ss_write_value_def ss_end_object_def pt_writer_def escape_def)
  have b: "sd_begin_object known (string_deserializer_new (dquote # escape s @ [dquote])) = Inr (''@str'', ?sd)"
    using assms by (simp add: sd_begin_object_def string_deserializer_new_def skip_space_and_comma_def peek_def
        try_consume_def dquote_def Let_def)
  have r: "ready ?sd" by (simp add: ready_def integrity_check_def isbuiltin_def)
  have "sd_read_value T_string ?sd = (if s \<noteq> [] \<and> last s = backslash then Inl Unterminated
      else Inr (P_string s, ?sd\<lparr>m_rest := []\<rparr>))"
  proof (cases "s \<noteq> [] \<and> last s = backslash")
    case True
    have "find_quote dquote l (escape s @ [dquote]) = None" for l
      using True by (induction s arbitrary: l) (auto split: if_splits)
    with True r show ?thesis
      by (simp add: sd_read_value_def ready_def skip_space_and_comma_def peek_def dquote_def)
  next
    case False
    with find_quote_escape [of s dquote "[]"] have "find_quote dquote dquote (escape s @ [dquote]) = Some (length (escape s))"
      by auto
    from read_quoted [OF r, where q = dquote and sep = "[]" and body = "escape s" and ty = T_string, OF _ _ _ this] False
    show ?thesis by (auto simp: unescape_escape from_string_reader_def separators_def)
  qed
  with b show ?thesis unfolding t by (simp add: from_string_impl_def)
qed

theorem string_text_roundtrip_witness:
  "\<exists>text. to_string_impl ''@str'' (ss_write_values [P_string [CHR ''a'', backslash]]) = Inr text
    \<and> from_string_impl (\<lambda>_. True) (\<lambda>name sd. sd_read_value T_string sd) text = None"
  using string_text_roundtrip [of "\<lambda>_. True" "[CHR ''a'', backslash]"] by simp

text \<open>
  Raw bytes survive: the bytes \<open>write_raw\<close> prints as two hexadecimal digits each are
  what \<open>read_raw\<close> of the same length returns, and it stops right behind them.
\<close>

theorem raw_roundtrip:
  assumes "ready sd" "\<forall>b\<in>set bs. b < 256" "hd (m_open sd) \<notin> {''@actor'', ''@actor_addr''}"
    and "m_rest sd = out (ss_write_raw bs string_serializer_new) @ rest" "bs \<noteq> []"
  shows "sd_read_raw (length bs) sd = Inr (bs, sd\<lparr>m_rest := rest\<rparr>)"
proof -
  have rest: "m_rest sd = concat (map hex2 bs) @ rest"
    using assms(4) by (simp add: ss_write_raw_def ss_clear_def string_serializer_new_def put_def)
  obtain b bs' where b: "bs = b # bs'" "b < 256" using assms(2,5) by (cases bs) auto
  have "hex_digit (b div 16) \<noteq> CHR '' '' \<and> hex_digit (b div 16) \<noteq> CHR '',''"
    using b(2) by (auto simp: hex_digit_def dest: arg_cong [where f = "of_char :: char \<Rightarrow> nat"])
  then have "skip_space_and_comma sd = sd"
    using rest b(1) by (simp add: skip_space_and_comma_def hex2_def)
  with assms(1,3) rest read_bytes_hex [OF assms(2), of rest] show ?thesis
    by (simp add: sd_read_raw_def ready_def Let_def)
qed

theorem raw_roundtrip_witness:
  "sd_read_raw 2 \<lparr>m_rest = ''0aff:1'', m_open = [''@x''], m_obj_had_left_parenthesis = [True]\<rparr> =
    Inr ([10, 255], \<lparr>m_rest = '':1'', m_open = [''@x''], m_obj_had_left_parenthesis = [True]\<rparr>)"
proof -
  have "out (ss_write_raw [10, 255] string_serializer_new) = ''0aff''" by code_simp
  with raw_roundtrip [of "\<lparr>m_rest = ''0aff:1'', m_open = [''@x''], m_obj_had_left_parenthesis = [True]\<rparr>" "[10, 255]" "'':1''"]
  show ?thesis by (simp add: ready_def integrity_check_def numeral_2_eq_2)
qed

text \<open>
  The shortcut of \<open>begin_object\<close> for a plain number is never usable: a text that starts
  with a digit is taken for an object of type \<open>@i32\<close> without parenthesis, and every read of
  a value from it is refused, so that \<open>from_string\<close> gives nothing.
\<close>

theorem plain_number_rejected:
  assumes "is_digit c"
  shows "from_string_impl known (\<lambda>name sd. sd_read_value ty sd) (c # cs) = None"
proof -
  have "c \<noteq> CHR '' ''" "c \<noteq> CHR '',''" "c \<noteq> CHR ''(''" "c \<noteq> dquote" "c \<noteq> squote"
    using assms by (auto simp: is_digit_def dquote_def squote_def)
  with assms show ?thesis
    by (simp add: from_string_impl_def sd_begin_object_def string_deserializer_new_def skip_space_and_comma_def
        peek_def try_consume_def sd_read_value_def integrity_check_def isbuiltin_def Let_def)
qed

theorem plain_number_rejected_witness:
  "from_string_impl (\<lambda>t. t = ''@i32'') (\<lambda>name sd. sd_read_value (T_int Ty_i32) sd) ''42'' = None"
  by (rule plain_number_rejected) (simp add: is_digit_def)

end
