(* ===== verification/Binary_Serialization.thy ===== *)
theory Binary_Serialization
  imports String_Serialization
begin

text \<open>
  The binary serialization of libcaf_core/src/binary_serializer.cpp and
  binary_deserializer.cpp, for a little-endian host: integers are copied byte by byte,
  strings carry a 32-bit length. Floating point values are in \<open>Ieee_754\<close>.
\<close>

section \<open>Definitions\<close>

datatype bvalue =
    B_int int_type int
  | B_atom u64
  | B_string string
  | B_u16string "nat list"
  | B_u32string "nat list"

datatype btype = BT_int int_type | BT_atom | BT_string | BT_u16string | BT_u32string

datatype bin_error = Out_of_range | Unknown_name string

definition btype_of :: "bvalue \<Rightarrow> btype" where
  "btype_of v = (case v of B_int t _ \<Rightarrow> BT_int t | B_atom _ \<Rightarrow> BT_atom | B_string _ \<Rightarrow> BT_string
     | B_u16string _ \<Rightarrow> BT_u16string | B_u32string _ \<Rightarrow> BT_u32string)"

definition width :: "int_type \<Rightarrow> nat" where
  "width t = (case t of Ty_i8 \<Rightarrow> 1 | Ty_i16 \<Rightarrow> 2 | Ty_i32 \<Rightarrow> 4 | Ty_i64 \<Rightarrow> 8
     | Ty_u8 \<Rightarrow> 1 | Ty_u16 \<Rightarrow> 2 | Ty_u32 \<Rightarrow> 4 | Ty_u64 \<Rightarrow> 8)"

text \<open>The object representation of an unsigned number of \<open>w\<close> bytes.\<close>

fun le_bytes :: "nat \<Rightarrow> nat \<Rightarrow> nat list" where
  "le_bytes 0 n = []"
| "le_bytes (Suc w) n = n mod 256 # le_bytes w (n div 256)"

fun le_value :: "nat list \<Rightarrow> nat" where
  "le_value [] = 0"
| "le_value (b # bs) = b + 256 * le_value bs"

subsection \<open>Writing\<close>

definition write_int :: "nat \<Rightarrow> int \<Rightarrow> nat list" where
  "write_int w value = le_bytes w (nat (value mod 256 ^ w))"

definition write_string :: "string \<Rightarrow> nat list" where
  "write_string str = write_int 4 (int (length str)) @ map of_char str"

definition binary_writer :: "bvalue \<Rightarrow> nat list" where
  "binary_writer v = (case v of
      B_int t i \<Rightarrow> write_int (width t) i
    | B_atom a \<Rightarrow> write_int 8 (uint a)
    | B_string str \<Rightarrow> write_string str
    | B_u16string str \<Rightarrow> write_int 4 (int (length str)) @ concat (map (\<lambda>c. write_int 2 (int c)) str)
    | B_u32string str \<Rightarrow> write_int 4 (int (length str)) @ concat (map (\<lambda>c. write_int 4 (int c)) str))"

text \<open>The operations of \<open>binary_serializer\<close> append to the sink.\<close>

definition bs_begin_object :: "string \<Rightarrow> nat list \<Rightarrow> nat list" where
  "bs_begin_object name sink = sink @ write_string name"

definition bs_begin_sequence :: "nat \<Rightarrow> nat list \<Rightarrow> nat list" where
  "bs_begin_sequence list_size sink = sink @ write_int 4 (int list_size)"

definition bs_write_value :: "bvalue \<Rightarrow> nat list \<Rightarrow> nat list" where
  "bs_write_value v sink = sink @ binary_writer v"

definition bs_write_raw :: "nat list \<Rightarrow> nat list \<Rightarrow> nat list" where
  "bs_write_raw data sink = sink @ data"

subsection \<open>Reading\<close>

text \<open>The buffer is what lies between \<open>m_pos\<close> and \<open>m_end\<close>.\<close>

definition range_check :: "nat list \<Rightarrow> nat \<Rightarrow> bool" where
  "range_check buf read_size \<longleftrightarrow> read_size \<le> length buf"

definition read_uint :: "nat \<Rightarrow> nat list \<Rightarrow> bin_error + nat \<times> nat list" where
  "read_uint w buf = (if \<not> range_check buf w then Inl Out_of_range else Inr (le_value (take w buf), drop w buf))"

definition to_signed :: "nat \<Rightarrow> nat \<Rightarrow> int" where
  "to_signed w n = (if 2 * n < 256 ^ w then int n else int n - 256 ^ w)"

definition read_range_int :: "int_type \<Rightarrow> nat list \<Rightarrow> bin_error + bvalue \<times> nat list" where
  "read_range_int t buf = (case read_uint (width t) buf of
      Inl e \<Rightarrow> Inl e
    | Inr (n, buf') \<Rightarrow> Inr (B_int t (if int_min t < 0 then to_signed (width t) n else int n), buf'))"

definition read_range_string :: "nat list \<Rightarrow> bin_error + string \<times> nat list" where
  "read_range_string buf = (case read_uint 4 buf of
      Inl e \<Rightarrow> Inl e
    | Inr (str_size, buf') \<Rightarrow>
        if \<not> range_check buf' str_size then Inl Out_of_range
        else Inr (map char_of (take str_size buf'), drop str_size buf'))"

fun read_chars :: "nat \<Rightarrow> nat \<Rightarrow> nat list \<Rightarrow> bin_error + nat list \<times> nat list" where
  "read_chars w 0 buf = Inr ([], buf)"
| "read_chars w (Suc n) buf =
     (case read_uint w buf of Inl e \<Rightarrow> Inl e | Inr (c, buf') \<Rightarrow>
      case read_chars w n buf' of Inl e \<Rightarrow> Inl e | Inr (cs, buf'') \<Rightarrow> Inr (c # cs, buf''))"

definition read_unicode_string :: "nat \<Rightarrow> nat list \<Rightarrow> bin_error + nat list \<times> nat list" where
  "read_unicode_string w buf = (case read_uint 4 buf of
      Inl e \<Rightarrow> Inl e | Inr (str_size, buf') \<Rightarrow> read_chars w str_size buf')"

definition bd_read_value :: "btype \<Rightarrow> nat list \<Rightarrow> bin_error + bvalue \<times> nat list" where
  "bd_read_value ty buf = (case ty of
      BT_int t \<Rightarrow> read_range_int t buf
    | BT_atom \<Rightarrow> (case read_uint 8 buf of Inl e \<Rightarrow> Inl e | Inr (n, buf') \<Rightarrow> Inr (B_atom (word_of_nat n), buf'))
    | BT_string \<Rightarrow> (case read_range_string buf of Inl e \<Rightarrow> Inl e | Inr (s, buf') \<Rightarrow> Inr (B_string s, buf'))
    | BT_u16string \<Rightarrow> (case read_unicode_string 2 buf of Inl e \<Rightarrow> Inl e | Inr (s, buf') \<Rightarrow> Inr (B_u16string s, buf'))
    | BT_u32string \<Rightarrow> (case read_unicode_string 4 buf of Inl e \<Rightarrow> Inl e | Inr (s, buf') \<Rightarrow> Inr (B_u32string s, buf')))"

definition bd_begin_object :: "(string \<Rightarrow> bool) \<Rightarrow> nat list \<Rightarrow> bin_error + string \<times> nat list" where
  "bd_begin_object known buf = (case read_range_string buf of
      Inl e \<Rightarrow> Inl e
    | Inr (tname, buf') \<Rightarrow> if known tname then Inr (tname, buf') else Inl (Unknown_name tname))"

definition bd_begin_sequence :: "nat list \<Rightarrow> bin_error + nat \<times> nat list" where
  "bd_begin_sequence buf = read_uint 4 buf"

definition bd_read_raw :: "nat \<Rightarrow> nat list \<Rightarrow> bin_error + nat list \<times> nat list" where
  "bd_read_raw num_bytes buf =
     (if \<not> range_check buf num_bytes then Inl Out_of_range else Inr (take num_bytes buf, drop num_bytes buf))"

section \<open>Lemmas\<close>

lemma length_le_bytes [simp]: "length (le_bytes w n) = w"
  by (induction w n rule: le_bytes.induct) auto

lemma le_value_le_bytes [simp]: "le_value (le_bytes w n) = n mod 256 ^ w"
  by (induction w n rule: le_bytes.induct) (simp_all add: mod_mult2_eq)

lemma length_write_int [simp]: "length (write_int w i) = w"
  by (simp add: write_int_def)

lemma read_uint_write_int:
  "0 \<le> i \<Longrightarrow> i < 256 ^ w \<Longrightarrow> read_uint w (write_int w i @ rest) = Inr (nat i, rest)"
  by (simp add: read_uint_def range_check_def write_int_def nat_less_iff)

lemma read_uint_short: "length buf < w \<Longrightarrow> read_uint w buf = Inl Out_of_range"
  by (simp add: read_uint_def range_check_def)

lemma read_chars_written:
  assumes "\<forall>c\<in>set cs. c < 256 ^ w"
  shows "read_chars w (length cs) (concat (map (\<lambda>c. write_int w (int c)) cs) @ rest) = Inr (cs, rest)"
  using assms
proof (induction cs)
  case (Cons c cs)
  then have "c < 256 ^ w" by simp
  then have "int c < 256 ^ w" by (metis of_nat_less_iff of_nat_numeral of_nat_power)
  with Cons read_uint_write_int [of "int c" w] show ?case by simp
qed simp

text \<open>Values that fit their type, with lengths that fit 32 bits.\<close>

definition bvalue_ok :: "bvalue \<Rightarrow> bool" where
  "bvalue_ok v \<longleftrightarrow> (case v of
      B_int t i \<Rightarrow> int_min t \<le> i \<and> i \<le> int_max t
    | B_atom a \<Rightarrow> True
    | B_string s \<Rightarrow> length s < 2 ^ 32
    | B_u16string cs \<Rightarrow> length cs < 2 ^ 32 \<and> (\<forall>c\<in>set cs. c < 2 ^ 16)
    | B_u32string cs \<Rightarrow> length cs < 2 ^ 32 \<and> (\<forall>c\<in>set cs. c < 2 ^ 32))"

lemma read_length:
  assumes "n < 2 ^ 32"
  shows "read_uint 4 (write_int 4 (int n) @ rest) = Inr (n, rest)"
proof -
  have "int n < 256 ^ 4" using assms by simp
  from read_uint_write_int [OF _ this] show ?thesis by simp
qed

lemma negative_mod: "- m \<le> i \<Longrightarrow> i < 0 \<Longrightarrow> i mod m = i + m" for i m :: int
  using mod_pos_pos_trivial [of "i + m" m] by simp

lemma read_int_written:
  assumes "int_min t \<le> i" "i \<le> int_max t"
  shows "read_range_int t (write_int (width t) i @ rest) = Inr (B_int t i, rest)"
proof -
  have r: "read_uint (width t) (write_int (width t) i @ rest) = Inr (nat (i mod 256 ^ width t), rest)"
    by (simp add: read_uint_def range_check_def write_int_def nat_less_iff)
  show ?thesis
  proof (cases "0 \<le> i")
    case True
    with assms have "i mod 256 ^ width t = i" by (cases t) (simp_all add: width_def int_max_def)
    with assms True r show ?thesis
      by (cases t) (simp_all add: read_range_int_def to_signed_def width_def int_max_def int_min_def)
  next
    case False
    with assms have "i mod 256 ^ width t = i + 256 ^ width t"
      by (intro negative_mod; cases t) (simp_all add: width_def int_min_def)
    with assms False r show ?thesis
      by (cases t) (simp_all add: read_range_int_def to_signed_def width_def int_min_def)
  qed
qed

lemma read_string_written:
  assumes "length s < 2 ^ 32"
  shows "read_range_string (write_string s @ rest) = Inr (s, rest)"
  using assms by (simp add: read_range_string_def write_string_def read_length range_check_def map_idI comp_def)

lemma read_value_written:
  assumes "bvalue_ok v"
  shows "bd_read_value (btype_of v) (binary_writer v @ rest) = Inr (v, rest)"
proof (cases v)
  case (B_int t i)
  with assms show ?thesis by (simp add: bd_read_value_def btype_of_def binary_writer_def bvalue_ok_def read_int_written)
next
  case (B_atom a)
  have "uint a < 256 ^ 8" using uint_lt2p [of a] by simp
  with B_atom read_uint_write_int [OF uint_ge_0 this] show ?thesis
    by (simp add: bd_read_value_def btype_of_def binary_writer_def)
next
  case (B_string s)
  with assms show ?thesis by (simp add: bd_read_value_def btype_of_def binary_writer_def bvalue_ok_def read_string_written)
next
  case (B_u16string cs)
  with assms read_chars_written [of cs 2 rest] show ?thesis
    by (simp add: bd_read_value_def btype_of_def binary_writer_def bvalue_ok_def read_unicode_string_def read_length)
next
  case (B_u32string cs)
  with assms read_chars_written [of cs 4 rest] show ?thesis
    by (simp add: bd_read_value_def btype_of_def binary_writer_def bvalue_ok_def read_unicode_string_def read_length)
qed

section \<open>Truncated input\<close>

lemma read_chars_short:
  "length buf < w * n \<Longrightarrow> read_chars w n buf = Inl Out_of_range"
proof (induction w n buf rule: read_chars.induct)
  case (2 w n buf)
  show ?case
  proof (cases "length buf < w")
    case True
    then show ?thesis by (simp add: read_uint_short)
  next
    case False
    then have "read_uint w buf = Inr (le_value (take w buf), drop w buf)" by (simp add: read_uint_def range_check_def)
    moreover have "length (drop w buf) < w * n" using 2(2) False by simp
    ultimately show ?thesis using 2(1) by simp
  qed
qed simp

lemma length_concat_write: "length (concat (map (\<lambda>c. write_int w (int c)) cs)) = w * length cs"
  by (induction cs) auto

lemma take_write_length:
  assumes "4 \<le> k" "n < 2 ^ 32"
  shows "read_uint 4 (take k (write_int 4 (int n) @ body)) = Inr (n, take (k - 4) body)"
proof -
  have "take k (write_int 4 (int n) @ body) = write_int 4 (int n) @ take (k - 4) body" using assms(1) by simp
  with read_length [OF assms(2)] show ?thesis by simp
qed

lemma read_value_truncated:
  assumes "bvalue_ok v" "k < length (binary_writer v)"
  shows "bd_read_value (btype_of v) (take k (binary_writer v)) = Inl Out_of_range"
proof (cases "k < 4 \<or> (\<exists>t i. v = B_int t i) \<or> (\<exists>a. v = B_atom a)")
  case True
  with assms(2) show ?thesis
    by (cases v) (auto simp: bd_read_value_def btype_of_def binary_writer_def read_range_int_def read_range_string_def
        read_unicode_string_def write_string_def read_uint_short)
next
  case False
  show ?thesis
  proof (cases v)
    case (B_string s)
    have "read_uint 4 (take k (write_string s)) = Inr (length s, take (k - 4) (map of_char s))"
      unfolding write_string_def using assms(1) False B_string by (intro take_write_length) (auto simp: bvalue_ok_def)
    with assms(2) False B_string show ?thesis
      by (auto simp: bd_read_value_def btype_of_def binary_writer_def read_range_string_def range_check_def write_string_def)
  next
    case (B_u16string cs)
    let ?b = "concat (map (\<lambda>c. write_int 2 (int c)) cs)"
    have "read_uint 4 (take k (write_int 4 (int (length cs)) @ ?b)) = Inr (length cs, take (k - 4) ?b)"
      using assms(1) False B_u16string by (intro take_write_length) (auto simp: bvalue_ok_def)
    moreover have "read_chars 2 (length cs) (take (k - 4) ?b) = Inl Out_of_range"
      using assms(2) False B_u16string by (intro read_chars_short) (auto simp: binary_writer_def length_concat_write)
    ultimately show ?thesis using B_u16string
      by (simp add: bd_read_value_def btype_of_def binary_writer_def read_unicode_string_def del: take_append)
  next
    case (B_u32string cs)
    let ?b = "concat (map (\<lambda>c. write_int 4 (int c)) cs)"
    have "read_uint 4 (take k (write_int 4 (int (length cs)) @ ?b)) = Inr (length cs, take (k - 4) ?b)"
      using assms(1) False B_u32string by (intro take_write_length) (auto simp: bvalue_ok_def)
    moreover have "read_chars 4 (length cs) (take (k - 4) ?b) = Inl Out_of_range"
      using assms(2) False B_u32string by (intro read_chars_short) (auto simp: binary_writer_def length_concat_write)
    ultimately show ?thesis using B_u32string
      by (simp add: bd_read_value_def btype_of_def binary_writer_def read_unicode_string_def del: take_append)
  qed (use False in auto)
qed

section \<open>Properties\<close>

text \<open>
  Binary round trip: reading a written value gives the value and leaves what follows it
  untouched, and reading any proper prefix of its bytes throws \<open>out_of_range\<close>.
\<close>

theorem binary_value_roundtrip:
  assumes "bvalue_ok v"
  shows "bd_read_value (btype_of v) (bs_write_value v [] @ rest) = Inr (v, rest)
    \<and> (k < length (bs_write_value v []) \<longrightarrow> bd_read_value (btype_of v) (take k (bs_write_value v [])) = Inl Out_of_range)"
  using read_value_written [OF assms] read_value_truncated [OF assms] by (simp add: bs_write_value_def)

theorem binary_value_roundtrip_witness:
  "bd_read_value BT_string (bs_write_value (B_string ''ping'') [] @ [1, 2]) = Inr (B_string ''ping'', [1, 2])"
  using binary_value_roundtrip [of "B_string ''ping''" "[1, 2]"] by (simp add: bvalue_ok_def btype_of_def)

text \<open>
  An object written by the binary serializer, its type name, the length of a sequence and
  raw data, is read back in the same order; an unknown type name is an error.
\<close>

theorem binary_object_roundtrip:
  assumes "length name < 2 ^ 32" "n < 2 ^ 32"
  shows "(let buf = bs_write_raw data (bs_begin_sequence n (bs_begin_object name [])) @ rest
      in if known name
         then (case bd_begin_object known buf of Inr (name', b1) \<Rightarrow> name' = name
                 \<and> (case bd_begin_sequence b1 of Inr (n', b2) \<Rightarrow> n' = n \<and> bd_read_raw (length data) b2 = Inr (data, rest)
                    | Inl _ \<Rightarrow> False)
              | Inl _ \<Rightarrow> False)
         else bd_begin_object known buf = Inl (Unknown_name name))"
  using read_string_written [OF assms(1)] read_length [OF assms(2), of "data @ rest"]
  by (simp add: bs_write_raw_def bs_begin_sequence_def bs_begin_object_def bd_begin_object_def bd_begin_sequence_def
      bd_read_raw_def range_check_def Let_def)

theorem binary_object_roundtrip_witness:
  "bd_begin_object (\<lambda>_. False) (bs_write_raw [7] (bs_begin_sequence 1 (bs_begin_object ''@str'' [])) @ []) =
    Inl (Unknown_name ''@str'')"
  using binary_object_roundtrip [of "''@str''" 1 "[7]" "[]" "\<lambda>_. False"] by (simp add: Let_def)

end
