(* ===== verification/Node_Id.thy ===== *)
theory Node_Id
  imports Binary_Serialization "HOL-Library.List_Lexorder" "HOL-Library.Product_Lexorder" "HOL-Library.Option_ord"
begin

text \<open>
  Node identifiers (libcaf_core/src/node_id.cpp, caf/node_id.hpp): a process id and a hash of
  20 bytes, their hexadecimal notation, the order that \<open>std::map\<close> and the comparison operators
  use, and their binary form (uniform_type_info_map.cpp).
\<close>

section \<open>Definitions\<close>

datatype node_id = Invalid_node_id | Node_id nat "nat list"    \<comment> \<open>process id, host id\<close>

definition host_id_size :: nat where
  "host_id_size = 20"

datatype nid_error = Illegal_character char | Not_a_hash

definition hex_char_value :: "char \<Rightarrow> nid_error + nat" where
  "hex_char_value c = (let v = of_char c :: nat in
     if 48 \<le> v \<and> v \<le> 57 then Inr (v - 48)
     else if 97 \<le> v \<and> v \<le> 102 then Inr (v - 97 + 10)
     else if 65 \<le> v \<and> v \<le> 70 then Inr (v - 65 + 10)
     else Inl (Illegal_character c))"

text \<open>The loop over the bytes of the hash.\<close>

fun hex_bytes :: "string \<Rightarrow> nid_error + nat list" where
  "hex_bytes (a # b # cs) =
     (case hex_char_value a of Inl e \<Rightarrow> Inl e | Inr x \<Rightarrow>
      case hex_char_value b of Inl e \<Rightarrow> Inl e | Inr y \<Rightarrow>
      case hex_bytes cs of Inl e \<Rightarrow> Inl e | Inr bs \<Rightarrow> Inr (or (push_bit 4 x mod 256) y # bs))"
| "hex_bytes _ = Inr []"

definition host_id_from_string :: "string \<Rightarrow> nid_error + nat list" where
  "host_id_from_string hash = (if length hash \<noteq> host_id_size * 2 then Inl Not_a_hash else hex_bytes hash)"

text \<open>\<open>equal(hash, host_id)\<close> compares while it reads; a wrong character makes it false.\<close>

fun equal_bytes :: "string \<Rightarrow> nat list \<Rightarrow> bool" where
  "equal_bytes (a # b # cs) (v # vs) =
     (case hex_char_value a of Inl e \<Rightarrow> False | Inr x \<Rightarrow>
      case hex_char_value b of Inl e \<Rightarrow> False | Inr y \<Rightarrow>
        if or (push_bit 4 x mod 256) y \<noteq> v then False else equal_bytes cs vs)"
| "equal_bytes _ _ = True"

definition equal_hash :: "string \<Rightarrow> nat list \<Rightarrow> bool" where
  "equal_hash hash hid = (if length hash \<noteq> length hid * 2 then False else equal_bytes hash hid)"

definition node_id_from_string :: "nat \<Rightarrow> string \<Rightarrow> nid_error + node_id" where
  "node_id_from_string procid b = (case host_id_from_string b of Inl e \<Rightarrow> Inl e | Inr hid \<Rightarrow> Inr (Node_id procid hid))"

definition process_id :: "node_id \<Rightarrow> nat" where
  "process_id n = (case n of Node_id pid _ \<Rightarrow> pid | Invalid_node_id \<Rightarrow> 0)"

definition host_id :: "node_id \<Rightarrow> nat list" where
  "host_id n = (case n of Node_id _ hid \<Rightarrow> hid | Invalid_node_id \<Rightarrow> replicate host_id_size 0)"

text \<open>The sign of \<open>strncmp\<close> on two byte arrays: it stops at a zero byte.\<close>

fun strncmp :: "nat list \<Rightarrow> nat list \<Rightarrow> int" where
  "strncmp (a # as) (b # bs) = (if a < b then - 1 else if b < a then 1 else if a = 0 then 0 else strncmp as bs)"
| "strncmp _ _ = 0"

definition node_compare :: "node_id \<Rightarrow> node_id \<Rightarrow> int" where
  "node_compare a b =
     (if (a \<noteq> Invalid_node_id) \<noteq> (b \<noteq> Invalid_node_id) then (if a \<noteq> Invalid_node_id then 1 else - 1)
      else if a = Invalid_node_id then 0
      else let tmp = strncmp (host_id a) (host_id b)
           in if tmp = 0
              then if process_id a < process_id b then - 1 else if process_id a = process_id b then 0 else 1
              else tmp)"

definition nid_serialize :: "node_id \<Rightarrow> nat list" where
  "nid_serialize nid = host_id nid @ write_int 4 (int (process_id nid))"

definition nid_deserialize :: "nat list \<Rightarrow> bin_error + node_id \<times> nat list" where
  "nid_deserialize buf = (case bd_read_raw host_id_size buf of Inl e \<Rightarrow> Inl e | Inr (hid, buf1) \<Rightarrow>
     case read_uint 4 buf1 of Inl e \<Rightarrow> Inl e | Inr (pid, buf2) \<Rightarrow>
       Inr (if pid = 0 \<and> list_all (\<lambda>v. v = 0) hid then Invalid_node_id else Node_id pid hid, buf2))"

section \<open>Lemmas\<close>

definition nid_ok :: "node_id \<Rightarrow> bool" where
  "nid_ok n \<longleftrightarrow> (case n of Invalid_node_id \<Rightarrow> True
     | Node_id pid hid \<Rightarrow> pid < 2 ^ 32 \<and> length hid = host_id_size \<and> list_all (\<lambda>b. b < 256) hid
         \<and> \<not> (pid = 0 \<and> list_all (\<lambda>v. v = 0) hid))"

lemma length_host_id [simp]: "nid_ok n \<Longrightarrow> length (host_id n) = host_id_size"
  by (cases n) (auto simp: nid_ok_def host_id_def)

lemma process_id_less: "nid_ok n \<Longrightarrow> process_id n < 2 ^ 32"
  by (cases n) (auto simp: nid_ok_def process_id_def)

lemma length_nid_serialize [simp]: "nid_ok n \<Longrightarrow> length (nid_serialize n) = 24"
  by (simp add: nid_serialize_def host_id_size_def)

lemma nid_roundtrip: "nid_ok n \<Longrightarrow> nid_deserialize (nid_serialize n @ rest) = Inr (n, rest)"
proof -
  assume ok: "nid_ok n"
  then have "read_uint 4 (write_int 4 (int (process_id n)) @ rest) = Inr (process_id n, rest)"
    using read_uint_write_int [of "int (process_id n)" 4 rest] process_id_less [OF ok] by simp
  then show ?thesis
    using ok by (cases n) (auto simp: nid_deserialize_def nid_serialize_def bd_read_raw_def range_check_def
        process_id_def host_id_def nid_ok_def list_all_iff)
qed

subsection \<open>The order of node identifiers\<close>

text \<open>What the comparison sees of an identifier: the hash up to its first zero byte.\<close>

type_synonym node_key = "(nat list \<times> nat) option"

definition nkey :: "node_id \<Rightarrow> node_key" where
  "nkey n = (case n of Invalid_node_id \<Rightarrow> None | Node_id pid hid \<Rightarrow> Some (takeWhile (\<lambda>b. b \<noteq> 0) hid, pid))"

lemma strncmp_sign:
  "length as = length bs \<Longrightarrow>
     (strncmp as bs < 0 \<longleftrightarrow> takeWhile (\<lambda>b. b \<noteq> 0) as < takeWhile (\<lambda>b. b \<noteq> 0) bs)
     \<and> (strncmp as bs = 0 \<longleftrightarrow> takeWhile (\<lambda>b. b \<noteq> 0) as = takeWhile (\<lambda>b. b \<noteq> 0) bs)"
  by (induction as bs rule: list_induct2) auto

text \<open>
  The comparison of node identifiers, which orders the routing and proxy tables and decides
  equality, is the lexicographic order on the hash up to its first zero byte and the process
  id: two identifiers of one process id count as equal exactly if their hashes agree
  up to the first zero byte.
\<close>

theorem node_compare_order:
  assumes "nid_ok a" "nid_ok b"
  shows "(node_compare a b < 0 \<longleftrightarrow> nkey a < nkey b) \<and> (node_compare a b = 0 \<longleftrightarrow> nkey a = nkey b)
    \<and> (node_compare a b > 0 \<longleftrightarrow> nkey b < nkey a)"
proof (cases a; cases b)
  fix pa ha pb hb assume ab: "a = Node_id pa ha" "b = Node_id pb hb"
  from strncmp_sign [of ha hb] ab assms
  have s: "strncmp ha hb < 0 \<longleftrightarrow> takeWhile (\<lambda>b. b \<noteq> 0) ha < takeWhile (\<lambda>b. b \<noteq> 0) hb"
    "strncmp ha hb = 0 \<longleftrightarrow> takeWhile (\<lambda>b. b \<noteq> 0) ha = takeWhile (\<lambda>b. b \<noteq> 0) hb" by (auto simp: nid_ok_def)
  then have "strncmp ha hb > 0 \<longleftrightarrow> takeWhile (\<lambda>b. b \<noteq> 0) hb < takeWhile (\<lambda>b. b \<noteq> 0) ha"
    by (metis linorder_neqE not_less_iff_gr_or_eq)
  with s ab show ?thesis
    by (auto simp: node_compare_def nkey_def host_id_def process_id_def Let_def less_prod_def' less_le_not_le [of "strncmp ha hb"])
qed (auto simp: node_compare_def nkey_def)

theorem node_compare_order_witness:
  "node_compare (Node_id 7 (1 # 0 # replicate 18 5)) (Node_id 7 (1 # 0 # replicate 18 6)) = 0"
proof -
  have "nid_ok (Node_id 7 (1 # 0 # replicate 18 5))" "nid_ok (Node_id 7 (1 # 0 # replicate 18 6))"
    by (simp_all add: nid_ok_def host_id_size_def list_all_iff)
  from node_compare_order [OF this] show ?thesis by (simp add: nkey_def)
qed

subsection \<open>Hexadecimal notation\<close>

lemma hex_bytes_equal:
  "length hash = length hid * 2 \<Longrightarrow> equal_bytes hash hid \<longleftrightarrow> hex_bytes hash = Inr hid"
  by (induction hash hid rule: equal_bytes.induct) (auto split: sum.splits)

lemma nat_below_16:
  assumes "(n :: nat) < 16"
  shows "n \<in> set [0 ..< 16]"
  using assms by simp

lemma hex_char_value_digit: "n < 16 \<Longrightarrow> hex_char_value (hex_digit n) = Inr n"
  using nat_below_16 [of n] unfolding upt_conv_Cons_Cons
  by (auto simp: upt_rec hex_char_value_def hex_digit_def Let_def)

lemma or_nibbles: "(b :: nat) < 256 \<Longrightarrow> or (push_bit 4 (b div 16) mod 256) (b mod 16) = b"
proof -
  assume b: "b < 256"
  then have "push_bit 4 (b div 16) mod 256 = push_bit 4 (drop_bit 4 b)"
    by (simp add: push_bit_eq_mult drop_bit_eq_div)
  moreover have "b mod 16 = take_bit 4 b" by (simp add: take_bit_eq_mod)
  ultimately show ?thesis
    by (simp add: bit_eq_iff bit_or_iff bit_push_bit_iff bit_drop_bit_eq bit_take_bit_iff) (metis linorder_not_less le_add_diff_inverse)
qed

lemma hex_bytes_print: "list_all (\<lambda>b. b < 256) hid \<Longrightarrow> hex_bytes (concat (map hex2 hid)) = Inr hid"
  by (induction hid) (auto simp: hex2_def hex_char_value_digit or_nibbles less_mult_imp_div_less)

text \<open>
  Hashes in hexadecimal notation: what is printed with two digits a byte is read back, and the two
  readers agree: \<open>equal\<close> holds exactly if \<open>host_id_from_string\<close> reads this hash from the
  text.
\<close>

theorem host_id_text:
  assumes "length hid = host_id_size" "list_all (\<lambda>b. b < 256) hid"
  shows "host_id_from_string (concat (map hex2 hid)) = Inr hid
    \<and> (equal_hash hash hid \<longleftrightarrow> host_id_from_string hash = Inr hid)"
proof -
  have "length (concat (map hex2 hid)) = length hid * 2" by (induction hid) (simp_all add: hex2_def)
  with assms hex_bytes_print [OF assms(2)] hex_bytes_equal [of hash hid] show ?thesis
    by (auto simp: equal_hash_def host_id_from_string_def)
qed

theorem host_id_text_witness:
  "host_id_from_string (concat (map hex2 [0 ..< 20])) = Inr [0 ..< 20]
   \<and> equal_hash (concat (map hex2 [0 ..< 20])) [0 ..< 20]"
  using host_id_text [of "[0 ..< 20]" "concat (map hex2 [0 ..< 20])"] by (simp add: host_id_size_def list_all_iff)

end
