(* ===== verification/Actor_Registry.thy ===== *)
theory Actor_Registry
  imports Abstract_Actor
begin

text \<open>
  The registry of local actors (libcaf_core/src/actor_registry.cpp): which actor an id names,
  with which reason it terminated, and the number of running actors. Pointers to actors are
  their ids.
\<close>

section \<open>Definitions\<close>

record actor_registry =
  m_entries :: "nat \<rightharpoonup> nat option \<times> nat"
  m_running :: "64 word"
  m_ids :: "32 word"

definition registry_new :: actor_registry where
  "registry_new = \<lparr>m_entries = Map.empty, m_running = 0, m_ids = 1\<rparr>"

definition get_entry :: "nat \<Rightarrow> actor_registry \<Rightarrow> nat option \<times> nat" where
  "get_entry key reg = (case m_entries reg key of Some e \<Rightarrow> e | None \<Rightarrow> (None, unknown))"

definition reg_get :: "nat \<Rightarrow> actor_registry \<Rightarrow> nat option" where
  "reg_get key reg = fst (get_entry key reg)"

definition reg_erase :: "nat \<Rightarrow> nat \<Rightarrow> actor_registry \<Rightarrow> actor_registry" where
  "reg_erase key reason reg = (case m_entries reg key of
      Some entry \<Rightarrow> reg\<lparr>m_entries := (m_entries reg)(key \<mapsto> (None, reason))\<rparr>
    | None \<Rightarrow> reg)"

text \<open>The functor that erases the entry runs at once if the actor has terminated, with the
  reason \<open>exit_reason\<close>; otherwise it is attached, which the result tells.\<close>

definition reg_put :: "nat \<Rightarrow> nat option \<Rightarrow> nat \<Rightarrow> actor_registry \<Rightarrow> actor_registry \<times> bool" where
  "reg_put key val exit_reason reg = (case val of
      None \<Rightarrow> (reg, False)
    | Some a \<Rightarrow>
        if m_entries reg key \<noteq> None then (reg, False)
        else let reg1 = reg\<lparr>m_entries := (m_entries reg)(key \<mapsto> (Some a, not_exited))\<rparr>
             in if exit_reason \<noteq> not_exited then (reg_erase key exit_reason reg1, False) else (reg1, True))"

definition next_id :: "actor_registry \<Rightarrow> actor_registry \<times> 32 word" where
  "next_id reg = (let n = m_ids reg + 1 in (reg\<lparr>m_ids := n\<rparr>, n))"

definition inc_running :: "actor_registry \<Rightarrow> actor_registry" where
  "inc_running reg = reg\<lparr>m_running := m_running reg + 1\<rparr>"

text \<open>The result tells whether the waiting threads are notified.\<close>

definition dec_running :: "actor_registry \<Rightarrow> actor_registry \<times> bool" where
  "dec_running reg = (let new_val = m_running reg - 1 in (reg\<lparr>m_running := new_val\<rparr>, new_val \<le> 1))"

definition running_count_equal :: "64 word \<Rightarrow> actor_registry \<Rightarrow> bool" where
  "running_count_equal expected reg \<longleftrightarrow> m_running reg = expected"

section \<open>Entries follow their actors\<close>

text \<open>Actors that start, are registered and terminate: the functors attached by the registry run
  when an actor terminates.\<close>

record regsys =
  registry :: actor_registry
  rs_exit :: "nat \<Rightarrow> nat"
  watched :: "nat set"

inductive reg_step :: "regsys \<Rightarrow> regsys \<Rightarrow> bool" where
  put: "reg_put a (Some a) (rs_exit s a) (registry s) = (r, fnc) \<Longrightarrow>
    reg_step s (s\<lparr>registry := r, watched := if fnc then insert a (watched s) else watched s\<rparr>)"
| terminate: "rs_exit s a = not_exited \<Longrightarrow> r \<noteq> not_exited \<Longrightarrow>
    reg_step s (s\<lparr>rs_exit := (rs_exit s)(a := r), registry := if a \<in> watched s then reg_erase a r (registry s) else registry s,
      watched := watched s - {a}\<rparr>)"
| count_up: "reg_step s (s\<lparr>registry := inc_running (registry s)\<rparr>)"
| count_down: "reg_step s (s\<lparr>registry := fst (dec_running (registry s))\<rparr>)"
| fresh: "reg_step s (s\<lparr>registry := fst (next_id (registry s))\<rparr>)"

inductive reg_reach :: "regsys \<Rightarrow> bool" where
  init: "reg_reach \<lparr>registry = registry_new, rs_exit = (\<lambda>_. not_exited), watched = {}\<rparr>"
| step: "reg_reach s \<Longrightarrow> reg_step s s' \<Longrightarrow> reg_reach s'"

definition entry_ok :: "regsys \<Rightarrow> nat \<Rightarrow> bool" where
  "entry_ok s a \<longleftrightarrow> (case m_entries (registry s) a of
      None \<Rightarrow> a \<notin> watched s
    | Some e \<Rightarrow> e = (if rs_exit s a = not_exited then (Some a, not_exited) else (None, rs_exit s a))
        \<and> (a \<in> watched s \<longleftrightarrow> rs_exit s a = not_exited))"

lemma entries_frame [simp]:
  "m_entries (inc_running r) = m_entries r" "m_entries (fst (dec_running r)) = m_entries r" "m_entries (fst (next_id r)) = m_entries r"
  by (simp_all add: inc_running_def dec_running_def next_id_def Let_def)

lemma m_entries_erase: "m_entries (reg_erase a r g) = (m_entries g)(a := map_option (\<lambda>_. (None, r)) (m_entries g a))"
  by (auto simp: reg_erase_def split: option.split)

lemma m_entries_put:
  "m_entries (fst (reg_put a (Some a) r g)) = (if m_entries g a \<noteq> None then m_entries g
     else (m_entries g)(a \<mapsto> (if r = not_exited then (Some a, not_exited) else (None, r))))"
  by (simp add: reg_put_def Let_def m_entries_erase)

lemma snd_reg_put: "snd (reg_put a (Some a) r g) \<longleftrightarrow> m_entries g a = None \<and> r = not_exited"
  by (cases "m_entries g a") (simp_all add: reg_put_def Let_def)

lemma entry_ok_step: "reg_step s s' \<Longrightarrow> entry_ok s x \<Longrightarrow> entry_ok s' x"
proof (induction rule: reg_step.induct)
  case (put a s r fnc)
  then have r: "m_entries r = m_entries (fst (reg_put a (Some a) (rs_exit s a) (registry s)))" and
    fnc: "fnc \<longleftrightarrow> m_entries (registry s) a = None \<and> rs_exit s a = not_exited"
    using snd_reg_put [of a "rs_exit s a" "registry s"] by simp_all
  from put(2) show ?case unfolding entry_ok_def
    by (cases "m_entries (registry s) x"; cases "x = a") (simp_all add: r fnc m_entries_put)
next
  case (terminate s a r)
  then show ?case unfolding entry_ok_def
    by (cases "m_entries (registry s) x"; cases "x = a") (simp_all add: m_entries_erase)
qed (auto simp: entry_ok_def split: option.splits)

lemma reg_reach_entry_ok: "reg_reach s \<Longrightarrow> entry_ok s a"
  by (induction rule: reg_reach.induct) (simp_all add: entry_ok_step, simp add: entry_ok_def registry_new_def)

text \<open>
  In every reachable state the registry tells the truth about every id that was ever
  registered: the actor if it is running, the reason of its exit once it terminated, also for
  actors registered after their end; other ids are reported as unknown. An entry is never
  removed or replaced.
\<close>

theorem registry_tracks_actors:
  assumes "reg_reach s"
  shows "get_entry a (registry s) =
      (if m_entries (registry s) a = None then (None, unknown)
       else if rs_exit s a = not_exited then (Some a, not_exited) else (None, rs_exit s a))
    \<and> (reg_step s s' \<longrightarrow> dom (m_entries (registry s)) \<subseteq> dom (m_entries (registry s')))"
proof -
  from reg_reach_entry_ok [OF assms, of a, unfolded entry_ok_def]
  have "get_entry a (registry s) = (if m_entries (registry s) a = None then (None, unknown)
       else if rs_exit s a = not_exited then (Some a, not_exited) else (None, rs_exit s a))"
    by (cases "m_entries (registry s) a") (simp_all add: get_entry_def)
  moreover have "dom (m_entries (registry s)) \<subseteq> dom (m_entries (registry s'))" if "reg_step s s'"
    using that
  proof (cases rule: reg_step.cases)
    case (put a r fnc)
    then have "m_entries (registry s') = m_entries (fst (reg_put a (Some a) (rs_exit s a) (registry s)))" by simp
    then show ?thesis by (auto simp: m_entries_put)
  qed (auto simp: m_entries_erase)
  ultimately show ?thesis by blast
qed

theorem registry_tracks_actors_witness:
  "\<exists>s. reg_reach s \<and> get_entry 5 (registry s) = (None, 4) \<and> get_entry 6 (registry s) = (None, unknown)"
proof (intro exI conjI)
  let ?s0 = "\<lparr>registry = registry_new, rs_exit = (\<lambda>_. not_exited), watched = {}\<rparr>"
  let ?s1 = "?s0\<lparr>registry := fst (reg_put 5 (Some 5) not_exited registry_new), watched := {5}\<rparr>"
  let ?s2 = "?s1\<lparr>rs_exit := (\<lambda>_. not_exited)(5 := 4), registry := reg_erase 5 4 (registry ?s1), watched := {}\<rparr>"
  have 1: "reg_reach ?s1" using reg_step.put [of 5 ?s0 "fst (reg_put 5 (Some 5) not_exited registry_new)" True]
    by (intro reg_reach.step [OF reg_reach.init]) (simp add: reg_put_def registry_new_def Let_def)
  show s2: "reg_reach ?s2" using reg_step.terminate [of ?s1 5 4]
    by (intro reg_reach.step [OF 1]) (simp add: not_exited_def)
  have "m_entries (registry ?s2) 5 = Some (None, 4)" "m_entries (registry ?s2) 6 = None" "rs_exit ?s2 5 \<noteq> not_exited" "rs_exit ?s2 5 = 4"
    by (simp_all add: m_entries_erase reg_put_def registry_new_def Let_def not_exited_def)
  with conjunct1 [OF registry_tracks_actors [OF s2, of 5]] conjunct1 [OF registry_tracks_actors [OF s2, of 6]]
  show "get_entry 5 (registry ?s2) = (None, 4)" "get_entry 6 (registry ?s2) = (None, unknown)"
    by (simp_all only: if_False if_True refl option.distinct)
qed

end
