(* ===== verification/Actor_Namespace.thy ===== *)
theory Actor_Namespace
  imports Node_Id Actor_Registry "HOL-Library.AList"
begin

text \<open>
  The proxies of remote actors (libcaf_core/src/actor_namespace.cpp) and the binary form of
  actor addresses. A proxy is named by a number; its anchor in the tables may outlive it, so
  every lookup asks whether the proxy still lives. Tables are keyed by what the comparison of
  node identifiers sees. Creating a proxy is the business of the backend.
\<close>

section \<open>Definitions\<close>

type_synonym proxy_map = "(nat \<times> nat option) list"    \<comment> \<open>actor id, anchor\<close>
type_synonym actor_namespace = "(node_key \<times> proxy_map) list"

datatype ns_error = Null_proxy | Ns_read bin_error

text \<open>\<open>m_proxies[node]\<close> creates the table of the node.\<close>

definition submap :: "node_key \<Rightarrow> actor_namespace \<Rightarrow> proxy_map \<times> actor_namespace" where
  "submap node ns = (case map_of ns node of Some sub \<Rightarrow> (sub, ns) | None \<Rightarrow> ([], AList.update node [] ns))"

definition count_proxies :: "node_key \<Rightarrow> actor_namespace \<Rightarrow> nat" where
  "count_proxies node ns = (case map_of ns node of Some sub \<Rightarrow> length sub | None \<Rightarrow> 0)"

definition anchor_get :: "(nat \<Rightarrow> bool) \<Rightarrow> nat option \<Rightarrow> nat option" where
  "anchor_get live anchor = (case anchor of Some p \<Rightarrow> if live p then Some p else None | None \<Rightarrow> None)"

definition ns_get_all :: "(nat \<Rightarrow> bool) \<Rightarrow> node_key \<Rightarrow> actor_namespace \<Rightarrow> nat list \<times> actor_namespace" where
  "ns_get_all live node ns = (let (sub, ns1) = submap node ns in (List.map_filter (\<lambda>(aid, anchor). anchor_get live anchor) sub, ns1))"

definition ns_get :: "(nat \<Rightarrow> bool) \<Rightarrow> node_key \<Rightarrow> nat \<Rightarrow> actor_namespace \<Rightarrow> nat option \<times> actor_namespace" where
  "ns_get live node aid ns =
     (let (sub, ns1) = submap node ns in case map_of sub aid of
        Some anchor \<Rightarrow>
          (case anchor_get live anchor of
             Some p \<Rightarrow> (Some p, ns1)
           | None \<Rightarrow> (None, AList.update node (AList.delete aid sub) ns1))
      | None \<Rightarrow> (None, ns1))"

text \<open>\<open>make_proxy\<close> acts on the state of the backend; a null result is dereferenced.\<close>

definition ns_get_or_put :: "(nat \<Rightarrow> bool) \<Rightarrow> ('s \<Rightarrow> nat option \<times> 's) \<Rightarrow> node_key \<Rightarrow> nat \<Rightarrow> actor_namespace \<Rightarrow> 's
    \<Rightarrow> (ns_error + nat) \<times> actor_namespace \<times> 's" where
  "ns_get_or_put live make_proxy node aid ns s =
     (let (sub, ns1) = submap node ns;
          anchor = (case map_of sub aid of Some a \<Rightarrow> a | None \<Rightarrow> None);
          sub1 = AList.update aid anchor sub
      in case anchor_get live anchor of
           Some p \<Rightarrow> (Inr p, AList.update node sub1 ns1, s)
         | None \<Rightarrow>
             (case make_proxy s of
                (Some p, s1) \<Rightarrow> (Inr p, AList.update node (AList.update aid (Some p) sub1) ns1, s1)
              | (None, s1) \<Rightarrow> (Inl Null_proxy, AList.update node sub1 ns1, s1)))"

definition ns_empty :: "actor_namespace \<Rightarrow> bool" where
  "ns_empty ns \<longleftrightarrow> ns = []"

definition ns_erase_node :: "node_key \<Rightarrow> actor_namespace \<Rightarrow> actor_namespace" where
  "ns_erase_node node ns = AList.delete node ns"

definition ns_erase :: "node_key \<Rightarrow> nat \<Rightarrow> actor_namespace \<Rightarrow> actor_namespace" where
  "ns_erase node aid ns = (case map_of ns node of
      Some sub \<Rightarrow> let sub1 = AList.delete aid sub
                  in if sub1 = [] then AList.delete node ns else AList.update node sub1 ns
    | None \<Rightarrow> ns)"

subsection \<open>Addresses\<close>

text \<open>An address is a node and an actor id; \<open>None\<close> is the invalid address.\<close>

type_synonym actor_addr = "(node_id \<times> nat) option"

definition ns_write :: "node_id \<Rightarrow> (nat \<Rightarrow> nat) \<Rightarrow> actor_addr \<Rightarrow> actor_registry \<Rightarrow> nat list \<times> actor_registry" where
  "ns_write this_node exit_of addr reg = (case addr of
      None \<Rightarrow> (write_int 4 0 @ replicate host_id_size 0 @ write_int 4 0, reg)
    | Some (node, aid) \<Rightarrow>
        (write_int 4 (int aid) @ host_id node @ write_int 4 (int (process_id node)),
         if nkey node = nkey this_node then fst (reg_put aid (Some aid) (exit_of aid) reg) else reg))"

text \<open>What \<open>read\<close> finds: no actor, a local one by its id, or a remote one that needs a proxy.\<close>

datatype read_addr = No_actor | Local_actor_addr nat | Remote_actor_addr node_id nat

definition ns_read :: "node_id \<Rightarrow> actor_registry \<Rightarrow> nat list \<Rightarrow> bin_error + read_addr \<times> nat list" where
  "ns_read this_node reg buf =
     (case read_uint 4 buf of Inl e \<Rightarrow> Inl e | Inr (aid, b1) \<Rightarrow>
      case bd_read_raw host_id_size b1 of Inl e \<Rightarrow> Inl e | Inr (hid, b2) \<Rightarrow>
      case read_uint 4 b2 of Inl e \<Rightarrow> Inl e | Inr (pid, b3) \<Rightarrow>
        if aid = 0 \<and> pid = 0 then Inr (No_actor, b3)
        else if pid = process_id this_node \<and> hid = host_id this_node
        then Inr (case reg_get aid reg of Some a \<Rightarrow> Local_actor_addr a | None \<Rightarrow> No_actor, b3)
        else Inr (Remote_actor_addr (Node_id pid hid) aid, b3))"

section \<open>The tables as a map\<close>

definition ns_lookup :: "actor_namespace \<Rightarrow> node_key \<Rightarrow> nat \<Rightarrow> nat option" where
  "ns_lookup ns node aid = (case map_of ns node of Some sub \<Rightarrow> Option.bind (map_of sub aid) id | None \<Rightarrow> None)"

lemma map_of_AList_update [simp]: "map_of (AList.update k v al) k' = (if k' = k then Some v else map_of al k')"
  by (simp add: update_conv')

lemma map_of_AList_delete [simp]: "map_of (AList.delete k al) k' = (if k' = k then None else map_of al k')"
  by (simp add: delete_conv')

lemma ns_lookup_submap: "submap node ns = (sub, ns1) \<Longrightarrow>
    ns_lookup ns1 = ns_lookup ns \<and> map_of ns1 node = Some sub \<and> (\<forall>aid. ns_lookup ns node aid = Option.bind (map_of sub aid) id)"
  by (auto simp: submap_def ns_lookup_def fun_eq_iff split: option.splits if_splits)

lemma ns_lookup_update: "ns_lookup (AList.update node sub ns) n a = (if n = node then Option.bind (map_of sub a) id else ns_lookup ns n a)"
  by (simp add: ns_lookup_def)

lemma ns_lookup_erase_node: "ns_lookup (ns_erase_node node ns) n a = (if n = node then None else ns_lookup ns n a)"
  by (simp add: ns_erase_node_def ns_lookup_def)

lemma ns_lookup_erase: "ns_lookup (ns_erase node aid ns) n a = (if n = node \<and> a = aid then None else ns_lookup ns n a)"
proof (cases "map_of ns node")
  case (Some sub)
  have "map_of sub x = None" if "AList.delete aid sub = []" "x \<noteq> aid" for x
    using map_of_AList_delete [of aid sub x] that by simp
  with Some show ?thesis by (auto simp: ns_erase_def ns_lookup_def Let_def)
qed (auto simp: ns_erase_def ns_lookup_def)

lemma ns_lookup_get_or_put:
  assumes "ns_get_or_put live mk node aid ns s = (Inr p, ns', s')"
  shows "ns_lookup ns' = (ns_lookup ns)(node := (ns_lookup ns node)(aid \<mapsto> p))"
    and "case anchor_get live (ns_lookup ns node aid) of Some q \<Rightarrow> p = q \<and> s' = s | None \<Rightarrow> mk s = (Some p, s')"
proof -
  obtain sub ns1 where sub: "submap node ns = (sub, ns1)" by fastforce
  note l = ns_lookup_submap [OF sub]
  let ?anchor = "case map_of sub aid of Some a \<Rightarrow> a | None \<Rightarrow> None"
  have anchor: "?anchor = ns_lookup ns node aid" using l by (auto split: option.split)
  note run = assms [unfolded ns_get_or_put_def sub Let_def prod.case anchor]
  show "ns_lookup ns' = (ns_lookup ns)(node := (ns_lookup ns node)(aid \<mapsto> p))"
    using run l by (auto simp: fun_eq_iff ns_lookup_update anchor_get_def split: option.splits prod.splits if_splits)
  show "case anchor_get live (ns_lookup ns node aid) of Some q \<Rightarrow> p = q \<and> s' = s | None \<Rightarrow> mk s = (Some p, s')"
    using run by (auto split: option.splits prod.splits)
qed

section \<open>Interface of a table of proxies\<close>

text \<open>What the users of the namespace rely on: a table per node whose entries are set and erased one
  by one or per node.\<close>

datatype ('k, 'p) table_op = Put_entry 'k nat 'p | Erase_entry 'k nat | Erase_node 'k

locale proxy_table =
  fixes look :: "'t \<Rightarrow> 'k \<Rightarrow> nat \<Rightarrow> 'p option"
    and apply_op :: "('k, 'p) table_op \<Rightarrow> 't \<Rightarrow> 't"
  assumes look_put: "look (apply_op (Put_entry k a p) t) k' a' = (if k' = k \<and> a' = a then Some p else look t k' a')"
    and look_erase: "look (apply_op (Erase_entry k a) t) k' a' = (if k' = k \<and> a' = a then None else look t k' a')"
    and look_erase_node: "look (apply_op (Erase_node k) t) k' a' = (if k' = k then None else look t k' a')"
begin

definition touches :: "'k \<Rightarrow> nat \<Rightarrow> ('k, 'p) table_op \<Rightarrow> bool" where
  "touches k a oper = (case oper of Put_entry k' a' _ \<Rightarrow> k' = k \<and> a' = a | Erase_entry k' a' \<Rightarrow> k' = k \<and> a' = a | Erase_node k' \<Rightarrow> k' = k)"

lemma look_untouched: "\<not> touches k a oper \<Longrightarrow> look (apply_op oper t) k a = look t k a"
  by (cases oper) (auto simp: touches_def look_put look_erase look_erase_node)

lemma entry_stays: "list_all (\<lambda>oper. \<not> touches k a oper) ops \<Longrightarrow> look (fold apply_op ops t) k a = look t k a"
  by (induction ops arbitrary: t) (auto simp: look_untouched)

lemma put_stays:
  assumes "list_all (\<lambda>oper. \<not> touches k a oper) ops"
  shows "look (fold apply_op ops (apply_op (Put_entry k a p) t)) k a = Some p"
  using entry_stays [OF assms] by (simp add: look_put)

end

text \<open>The namespace implements it: an entry is put by \<open>get_or_put\<close> with the proxy made for it.\<close>

definition ns_apply :: "(node_key, nat) table_op \<Rightarrow> actor_namespace \<Rightarrow> actor_namespace" where
  "ns_apply oper ns = (case oper of
      Put_entry node aid p \<Rightarrow> fst (snd (ns_get_or_put (\<lambda>q. q = p) (\<lambda>_ :: unit. (Some p, ())) node aid ns ()))
    | Erase_entry node aid \<Rightarrow> ns_erase node aid ns
    | Erase_node node \<Rightarrow> ns_erase_node node ns)"

lemma ns_apply_put: "ns_lookup (ns_apply (Put_entry node aid p) ns) = (ns_lookup ns)(node := (ns_lookup ns node)(aid \<mapsto> p))"
proof -
  obtain r ns' u where r: "ns_get_or_put (\<lambda>q. q = p) (\<lambda>_ :: unit. (Some p, ())) node aid ns () = (r, ns', u)" by (metis prod.exhaust)
  have "r = Inr p" using r by (auto simp: ns_get_or_put_def Let_def anchor_get_def split: prod.splits option.splits if_splits)
  from ns_lookup_get_or_put(1) [OF r [unfolded this]] r show ?thesis by (simp add: ns_apply_def)
qed

interpretation nst: proxy_table ns_lookup ns_apply
proof
  show "ns_lookup (ns_apply (Put_entry k a p) t) k' a' = (if k' = k \<and> a' = a then Some p else ns_lookup t k' a')" for k a p t k' a'
    by (simp add: ns_apply_put)
qed (simp_all add: ns_apply_def ns_lookup_erase ns_lookup_erase_node)

section \<open>Addresses survive serialization\<close>

definition addr_ok :: "actor_addr \<Rightarrow> bool" where
  "addr_ok addr \<longleftrightarrow> (case addr of None \<Rightarrow> True | Some (node, aid) \<Rightarrow> nid_ok node \<and> node \<noteq> Invalid_node_id \<and> 0 < aid \<and> aid < 2 ^ 32)"

lemma read_uint4: "n < 2 ^ 32 \<Longrightarrow> read_uint 4 (write_int 4 (int n) @ rest) = Inr (n, rest)"
  using read_uint_write_int [of "int n" 4 rest] by simp

lemma read_uint4_0: "read_uint 4 (write_int 4 0 @ rest) = Inr (0, rest)"
  using read_uint4 [of 0 rest] by simp

lemma read_raw_append: "length bs = n \<Longrightarrow> bd_read_raw n (bs @ rest) = Inr (bs, rest)"
  by (simp add: bd_read_raw_def range_check_def)

definition resolve_addr :: "node_id \<Rightarrow> actor_registry \<Rightarrow> actor_addr \<Rightarrow> read_addr" where
  "resolve_addr reader regr addr = (case addr of
      None \<Rightarrow> No_actor
    | Some (node, a) \<Rightarrow>
        if node = reader then (case reg_get a regr of Some b \<Rightarrow> Local_actor_addr b | None \<Rightarrow> No_actor)
        else Remote_actor_addr node a)"

lemma ns_read_written:
  assumes "addr_ok addr" "nid_ok reader" "ns_write writer exit_of addr reg = (bytes, reg')"
  shows "ns_read reader regr (bytes @ rest) = Inr (resolve_addr reader regr addr, rest)"
proof (cases addr)
  case None
  with assms(3) show ?thesis by (auto simp: ns_write_def ns_read_def read_uint4_0 read_raw_append resolve_addr_def)
next
  case (Some p)
  then obtain node a where addr: "addr = Some (node, a)" by (cases p) auto
  with assms(1) have ok: "nid_ok node" "node \<noteq> Invalid_node_id" "0 < a" "a < 2 ^ 32" by (auto simp: addr_ok_def)
  then obtain pid hid where node: "node = Node_id pid hid" by (cases node) auto
  have same: "pid = process_id reader \<and> hid = host_id reader \<longleftrightarrow> node = reader"
    using ok(1) node by (cases reader) (auto simp: process_id_def host_id_def nid_ok_def list_all_iff)
  have b: "bytes @ rest = write_int 4 (int a) @ hid @ write_int 4 (int pid) @ rest"
    using assms(3) addr node by (auto simp: ns_write_def host_id_def process_id_def)
  show ?thesis
    unfolding b using ok node same addr by (auto simp: ns_read_def read_uint4 read_raw_append nid_ok_def resolve_addr_def)
qed

text \<open>
  An actor address written by one node and read by any node names the same actor: at its own node it is
  looked up in the registry, at any other it asks for a proxy of that node and id; the invalid
  address stays invalid, and what follows in the buffer is left. Writing the address of a running local actor
  registers it, so that the node finds it when the address comes back.
\<close>

theorem address_roundtrip:
  assumes "addr_ok addr" "nid_ok reader" "ns_write writer exit_of addr reg = (bytes, reg')"
  shows "ns_read reader regr (bytes @ rest) = Inr (case addr of
        None \<Rightarrow> No_actor
      | Some (node, a) \<Rightarrow>
          if node = reader then (case reg_get a regr of Some b \<Rightarrow> Local_actor_addr b | None \<Rightarrow> No_actor)
          else Remote_actor_addr node a, rest)
    \<and> (\<forall>a. addr = Some (writer, a) \<and> exit_of a = not_exited \<and> m_entries reg a \<in> {None, Some (Some a, not_exited)}
          \<longrightarrow> reg_get a reg' = Some a)"
proof -
  have "reg_get a reg' = Some a" if "addr = Some (writer, a)" "exit_of a = not_exited" "m_entries reg a \<in> {None, Some (Some a, not_exited)}" for a
    using that assms(3) by (auto simp: ns_write_def reg_get_def get_entry_def m_entries_put)
  then show ?thesis using ns_read_written [OF assms] by (auto simp: resolve_addr_def split: option.splits)
qed

theorem address_roundtrip_witness:
  "ns_read (Node_id 7 (replicate 20 1)) (snd (ns_write (Node_id 7 (replicate 20 1)) (\<lambda>_. not_exited) (Some (Node_id 7 (replicate 20 1), 5)) registry_new))
     (fst (ns_write (Node_id 7 (replicate 20 1)) (\<lambda>_. not_exited) (Some (Node_id 7 (replicate 20 1), 5)) registry_new) @ [9])
   = Inr (Local_actor_addr 5, [9])"
proof -
  let ?n = "Node_id 7 (replicate 20 1)"
  have ok: "addr_ok (Some (?n, 5))" "nid_ok ?n" by (simp_all add: addr_ok_def nid_ok_def host_id_size_def list_all_iff)
  obtain bytes reg' where w: "ns_write ?n (\<lambda>_. not_exited) (Some (?n, 5)) registry_new = (bytes, reg')" by fastforce
  from address_roundtrip [OF ok w, of reg' "[9]"] have "reg_get 5 reg' = Some 5" by (simp add: registry_new_def)
  with conjunct1 [OF address_roundtrip [OF ok w, of reg' "[9]"]] w show ?thesis by simp
qed

end
