(* ===== verification/Basp.thy ===== *)
theory Basp
  imports Actor_Namespace
begin

text \<open>
  The header of the Binary Actor System Protocol (caf/io/basp.hpp): its fields, the validity
  checks per operation, and its binary form as the broker writes and reads it
  (libcaf_io/src/basp_broker.cpp, \<open>read\<close> and \<open>write\<close>).
\<close>

section \<open>Definitions\<close>

record header =
  source_node :: node_id
  dest_node :: node_id
  source_actor :: nat
  dest_actor :: nat
  payload_len :: nat
  operation :: nat
  operation_data :: nat

definition basp_version :: nat where
  "basp_version = 1"

definition header_size :: nat where
  "header_size = host_id_size * 2 + 4 * 2 + 4 * 2 + 4 * 2 + 8"

definition op_server_handshake :: nat where "op_server_handshake = 0"
definition op_client_handshake :: nat where "op_client_handshake = 1"
definition op_dispatch_message :: nat where "op_dispatch_message = 2"
definition op_announce_proxy_instance :: nat where "op_announce_proxy_instance = 3"
definition op_kill_proxy_instance :: nat where "op_kill_proxy_instance = 4"

lemmas op_defs = op_server_handshake_def op_client_handshake_def op_dispatch_message_def
  op_announce_proxy_instance_def op_kill_proxy_instance_def

text \<open>Node identifiers are compared with \<open>compare\<close>.\<close>

definition valid_node :: "node_id \<Rightarrow> bool" where
  "valid_node val \<longleftrightarrow> val \<noteq> Invalid_node_id"

definition node_eq :: "node_id \<Rightarrow> node_id \<Rightarrow> bool" where
  "node_eq a b \<longleftrightarrow> nkey a = nkey b"

definition server_handshake_valid :: "header \<Rightarrow> bool" where
  "server_handshake_valid hdr \<longleftrightarrow> valid_node (source_node hdr) \<and> \<not> valid_node (dest_node hdr) \<and> dest_actor hdr = 0
     \<and> operation_data hdr \<noteq> 0
     \<and> (source_actor hdr \<noteq> 0 \<and> payload_len hdr \<noteq> 0 \<or> source_actor hdr = 0 \<and> payload_len hdr = 0)"

definition client_handshake_valid :: "header \<Rightarrow> bool" where
  "client_handshake_valid hdr \<longleftrightarrow> valid_node (source_node hdr) \<and> valid_node (dest_node hdr)
     \<and> \<not> node_eq (source_node hdr) (dest_node hdr) \<and> source_actor hdr = 0 \<and> dest_actor hdr = 0
     \<and> payload_len hdr = 0 \<and> operation_data hdr = 0"

definition dispatch_message_valid :: "header \<Rightarrow> bool" where
  "dispatch_message_valid hdr \<longleftrightarrow> valid_node (dest_node hdr) \<and> dest_actor hdr \<noteq> 0 \<and> payload_len hdr \<noteq> 0"

definition announce_proxy_instance_valid :: "header \<Rightarrow> bool" where
  "announce_proxy_instance_valid hdr \<longleftrightarrow> valid_node (source_node hdr) \<and> valid_node (dest_node hdr)
     \<and> \<not> node_eq (source_node hdr) (dest_node hdr) \<and> source_actor hdr = 0 \<and> dest_actor hdr \<noteq> 0
     \<and> payload_len hdr = 0 \<and> operation_data hdr = 0"

definition kill_proxy_instance_valid :: "header \<Rightarrow> bool" where
  "kill_proxy_instance_valid hdr \<longleftrightarrow> valid_node (source_node hdr) \<and> valid_node (dest_node hdr)
     \<and> \<not> node_eq (source_node hdr) (dest_node hdr) \<and> source_actor hdr \<noteq> 0 \<and> dest_actor hdr = 0
     \<and> payload_len hdr = 0 \<and> operation_data hdr \<noteq> 0"

definition header_valid :: "header \<Rightarrow> bool" where
  "header_valid hdr \<longleftrightarrow>
     (if operation hdr = op_server_handshake then server_handshake_valid hdr
      else if operation hdr = op_client_handshake then client_handshake_valid hdr
      else if operation hdr = op_dispatch_message then dispatch_message_valid hdr
      else if operation hdr = op_announce_proxy_instance then announce_proxy_instance_valid hdr
      else if operation hdr = op_kill_proxy_instance then kill_proxy_instance_valid hdr
      else False)"

definition basp_write :: "header \<Rightarrow> nat list" where
  "basp_write msg = nid_serialize (source_node msg) @ nid_serialize (dest_node msg) @ write_int 4 (int (source_actor msg))
     @ write_int 4 (int (dest_actor msg)) @ write_int 4 (int (payload_len msg)) @ write_int 4 (int (operation msg))
     @ write_int 8 (int (operation_data msg))"

definition basp_read :: "nat list \<Rightarrow> bin_error + header \<times> nat list" where
  "basp_read buf =
     (case nid_deserialize buf of Inl e \<Rightarrow> Inl e | Inr (sn, b1) \<Rightarrow>
      case nid_deserialize b1 of Inl e \<Rightarrow> Inl e | Inr (dn, b2) \<Rightarrow>
      case read_uint 4 b2 of Inl e \<Rightarrow> Inl e | Inr (sa, b3) \<Rightarrow>
      case read_uint 4 b3 of Inl e \<Rightarrow> Inl e | Inr (da, b4) \<Rightarrow>
      case read_uint 4 b4 of Inl e \<Rightarrow> Inl e | Inr (pl, b5) \<Rightarrow>
      case read_uint 4 b5 of Inl e \<Rightarrow> Inl e | Inr (oper, b6) \<Rightarrow>
      case read_uint 8 b6 of Inl e \<Rightarrow> Inl e | Inr (od, b7) \<Rightarrow>
        Inr (\<lparr>source_node = sn, dest_node = dn, source_actor = sa, dest_actor = da, payload_len = pl,
              operation = oper, operation_data = od\<rparr>, b7))"

section \<open>Lemmas\<close>

definition header_ok :: "header \<Rightarrow> bool" where
  "header_ok hdr \<longleftrightarrow> nid_ok (source_node hdr) \<and> nid_ok (dest_node hdr) \<and> source_actor hdr < 2 ^ 32 \<and> dest_actor hdr < 2 ^ 32
     \<and> payload_len hdr < 2 ^ 32 \<and> operation hdr < 2 ^ 32 \<and> operation_data hdr < 2 ^ 64"

lemma read_uint8: "n < 2 ^ 64 \<Longrightarrow> read_uint 8 (write_int 8 (int n) @ rest) = Inr (n, rest)"
  using read_uint_write_int [of "int n" 8 rest] by simp

lemma length_basp_write: "header_ok hdr \<Longrightarrow> length (basp_write hdr) = header_size"
  by (simp add: basp_write_def header_ok_def header_size_def host_id_size_def)

lemma basp_read_write: "header_ok hdr \<Longrightarrow> basp_read (basp_write hdr @ rest) = Inr (hdr, rest)"
  by (simp add: basp_read_def basp_write_def header_ok_def nid_roundtrip read_uint4 read_uint8)

lemma basp_read_write_exact: "header_ok hdr \<Longrightarrow> basp_read (basp_write hdr) = Inr (hdr, [])"
  using basp_read_write [of hdr "[]"] by simp

lemma read_uint_length: "read_uint w buf = Inr (n, rest) \<Longrightarrow> length buf = w + length rest"
  by (auto simp: read_uint_def range_check_def split: if_splits)

lemma nid_deserialize_length: "nid_deserialize buf = Inr (n, rest) \<Longrightarrow> length buf = 24 + length rest"
  by (auto simp: nid_deserialize_def bd_read_raw_def range_check_def host_id_size_def split: if_splits sum.splits dest!: read_uint_length)

text \<open>
  A header takes 72 bytes and is read back from them, whatever follows; from fewer than
  72 bytes no header is read, which is the error \<open>Out_of_range\<close>.
\<close>

theorem header_roundtrip:
  assumes "header_ok hdr"
  shows "length (basp_write hdr) = 72 \<and> basp_read (basp_write hdr @ rest) = Inr (hdr, rest)
    \<and> (\<forall>n < 72. basp_read (take n (basp_write hdr)) = Inl Out_of_range)"
proof -
  have err: "basp_read buf = Inl Out_of_range" if "length buf < 72" for buf
  proof (cases "basp_read buf")
    case (Inl e)
    then show ?thesis
      by (auto simp: basp_read_def nid_deserialize_def bd_read_raw_def read_uint_def split: sum.splits if_splits)
  next
    case (Inr r)
    then have "72 \<le> length buf"
      by (auto simp: basp_read_def split: sum.splits dest!: nid_deserialize_length read_uint_length)
    with that show ?thesis by simp
  qed
  have "length (basp_write hdr) = 72"
    using length_basp_write [OF assms] by (simp add: header_size_def host_id_size_def)
  then show ?thesis using basp_read_write [OF assms] err by simp
qed

definition demo_header :: header where
  "demo_header = \<lparr>source_node = Node_id 1 (replicate 20 7), dest_node = Invalid_node_id, source_actor = 5, dest_actor = 0,
     payload_len = 8, operation = op_server_handshake, operation_data = basp_version\<rparr>"

theorem header_roundtrip_witness:
  "basp_read (basp_write demo_header @ [1, 2, 3]) = Inr (demo_header, [1, 2, 3])
   \<and> basp_read (take 71 (basp_write demo_header)) = Inl Out_of_range"
proof -
  have "header_ok demo_header"
    by (simp add: header_ok_def demo_header_def nid_ok_def host_id_size_def list_all_iff op_defs basp_version_def)
  from header_roundtrip [OF this, of "[1, 2, 3]"] show ?thesis by simp
qed

end
