(* ===== verification/Basp_Broker.thy ===== *)
theory Basp_Broker
  imports Basp "HOL-Library.Char_ord"
begin

text \<open>
  The broker of the Binary Actor System Protocol (libcaf_io/src/basp_broker.cpp): connections
  and their handshakes, routes, proxies of remote actors, and messages from and to other nodes.
  Handles, ports, local actors, proxies and promises are numbers. What the broker does to
  its surroundings is a list of effects. How a message is written and which addresses of actors
  it contains is a parameter. Hooks are left out.
\<close>

section \<open>Definitions\<close>

subsection \<open>State\<close>

datatype connection_state = Await_server_handshake | Await_client_handshake | Await_header | Await_payload | Close_connection

record client_handshake_data =
  hs_result :: nat             \<comment> \<open>the promise of \<open>remote_actor\<close>\<close>
  hs_expected_ifs :: "string list"

record connection_context =
  cc_state :: connection_state
  cc_remote_id :: node_id
  cc_handshake_data :: "client_handshake_data option"
  cc_hdr :: header
  cc_published_actor :: "nat option"

datatype aref = Local_ref nat | Proxy_ref nat

datatype 'm bb_effect =
    Eff_write nat "nat list"           \<comment> \<open>bytes appended to the write buffer of a connection\<close>
  | Eff_flush nat
  | Eff_close nat
  | Eff_close_acceptor nat
  | Eff_configure_read nat nat
  | Eff_deliver nat "aref option" nat 'm   \<comment> \<open>receiver, sender, message id\<close>
  | Eff_invalid_receiver nat
  | Eff_no_route node_id
  | Eff_promise_value nat "aref option"
  | Eff_promise_error nat string
  | Eff_kill_proxy nat nat               \<comment> \<open>proxy, reason\<close>
  | Eff_link nat nat                     \<comment> \<open>\<open>local_link_to\<close>: proxy, local actor\<close>
  | Eff_unlink nat nat
  | Eff_watch nat node_id                \<comment> \<open>a functor that reports the end of a local actor to a node\<close>

text \<open>What other components make of a message: its bytes, the addresses in it, and whether it is
  \<open>_Link\<close> or (\<open>True\<close>) \<open>_Unlink\<close> with an address.\<close>

record 'm codec =
  write_msg :: "'m \<Rightarrow> nat list"
  read_msg :: "nat list \<Rightarrow> bin_error + 'm"
  addrs_of :: "'m \<Rightarrow> (node_id \<times> nat) list"
  signal_of :: "'m \<Rightarrow> (bool \<times> node_id \<times> nat) option"

type_synonym routing_table_entry = "nat option \<times> nat list"    \<comment> \<open>default route, alternatives\<close>

record 'm basp_broker =
  bb_node :: node_id
  m_ctx :: "nat \<rightharpoonup> connection_context"
  m_acceptors :: "nat \<rightharpoonup> nat \<times> nat"        \<comment> \<open>published actor, port\<close>
  m_open_ports :: "nat \<rightharpoonup> nat"
  m_routes :: "(node_key \<times> routing_table_entry) list"
  m_blacklist :: "(node_key \<times> nat) list"
  m_namespace :: actor_namespace
  m_current_context :: "nat option"
  bb_scribes :: "nat list"               \<comment> \<open>the open connections of the base class\<close>
  bb_registry :: actor_registry
  bb_exit_of :: "nat \<Rightarrow> nat"              \<comment> \<open>exit reasons of the local actors\<close>
  bb_proxies :: "(node_id \<times> nat) list"  \<comment> \<open>every proxy ever made, by its number\<close>
  bb_expired :: "nat list"
  bb_effects :: "'m bb_effect list"

datatype bb_error =
    Bb_read bin_error
  | Bb_null_proxy
  | Bb_null_payload
  | Bb_invalid_handle
  | Bb_invalid_operation
  | Bb_require

definition bb_emit :: "'m bb_effect \<Rightarrow> 'm basp_broker \<Rightarrow> 'm basp_broker" where
  "bb_emit e s = s\<lparr>bb_effects := bb_effects s @ [e]\<rparr>"

text \<open>Functions of the base class: \<open>wr_buf\<close> and \<open>configure_read\<close> throw for a handle that is not open;
  \<open>close\<close> takes the connection out without a message to the broker.\<close>

definition wr_buf :: "nat \<Rightarrow> nat list \<Rightarrow> 'm basp_broker \<Rightarrow> bb_error + 'm basp_broker" where
  "wr_buf hdl bytes s = (if hdl \<in> set (bb_scribes s) then Inr (bb_emit (Eff_write hdl bytes) s) else Inl Bb_invalid_handle)"

definition bb_close :: "nat \<Rightarrow> 'm basp_broker \<Rightarrow> bb_error + 'm basp_broker" where
  "bb_close hdl s =
     (if hdl \<in> set (bb_scribes s) then Inr (bb_emit (Eff_close hdl) (s\<lparr>bb_scribes := removeAll hdl (bb_scribes s)\<rparr>))
      else Inl Bb_invalid_handle)"

definition configure_read :: "nat \<Rightarrow> nat \<Rightarrow> 'm basp_broker \<Rightarrow> bb_error + 'm basp_broker" where
  "configure_read hdl n s = (if hdl \<in> set (bb_scribes s) then Inr (bb_emit (Eff_configure_read hdl n) s) else Inl Bb_invalid_handle)"

subsection \<open>Routes\<close>

definition entry_route :: "routing_table_entry \<Rightarrow> nat option" where
  "entry_route e = (case fst e of Some h \<Rightarrow> Some h | None \<Rightarrow> (case snd e of [] \<Rightarrow> None | h # _ \<Rightarrow> Some h))"

definition get_route :: "node_id \<Rightarrow> 'm basp_broker \<Rightarrow> nat option" where
  "get_route dest s = (case map_of (m_routes s) (nkey dest) of Some entry \<Rightarrow> entry_route entry | None \<Rightarrow> None)"

definition blacklist_less :: "node_key \<times> nat \<Rightarrow> node_key \<times> nat \<Rightarrow> bool" where
  "blacklist_less lhs rhs = (if fst lhs < fst rhs then snd lhs < snd rhs else False)"

definition blacklisted :: "node_key \<times> nat \<Rightarrow> 'm basp_broker \<Rightarrow> bool" where
  "blacklisted x s \<longleftrightarrow> list_ex (\<lambda>y. \<not> blacklist_less x y \<and> \<not> blacklist_less y x) (m_blacklist s)"

definition add_route :: "node_id \<Rightarrow> nat \<Rightarrow> 'm basp_broker \<Rightarrow> 'm basp_broker" where
  "add_route nid hdl s =
     (if \<not> blacklisted (nkey nid, hdl) s
      then let (d, alts) = (case map_of (m_routes s) (nkey nid) of Some e \<Rightarrow> e | None \<Rightarrow> (None, []))
           in s\<lparr>m_routes := AList.update (nkey nid) (d, fst (oset_insert hdl alts)) (m_routes s)\<rparr>
      else s)"

definition try_set_default_route :: "node_id \<Rightarrow> nat \<Rightarrow> 'm basp_broker \<Rightarrow> bool \<times> 'm basp_broker" where
  "try_set_default_route nid hdl s =
     (let (d, alts) = (case map_of (m_routes s) (nkey nid) of Some e \<Rightarrow> e | None \<Rightarrow> (None, []))
      in if d = None then (True, s\<lparr>m_routes := AList.update (nkey nid) (Some hdl, alts) (m_routes s)\<rparr>) else (False, s))"

subsection \<open>Proxies\<close>

definition bb_live :: "'m basp_broker \<Rightarrow> nat \<Rightarrow> bool" where
  "bb_live s p \<longleftrightarrow> p \<notin> set (bb_expired s)"

definition mk_header :: "node_id \<Rightarrow> node_id \<Rightarrow> nat \<Rightarrow> nat \<Rightarrow> nat \<Rightarrow> nat \<Rightarrow> nat \<Rightarrow> header" where
  "mk_header sn dn sa da pl oper od = \<lparr>source_node = sn, dest_node = dn, source_actor = sa, dest_actor = da,
     payload_len = pl mod 2 ^ 32, operation = oper, operation_data = od\<rparr>"

text \<open>The result is the number of the new proxy; the connection the broker reads from is
  \<open>m_current_context\<close>. An invalid handle of the route is an exception, which the state tells.\<close>

definition make_proxy :: "node_id \<Rightarrow> nat \<Rightarrow> bb_error + 'm basp_broker \<Rightarrow> nat option \<times> (bb_error + 'm basp_broker)" where
  "make_proxy nid aid st = (case st of Inl e \<Rightarrow> (None, Inl e) | Inr s \<Rightarrow>
     (case m_current_context s of
        None \<Rightarrow> (None, Inl Bb_require)
      | Some h \<Rightarrow>
          (let rid = (case m_ctx s h of Some c \<Rightarrow> cc_remote_id c | None \<Rightarrow> Invalid_node_id);
               s1 = (if \<not> node_eq nid rid then add_route nid h s else s)
           in case get_route nid s1 of
                None \<Rightarrow> (None, Inr s1)
              | Some r \<Rightarrow>
                  (case wr_buf r (basp_write (mk_header (bb_node s1) nid 0 aid 0 op_announce_proxy_instance 0)) s1 of
                     Inl e \<Rightarrow> (None, Inl e)
                   | Inr s2 \<Rightarrow> (Some (length (bb_proxies s2)), Inr (s2\<lparr>bb_proxies := bb_proxies s2 @ [(nid, aid)]\<rparr>))))))"

definition bb_get_or_put :: "node_id \<Rightarrow> nat \<Rightarrow> 'm basp_broker \<Rightarrow> bb_error + nat \<times> 'm basp_broker" where
  "bb_get_or_put nid aid s = (case ns_get_or_put (bb_live s) (make_proxy nid aid) (nkey nid) aid (m_namespace s) (Inr s) of
      (Inr p, ns, Inr s1) \<Rightarrow> Inr (p, s1\<lparr>m_namespace := ns\<rparr>)
    | (Inr p, ns, Inl e) \<Rightarrow> Inl e
    | (Inl _, ns, Inr s1) \<Rightarrow> Inl Bb_null_proxy
    | (Inl _, ns, Inl e) \<Rightarrow> Inl e)"

definition erase_proxy :: "node_id \<Rightarrow> nat \<Rightarrow> 'm basp_broker \<Rightarrow> 'm basp_broker" where
  "erase_proxy nid aid s = s\<lparr>m_namespace := ns_erase (nkey nid) aid (m_namespace s)\<rparr>"

definition send_kill_proxy_instance :: "node_id \<Rightarrow> nat \<Rightarrow> nat \<Rightarrow> 'm basp_broker \<Rightarrow> bb_error + 'm basp_broker" where
  "send_kill_proxy_instance nid aid reason s = (case get_route nid s of
      None \<Rightarrow> Inr s
    | Some h \<Rightarrow>
        (case wr_buf h (basp_write (mk_header (bb_node s) nid aid 0 0 op_kill_proxy_instance reason)) s of
           Inl e \<Rightarrow> Inl e | Inr s1 \<Rightarrow> Inr (bb_emit (Eff_flush h) s1)))"

text \<open>Reading a payload: the addresses of remote actors in it become proxies.\<close>

fun read_addrs :: "(node_id \<times> nat) list \<Rightarrow> 'm basp_broker \<Rightarrow> bb_error + 'm basp_broker" where
  "read_addrs [] s = Inr s"
| "read_addrs ((node, aid) # as) s =
     (if node = bb_node s then read_addrs as s
      else case bb_get_or_put node aid s of Inl e \<Rightarrow> Inl e | Inr (p, s1) \<Rightarrow> read_addrs as s1)"

definition read_payload :: "'m codec \<Rightarrow> nat list \<Rightarrow> 'm basp_broker \<Rightarrow> bb_error + 'm \<times> 'm basp_broker" where
  "read_payload code buf s = (case read_msg code buf of Inl e \<Rightarrow> Inl (Bb_read e) | Inr m \<Rightarrow>
     case read_addrs (addrs_of code m) s of Inl e \<Rightarrow> Inl e | Inr s1 \<Rightarrow> Inr (m, s1))"

subsection \<open>Messages\<close>

text \<open>\<open>dispatch(hdr, msg)\<close>: from a remote node to a local actor.\<close>

definition resolve_source :: "header \<Rightarrow> 'm basp_broker \<Rightarrow> bb_error + aref option \<times> 'm basp_broker" where
  "resolve_source hdr s =
     (if valid_node (source_node hdr) \<and> source_actor hdr \<noteq> 0
      then if \<not> node_eq (source_node hdr) (bb_node s)
           then (case bb_get_or_put (source_node hdr) (source_actor hdr) s of
                   Inl e \<Rightarrow> Inl e | Inr (p, s1) \<Rightarrow> Inr (Some (Proxy_ref p), s1))
           else Inr (map_option Local_ref (reg_get (source_actor hdr) (bb_registry s)), s)
      else Inr (None, s))"

definition link_signal :: "'m codec \<Rightarrow> 'm \<Rightarrow> 'm basp_broker \<Rightarrow> (bool \<times> nat) option" where
  "link_signal code msg s = (case signal_of code msg of
      Some (is_unlink, node, aid) \<Rightarrow>
        if node = bb_node s then None else map_option (\<lambda>p. (is_unlink, p)) (ns_lookup (m_namespace s) (nkey node) aid)
    | None \<Rightarrow> None)"

definition dispatch_in :: "'m codec \<Rightarrow> header \<Rightarrow> 'm \<Rightarrow> 'm basp_broker \<Rightarrow> bb_error + 'm basp_broker" where
  "dispatch_in code hdr msg s = (case resolve_source hdr s of Inl e \<Rightarrow> Inl e | Inr (src, s1) \<Rightarrow>
     (case reg_get (dest_actor hdr) (bb_registry s1) of
        None \<Rightarrow> Inr (bb_emit (Eff_invalid_receiver (dest_actor hdr)) s1)
      | Some dest \<Rightarrow>
          (case (if src = Some (Local_ref dest) then link_signal code msg s1 else None) of
             Some (is_unlink, p) \<Rightarrow> Inr (bb_emit (if is_unlink then Eff_unlink p dest else Eff_link p dest) s1)
           | None \<Rightarrow> Inr (bb_emit (Eff_deliver dest src (operation_data hdr) msg) s1))))"

text \<open>\<open>dispatch(from, to, mid, msg)\<close>: from a local actor to a remote node. The node of an invalid
  address is this node.\<close>

definition addr_node :: "'m basp_broker \<Rightarrow> actor_addr \<Rightarrow> node_id" where
  "addr_node s addr = (case addr of Some (node, _) \<Rightarrow> node | None \<Rightarrow> bb_node s)"

definition addr_id :: "actor_addr \<Rightarrow> nat" where
  "addr_id addr = (case addr of Some (_, aid) \<Rightarrow> aid | None \<Rightarrow> 0)"

definition dispatch_out :: "'m codec \<Rightarrow> actor_addr \<Rightarrow> node_id \<times> nat \<Rightarrow> nat \<Rightarrow> 'm \<Rightarrow> 'm basp_broker \<Rightarrow> bb_error + 'm basp_broker" where
  "dispatch_out code from_addr to_addr mid msg s = (let (dest, to_id) = to_addr in case get_route dest s of
      None \<Rightarrow> Inr (bb_emit (Eff_no_route dest) s)
    | Some h \<Rightarrow>
        (let payload = write_msg code msg;
             s1 = (case from_addr of
                     Some (node, aid) \<Rightarrow>
                       if node_eq node (bb_node s)
                       then s\<lparr>bb_registry := fst (reg_put aid (Some aid) (bb_exit_of s aid) (bb_registry s))\<rparr> else s
                   | None \<Rightarrow> s);
             hdr = mk_header (addr_node s from_addr) dest (addr_id from_addr) to_id (length payload) op_dispatch_message mid
         in case wr_buf h (basp_write hdr @ payload) s1 of
              Inl e \<Rightarrow> Inl e | Inr s2 \<Rightarrow> Inr (bb_emit (Eff_flush h) s2)))"

subsection \<open>Handshakes\<close>

fun read_ifs :: "nat \<Rightarrow> nat list \<Rightarrow> bin_error + string list" where
  "read_ifs 0 buf = Inr []"
| "read_ifs (Suc n) buf = (case read_range_string buf of Inl e \<Rightarrow> Inl e | Inr (str, buf') \<Rightarrow>
     case read_ifs n buf' of Inl e \<Rightarrow> Inl e | Inr strs \<Rightarrow> Inr (str # strs))"

definition read_server_handshake :: "nat list \<Rightarrow> bin_error + nat \<times> string list" where
  "read_server_handshake buf = (case read_uint 4 buf of Inl e \<Rightarrow> Inl e | Inr (remote_aid, b1) \<Rightarrow>
     case read_uint 4 b1 of Inl e \<Rightarrow> Inl e | Inr (n, b2) \<Rightarrow>
     case read_ifs n b2 of Inl e \<Rightarrow> Inl e | Inr ifs \<Rightarrow> Inr (remote_aid, ifs))"

definition join_ifs :: "string list \<Rightarrow> string" where
  "join_ifs what = (case what of [] \<Rightarrow> ''actor''
     | x # xs \<Rightarrow> ''typed_actor<'' @ x @ concat (map (\<lambda>y. '','' @ y) xs) @ ''>'')"

definition ifs_error :: "string list \<Rightarrow> string list \<Rightarrow> string" where
  "ifs_error ifs remote_ifs =
     (if ifs = [] then ''expected remote actor to be a dynamically typed actor but found a strongly typed actor of type '' @ join_ifs remote_ifs
      else if remote_ifs = [] then ''expected remote actor to be a strongly typed actor of type '' @ join_ifs ifs @ '' but found a dynamically typed actor''
      else ''expected remote actor to be a strongly typed actor of type '' @ join_ifs ifs @ '' but found a strongly typed actor of type '' @ join_ifs remote_ifs)"

definition set_ctx :: "nat \<Rightarrow> connection_context \<Rightarrow> 'm basp_broker \<Rightarrow> 'm basp_broker" where
  "set_ctx h c s = s\<lparr>m_ctx := (m_ctx s)(h \<mapsto> c)\<rparr>"

text \<open>The case \<open>server_handshake\<close> of \<open>handle_basp_header\<close> for the connection \<open>h\<close> with context \<open>c\<close>;
  first its end, after the check of the interface.\<close>

definition complete_handshake :: "nat \<Rightarrow> connection_context \<Rightarrow> client_handshake_data \<Rightarrow> nat \<Rightarrow> 'm basp_broker
    \<Rightarrow> bb_error + connection_state \<times> 'm basp_broker" where
  "complete_handshake h c hs remote_aid s =
     (let nid = cc_remote_id c; c1 = c\<lparr>cc_handshake_data := None\<rparr>; done_value = (\<lambda>v. bb_emit (Eff_promise_value (hs_result hs) v))
      in if node_eq nid (bb_node s)
         then Inr (Close_connection, done_value (map_option Local_ref (reg_get remote_aid (bb_registry s))) (set_ctx h c1 s))
         else (case try_set_default_route nid h s of (is_new, s1) \<Rightarrow>
           if \<not> is_new
           then (case bb_get_or_put nid remote_aid s1 of
                   Inl e \<Rightarrow> Inl e
                 | Inr (p, s2) \<Rightarrow> Inr (Close_connection, done_value (Some (Proxy_ref p)) (set_ctx h c1 s2)))
           else (case wr_buf h (basp_write (mk_header (bb_node s1) nid 0 0 0 op_client_handshake 0)) s1 of
                   Inl e \<Rightarrow> Inl e
                 | Inr s2 \<Rightarrow>
                     (case bb_get_or_put nid remote_aid s2 of
                        Inl e \<Rightarrow> Inl e
                      | Inr (p, s3) \<Rightarrow>
                          Inr (Await_header, done_value (Some (Proxy_ref p)) (set_ctx h (c1\<lparr>cc_published_actor := Some p\<rparr>) s3))))))"

definition handle_server_handshake :: "nat \<Rightarrow> connection_context \<Rightarrow> header \<Rightarrow> nat list option \<Rightarrow> 'm basp_broker
    \<Rightarrow> bb_error + connection_state \<times> 'm basp_broker" where
  "handle_server_handshake h c hdr payload s = (case cc_handshake_data c of
      None \<Rightarrow> Inr (Close_connection, s)
    | Some hs \<Rightarrow>
        if operation_data hdr \<noteq> basp_version then Inr (Close_connection, s)
        else (let c1 = c\<lparr>cc_remote_id := source_node hdr\<rparr>; s1 = set_ctx h c1 s
              in case payload of
                   None \<Rightarrow> Inl Bb_null_payload
                 | Some buf \<Rightarrow>
                     (case read_server_handshake buf of
                        Inl e \<Rightarrow> Inl (Bb_read e)
                      | Inr (remote_aid, strs) \<Rightarrow>
                          (let remote_ifs = sort (remdups strs); ifs = hs_expected_ifs hs
                           in if \<not> list_all (\<lambda>i. i \<in> set ifs) remote_ifs
                              then Inr (Close_connection, bb_emit (Eff_promise_error (hs_result hs) (ifs_error ifs remote_ifs)) s1)
                              else complete_handshake h c1 hs remote_aid s1))))"

definition handle_client_handshake :: "nat \<Rightarrow> connection_context \<Rightarrow> header \<Rightarrow> 'm basp_broker \<Rightarrow> connection_state \<times> 'm basp_broker" where
  "handle_client_handshake h c hdr s =
     (if cc_remote_id c \<noteq> Invalid_node_id then (Close_connection, s)
      else let s1 = set_ctx h (c\<lparr>cc_remote_id := source_node hdr\<rparr>) s
           in if node_eq (bb_node s1) (source_node hdr) then (Close_connection, s1)
              else case try_set_default_route (source_node hdr) h s1 of
                     (False, s2) \<Rightarrow> (Close_connection, s2) | (True, s2) \<Rightarrow> (Await_header, s2))"

subsection \<open>Incoming data\<close>

definition handle_announce :: "header \<Rightarrow> 'm basp_broker \<Rightarrow> bb_error + 'm basp_broker" where
  "handle_announce hdr s = (let entry = get_entry (dest_actor hdr) (bb_registry s)
     in if snd entry \<noteq> not_exited then send_kill_proxy_instance (source_node hdr) (dest_actor hdr) (snd entry) s
        else Inr (bb_emit (Eff_watch (dest_actor hdr) (source_node hdr)) s))"

definition handle_kill :: "header \<Rightarrow> 'm basp_broker \<Rightarrow> 'm basp_broker" where
  "handle_kill hdr s = (case ns_get (bb_live s) (nkey (source_node hdr)) (source_actor hdr) (m_namespace s) of
      (Some p, ns) \<Rightarrow> bb_emit (Eff_kill_proxy p (operation_data hdr mod 2 ^ 32))
         (s\<lparr>m_namespace := ns_erase (nkey (source_node hdr)) (source_actor hdr) ns\<rparr>)
    | (None, ns) \<Rightarrow> s\<lparr>m_namespace := ns\<rparr>)"

definition forward_header :: "header \<Rightarrow> nat list option \<Rightarrow> 'm basp_broker \<Rightarrow> bb_error + connection_state \<times> 'm basp_broker" where
  "forward_header hdr payload s = (case get_route (dest_node hdr) s of
      None \<Rightarrow> Inr (Close_connection, s)
    | Some h \<Rightarrow>
        (case wr_buf h (basp_write hdr @ (case payload of Some buf \<Rightarrow> buf | None \<Rightarrow> [])) s of
           Inl e \<Rightarrow> Inl e | Inr s1 \<Rightarrow> Inr (Await_header, bb_emit (Eff_flush h) s1)))"

definition handle_basp_header :: "'m codec \<Rightarrow> nat \<Rightarrow> connection_context \<Rightarrow> nat list option \<Rightarrow> 'm basp_broker
    \<Rightarrow> bb_error + connection_state \<times> 'm basp_broker" where
  "handle_basp_header code h c payload s =
     (let hdr = cc_hdr c; continue = map_sum id (Pair Await_header)
      in if payload = None \<and> payload_len hdr > 0 then Inr (Await_payload, s)
         else if valid_node (dest_node hdr) \<and> \<not> node_eq (dest_node hdr) (bb_node s) then forward_header hdr payload s
         else if operation hdr = op_dispatch_message
         then (case payload of
                 None \<Rightarrow> Inl Bb_null_payload
               | Some buf \<Rightarrow>
                   (case read_payload code buf s of
                      Inl e \<Rightarrow> Inl e | Inr (content, s1) \<Rightarrow> continue (dispatch_in code hdr content s1)))
         else if operation hdr = op_announce_proxy_instance then continue (handle_announce hdr s)
         else if operation hdr = op_kill_proxy_instance then Inr (Await_header, handle_kill hdr s)
         else if operation hdr = op_client_handshake then Inr (handle_client_handshake h c hdr s)
         else if operation hdr = op_server_handshake then handle_server_handshake h c hdr payload s
         else Inl Bb_invalid_operation)"

text \<open>The end of \<open>new_data\<close>: the connection is closed, or waits for the next header or payload.\<close>

definition enter_state :: "nat \<Rightarrow> connection_state \<Rightarrow> 'm basp_broker \<Rightarrow> bb_error + 'm basp_broker" where
  "enter_state h next_state s =
     (if next_state = Close_connection
      then map_sum id (\<lambda>s1. s1\<lparr>m_ctx := (m_ctx s1)(h := None)\<rparr>) (bb_close h s)
      else (case m_ctx s h of
              None \<Rightarrow> Inl Bb_require
            | Some c \<Rightarrow>
                configure_read h (if next_state = Await_payload then payload_len (cc_hdr c) else header_size)
                  (set_ctx h (c\<lparr>cc_state := next_state\<rparr>) s)))"

definition new_data :: "'m codec \<Rightarrow> nat \<Rightarrow> nat list \<Rightarrow> 'm basp_broker \<Rightarrow> bb_error + 'm basp_broker" where
  "new_data code h buf s0 = (let s = s0\<lparr>m_current_context := Some h\<rparr> in case m_ctx s h of
      None \<Rightarrow> Inl Bb_require
    | Some c \<Rightarrow>
        if cc_state c = Await_payload
        then (case handle_basp_header code h c (Some buf) s of
                Inl e \<Rightarrow> Inl e | Inr (next_state, s1) \<Rightarrow> enter_state h next_state s1)
        else (case basp_read buf of
                Inl e \<Rightarrow> Inl (Bb_read e)
              | Inr (hdr, _) \<Rightarrow>
                  (let c1 = c\<lparr>cc_hdr := hdr\<rparr>; s1 = set_ctx h c1 s
                   in if \<not> header_valid hdr then enter_state h Close_connection s1
                      else (case handle_basp_header code h c1 None s1 of
                              Inl e \<Rightarrow> Inl e | Inr (next_state, s2) \<Rightarrow> enter_state h next_state s2))))"

subsection \<open>Connections and published actors\<close>

definition blank_header :: header where
  "blank_header = \<lparr>source_node = Invalid_node_id, dest_node = Invalid_node_id, source_actor = 0, dest_actor = 0,
     payload_len = 0, operation = 0, operation_data = 0\<rparr>"

definition new_context :: "connection_state \<Rightarrow> client_handshake_data option \<Rightarrow> connection_context" where
  "new_context st hs = \<lparr>cc_state = st, cc_remote_id = Invalid_node_id, cc_handshake_data = hs, cc_hdr = blank_header, cc_published_actor = None\<rparr>"

definition init_client :: "nat \<Rightarrow> client_handshake_data \<Rightarrow> 'm basp_broker \<Rightarrow> bb_error + 'm basp_broker" where
  "init_client h hs s =
     (let c = (case m_ctx s h of Some c \<Rightarrow> c\<lparr>cc_state := Await_server_handshake, cc_handshake_data := Some hs\<rparr>
               | None \<Rightarrow> new_context Await_server_handshake (Some hs))
      in configure_read h header_size (set_ctx h c s))"

definition init_handshake_as_sever :: "nat \<Rightarrow> nat \<Rightarrow> string list \<Rightarrow> 'm basp_broker \<Rightarrow> bb_error + 'm basp_broker" where
  "init_handshake_as_sever h aid sigs s =
     (let payload = write_int 4 (int aid) @ write_int 4 (int (length sigs)) @ concat (map write_string sigs);
          hdr = mk_header (bb_node s) Invalid_node_id aid 0 (length payload) op_server_handshake basp_version
      in case wr_buf h (basp_write hdr @ payload) s of
           Inl e \<Rightarrow> Inl e
         | Inr s1 \<Rightarrow>
             (case m_ctx s1 h of
                None \<Rightarrow> Inl Bb_require
              | Some c \<Rightarrow>
                  configure_read h header_size (set_ctx h (c\<lparr>cc_state := Await_client_handshake\<rparr>) (bb_emit (Eff_flush h) s1))))"

text \<open>The signatures of a published actor are a parameter; the published actor is a local one.\<close>

definition new_connection :: "(nat \<Rightarrow> string list) \<Rightarrow> nat \<Rightarrow> nat \<Rightarrow> 'm basp_broker \<Rightarrow> bb_error + 'm basp_broker" where
  "new_connection message_types source h s = (case m_acceptors s source of
      None \<Rightarrow> Inl Bb_require
    | Some (actor, port) \<Rightarrow>
        init_handshake_as_sever h actor (message_types actor) (set_ctx h (new_context Await_client_handshake None) s))"

definition purge_entry :: "nat \<Rightarrow> routing_table_entry \<Rightarrow> routing_table_entry" where
  "purge_entry h e = (if fst e = Some h then None else fst e, fst (oset_erase h (snd e)))"

definition lost_entry :: "routing_table_entry \<Rightarrow> bool" where
  "lost_entry e \<longleftrightarrow> fst e = None \<and> snd e = []"

text \<open>The second loop of the handler: all proxies of an unreachable node are killed.\<close>

fun drop_nodes :: "node_key list \<Rightarrow> 'm basp_broker \<Rightarrow> 'm basp_broker" where
  "drop_nodes [] s = s"
| "drop_nodes (lc # lcs) s =
     (let (ps, ns) = ns_get_all (bb_live s) lc (m_namespace s)
      in drop_nodes lcs (s\<lparr>m_routes := AList.delete lc (m_routes s), m_namespace := ns_erase_node lc ns,
           bb_effects := bb_effects s @ map (\<lambda>p. Eff_kill_proxy p remote_link_unreachable) ps\<rparr>))"

definition connection_closed :: "nat \<Rightarrow> 'm basp_broker \<Rightarrow> 'm basp_broker" where
  "connection_closed h s =
     (let s1 = (case m_ctx s h of
                  Some c \<Rightarrow>
                    (case cc_handshake_data c of
                       Some hs \<Rightarrow> bb_emit (Eff_promise_error (hs_result hs) ''disconnect during handshake'') s | None \<Rightarrow> s)
                | None \<Rightarrow> s);
          s2 = s1\<lparr>m_ctx := (m_ctx s1)(h := None), bb_scribes := removeAll h (bb_scribes s1),
                  m_routes := map (\<lambda>(k, e). (k, purge_entry h e)) (m_routes s1)\<rparr>
      in drop_nodes (map fst (filter (\<lambda>(k, e). lost_entry e) (m_routes s2))) s2)"

definition acceptor_closed :: "nat \<Rightarrow> 'm basp_broker \<Rightarrow> 'm basp_broker" where
  "acceptor_closed a s = (case m_acceptors s a of
      None \<Rightarrow> s
    | Some (_, port) \<Rightarrow> s\<lparr>m_open_ports := (m_open_ports s)(port := None), m_acceptors := (m_acceptors s)(a := None)\<rparr>)"

text \<open>\<open>insert\<close> keeps an entry that is there.\<close>

definition add_published_actor :: "nat \<Rightarrow> nat \<Rightarrow> nat \<Rightarrow> 'm basp_broker \<Rightarrow> 'm basp_broker" where
  "add_published_actor a actor port s =
     s\<lparr>m_acceptors := (case m_acceptors s a of None \<Rightarrow> (m_acceptors s)(a \<mapsto> (actor, port)) | Some _ \<Rightarrow> m_acceptors s),
       m_open_ports := (case m_open_ports s port of None \<Rightarrow> (m_open_ports s)(port \<mapsto> a) | Some _ \<Rightarrow> m_open_ports s),
       bb_registry := fst (reg_put actor (Some actor) (bb_exit_of s actor) (bb_registry s))\<rparr>"

definition remove_published_actor :: "nat \<Rightarrow> nat \<Rightarrow> 'm basp_broker \<Rightarrow> 'm basp_broker" where
  "remove_published_actor whom port s = (case m_open_ports s port of
      None \<Rightarrow> s
    | Some a \<Rightarrow>
        (case m_acceptors s a of
           None \<Rightarrow> s\<lparr>m_open_ports := (m_open_ports s)(port := None)\<rparr>
         | Some (actor, _) \<Rightarrow>
             if actor \<noteq> whom then s
             else bb_emit (Eff_close_acceptor a)
               (s\<lparr>m_open_ports := (m_open_ports s)(port := None), m_acceptors := (m_acceptors s)(a := None)\<rparr>)))"

section \<open>Invariant\<close>

text \<open>Every entry of the routing table has a path; every node with a proxy has a route and the tables
  name the proxies rightly; every open port belongs to an acceptor.\<close>

definition routes_ok :: "(node_key \<times> routing_table_entry) list \<Rightarrow> bool" where
  "routes_ok rt \<longleftrightarrow> distinct (map fst rt) \<and> (\<forall>k e. map_of rt k = Some e \<longrightarrow> \<not> lost_entry e \<and> oset (snd e))"

definition proxies_ok :: "(node_key \<times> routing_table_entry) list \<Rightarrow> actor_namespace \<Rightarrow> (node_id \<times> nat) list \<Rightarrow> bool" where
  "proxies_ok rt ns ps \<longleftrightarrow> (\<forall>k a p. ns_lookup ns k a = Some p \<longrightarrow>
     p < length ps \<and> nkey (fst (ps ! p)) = k \<and> snd (ps ! p) = a \<and> map_of rt k \<noteq> None)"

definition ports_ok :: "(nat \<rightharpoonup> nat \<times> nat) \<Rightarrow> (nat \<rightharpoonup> nat) \<Rightarrow> bool" where
  "ports_ok acc ports \<longleftrightarrow> (\<forall>port a. ports port = Some a \<longrightarrow> (\<exists>actor. acc a = Some (actor, port)))"

definition bb_inv :: "'m basp_broker \<Rightarrow> bool" where
  "bb_inv s \<longleftrightarrow> routes_ok (m_routes s) \<and> proxies_ok (m_routes s) (m_namespace s) (bb_proxies s) \<and> ports_ok (m_acceptors s) (m_open_ports s)"

lemma bb_inv_cong:
  "bb_inv s \<Longrightarrow> m_routes s' = m_routes s \<Longrightarrow> m_namespace s' = m_namespace s \<Longrightarrow> bb_proxies s' = bb_proxies s
   \<Longrightarrow> m_acceptors s' = m_acceptors s \<Longrightarrow> m_open_ports s' = m_open_ports s \<Longrightarrow> bb_inv s'"
  by (simp add: bb_inv_def)

lemma bb_inv_emit [simp]: "bb_inv (bb_emit e s) = bb_inv s" "bb_inv (set_ctx h c s) = bb_inv s"
  by (simp_all add: bb_inv_def bb_emit_def set_ctx_def)

lemma bb_fields [simp]:
  "m_routes (bb_emit e s) = m_routes s" "m_namespace (bb_emit e s) = m_namespace s" "bb_proxies (bb_emit e s) = bb_proxies s"
  "m_ctx (bb_emit e s) = m_ctx s" "bb_scribes (bb_emit e s) = bb_scribes s" "bb_node (bb_emit e s) = bb_node s"
  "bb_registry (bb_emit e s) = bb_registry s" "bb_effects (bb_emit e s) = bb_effects s @ [e]" "bb_expired (bb_emit e s) = bb_expired s"
  "m_acceptors (bb_emit e s) = m_acceptors s" "m_open_ports (bb_emit e s) = m_open_ports s"
  "m_blacklist (bb_emit e s) = m_blacklist s" "m_current_context (bb_emit e s) = m_current_context s"
  "m_routes (set_ctx h c s) = m_routes s" "m_namespace (set_ctx h c s) = m_namespace s" "bb_proxies (set_ctx h c s) = bb_proxies s"
  "m_ctx (set_ctx h c s) = (m_ctx s)(h \<mapsto> c)" "bb_scribes (set_ctx h c s) = bb_scribes s" "bb_node (set_ctx h c s) = bb_node s"
  "bb_registry (set_ctx h c s) = bb_registry s" "bb_effects (set_ctx h c s) = bb_effects s" "bb_expired (set_ctx h c s) = bb_expired s"
  "m_acceptors (set_ctx h c s) = m_acceptors s" "m_open_ports (set_ctx h c s) = m_open_ports s"
  "m_blacklist (set_ctx h c s) = m_blacklist s" "m_current_context (set_ctx h c s) = m_current_context s"
  by (simp_all add: bb_emit_def set_ctx_def)

lemma wr_buf_eq: "wr_buf h bs s = Inr s' \<Longrightarrow> h \<in> set (bb_scribes s) \<and> s' = bb_emit (Eff_write h bs) s"
  by (auto simp: wr_buf_def split: if_splits)

lemma configure_read_eq: "configure_read h n s = Inr s' \<Longrightarrow> h \<in> set (bb_scribes s) \<and> s' = bb_emit (Eff_configure_read h n) s"
  by (auto simp: configure_read_def split: if_splits)

subsection \<open>Routes\<close>

lemma routes_ok_update:
  assumes "routes_ok rt" "\<not> lost_entry e" "oset (snd e)"
  shows "routes_ok (AList.update k e rt)"
  using assms by (auto simp: routes_ok_def distinct_update)

lemma routes_ok_entry:
  assumes "routes_ok rt" "(case map_of rt k of Some e \<Rightarrow> e | None \<Rightarrow> (None, [])) = (d, alts)"
  shows "oset alts"
  using assms by (cases "map_of rt k") (auto simp: routes_ok_def)

lemma proxies_ok_routes:
  "proxies_ok rt ns ps \<Longrightarrow> (\<And>k. map_of rt k \<noteq> None \<Longrightarrow> map_of rt' k \<noteq> None) \<Longrightarrow> proxies_ok rt' ns ps"
  unfolding proxies_ok_def by blast

lemma proxies_ok_update: "proxies_ok rt ns ps \<Longrightarrow> proxies_ok (AList.update k e rt) ns ps"
  by (erule proxies_ok_routes) (simp split: if_splits)

lemma proxies_ok_append:
  assumes "proxies_ok rt ns ps"
  shows "proxies_ok rt ns (ps @ [x])"
  unfolding proxies_ok_def
proof (intro allI impI)
  fix k a p assume "ns_lookup ns k a = Some p"
  with assms have "p < length ps" "nkey (fst (ps ! p)) = k" "snd (ps ! p) = a" "map_of rt k \<noteq> None"
    unfolding proxies_ok_def by blast+
  then show "p < length (ps @ [x]) \<and> nkey (fst ((ps @ [x]) ! p)) = k \<and> snd ((ps @ [x]) ! p) = a \<and> map_of rt k \<noteq> None"
    by (simp add: nth_append)
qed

lemma add_route_inv:
  assumes "bb_inv s"
  shows "bb_inv (add_route nid h s)"
proof (cases "blacklisted (nkey nid, h) s")
  case True
  with assms show ?thesis by (simp add: add_route_def)
next
  case False
  obtain d alts where e: "(case map_of (m_routes s) (nkey nid) of Some e \<Rightarrow> e | None \<Rightarrow> (None, [])) = (d, alts)" by fastforce
  have "oset alts" using assms routes_ok_entry [OF _ e] by (simp add: bb_inv_def)
  moreover have "\<not> lost_entry (d, fst (oset_insert h alts))"
    using oset_insert_set [of h alts] by (auto simp: lost_entry_def simp del: oset_insert_set)
  ultimately show ?thesis
    using assms False e by (auto simp: add_route_def bb_inv_def intro!: routes_ok_update proxies_ok_update)
qed

lemma try_set_default_route_inv:
  assumes "bb_inv s" "try_set_default_route nid h s = (b, s')"
  shows "bb_inv s'" "map_of (m_routes s') (nkey nid) \<noteq> None" "\<exists>r. get_route nid s' = Some r"
proof -
  obtain d alts where e: "(case map_of (m_routes s) (nkey nid) of Some e \<Rightarrow> e | None \<Rightarrow> (None, [])) = (d, alts)" by fastforce
  have o: "oset alts" using assms routes_ok_entry [OF _ e] by (simp add: bb_inv_def)
  show "bb_inv s'"
    using assms e o by (auto simp: try_set_default_route_def bb_inv_def lost_entry_def split: if_splits
        intro!: routes_ok_update proxies_ok_update)
  show "map_of (m_routes s') (nkey nid) \<noteq> None" "\<exists>r. get_route nid s' = Some r"
    using assms(2) e by (auto simp: try_set_default_route_def get_route_def entry_route_def split: if_splits option.splits)
qed

lemma get_route_Some: "get_route nid s = Some r \<Longrightarrow> map_of (m_routes s) (nkey nid) \<noteq> None"
  by (auto simp: get_route_def split: option.splits)

lemma routed: "routes_ok (m_routes s) \<Longrightarrow> map_of (m_routes s) (nkey nid) \<noteq> None \<Longrightarrow> \<exists>r. get_route nid s = Some r"
  by (auto simp: get_route_def entry_route_def routes_ok_def lost_entry_def split: option.splits list.splits) force

subsection \<open>Proxies\<close>

text \<open>What reading never changes.\<close>

definition same_frame :: "'m basp_broker \<Rightarrow> 'm basp_broker \<Rightarrow> bool" where
  "same_frame s s' \<longleftrightarrow> bb_node s' = bb_node s \<and> m_ctx s' = m_ctx s \<and> bb_scribes s' = bb_scribes s \<and> bb_registry s' = bb_registry s
     \<and> bb_expired s' = bb_expired s \<and> m_acceptors s' = m_acceptors s \<and> m_open_ports s' = m_open_ports s
     \<and> m_current_context s' = m_current_context s \<and> m_blacklist s' = m_blacklist s \<and> bb_exit_of s' = bb_exit_of s"

lemma same_frame_refl [simp]: "same_frame s s"
  by (simp add: same_frame_def)

lemma same_frame_trans: "same_frame s s1 \<Longrightarrow> same_frame s1 s2 \<Longrightarrow> same_frame s s2"
  by (simp add: same_frame_def)

lemma bb_exit_of_fields [simp]: "bb_exit_of (bb_emit e s) = bb_exit_of s" "bb_exit_of (set_ctx h c s) = bb_exit_of s"
  by (simp_all add: bb_emit_def set_ctx_def)

lemma add_route_frame: "same_frame s (add_route nid h s) \<and> m_namespace (add_route nid h s) = m_namespace s
    \<and> bb_proxies (add_route nid h s) = bb_proxies s \<and> bb_effects (add_route nid h s) = bb_effects s"
  by (simp add: same_frame_def add_route_def split: prod.split)

lemma make_proxy_ok:
  assumes "bb_inv s" "make_proxy nid aid (Inr s) = (Some p, Inr s')"
  shows "bb_inv s'" "same_frame s s'" "m_namespace s' = m_namespace s" "map_of (m_routes s') (nkey nid) \<noteq> None"
    "p = length (bb_proxies s)" "bb_proxies s' = bb_proxies s @ [(nid, aid)]" "set (bb_effects s) \<subseteq> set (bb_effects s')"
proof -
  from assms(2) obtain h where h: "m_current_context s = Some h" by (auto simp: make_proxy_def split: option.splits)
  define s1 where "s1 = (if \<not> node_eq nid (case m_ctx s h of Some c \<Rightarrow> cc_remote_id c | None \<Rightarrow> Invalid_node_id) then add_route nid h s else s)"
  have s1: "bb_inv s1" "same_frame s s1" "m_namespace s1 = m_namespace s" "bb_proxies s1 = bb_proxies s" "bb_effects s1 = bb_effects s"
    using assms(1) add_route_inv add_route_frame [of s nid h] by (auto simp: s1_def)
  from assms(2) h obtain r s2 where r: "get_route nid s1 = Some r" and
    w: "wr_buf r (basp_write (mk_header (bb_node s1) nid 0 aid 0 op_announce_proxy_instance 0)) s1 = Inr s2" and
    p: "p = length (bb_proxies s2)" and s': "s' = s2\<lparr>bb_proxies := bb_proxies s2 @ [(nid, aid)]\<rparr>"
    by (auto simp: make_proxy_def Let_def s1_def [symmetric] split: option.splits sum.splits)
  have s2: "s2 = bb_emit (Eff_write r (basp_write (mk_header (bb_node s1) nid 0 aid 0 op_announce_proxy_instance 0))) s1"
    using wr_buf_eq [OF w] by simp
  have "proxies_ok (m_routes s1) (m_namespace s1) (bb_proxies s1 @ [(nid, aid)])"
    using s1(1) by (simp add: bb_inv_def proxies_ok_append)
  then show "bb_inv s'" using s1(1) by (simp add: s' s2 bb_inv_def)
  show "same_frame s s'" using s1(2) by (simp add: s' s2 same_frame_def)
  show "map_of (m_routes s') (nkey nid) \<noteq> None" using get_route_Some [OF r] by (simp add: s' s2)
  show "m_namespace s' = m_namespace s" "p = length (bb_proxies s)" "bb_proxies s' = bb_proxies s @ [(nid, aid)]"
    "set (bb_effects s) \<subseteq> set (bb_effects s')"
    using s1 p by (auto simp: s' s2)
qed

lemma get_or_put_ok:
  assumes "bb_inv s" "bb_get_or_put nid aid s = Inr (p, s')"
  shows "bb_inv s'" "same_frame s s'" "ns_lookup (m_namespace s') (nkey nid) aid = Some p"
    "set (bb_effects s) \<subseteq> set (bb_effects s')" "map_of (m_routes s') (nkey nid) \<noteq> None"
proof -
  from assms(2) obtain ns s1 where g: "ns_get_or_put (bb_live s) (make_proxy nid aid) (nkey nid) aid (m_namespace s) (Inr s) = (Inr p, ns, Inr s1)"
    and s': "s' = s1\<lparr>m_namespace := ns\<rparr>"
    by (auto simp: bb_get_or_put_def split: prod.splits sum.splits)
  note l = ns_lookup_get_or_put [OF g]
  let ?old = "anchor_get (bb_live s) (ns_lookup (m_namespace s) (nkey nid) aid)"
  have facts: "bb_inv s1 \<and> same_frame s s1 \<and> m_namespace s1 = m_namespace s \<and> map_of (m_routes s1) (nkey nid) \<noteq> None
      \<and> p < length (bb_proxies s1) \<and> nkey (fst (bb_proxies s1 ! p)) = nkey nid \<and> snd (bb_proxies s1 ! p) = aid \<and> set (bb_effects s) \<subseteq> set (bb_effects s1)"
  proof (cases ?old)
    case (Some q)
    then have "ns_lookup (m_namespace s) (nkey nid) aid = Some q" by (auto simp: anchor_get_def split: option.splits if_splits)
    with Some l(2) assms(1) show ?thesis by (simp add: bb_inv_def proxies_ok_def)
  next
    case None
    with l(2) have "make_proxy nid aid (Inr s) = (Some p, Inr s1)" by simp
    from make_proxy_ok [OF assms(1) this] show ?thesis by (simp add: nth_append)
  qed
  have "proxies_ok (m_routes s1) ns (bb_proxies s1)"
    unfolding proxies_ok_def l(1) using facts by (auto simp: bb_inv_def proxies_ok_def split: if_splits)
  with facts show "bb_inv s'" "same_frame s s'" "set (bb_effects s) \<subseteq> set (bb_effects s')" "map_of (m_routes s') (nkey nid) \<noteq> None"
    by (auto simp: s' bb_inv_def same_frame_def)
  show "ns_lookup (m_namespace s') (nkey nid) aid = Some p" by (simp add: s' l(1))
qed

lemma read_addrs_ok:
  "read_addrs as s = Inr s' \<Longrightarrow> bb_inv s \<Longrightarrow> bb_inv s' \<and> same_frame s s' \<and> set (bb_effects s) \<subseteq> set (bb_effects s')"
proof (induction as s rule: read_addrs.induct)
  case (2 node aid as s)
  show ?case
  proof (cases "node = bb_node s")
    case True
    with 2 show ?thesis by simp
  next
    case False
    with 2(3) obtain p s1 where g: "bb_get_or_put node aid s = Inr (p, s1)" and r: "read_addrs as s1 = Inr s'"
      by (auto split: sum.splits)
    note ok = get_or_put_ok [OF 2(4) g]
    from 2(2) [OF False g refl r ok(1)] ok show ?thesis by (auto intro: same_frame_trans)
  qed
qed simp

lemma read_payload_ok:
  assumes "read_payload code buf s = Inr (m, s')" "bb_inv s"
  shows "bb_inv s'" "same_frame s s'" "read_msg code buf = Inr m" "set (bb_effects s) \<subseteq> set (bb_effects s')"
  using assms read_addrs_ok by (fastforce simp: read_payload_def split: sum.splits)+

lemma resolve_source_ok:
  assumes "resolve_source hdr s = Inr (src, s')" "bb_inv s"
  shows "bb_inv s'" "same_frame s s'" "set (bb_effects s) \<subseteq> set (bb_effects s')"
  using assms get_or_put_ok by (fastforce simp: resolve_source_def split: sum.splits if_splits)+

lemma dispatch_in_inv: "dispatch_in code hdr msg s = Inr s' \<Longrightarrow> bb_inv s \<Longrightarrow> bb_inv s'"
  using resolve_source_ok(1) by (fastforce simp: dispatch_in_def split: sum.splits option.splits prod.splits)

lemma bb_inv_registry [simp]: "bb_inv (s\<lparr>bb_registry := r\<rparr>) = bb_inv s" "bb_inv (s\<lparr>bb_scribes := sc\<rparr>) = bb_inv s"
    "bb_inv (s\<lparr>m_current_context := cur\<rparr>) = bb_inv s" "bb_inv (s\<lparr>m_ctx := ctx\<rparr>) = bb_inv s" "bb_inv (s\<lparr>bb_expired := xp\<rparr>) = bb_inv s"
    "bb_inv (s\<lparr>bb_exit_of := ex\<rparr>) = bb_inv s"
  by (simp_all add: bb_inv_def)

lemma dispatch_out_inv: "dispatch_out code from_addr to_addr mid msg s = Inr s' \<Longrightarrow> bb_inv s \<Longrightarrow> bb_inv s'"
  by (auto simp: dispatch_out_def Let_def split: prod.splits option.splits sum.splits if_splits dest!: wr_buf_eq)

lemma send_kill_inv: "send_kill_proxy_instance nid aid reason s = Inr s' \<Longrightarrow> bb_inv s \<Longrightarrow> bb_inv s'"
  by (auto simp: send_kill_proxy_instance_def split: option.splits sum.splits dest!: wr_buf_eq)

lemma complete_handshake_inv:
  assumes "complete_handshake h c hs aid s = Inr (st, s')" "bb_inv s"
  shows "bb_inv s'"
proof (cases "node_eq (cc_remote_id c) (bb_node s)")
  case True
  with assms show ?thesis by (auto simp: complete_handshake_def Let_def)
next
  case False
  obtain b s1 where t: "try_set_default_route (cc_remote_id c) h s = (b, s1)" by fastforce
  note s1 = try_set_default_route_inv [OF assms(2) t]
  show ?thesis
  proof (cases b)
    case True
    with assms(1) False t obtain s2 p s3 where w: "wr_buf h (basp_write (mk_header (bb_node s1) (cc_remote_id c) 0 0 0 op_client_handshake 0)) s1 = Inr s2"
      and g: "bb_get_or_put (cc_remote_id c) aid s2 = Inr (p, s3)"
      and s': "s' = bb_emit (Eff_promise_value (hs_result hs) (Some (Proxy_ref p))) (set_ctx h (c\<lparr>cc_handshake_data := None, cc_published_actor := Some p\<rparr>) s3)"
      by (auto simp: complete_handshake_def Let_def split: sum.splits)
    have "bb_inv s2" using wr_buf_eq [OF w] s1(1) by simp
    from get_or_put_ok(1) [OF this g] show ?thesis by (simp add: s')
  next
    case b: False
    with assms(1) False t get_or_put_ok(1) [OF s1(1)] show ?thesis
      by (auto simp: complete_handshake_def Let_def split: sum.splits)
  qed
qed

lemma handle_server_handshake_inv: "handle_server_handshake h c hdr payload s = Inr (st, s') \<Longrightarrow> bb_inv s \<Longrightarrow> bb_inv s'"
  by (auto simp: handle_server_handshake_def Let_def split: option.splits sum.splits if_splits dest!: complete_handshake_inv)

lemma handle_client_handshake_inv: "handle_client_handshake h c hdr s = (st, s') \<Longrightarrow> bb_inv s \<Longrightarrow> bb_inv s'"
  by (auto simp: handle_client_handshake_def Let_def split: if_splits prod.splits bool.splits dest: try_set_default_route_inv(1) [rotated])

lemma ns_get_lookup:
  assumes "ns_get live node aid ns = (r, ns')"
  shows "ns_lookup ns' k a = Some p \<Longrightarrow> ns_lookup ns k a = Some p"
proof -
  obtain sub ns1 where sub: "submap node ns = (sub, ns1)" by fastforce
  note l = ns_lookup_submap [OF sub]
  show "ns_lookup ns' k a = Some p \<Longrightarrow> ns_lookup ns k a = Some p"
    using assms sub l by (auto simp: ns_get_def ns_lookup_update split: option.splits if_splits)
qed

lemma handle_kill_inv: "bb_inv s \<Longrightarrow> bb_inv (handle_kill hdr s)"
  by (auto simp: handle_kill_def bb_inv_def proxies_ok_def ns_lookup_erase split: prod.splits option.splits if_splits dest!: ns_get_lookup)

subsection \<open>Incoming data\<close>

lemma forward_header_inv: "forward_header hdr payload s = Inr (st, s') \<Longrightarrow> bb_inv s \<Longrightarrow> bb_inv s'"
  by (auto simp: forward_header_def split: option.splits sum.splits dest!: wr_buf_eq)

lemma handle_announce_inv: "handle_announce hdr s = Inr s' \<Longrightarrow> bb_inv s \<Longrightarrow> bb_inv s'"
  by (auto simp: handle_announce_def Let_def split: if_splits dest: send_kill_inv)

lemma map_sum_InrD: "map_sum id f x = Inr y \<Longrightarrow> \<exists>z. x = Inr z \<and> y = f z"
  by (cases x) auto

lemma handle_basp_header_inv:
  assumes "handle_basp_header code h c payload s = Inr (st, s')" "bb_inv s"
  shows "bb_inv s'"
proof -
  have pay: "bb_inv s'" if "payload = Some buf" "read_payload code buf s = Inr (m, s1)" "dispatch_in code (cc_hdr c) m s1 = Inr s'" for buf m s1
    using dispatch_in_inv [OF that(3) read_payload_ok(1) [OF that(2) assms(2)]] .
  show ?thesis using assms
    by (auto simp: handle_basp_header_def Let_def split: if_splits option.splits sum.splits
        dest!: map_sum_InrD pay dest: forward_header_inv handle_announce_inv handle_client_handshake_inv handle_server_handshake_inv
        intro: handle_kill_inv)
qed

lemma enter_state_inv: "enter_state h st s = Inr s' \<Longrightarrow> bb_inv s \<Longrightarrow> bb_inv s'"
  by (auto simp: enter_state_def bb_close_def split: if_splits option.splits dest!: map_sum_InrD configure_read_eq)

lemma new_data_inv:
  assumes "new_data code h buf s = Inr s'" "bb_inv s"
  shows "bb_inv s'"
proof -
  let ?s = "s\<lparr>m_current_context := Some h\<rparr>"
  from assms(1) obtain c where c: "m_ctx s h = Some c" by (auto simp: new_data_def Let_def split: option.splits)
  have hdr: "bb_inv s'" if "handle_basp_header code h c payload s1 = Inr (st, s2)" "enter_state h st s2 = Inr s'" "bb_inv s1" for c payload s1 st s2
    using enter_state_inv [OF that(2) handle_basp_header_inv [OF that(1,3)]] .
  show ?thesis
  proof (cases "cc_state c = Await_payload")
    case True
    with assms c obtain st s2 where run: "handle_basp_header code h c (Some buf) ?s = Inr (st, s2)" "enter_state h st s2 = Inr s'"
      by (auto simp: new_data_def Let_def split: sum.splits)
    from hdr [OF run] assms(2) show ?thesis by simp
  next
    case False
    with assms(1) c obtain x rest where r: "basp_read buf = Inr (x, rest)" by (auto simp: new_data_def Let_def split: sum.splits)
    let ?s1 = "set_ctx h (c\<lparr>cc_hdr := x\<rparr>) ?s"
    show ?thesis
    proof (cases "header_valid x")
      case valid: True
      with assms False c r obtain st s2 where run: "handle_basp_header code h (c\<lparr>cc_hdr := x\<rparr>) None ?s1 = Inr (st, s2)" "enter_state h st s2 = Inr s'"
        by (auto simp: new_data_def Let_def split: sum.splits)
      from hdr [OF run] assms(2) show ?thesis by simp
    next
      case invalid: False
      with assms False c r have "enter_state h Close_connection ?s1 = Inr s'" by (simp add: new_data_def Let_def)
      from enter_state_inv [OF this] assms(2) show ?thesis by simp
    qed
  qed
qed

subsection \<open>Closed connections\<close>

lemma drop_nodes_eq:
  "m_routes (drop_nodes lcs s) = filter (\<lambda>(k, e). k \<notin> set lcs) (m_routes s)
   \<and> ns_lookup (m_namespace (drop_nodes lcs s)) k a = (if k \<in> set lcs then None else ns_lookup (m_namespace s) k a)
   \<and> bb_proxies (drop_nodes lcs s) = bb_proxies s \<and> m_acceptors (drop_nodes lcs s) = m_acceptors s
   \<and> m_open_ports (drop_nodes lcs s) = m_open_ports s \<and> m_ctx (drop_nodes lcs s) = m_ctx s \<and> bb_scribes (drop_nodes lcs s) = bb_scribes s"
proof (induction lcs s rule: drop_nodes.induct)
  case (2 lc lcs s)
  obtain ps ns where g: "ns_get_all (bb_live s) lc (m_namespace s) = (ps, ns)" by fastforce
  have ns: "ns_lookup ns = ns_lookup (m_namespace s)"
    using g ns_lookup_submap by (fastforce simp: ns_get_all_def split: prod.splits)
  from 2 [OF g [symmetric] refl] g ns show ?case
    by (auto simp: ns_lookup_erase_node AList.delete_eq intro!: filter_cong)
qed simp

lemma map_of_purge: "map_of (map (\<lambda>(k, e). (k, purge_entry h e)) rt) k = map_option (purge_entry h) (map_of rt k)"
  by (induction rt) auto

lemma lost_keys:
  "distinct (map fst rt) \<Longrightarrow> k \<in> set (map fst (filter (\<lambda>(k, e). lost_entry e) rt)) \<longleftrightarrow> (\<exists>e. map_of rt k = Some e \<and> lost_entry e)"
  by (auto simp: image_iff intro!: bexI dest: map_of_SomeD)

lemma map_of_filter_key: "map_of (filter (\<lambda>(k, e). P k) rt) k = (if P k then map_of rt k else None)"
  by (induction rt) auto

definition gone_nodes :: "nat \<Rightarrow> 'm basp_broker \<Rightarrow> node_key set" where
  "gone_nodes h s = {k. \<exists>e. map_of (m_routes s) k = Some e \<and> lost_entry (purge_entry h e)}"

lemma connection_closed_routes:
  assumes "routes_ok (m_routes s)"
  shows "map_of (m_routes (connection_closed h s)) k =
      (if k \<in> gone_nodes h s then None else map_option (purge_entry h) (map_of (m_routes s) k))"
    and "ns_lookup (m_namespace (connection_closed h s)) k a = (if k \<in> gone_nodes h s then None else ns_lookup (m_namespace s) k a)"
    and "distinct (map fst (m_routes (connection_closed h s)))"
    and "bb_proxies (connection_closed h s) = bb_proxies s \<and> m_acceptors (connection_closed h s) = m_acceptors s
      \<and> m_open_ports (connection_closed h s) = m_open_ports s \<and> m_ctx (connection_closed h s) = (m_ctx s)(h := None)
      \<and> bb_scribes (connection_closed h s) = removeAll h (bb_scribes s)"
proof -
  let ?s1 = "case m_ctx s h of Some c \<Rightarrow>
      (case cc_handshake_data c of Some hs \<Rightarrow> bb_emit (Eff_promise_error (hs_result hs) ''disconnect during handshake'') s | None \<Rightarrow> s)
    | None \<Rightarrow> s"
  let ?rt = "map (\<lambda>(k, e). (k, purge_entry h e)) (m_routes s)"
  let ?lcs = "map fst (filter (\<lambda>(k, e). lost_entry e) ?rt)"
  have s1: "m_routes ?s1 = m_routes s" "m_namespace ?s1 = m_namespace s" "bb_proxies ?s1 = bb_proxies s" "m_acceptors ?s1 = m_acceptors s"
    "m_open_ports ?s1 = m_open_ports s" "m_ctx ?s1 = m_ctx s" "bb_scribes ?s1 = bb_scribes s"
    by (auto split: option.split)
  have fst_rt: "map fst ?rt = map fst (m_routes s)" by (auto simp: comp_def case_prod_unfold)
  have d: "distinct (map fst ?rt)" using assms(1) unfolding fst_rt by (simp add: routes_ok_def)
  have lcs: "k \<in> set ?lcs \<longleftrightarrow> k \<in> gone_nodes h s" for k
    unfolding lost_keys [OF d] map_of_purge gone_nodes_def by (cases "map_of (m_routes s) k") auto
  note eq = drop_nodes_eq [of ?lcs "?s1\<lparr>m_ctx := (m_ctx ?s1)(h := None), bb_scribes := removeAll h (bb_scribes ?s1), m_routes := ?rt\<rparr>" k a]
  have closed: "connection_closed h s = drop_nodes ?lcs (?s1\<lparr>m_ctx := (m_ctx ?s1)(h := None), bb_scribes := removeAll h (bb_scribes ?s1), m_routes := ?rt\<rparr>)"
    by (simp add: connection_closed_def Let_def s1)
  have rt: "m_routes (connection_closed h s) = filter (\<lambda>(k, e). k \<notin> set ?lcs) ?rt" using eq unfolding closed by simp
  show "map_of (m_routes (connection_closed h s)) k = (if k \<in> gone_nodes h s then None else map_option (purge_entry h) (map_of (m_routes s) k))"
    unfolding rt map_of_filter_key map_of_purge lcs by simp
  show "ns_lookup (m_namespace (connection_closed h s)) k a = (if k \<in> gone_nodes h s then None else ns_lookup (m_namespace s) k a)"
    using eq unfolding closed by (simp add: lcs s1 del: set_map)
  show "distinct (map fst (m_routes (connection_closed h s)))" unfolding rt using d by (rule distinct_map_filter)
  show "bb_proxies (connection_closed h s) = bb_proxies s \<and> m_acceptors (connection_closed h s) = m_acceptors s
      \<and> m_open_ports (connection_closed h s) = m_open_ports s \<and> m_ctx (connection_closed h s) = (m_ctx s)(h := None)
      \<and> bb_scribes (connection_closed h s) = removeAll h (bb_scribes s)"
    using eq unfolding closed by (simp add: s1)
qed

end
