(* ===== verification/Basp_Network.thy ===== *)
theory Basp_Network
  imports Basp_Broker
begin

text \<open>
  What the broker of \<open>Basp_Broker\<close> guarantees: the consistency of its tables in every reachable
  state, what happens when a connection goes down, and how a message gets from one node to
  another.
\<close>

section \<open>Reachable states\<close>

definition bb_init :: "node_id \<Rightarrow> 'm basp_broker" where
  "bb_init n = \<lparr>bb_node = n, m_ctx = Map.empty, m_acceptors = Map.empty, m_open_ports = Map.empty, m_routes = [], m_blacklist = [],
     m_namespace = [], m_current_context = None, bb_scribes = [], bb_registry = registry_new, bb_exit_of = (\<lambda>_. not_exited),
     bb_proxies = [], bb_expired = [], bb_effects = []\<rparr>"

inductive bb_step :: "'m codec \<Rightarrow> 'm basp_broker \<Rightarrow> 'm basp_broker \<Rightarrow> bool" for code where
  data: "new_data code h buf s = Inr s' \<Longrightarrow> bb_step code s s'"
| accepted: "m_ctx s h = None \<Longrightarrow> new_connection types a h (s\<lparr>bb_scribes := h # bb_scribes s\<rparr>) = Inr s' \<Longrightarrow> bb_step code s s'"
| client: "init_client h hs (s\<lparr>bb_scribes := h # bb_scribes s\<rparr>) = Inr s' \<Longrightarrow> bb_step code s s'"
| closed: "bb_step code s (connection_closed h s)"
| acceptor_lost: "bb_step code s (acceptor_closed a s)"
| dispatch: "dispatch_out code from_addr to_addr mid msg s = Inr s' \<Longrightarrow> bb_step code s s'"
| del_proxy: "bb_step code s (erase_proxy nid aid s)"
| publish: "m_acceptors s a = None \<Longrightarrow> bb_step code s (add_published_actor a actor port s)"
| unpublish: "bb_step code s (remove_published_actor whom port s)"
| watched: "send_kill_proxy_instance nid aid reason s = Inr s' \<Longrightarrow> bb_step code s s'"
| expire: "bb_step code s (s\<lparr>bb_expired := p # bb_expired s\<rparr>)"
| terminate: "bb_step code s (s\<lparr>bb_exit_of := (bb_exit_of s)(a := r), bb_registry := reg_erase a r (bb_registry s)\<rparr>)"

inductive bb_reach :: "'m codec \<Rightarrow> 'm basp_broker \<Rightarrow> bool" for code where
  init: "bb_reach code (bb_init n)"
| step: "bb_reach code s \<Longrightarrow> bb_step code s s' \<Longrightarrow> bb_reach code s'"

lemma connection_closed_inv:
  assumes "bb_inv s"
  shows "bb_inv (connection_closed h s)"
proof -
  have rt: "routes_ok (m_routes s)" and ps: "proxies_ok (m_routes s) (m_namespace s) (bb_proxies s)"
    and po: "ports_ok (m_acceptors s) (m_open_ports s)"
    using assms by (simp_all add: bb_inv_def)
  note cc = connection_closed_routes [OF rt, of h]
  have "\<not> lost_entry e \<and> oset (snd e)" if "map_of (m_routes (connection_closed h s)) k = Some e" for k e
  proof -
    from that obtain e0 where e0: "map_of (m_routes s) k = Some e0" "e = purge_entry h e0" "k \<notin> gone_nodes h s"
      by (auto simp: cc(1) split: if_splits)
    then have "oset (snd e0)" using rt unfolding routes_ok_def by blast
    then have "oset (snd e)" by (simp add: e0(2) purge_entry_def)
    moreover have "\<not> lost_entry e" using e0 unfolding gone_nodes_def by blast
    ultimately show ?thesis by blast
  qed
  then have "routes_ok (m_routes (connection_closed h s))" using cc(3) by (auto simp: routes_ok_def)
  moreover have "proxies_ok (m_routes (connection_closed h s)) (m_namespace (connection_closed h s)) (bb_proxies s)"
  proof -
    have "map_of (m_routes (connection_closed h s)) k \<noteq> None" if "k \<notin> gone_nodes h s" "map_of (m_routes s) k \<noteq> None" for k
      using that by (simp add: cc(1))
    with ps show ?thesis unfolding proxies_ok_def cc(2) by (metis option.distinct(1))
  qed
  ultimately show ?thesis using po cc(4) by (simp add: bb_inv_def)
qed

lemma new_connection_inv: "new_connection types a h s = Inr s' \<Longrightarrow> bb_inv s \<Longrightarrow> bb_inv s'"
  by (auto simp: new_connection_def init_handshake_as_sever_def Let_def split: option.splits sum.splits
      dest!: wr_buf_eq configure_read_eq)

lemma init_client_inv: "init_client h hs s = Inr s' \<Longrightarrow> bb_inv s \<Longrightarrow> bb_inv s'"
  by (auto simp: init_client_def Let_def dest!: configure_read_eq)

lemma erase_proxy_inv: "bb_inv s \<Longrightarrow> bb_inv (erase_proxy nid aid s)"
  by (auto simp: erase_proxy_def bb_inv_def proxies_ok_def ns_lookup_erase)

lemma acceptor_closed_inv: "bb_inv s \<Longrightarrow> bb_inv (acceptor_closed a s)"
  by (fastforce simp: acceptor_closed_def bb_inv_def ports_ok_def split: option.splits prod.splits)

lemma add_published_actor_inv: "m_acceptors s a = None \<Longrightarrow> bb_inv s \<Longrightarrow> bb_inv (add_published_actor a actor port s)"
  by (fastforce simp: add_published_actor_def bb_inv_def ports_ok_def split: option.splits)

lemma ports_ok_close: "ports_ok acc ports \<Longrightarrow> acc a = Some (actor, port) \<Longrightarrow> ports_ok (acc(a := None)) (ports(port := None))"
  unfolding ports_ok_def by (metis fun_upd_apply option.distinct(1) option.inject prod.inject)

lemma remove_published_actor_inv:
  assumes "bb_inv s"
  shows "bb_inv (remove_published_actor whom port s)"
proof (cases "m_open_ports s port")
  case (Some a)
  with assms obtain actor where a: "m_acceptors s a = Some (actor, port)" unfolding bb_inv_def ports_ok_def by blast
  with Some assms show ?thesis
    by (auto simp: remove_published_actor_def bb_inv_def intro: ports_ok_close)
qed (use assms in \<open>simp add: remove_published_actor_def\<close>)

lemma bb_step_inv: "bb_step code s s' \<Longrightarrow> bb_inv s \<Longrightarrow> bb_inv s'"
proof (induction rule: bb_step.induct)
  case (accepted s h types a s')
  from new_connection_inv [OF accepted(2)] accepted(3) show ?case by simp
next
  case (client h hs s s')
  from init_client_inv [OF client(1)] client(2) show ?case by simp
qed (auto intro: new_data_inv connection_closed_inv acceptor_closed_inv dispatch_out_inv erase_proxy_inv
    add_published_actor_inv remove_published_actor_inv send_kill_inv)

lemma bb_reach_inv: "bb_reach code s \<Longrightarrow> bb_inv s"
proof (induction rule: bb_reach.induct)
  case (init n)
  show ?case by (simp add: bb_init_def bb_inv_def routes_ok_def proxies_ok_def ports_ok_def ns_lookup_def)
qed (rule bb_step_inv)

section \<open>Tables\<close>


text \<open>
  When a connection goes down, no route leads over it any more; a node that is still in
  the routing table keeps its other paths and its proxies; a node that was reachable over this connection only
  is forgotten together with all its proxies.
\<close>

theorem lost_connection_purged:
  assumes "bb_reach code s"
  shows "get_route nid (connection_closed h s) \<noteq> Some h
    \<and> (get_route nid (connection_closed h s) = None \<longrightarrow> ns_lookup (m_namespace (connection_closed h s)) (nkey nid) aid = None)
    \<and> (get_route nid s \<noteq> Some h \<longrightarrow> get_route nid (connection_closed h s) = get_route nid s)
    \<and> (get_route nid (connection_closed h s) \<noteq> None \<longrightarrow>
        ns_lookup (m_namespace (connection_closed h s)) (nkey nid) aid = ns_lookup (m_namespace s) (nkey nid) aid)"
proof -
  have inv: "routes_ok (m_routes s)" "proxies_ok (m_routes s) (m_namespace s) (bb_proxies s)"
    using bb_reach_inv [OF assms] by (simp_all add: bb_inv_def)
  note cc = connection_closed_routes [OF inv(1), of h]
  show ?thesis
  proof (cases "map_of (m_routes s) (nkey nid)")
    case None
    then have "ns_lookup (m_namespace s) (nkey nid) aid = None" using inv(2) unfolding proxies_ok_def by (metis option.exhaust)
    with None show ?thesis by (simp add: get_route_def cc(1,2))
  next
    case (Some e)
    obtain d alts where e: "e = (d, alts)" by fastforce
    have "oset alts" "\<not> lost_entry e" using inv(1) Some e unfolding routes_ok_def by auto
    then have alts: "distinct alts" "sorted alts" by (auto simp: oset_def)
    with Some e \<open>\<not> lost_entry e\<close> show ?thesis
      by (cases alts) (auto simp: get_route_def cc(1,2) gone_nodes_def purge_entry_def lost_entry_def oset_erase_def entry_route_def
          split: option.splits list.splits if_splits)
  qed
qed

section \<open>From node to node\<close>

lemma make_proxy_succeeds:
  assumes "m_current_context s = Some h" "m_ctx s h = Some c" "node_eq nid (cc_remote_id c)" "get_route nid s = Some r" "r \<in> set (bb_scribes s)"
  shows "\<exists>p s'. make_proxy nid aid (Inr s) = (Some p, Inr s')"
  using assms by (simp add: make_proxy_def wr_buf_def)

lemma get_or_put_succeeds:
  assumes "m_current_context s = Some h" "m_ctx s h = Some c" "node_eq nid (cc_remote_id c)" "get_route nid s = Some r" "r \<in> set (bb_scribes s)"
  shows "\<exists>p s'. bb_get_or_put nid aid s = Inr (p, s')"
proof -
  from make_proxy_succeeds [OF assms] obtain p s' where "make_proxy nid aid (Inr s) = (Some p, Inr s')" by blast
  then show ?thesis
    by (auto simp: bb_get_or_put_def ns_get_or_put_def Let_def split: prod.splits option.splits)
qed





text \<open>The first half: the header announces the payload.\<close>

lemma receive_header:
  fixes s :: "'m basp_broker"
  assumes "m_ctx s h = Some c" "cc_state c \<noteq> Await_payload" "h \<in> set (bb_scribes s)" "header_ok hdr" "header_valid hdr" "payload_len hdr > 0"
  shows "new_data code h (basp_write hdr) s =
    Inr (bb_emit (Eff_configure_read h (payload_len hdr)) (set_ctx h (c\<lparr>cc_hdr := hdr, cc_state := Await_payload\<rparr>) (s\<lparr>m_current_context := Some h\<rparr>)))"
  using assms basp_read_write_exact [OF assms(4)]
  by (simp add: new_data_def Let_def handle_basp_header_def enter_state_def configure_read_def bb_emit_def set_ctx_def)




section \<open>Handshakes\<close>

definition sigs_ok :: "string list \<Rightarrow> bool" where
  "sigs_ok sigs \<longleftrightarrow> length sigs < 2 ^ 32 \<and> list_all (\<lambda>x. length x < 2 ^ 32) sigs"

definition handshake_payload :: "nat \<Rightarrow> string list \<Rightarrow> nat list" where
  "handshake_payload aid sigs = write_int 4 (int aid) @ write_int 4 (int (length sigs)) @ concat (map write_string sigs)"

lemma read_ifs_written: "list_all (\<lambda>x. length x < 2 ^ 32) sigs \<Longrightarrow> read_ifs (length sigs) (concat (map write_string sigs) @ rest) = Inr sigs"
  by (induction sigs) (simp_all add: read_string_written)

lemma read_handshake_payload:
  assumes "aid < 2 ^ 32" "sigs_ok sigs"
  shows "read_server_handshake (handshake_payload aid sigs) = Inr (aid, sigs)"
  using assms read_ifs_written [of sigs "[]"]
  by (simp add: read_server_handshake_def handshake_payload_def read_uint4 sigs_ok_def)

definition server_header :: "node_id \<Rightarrow> nat \<Rightarrow> string list \<Rightarrow> header" where
  "server_header n aid sigs = mk_header n Invalid_node_id aid 0 (length (handshake_payload aid sigs)) op_server_handshake basp_version"

definition client_header :: "node_id \<Rightarrow> node_id \<Rightarrow> header" where
  "client_header client server = mk_header client server 0 0 0 op_client_handshake 0"

lemma server_greets:
  fixes s :: "'m basp_broker"
  assumes "m_acceptors s a = Some (actor, port)" "h \<in> set (bb_scribes s)"
  shows "new_connection types a h s = Inr (bb_emit (Eff_configure_read h header_size) (set_ctx h (new_context Await_client_handshake None)
    (bb_emit (Eff_flush h) (bb_emit (Eff_write h (basp_write (server_header (bb_node s) actor (types actor)) @ handshake_payload actor (types actor)))
      (set_ctx h (new_context Await_client_handshake None) s)))))"
  using assms by (simp add: new_connection_def init_handshake_as_sever_def Let_def wr_buf_def configure_read_def new_context_def
      server_header_def handshake_payload_def)

text \<open>The server takes the answer of a client it does not know yet.\<close>

lemma server_accepts:
  fixes s :: "'m basp_broker"
  assumes "m_ctx s h = Some c" "cc_state c = Await_client_handshake" "cc_remote_id c = Invalid_node_id" "h \<in> set (bb_scribes s)"
    "nid_ok client" "nid_ok (bb_node s)" "valid_node client" "valid_node (bb_node s)" "\<not> node_eq client (bb_node s)" "get_route client s = None" "bb_inv s"
  shows "\<exists>s'. new_data code h (basp_write (client_header client (bb_node s))) s = Inr s' \<and> get_route client s' = Some h
    \<and> (\<exists>c'. m_ctx s' h = Some c' \<and> cc_state c' = Await_header \<and> cc_remote_id c' = client)"
proof -
  let ?hdr = "client_header client (bb_node s)"
  have ok: "header_ok ?hdr" "header_valid ?hdr" "payload_len ?hdr = 0" "dest_node ?hdr = bb_node s" "operation ?hdr = op_client_handshake" "source_node ?hdr = client"
    using assms by (auto simp: client_header_def mk_header_def header_ok_def header_valid_def op_defs client_handshake_valid_def)
  have none: "map_of (m_routes s) (nkey client) = None" using routed [of s client] assms(10,11) unfolding bb_inv_def by (metis option.distinct(1))
  let ?s1 = "set_ctx h (c\<lparr>cc_hdr := ?hdr, cc_remote_id := client\<rparr>) (s\<lparr>m_current_context := Some h\<rparr>)"
  let ?s2 = "?s1\<lparr>m_routes := AList.update (nkey client) (Some h, []) (m_routes s)\<rparr>"
  have "handle_basp_header code h (c\<lparr>cc_hdr := ?hdr\<rparr>) None (set_ctx h (c\<lparr>cc_hdr := ?hdr\<rparr>) (s\<lparr>m_current_context := Some h\<rparr>)) = Inr (Await_header, ?s2)"
    using assms ok none
    by (simp add: handle_basp_header_def Let_def node_eq_def op_defs handle_client_handshake_def try_set_default_route_def set_ctx_def)
  then have "new_data code h (basp_write ?hdr) s = enter_state h Await_header ?s2"
    using assms(1,2) ok basp_read_write_exact [OF ok(1)] by (simp add: new_data_def Let_def)
  then show ?thesis
    using assms(4) by (auto simp: enter_state_def configure_read_def get_route_def entry_route_def)
qed

text \<open>The client finishes the handshake and fulfils the promise of \<open>remote_actor\<close>.\<close>

lemma complete_handshake_new:
  fixes s :: "'m basp_broker"
  assumes "bb_inv s" "m_current_context s = Some h" "m_ctx s h = Some c" "h \<in> set (bb_scribes s)"
    "\<not> node_eq (cc_remote_id c) (bb_node s)" "get_route (cc_remote_id c) s = None"
  shows "\<exists>p s'. complete_handshake h c hs aid s = Inr (Await_header, s')
    \<and> Eff_write h (basp_write (client_header (bb_node s) (cc_remote_id c))) \<in> set (bb_effects s')
    \<and> Eff_promise_value (hs_result hs) (Some (Proxy_ref p)) \<in> set (bb_effects s')
    \<and> nkey (fst (bb_proxies s' ! p)) = nkey (cc_remote_id c) \<and> snd (bb_proxies s' ! p) = aid
    \<and> m_ctx s' h = Some (c\<lparr>cc_handshake_data := None, cc_published_actor := Some p\<rparr>) \<and> h \<in> set (bb_scribes s')
    \<and> get_route (cc_remote_id c) s' \<noteq> None \<and> bb_node s' = bb_node s"
proof -
  let ?nid = "cc_remote_id c"
  have none: "map_of (m_routes s) (nkey ?nid) = None" using routed [of s ?nid] assms(1,6) unfolding bb_inv_def by (metis option.distinct(1))
  let ?s1 = "s\<lparr>m_routes := AList.update (nkey ?nid) (Some h, []) (m_routes s)\<rparr>"
  let ?s2 = "bb_emit (Eff_write h (basp_write (client_header (bb_node s) ?nid))) ?s1"
  have t: "try_set_default_route ?nid h s = (True, ?s1)" using none by (simp add: try_set_default_route_def)
  have inv2: "bb_inv ?s2" using try_set_default_route_inv(1) [OF assms(1) t] by simp
  have w: "wr_buf h (basp_write (mk_header (bb_node ?s1) ?nid 0 0 0 op_client_handshake 0)) ?s1 = Inr ?s2"
    using assms(4) by (simp add: wr_buf_def client_header_def)
  have "\<exists>p s'. bb_get_or_put ?nid aid ?s2 = Inr (p, s')"
    using assms(2-4) by (intro get_or_put_succeeds [where h = h and r = h]) (auto simp: node_eq_def get_route_def entry_route_def)
  then obtain p s3 where g: "bb_get_or_put ?nid aid ?s2 = Inr (p, s3)" by blast
  note ok = get_or_put_ok [OF inv2 g]
  have prox: "nkey (fst (bb_proxies s3 ! p)) = nkey ?nid" "snd (bb_proxies s3 ! p) = aid"
    using ok(1,3) unfolding bb_inv_def proxies_ok_def by blast+
  have rt: "get_route ?nid s3 \<noteq> None" using ok(1,5) routed [of s3 ?nid] unfolding bb_inv_def by (metis option.distinct(1))
  let ?s4 = "bb_emit (Eff_promise_value (hs_result hs) (Some (Proxy_ref p))) (set_ctx h (c\<lparr>cc_handshake_data := None, cc_published_actor := Some p\<rparr>) s3)"
  have "complete_handshake h c hs aid s = Inr (Await_header, ?s4)"
    using assms(5) t w g by (simp add: complete_handshake_def Let_def)
  moreover have "Eff_write h (basp_write (client_header (bb_node s) ?nid)) \<in> set (bb_effects s3)" using ok(4) by auto
  ultimately show ?thesis using prox rt ok(2) assms(4) by (auto simp: same_frame_def get_route_def)
qed

lemma client_completes:
  fixes s :: "'m basp_broker"
  assumes "bb_inv s" "m_ctx s h = Some c" "cc_state c = Await_server_handshake" "cc_handshake_data c = Some hs" "h \<in> set (bb_scribes s)"
    "nid_ok server" "valid_node server" "\<not> node_eq server (bb_node s)" "get_route server s = None"
    "0 < aid" "aid < 2 ^ 32" "sigs_ok sigs" "set sigs \<subseteq> set (hs_expected_ifs hs)" "length (handshake_payload aid sigs) < 2 ^ 32"
  shows "\<exists>s1 s2 p. new_data code h (basp_write (server_header server aid sigs)) s = Inr s1
    \<and> new_data code h (handshake_payload aid sigs) s1 = Inr s2
    \<and> Eff_write h (basp_write (client_header (bb_node s) server)) \<in> set (bb_effects s2)
    \<and> Eff_promise_value (hs_result hs) (Some (Proxy_ref p)) \<in> set (bb_effects s2)
    \<and> nkey (fst (bb_proxies s2 ! p)) = nkey server \<and> snd (bb_proxies s2 ! p) = aid \<and> get_route server s2 \<noteq> None
    \<and> (\<exists>c'. m_ctx s2 h = Some c' \<and> cc_state c' = Await_header \<and> cc_remote_id c' = server \<and> cc_handshake_data c' = None)"
proof -
  let ?pl = "handshake_payload aid sigs" and ?hdr = "server_header server aid sigs"
  let ?c = "c\<lparr>cc_hdr := ?hdr, cc_state := Await_payload\<rparr>"
  let ?s1 = "bb_emit (Eff_configure_read h (length ?pl)) (set_ctx h ?c (s\<lparr>m_current_context := Some h\<rparr>))"
  have "length ?pl > 0" by (simp add: handshake_payload_def)
  then have pl: "?pl \<noteq> []" by (rule length_greater_0_conv [THEN iffD1])
  have fields: "payload_len ?hdr = length ?pl" "operation ?hdr = op_server_handshake" "operation_data ?hdr = basp_version"
      "dest_node ?hdr = Invalid_node_id" "source_node ?hdr = server"
    using assms(14) by (simp_all add: server_header_def mk_header_def)
  have ok: "header_ok ?hdr" "header_valid ?hdr"
    using assms(6,7,10,11,14) pl by (auto simp: header_ok_def server_header_def mk_header_def op_defs basp_version_def nid_ok_def
        header_valid_def server_handshake_valid_def valid_node_def)
  have first: "new_data code h (basp_write ?hdr) s = Inr ?s1"
    using receive_header [OF assms(2) _ assms(5) ok, of code] assms(3) fields(1) pl by simp
  let ?c1 = "?c\<lparr>cc_remote_id := server\<rparr>" and ?s2 = "set_ctx h (?c\<lparr>cc_remote_id := server\<rparr>) (?s1\<lparr>m_current_context := Some h\<rparr>)"
  from complete_handshake_new [of ?s2 h ?c1 hs aid] assms
  obtain p s3 where fin: "complete_handshake h ?c1 hs aid ?s2 = Inr (Await_header, s3)"
    "Eff_write h (basp_write (client_header (bb_node s) server)) \<in> set (bb_effects s3)"
    "Eff_promise_value (hs_result hs) (Some (Proxy_ref p)) \<in> set (bb_effects s3)"
    "nkey (fst (bb_proxies s3 ! p)) = nkey server" "snd (bb_proxies s3 ! p) = aid" "get_route server s3 \<noteq> None"
    "m_ctx s3 h = Some (?c1\<lparr>cc_handshake_data := None, cc_published_actor := Some p\<rparr>)" "h \<in> set (bb_scribes s3)"
    by (auto simp: get_route_def)
  have "handle_server_handshake h ?c ?hdr (Some ?pl) (?s1\<lparr>m_current_context := Some h\<rparr>) = Inr (Await_header, s3)"
    using assms(4,13) fields fin(1) read_handshake_payload [OF assms(11,12)]
    by (auto simp: handle_server_handshake_def Let_def list_all_iff)
  then have "handle_basp_header code h ?c (Some ?pl) (?s1\<lparr>m_current_context := Some h\<rparr>) = Inr (Await_header, s3)"
    using fields by (simp add: handle_basp_header_def Let_def valid_node_def op_defs)
  then have "new_data code h ?pl ?s1 = enter_state h Await_header s3" by (simp add: new_data_def Let_def)
  with first fin show ?thesis
    by (fastforce simp: enter_state_def configure_read_def get_route_def)
qed

text \<open>
  C10. A handshake between two nodes that do not know each other succeeds: what the server writes
  when it accepts the connection makes the client answer, enter the server into its routes
  and hand out a proxy of the published actor; the answer makes the server enter the
  client; both then wait for headers. The client accepts if it expects the interfaces the server announces.
\<close>

theorem handshake_connects:
  fixes sS sC :: "'m basp_broker"
  defines "nS \<equiv> bb_node sS" and "nC \<equiv> bb_node sC"
  assumes nodes: "nid_ok nS" "nid_ok nC" "valid_node nS" "valid_node nC" "\<not> node_eq nS nC"
    and server: "bb_inv sS" "m_acceptors sS a = Some (actor, port)" "hS \<in> set (bb_scribes sS)" "get_route nC sS = None"
      "0 < actor" "actor < 2 ^ 32" "sigs_ok (types actor)" "length (handshake_payload actor (types actor)) < 2 ^ 32"
    and client: "bb_inv sC" "m_ctx sC hC = Some c" "cc_state c = Await_server_handshake" "cc_handshake_data c = Some hs"
      "hC \<in> set (bb_scribes sC)" "get_route nS sC = None" "set (types actor) \<subseteq> set (hs_expected_ifs hs)"
  shows "\<exists>sS1 sS2 sC1 sC2 shdr payload chdr p.
    new_connection types a hS sS = Inr sS1 \<and> Eff_write hS (shdr @ payload) \<in> set (bb_effects sS1) \<and> length shdr = header_size
    \<and> new_data code hC shdr sC = Inr sC1 \<and> new_data code hC payload sC1 = Inr sC2
    \<and> Eff_promise_value (hs_result hs) (Some (Proxy_ref p)) \<in> set (bb_effects sC2)
    \<and> nkey (fst (bb_proxies sC2 ! p)) = nkey nS \<and> snd (bb_proxies sC2 ! p) = actor \<and> get_route nS sC2 \<noteq> None
    \<and> Eff_write hC chdr \<in> set (bb_effects sC2) \<and> new_data code hS chdr sS1 = Inr sS2 \<and> get_route nC sS2 = Some hS
    \<and> map_option cc_state (m_ctx sC2 hC) = Some Await_header \<and> map_option cc_state (m_ctx sS2 hS) = Some Await_header"
proof -
  let ?hdr = "server_header nS actor (types actor)" and ?pl = "handshake_payload actor (types actor)"
  let ?c0 = "new_context Await_client_handshake None"
  obtain sS1 where greet: "new_connection types a hS sS = Inr sS1" and
    sS1: "sS1 = bb_emit (Eff_configure_read hS header_size) (set_ctx hS ?c0 (bb_emit (Eff_flush hS) (bb_emit (Eff_write hS (basp_write ?hdr @ ?pl)) (set_ctx hS ?c0 sS))))"
    using server_greets [OF server(2,3), of types] by (simp add: nS_def)
  have inv: "bb_inv sS1" "Eff_write hS (basp_write ?hdr @ ?pl) \<in> set (bb_effects sS1)" "m_ctx sS1 hS = Some ?c0" "hS \<in> set (bb_scribes sS1)"
    "bb_node sS1 = nS" "get_route nC sS1 = None" "cc_state ?c0 = Await_client_handshake" "cc_remote_id ?c0 = Invalid_node_id"
    using server(1,3,4) by (simp_all add: sS1 nS_def get_route_def new_context_def)
  have hdr: "length (basp_write ?hdr) = header_size"
    using nodes(1) server(6,8) by (intro length_basp_write) (simp add: header_ok_def server_header_def mk_header_def op_defs basp_version_def nid_ok_def)
  from client_completes [OF client(1-5) nodes(1,3), of actor "types actor" code] nodes(5) client(6,7) server(5-8)
  obtain sC1 sC2 p where cl: "new_data code hC (basp_write ?hdr) sC = Inr sC1" "new_data code hC ?pl sC1 = Inr sC2"
    "Eff_write hC (basp_write (client_header nC nS)) \<in> set (bb_effects sC2)"
    "Eff_promise_value (hs_result hs) (Some (Proxy_ref p)) \<in> set (bb_effects sC2)"
    "nkey (fst (bb_proxies sC2 ! p)) = nkey nS" "snd (bb_proxies sC2 ! p) = actor" "get_route nS sC2 \<noteq> None"
    "map_option cc_state (m_ctx sC2 hC) = Some Await_header"
    by (auto simp: nC_def)
  from server_accepts [OF inv(3,7,8,4) nodes(2), of code] nodes inv(1,5,6)
  obtain sS2 where "new_data code hS (basp_write (client_header nC nS)) sS1 = Inr sS2" "get_route nC sS2 = Some hS"
    "map_option cc_state (m_ctx sS2 hS) = Some Await_header"
    by (auto simp: node_eq_def)
  with greet inv(2) hdr cl show ?thesis by blast
qed

section \<open>Failures\<close>

text \<open>
  A connection the broker closes itself, because it read an invalid header, stays in the routing table:
  nothing tells the broker that the connection is gone. The next message to a
  node behind it hits the closed handle, an exception that terminates the broker.
\<close>

theorem closed_route_is_fatal:
  assumes "m_ctx s h = Some c" "cc_state c \<noteq> Await_payload" "h \<in> set (bb_scribes s)" "basp_read buf = Inr (hdr, rest)" "\<not> header_valid hdr"
    "get_route nid s = Some h"
  shows "\<exists>s'. new_data code h buf s = Inr s' \<and> m_ctx s' h = None \<and> get_route nid s' = Some h
    \<and> dispatch_out code from_addr (nid, aid) mid msg s' = Inl Bb_invalid_handle"
proof -
  let ?s1 = "set_ctx h (c\<lparr>cc_hdr := hdr\<rparr>) (s\<lparr>m_current_context := Some h\<rparr>)"
  let ?s2 = "bb_emit (Eff_close h) (?s1\<lparr>bb_scribes := removeAll h (bb_scribes ?s1)\<rparr>)"
  let ?s' = "?s2\<lparr>m_ctx := (m_ctx ?s2)(h := None)\<rparr>"
  have "new_data code h buf s = Inr ?s'"
    using assms by (simp add: new_data_def Let_def enter_state_def bb_close_def)
  moreover have "get_route nid ?s' = Some h" "m_ctx ?s' h = None" "h \<notin> set (bb_scribes ?s')"
    using assms(6) by (simp_all add: get_route_def bb_emit_def set_ctx_def)
  moreover from this have "dispatch_out code from_addr (nid, aid) mid msg ?s' = Inl Bb_invalid_handle"
    by (auto simp: dispatch_out_def Let_def wr_buf_def split: option.split prod.split)
  ultimately show ?thesis by blast
qed

text \<open>The promises that were fulfilled.\<close>

definition promises :: "'m bb_effect list \<Rightarrow> 'm bb_effect list" where
  "promises es = filter (\<lambda>e. case e of Eff_promise_value _ _ \<Rightarrow> True | Eff_promise_error _ _ \<Rightarrow> True | _ \<Rightarrow> False) es"

lemma promises_drop_nodes: "promises (bb_effects (drop_nodes lcs s)) = promises (bb_effects s)"
proof (induction lcs s rule: drop_nodes.induct)
  case (2 lc lcs s)
  obtain ps ns where g: "ns_get_all (bb_live s) lc (m_namespace s) = (ps, ns)" by fastforce
  from 2 [OF g [symmetric] refl] g show ?case by (simp add: promises_def filter_empty_conv)
qed simp

text \<open>
  If the server speaks another version of the protocol, the client closes the connection and
  forgets the context without fulfilling the promise of \<open>remote_actor\<close>, neither now nor when the
  connection goes down, so that the caller waits for ever.
\<close>

theorem version_mismatch_unreported:
  assumes "m_ctx s h = Some c" "cc_handshake_data c = Some hs" "h \<in> set (bb_scribes s)" "cc_state c = Await_payload"
    "operation (cc_hdr c) = op_server_handshake" "dest_node (cc_hdr c) = Invalid_node_id" "operation_data (cc_hdr c) \<noteq> basp_version"
  shows "\<exists>s'. new_data code h buf s = Inr s' \<and> m_ctx s' h = None
    \<and> promises (bb_effects s') = promises (bb_effects s) \<and> promises (bb_effects (connection_closed h s')) = promises (bb_effects s)"
proof -
  let ?s = "s\<lparr>m_current_context := Some h\<rparr>"
  let ?s2 = "bb_emit (Eff_close h) (?s\<lparr>bb_scribes := removeAll h (bb_scribes ?s)\<rparr>)"
  let ?s' = "?s2\<lparr>m_ctx := (m_ctx ?s2)(h := None)\<rparr>"
  have "handle_basp_header code h c (Some buf) ?s = Inr (Close_connection, ?s)"
    using assms by (simp add: handle_basp_header_def Let_def valid_node_def op_defs handle_server_handshake_def)
  then have "new_data code h buf s = Inr ?s'"
    using assms by (simp add: new_data_def Let_def enter_state_def bb_close_def)
  moreover have "promises (bb_effects (connection_closed h ?s')) = promises (bb_effects ?s')"
    by (simp add: connection_closed_def Let_def promises_drop_nodes)
  ultimately show ?thesis by (auto simp: promises_def)
qed

text \<open>
  A server may announce no actor, with an empty payload: the header passes the validity check. The
  client then reads the payload through a null pointer.
\<close>

theorem empty_handshake_crashes:
  assumes "m_ctx s h = Some c" "cc_handshake_data c = Some hs" "cc_state c = Await_server_handshake" "header_ok hdr"
    "server_handshake_valid hdr" "operation hdr = op_server_handshake" "source_actor hdr = 0" "operation_data hdr = basp_version"
  shows "header_valid hdr \<and> new_data code h (basp_write hdr) s = Inl Bb_null_payload"
proof -
  have "header_valid hdr" using assms(5,6) by (simp add: header_valid_def)
  moreover have "payload_len hdr = 0" "\<not> valid_node (dest_node hdr)" using assms(5,7) by (auto simp: server_handshake_valid_def)
  ultimately show ?thesis
    using assms basp_read_write_exact [OF assms(4)]
    by (simp add: new_data_def Let_def handle_basp_header_def op_defs handle_server_handshake_def)
qed

text \<open>The check of the interface asks whether the client expects all that the server announces, so
  that an actor without interface always passes and the last message but one is never made.\<close>

lemma untyped_actor_accepted:
  assumes "cc_handshake_data c = Some hs" "operation_data hdr = basp_version" "read_server_handshake buf = Inr (aid, [])"
  shows "handle_server_handshake h c hdr (Some buf) s =
    complete_handshake h (c\<lparr>cc_remote_id := source_node hdr\<rparr>) hs aid (set_ctx h (c\<lparr>cc_remote_id := source_node hdr\<rparr>) s)"
  using assms by (simp add: handle_server_handshake_def Let_def)

section \<open>Witnesses\<close>

definition demo_codec :: "nat list codec" where
  "demo_codec = \<lparr>write_msg = id, read_msg = Inr, addrs_of = (\<lambda>_. []), signal_of = (\<lambda>_. None)\<rparr>"

definition node_S :: node_id where "node_S = Node_id 10 (replicate 20 1)"
definition node_C :: node_id where "node_C = Node_id 11 (replicate 20 2)"

lemmas node_defs = node_S_def node_C_def

lemma demo_nodes:
  "nid_ok node_S" "nid_ok node_C" "valid_node node_S" "valid_node node_C" "\<not> node_eq node_S node_C" "\<not> node_eq node_C node_S"
  by (simp_all add: node_defs nid_ok_def host_id_size_def list_all_iff valid_node_def node_eq_def nkey_def)

text \<open>A server that published actor 5 at port 80 and a client that opened a connection; then both with
  the connection established.\<close>

definition server0 :: "nat list basp_broker" where
  "server0 = add_published_actor 0 5 80 (bb_init node_S)"

definition demo_hs :: client_handshake_data where
  "demo_hs = \<lparr>hs_result = 77, hs_expected_ifs = []\<rparr>"

definition client0 :: "nat list basp_broker" where
  "client0 = (bb_init node_C)\<lparr>bb_scribes := [2], m_ctx := [2 \<mapsto> new_context Await_server_handshake (Some demo_hs)]\<rparr>"

definition connected :: "node_id \<Rightarrow> node_id \<Rightarrow> nat \<Rightarrow> 'm basp_broker" where
  "connected this other h = (bb_init this)\<lparr>bb_scribes := [h], m_routes := [(nkey other, (Some h, []))],
     m_ctx := [h \<mapsto> (new_context Await_header None)\<lparr>cc_remote_id := other\<rparr>],
     bb_registry := fst (reg_put 5 (Some 5) not_exited registry_new)\<rparr>"

lemma demo_server0: "bb_reach demo_codec server0" "bb_inv server0" "m_acceptors server0 0 = Some (5, 80)" "m_open_ports server0 80 = Some 0"
  "bb_node server0 = node_S" "get_route nid server0 = None"
proof -
  have "bb_step demo_codec (bb_init node_S) server0" unfolding server0_def by (rule bb_step.publish) (simp add: bb_init_def)
  from bb_reach.step [OF bb_reach.init this] show r: "bb_reach demo_codec server0" .
  from bb_reach_inv [OF r] show "bb_inv server0" .
qed (simp_all add: server0_def add_published_actor_def bb_init_def get_route_def)

lemma demo_client0: "bb_inv client0" "m_ctx client0 2 = Some (new_context Await_server_handshake (Some demo_hs))" "2 \<in> set (bb_scribes client0)"
  "bb_node client0 = node_C" "get_route nid client0 = None"
  by (simp_all add: client0_def bb_init_def bb_inv_def routes_ok_def proxies_ok_def ports_ok_def ns_lookup_def get_route_def)

lemma demo_connected:
  "bb_inv (connected this other h)" "m_ctx (connected this other h) h = Some ((new_context Await_header None)\<lparr>cc_remote_id := other\<rparr>)"
  "h \<in> set (bb_scribes (connected this other h))" "bb_node (connected this other h) = this" "get_route other (connected this other h) = Some h"
  "reg_get 5 (bb_registry (connected this other h)) = Some 5"
  by (simp_all add: connected_def bb_init_def bb_inv_def routes_ok_def proxies_ok_def ports_ok_def ns_lookup_def get_route_def
      entry_route_def lost_entry_def reg_get_def get_entry_def m_entries_put registry_new_def)


lemma connected_server_reachable: "\<exists>s. bb_reach demo_codec s \<and> get_route node_C s = Some 1"
proof -
  let ?s = "server0\<lparr>bb_scribes := 1 # bb_scribes server0\<rparr>"
  have acc: "m_acceptors ?s 0 = Some (5, 80)" "1 \<in> set (bb_scribes ?s)" using demo_server0(3) by simp_all
  note n = server_greets [OF acc, of "\<lambda>_. []"]
  obtain s1 where s1: "new_connection (\<lambda>_. []) 0 1 ?s = Inr s1" "m_ctx s1 1 = Some (new_context Await_client_handshake None)"
    "1 \<in> set (bb_scribes s1)" "bb_node s1 = node_S" "get_route node_C s1 = None"
    using n demo_server0(5,6) by (auto simp: get_route_def)
  have "m_ctx server0 1 = None" by (simp add: server0_def add_published_actor_def bb_init_def)
  then have r1: "bb_reach demo_codec s1" using s1(1) demo_server0(1) by (auto intro: bb_reach.step bb_step.accepted)
  from server_accepts [OF s1(2) _ _ s1(3), of node_C demo_codec] s1(4,5) demo_nodes bb_reach_inv [OF r1]
  obtain s2 where "new_data demo_codec 1 (basp_write (client_header node_C node_S)) s1 = Inr s2" "get_route node_C s2 = Some 1"
    by (auto simp: new_context_def)
  then show ?thesis using r1 by (auto intro: bb_reach.step bb_step.data)
qed

theorem lost_connection_purged_witness:
  "\<exists>s. get_route node_C s = Some 1 \<and> get_route node_C (connection_closed 1 (s :: nat list basp_broker)) \<noteq> Some 1"
  using connected_server_reachable lost_connection_purged [of demo_codec _ node_C 1] by blast


theorem handshake_connects_witness:
  "\<exists>sC1 sC2 shdr payload p. new_data demo_codec 2 shdr client0 = Inr sC1 \<and> new_data demo_codec 2 payload sC1 = Inr sC2
     \<and> Eff_promise_value 77 (Some (Proxy_ref p)) \<in> set (bb_effects sC2)"
proof -
  let ?S = "server0\<lparr>bb_scribes := [1]\<rparr>"
  have "sigs_ok []" "length (handshake_payload 5 []) < 2 ^ 32" by (simp_all add: sigs_ok_def handshake_payload_def)
  then show ?thesis
    using handshake_connects [of ?S client0 0 5 80 1 "\<lambda>_. []" 2 "new_context Await_server_handshake (Some demo_hs)" demo_hs demo_codec]
      demo_nodes demo_server0 demo_client0 by (auto simp: new_context_def demo_hs_def get_route_def)
qed

theorem closed_route_is_fatal_witness:
  "\<exists>s'. new_data demo_codec 1 (basp_write blank_header) (connected node_S node_C 1) = Inr s'
     \<and> dispatch_out demo_codec None (node_C, 9) 0 [1] s' = Inl Bb_invalid_handle"
proof -
  have h: "header_ok blank_header" "\<not> header_valid blank_header"
    by (simp_all add: header_ok_def blank_header_def nid_ok_def header_valid_def op_defs server_handshake_valid_def valid_node_def)
  let ?s = "connected node_S node_C 1"
  from closed_route_is_fatal [of ?s 1 "(new_context Await_header None)\<lparr>cc_remote_id := node_C\<rparr>" "basp_write blank_header" blank_header "[]" node_C demo_codec None 9 0 "[1]"]
  show ?thesis using h(2) basp_read_write_exact [OF h(1)] by (auto simp: new_context_def demo_connected)
qed

definition mismatch_ctx :: connection_context where
  "mismatch_ctx = (new_context Await_payload (Some demo_hs))\<lparr>cc_hdr := (server_header node_S 5 [])\<lparr>operation_data := 2\<rparr>\<rparr>"

theorem version_mismatch_unreported_witness:
  "\<exists>s'. new_data demo_codec 2 [] (set_ctx 2 mismatch_ctx client0) = Inr s' \<and> m_ctx s' 2 = None"
  using version_mismatch_unreported [of "set_ctx 2 mismatch_ctx client0" 2 mismatch_ctx demo_hs demo_codec "[]"] demo_client0
  by (auto simp: mismatch_ctx_def new_context_def server_header_def mk_header_def basp_version_def)

theorem empty_handshake_crashes_witness:
  "new_data demo_codec 2 (basp_write (mk_header node_S Invalid_node_id 0 0 0 op_server_handshake basp_version)) client0 = Inl Bb_null_payload"
  using empty_handshake_crashes [OF demo_client0(2), of demo_hs "mk_header node_S Invalid_node_id 0 0 0 op_server_handshake basp_version" demo_codec] demo_nodes
  by (simp add: new_context_def mk_header_def header_ok_def op_defs basp_version_def nid_ok_def server_handshake_valid_def valid_node_def)

end
