(* ===== verification/Broker.thy ===== *)
theory Broker
  imports Event_Actor
begin

text \<open>
  Brokers (libcaf_io/src/broker.cpp): actors the middleman runs, which handle a message as soon as
  it arrives, own connections (scribes) and acceptors (doormen), and close them all when they
  terminate. Messages are classified and handled as for event-based actors (\<open>Event_Actor\<close>).
\<close>

section \<open>Definitions\<close>

record ('b, 'u) broker =
  br_rs :: "('b, 'u) resumable"     \<comment> \<open>actor, cache and log; the mailbox is not used\<close>
  m_scribes :: "nat list"
  m_doormen :: "nat list"
  br_stopped :: "nat list"          \<comment> \<open>handles whose reading was stopped\<close>

definition br_actor :: "('b, 'u) broker \<Rightarrow> ('b, 'u) ev_actor" where
  "br_actor br = rs_actor (br_rs br)"

definition set_actor :: "('b, 'u) ev_actor \<Rightarrow> ('b, 'u) broker \<Rightarrow> ('b, 'u) broker" where
  "set_actor a br = br\<lparr>br_rs := (br_rs br)\<lparr>rs_actor := a\<rparr>\<rparr>"

text \<open>\<open>while (!empty && not exited && invoke_message_from_cache())\<close>\<close>

function broker_cache_loop :: "('b, 'u) user_code \<Rightarrow> ('b, 'u) resumable \<Rightarrow> (exn + unit) \<times> ('b, 'u) resumable" where
  "broker_cache_loop code rs =
     (if \<not> bs_empty (ea_stack (rs_actor rs)) \<and> planned (rs_actor rs) = not_exited
      then (case invoke_message_from_cache code rs of
              (Inl e, rs1) \<Rightarrow> (Inl e, rs1)
            | (Inr found, rs1) \<Rightarrow> if found then broker_cache_loop code rs1 else (Inr (), rs1))
      else (Inr (), rs))"
  by pat_completeness auto

termination
  by (relation "measure (\<lambda>(code, rs). length (rs_cache rs))")
    (auto dest!: sym [of "(_, _)"] invoke_message_from_cache_shrinks)

declare broker_cache_loop.simps [simp del]

definition close_all :: "('b, 'u) broker \<Rightarrow> ('b, 'u) broker" where
  "close_all br = br\<lparr>m_doormen := [], m_scribes := [], br_stopped := br_stopped br @ m_doormen br @ m_scribes br\<rparr>"

definition broker_cleanup :: "nat \<Rightarrow> ('b, 'u) broker \<Rightarrow> ('b, 'u) broker" where
  "broker_cleanup reason br = (let br1 = close_all br in br1\<lparr>br_rs := rs_cleanup reason (br_rs br1)\<rparr>)"

text \<open>The \<open>try\<close> block of \<open>invoke_message\<close>. The element for the cache is made with the variable \<open>mid\<close> of the
  inner scope, the id of the response the behavior waits for.\<close>

definition broker_try :: "('b, 'u) user_code \<Rightarrow> nat option \<Rightarrow> message_id \<Rightarrow> 'u content \<Rightarrow> 'b \<Rightarrow> message_id \<Rightarrow> ('b, 'u) resumable
    \<Rightarrow> (exn + unit) \<times> ('b, 'u) resumable" where
  "broker_try code sender mid msg bhvr back_mid rs =
     (let node = \<lparr>el_sender = sender, el_mid = mid, el_msg = msg, el_marked = False\<rparr>
      in case handle_message code bhvr node back_mid (rs_actor rs) of
           (Inl e, a1) \<Rightarrow> (Inl e, rs\<lparr>rs_actor := a1\<rparr>)
         | (Inr res, a1) \<Rightarrow>
             (let rs1 = rs\<lparr>rs_actor := a1\<rparr>
              in if res = Hm_handled then broker_cache_loop code (log_fate Fate_handled node rs1)
                 else if res = Hm_drop then (Inr (), log_fate Fate_dropped node rs1)
                 else (Inr (), rs1\<lparr>rs_cache := np_push_to_cache (node\<lparr>el_mid := back_mid\<rparr>) (rs_cache rs1)\<rparr>)))"

definition broker_invoke_message :: "('b, 'u) user_code \<Rightarrow> nat option \<Rightarrow> message_id \<Rightarrow> 'u content \<Rightarrow> ('b, 'u) broker \<Rightarrow> ('b, 'u) broker" where
  "broker_invoke_message code sender mid msg br =
     (let a = br_actor br in case (bs_back (ea_stack a), bs_back_id (ea_stack a)) of
        (Some bhvr, Some back_mid) \<Rightarrow>
          if planned a \<noteq> not_exited
          then (if mid_valid mid then set_actor (emit (sync_request_bouncer C_sync_exited (ea_exit_reason a) sender mid) a) br else br)
          else (let (res, rs1) = broker_try code sender mid msg bhvr back_mid (br_rs br);
                    rs2 = (case res of Inl _ \<Rightarrow> rs1\<lparr>rs_actor := ea_quit unhandled_exception (rs_actor rs1)\<rparr> | Inr _ \<Rightarrow> rs1);
                    br1 = br\<lparr>br_rs := rs2\<rparr>; a2 = rs_actor rs2
                in if planned a2 \<noteq> not_exited then broker_cleanup (planned a2) br1
                   else if bs_empty (ea_stack a2) then broker_cleanup normal (set_actor (ea_quit normal a2) br1)
                   else br1)
      | _ \<Rightarrow> if mid_valid mid then set_actor (emit (sync_request_bouncer C_sync_exited (ea_exit_reason a) sender mid) a) br else br)"

text \<open>A servant that fails or is stopped: it is taken out of the broker once, and only a failure is
  reported to the broker.\<close>

definition scribe_disconnect :: "('b, 'u) user_code \<Rightarrow> (nat \<Rightarrow> 'u content) \<Rightarrow> nat \<Rightarrow> bool \<Rightarrow> ('b, 'u) broker \<Rightarrow> ('b, 'u) broker" where
  "scribe_disconnect code closed_msg hdl invoke_disconnect_message br =
     (if hdl \<notin> set (m_scribes br) then br
      else let br1 = br\<lparr>m_scribes := removeAll hdl (m_scribes br)\<rparr>
           in if invoke_disconnect_message
              then broker_invoke_message code (Some (la_id (ea_la (br_actor br1)))) invalid_message_id (closed_msg hdl) br1
              else br1)"

definition broker_close :: "('b, 'u) user_code \<Rightarrow> (nat \<Rightarrow> 'u content) \<Rightarrow> nat \<Rightarrow> ('b, 'u) broker \<Rightarrow> ('b, 'u) broker" where
  "broker_close code closed_msg hdl br = scribe_disconnect code closed_msg hdl False (br\<lparr>br_stopped := br_stopped br @ [hdl]\<rparr>)"

section \<open>Properties\<close>

text \<open>A running broker.\<close>

definition broker_ready :: "('b, 'u) broker \<Rightarrow> bool" where
  "broker_ready br \<longleftrightarrow> \<not> bs_empty (ea_stack (br_actor br)) \<and> planned (br_actor br) = not_exited"

definition broker_down :: "('b, 'u) broker \<Rightarrow> bool" where
  "broker_down br \<longleftrightarrow> m_scribes br = [] \<and> m_doormen br = [] \<and> rs_closed (br_rs br) \<and> ea_exit_reason (br_actor br) \<noteq> not_exited"

lemma broker_cleanup_down: "r \<noteq> not_exited \<Longrightarrow> broker_down (broker_cleanup r br)"
  by (auto simp: broker_cleanup_def close_all_def rs_cleanup_def broker_down_def br_actor_def Let_def emit_def)

text \<open>
  After every message a broker is either running, with a behavior and no planned exit, or
  down, with all its connections and acceptors stopped and an exit reason; an exception in a handler
  takes it down with the reason for unhandled exceptions.
\<close>

theorem broker_runs_or_down:
  assumes "broker_ready br" "ea_exit_reason (br_actor br) = not_exited"
  shows "broker_ready (broker_invoke_message code sender mid msg br) \<or> broker_down (broker_invoke_message code sender mid msg br)"
proof -
  from assms(1) obtain b r where br: "bs_back (ea_stack (br_actor br)) = Some b" "bs_back_id (ea_stack (br_actor br)) = Some r"
    by (auto simp: broker_ready_def bs_empty_def bs_back_def bs_back_id_def)
  obtain res rs1 where t: "broker_try code sender mid msg b r (br_rs br) = (res, rs1)" by fastforce
  define rs2 where "rs2 = (case res of Inl _ \<Rightarrow> rs1\<lparr>rs_actor := ea_quit unhandled_exception (rs_actor rs1)\<rparr> | Inr _ \<Rightarrow> rs1)"
  have run: "broker_invoke_message code sender mid msg br =
    (if planned (rs_actor rs2) \<noteq> not_exited then broker_cleanup (planned (rs_actor rs2)) (br\<lparr>br_rs := rs2\<rparr>)
     else if bs_empty (ea_stack (rs_actor rs2)) then broker_cleanup normal (set_actor (ea_quit normal (rs_actor rs2)) (br\<lparr>br_rs := rs2\<rparr>))
     else br\<lparr>br_rs := rs2\<rparr>)"
    using assms(1) br t by (simp add: broker_invoke_message_def Let_def broker_ready_def rs2_def)
  show ?thesis
    unfolding run using broker_cleanup_down [of _ "br\<lparr>br_rs := rs2\<rparr>"]
    by (auto simp: broker_ready_def br_actor_def normal_def not_exited_def intro: broker_cleanup_down)
qed

text \<open>
  A message the behavior of a broker does not match is cached with the id of the response the
  behavior waits for instead of its own: a synchronous request that has to wait in the
  cache of a broker is no request any more, and the broker will not answer it.
\<close>

theorem broker_cache_loses_id:
  assumes "broker_ready br" "bs_back (ea_stack (br_actor br)) = Some b" "bs_back_id (ea_stack (br_actor br)) = Some invalid_message_id"
    "\<not> is_response mid" "run code b (C_user m) = (\<lambda>a. (Inr None, a))"
  shows "rs_cache (br_rs (broker_invoke_message code sender mid (C_user m) br)) =
      rs_cache (br_rs br) @ [\<lparr>el_sender = sender, el_mid = invalid_message_id, el_msg = C_user m, el_marked = False\<rparr>]
    \<and> \<not> is_request (el_mid (last (rs_cache (br_rs (broker_invoke_message code sender mid (C_user m) br)))))"
proof -
  let ?a = "rs_actor (br_rs br)"
  let ?node = "\<lparr>el_sender = sender, el_mid = mid, el_msg = C_user m, el_marked = False\<rparr>"
  have inv: "\<not> mid_valid invalid_message_id" "\<not> is_request invalid_message_id" by code_simp+
  have "\<exists>a'. handle_message code b ?node invalid_message_id ?a = (Inr Hm_cache, a') \<and> ea_stack a' = ea_stack ?a \<and> planned a' = planned ?a"
    using assms(4,5) inv by (auto simp: handle_message_def filter_msg_def Let_def hm_begin_def invoke_fun_def)
  then obtain a' where h: "handle_message code b ?node invalid_message_id ?a = (Inr Hm_cache, a')" "ea_stack a' = ea_stack ?a" "planned a' = planned ?a"
    by blast
  have "broker_invoke_message code sender mid (C_user m) br =
    br\<lparr>br_rs := (br_rs br)\<lparr>rs_actor := a', rs_cache := rs_cache (br_rs br) @ [?node\<lparr>el_mid := invalid_message_id\<rparr>]\<rparr>\<rparr>"
    using assms(1,2,3) h by (simp add: broker_invoke_message_def broker_try_def Let_def br_actor_def broker_ready_def np_push_to_cache_def)
  with inv show ?thesis by simp
qed

definition demo_broker :: "(nat, nat) broker" where
  "demo_broker = \<lparr>br_rs = demo_rs\<lparr>rs_mailbox := [], rs_initialized := True,
     rs_actor := demo_actor\<lparr>ea_stack := bs_push_back 0 invalid_message_id empty_stack\<rparr>\<rparr>, m_scribes = [3], m_doormen = [4], br_stopped = []\<rparr>"

lemma demo_broker_ready: "broker_ready demo_broker" "ea_exit_reason (br_actor demo_broker) = not_exited"
  by code_simp+

theorem broker_runs_or_down_witness:
  "broker_ready (broker_invoke_message demo_code None invalid_message_id (C_user 9) demo_broker)
   \<or> broker_down (broker_invoke_message demo_code None invalid_message_id (C_user 9) demo_broker)"
  using broker_runs_or_down [OF demo_broker_ready] .

theorem broker_cache_loses_id_witness:
  "is_request demo_request \<and> map el_mid (rs_cache (br_rs (broker_invoke_message demo_code (Some 7) demo_request (C_user 5) demo_broker))) = [invalid_message_id]"
proof -
  have "is_request demo_request" "\<not> is_response demo_request" by code_simp+
  moreover have "bs_back (ea_stack (br_actor demo_broker)) = Some 0" "bs_back_id (ea_stack (br_actor demo_broker)) = Some invalid_message_id"
    "rs_cache (br_rs demo_broker) = []" by code_simp+
  moreover have "run demo_code 0 (C_user 5) = (\<lambda>a. (Inr None, a))" by (simp add: demo_code_def fun_eq_iff)
  ultimately show ?thesis
    using broker_cache_loses_id [where code = demo_code and b = 0 and mid = demo_request and m = 5 and sender = "Some 7", OF demo_broker_ready(1)] by simp
qed

end
