(* ===== verification/Double_Ended_Queue.thy ===== *)
theory Double_Ended_Queue
  imports Prelude "HOL-Library.Monad_Syntax"
begin

text \<open>
  The job queue of a worker (caf/detail/double_ended_queue.hpp): a singly linked list behind a
  dummy node, with one spin lock for its head and one for its tail. Nodes live in a heap, so
  that a freed node is no longer found there. Appending takes only the tail lock and taking the
  head only the head lock, so that both may run at the same time; their steps interleave.
\<close>

section \<open>Model\<close>

subsection \<open>The queue\<close>

record 'j dnode =
  nd_value :: "'j option"
  nd_next :: "nat option"

record 'j double_ended_queue =
  heap :: "nat \<rightharpoonup> 'j dnode"
  dq_head :: nat
  dq_tail :: nat

datatype dq_error = Dangling_node | Dq_require_failed

text \<open>The constructor; \<open>a\<close> is the address of the dummy.\<close>

definition new_queue :: "nat \<Rightarrow> 'j double_ended_queue" where
  "new_queue a = \<lparr>heap = [a \<mapsto> \<lparr>nd_value = None, nd_next = None\<rparr>], dq_head = a, dq_tail = a\<rparr>"

definition new_node :: "nat \<Rightarrow> 'j \<Rightarrow> 'j double_ended_queue \<Rightarrow> 'j double_ended_queue" where
  "new_node tmp value q = q\<lparr>heap := (heap q)(tmp \<mapsto> \<lparr>nd_value = Some value, nd_next = None\<rparr>)\<rparr>"

definition set_next :: "nat \<Rightarrow> nat option \<Rightarrow> 'j double_ended_queue \<Rightarrow> dq_error + 'j double_ended_queue" where
  "set_next a p q = (case heap q a of
      None \<Rightarrow> Inl Dangling_node
    | Some nd \<Rightarrow> Inr (q\<lparr>heap := (heap q)(a \<mapsto> nd\<lparr>nd_next := p\<rparr>)\<rparr>))"

definition free_node :: "nat \<Rightarrow> 'j double_ended_queue \<Rightarrow> 'j double_ended_queue" where
  "free_node a q = q\<lparr>heap := (heap q)(a := None)\<rparr>"

text \<open>\<open>append\<close>: the new node is published, then the tail swings forward.\<close>

definition append_publish :: "nat \<Rightarrow> 'j double_ended_queue \<Rightarrow> dq_error + 'j double_ended_queue" where
  "append_publish tmp q = set_next (dq_tail q) (Some tmp) q"

definition append_swing :: "nat \<Rightarrow> 'j double_ended_queue \<Rightarrow> 'j double_ended_queue" where
  "append_swing tmp q = q\<lparr>dq_tail := tmp\<rparr>"

definition dq_append :: "nat \<Rightarrow> 'j \<Rightarrow> 'j double_ended_queue \<Rightarrow> dq_error + 'j double_ended_queue" where
  "dq_append tmp value q = map_sum id (append_swing tmp) (append_publish tmp (new_node tmp value q))"

text \<open>\<open>prepend\<close>, with both locks held.\<close>

definition prepend_locked :: "nat \<Rightarrow> 'j double_ended_queue \<Rightarrow> dq_error + 'j double_ended_queue" where
  "prepend_locked tmp q = (let first = dq_head q in case heap q first of
      None \<Rightarrow> Inl Dangling_node
    | Some f \<Rightarrow>
        (case nd_next f of
           None \<Rightarrow> if first \<noteq> dq_tail q then Inl Dq_require_failed else set_next first (Some tmp) (q\<lparr>dq_tail := tmp\<rparr>)
         | Some n \<Rightarrow>
             if first = dq_tail q then Inl Dq_require_failed
             else (case set_next tmp (Some n) q of Inl e \<Rightarrow> Inl e | Inr q1 \<Rightarrow> set_next first (Some tmp) q1)))"

definition dq_prepend :: "nat \<Rightarrow> 'j \<Rightarrow> 'j double_ended_queue \<Rightarrow> dq_error + 'j double_ended_queue" where
  "dq_prepend tmp value q = prepend_locked tmp (new_node tmp value q)"

text \<open>\<open>take_head\<close>: the successor of the dummy is read, becomes the new dummy and gives up its
  value; the old dummy is freed after the lock is released.\<close>

definition head_next :: "'j double_ended_queue \<Rightarrow> dq_error + nat option" where
  "head_next q = (case heap q (dq_head q) of None \<Rightarrow> Inl Dangling_node | Some f \<Rightarrow> Inr (nd_next f))"

definition head_swing :: "nat \<Rightarrow> 'j double_ended_queue \<Rightarrow> dq_error + 'j option \<times> 'j double_ended_queue" where
  "head_swing n q = (case heap q n of
      None \<Rightarrow> Inl Dangling_node
    | Some nd \<Rightarrow> Inr (nd_value nd, q\<lparr>heap := (heap q)(n \<mapsto> nd\<lparr>nd_value := None\<rparr>), dq_head := n\<rparr>))"

definition dq_take_head :: "'j double_ended_queue \<Rightarrow> dq_error + 'j option \<times> 'j double_ended_queue" where
  "dq_take_head q = (case head_next q of
      Inl e \<Rightarrow> Inl e
    | Inr None \<Rightarrow> Inr (None, q)
    | Inr (Some n) \<Rightarrow> map_sum id (\<lambda>(r, q1). (r, free_node (dq_head q) q1)) (head_swing n q))"

text \<open>\<open>find_predecessor\<close>; \<open>None\<close>: the loop does not end.\<close>

partial_function (option) find_predecessor :: "(nat \<rightharpoonup> 'j dnode) \<Rightarrow> nat \<Rightarrow> nat option \<Rightarrow> (dq_error + nat option) option" where
  "find_predecessor h what i = (case i of
      None \<Rightarrow> Some (Inr None)
    | Some a \<Rightarrow>
        (case h a of
           None \<Rightarrow> Some (Inl Dangling_node)
         | Some nd \<Rightarrow> if nd_next nd = Some what then Some (Inr (Some a)) else find_predecessor h what (nd_next nd)))"

declare find_predecessor.simps [code]

text \<open>\<open>take_tail\<close>, with both locks held: the value and the node that is freed later.\<close>

definition take_tail_locked :: "'j double_ended_queue \<Rightarrow> (dq_error + (('j option \<times> nat) option \<times> 'j double_ended_queue)) option" where
  "take_tail_locked q = (let last_node = dq_tail q in
     if last_node = dq_head q then Some (Inr (None, q))
     else case heap q last_node of
        None \<Rightarrow> Some (Inl Dangling_node)
      | Some nd \<Rightarrow>
          (case find_predecessor (heap q) last_node (Some (dq_head q)) of
             None \<Rightarrow> None
           | Some (Inl e) \<Rightarrow> Some (Inl e)
           | Some (Inr None) \<Rightarrow> Some (Inl Dq_require_failed)
           | Some (Inr (Some p)) \<Rightarrow>
               Some (map_sum id (Pair (Some (nd_value nd, last_node))) (set_next p None (q\<lparr>dq_tail := p\<rparr>)))))"

definition dq_take_tail :: "'j double_ended_queue \<Rightarrow> (dq_error + 'j option \<times> 'j double_ended_queue) option" where
  "dq_take_tail q = map_option (map_sum id (\<lambda>(r, q1). case r of
      None \<Rightarrow> (None, q1) | Some (v, last_node) \<Rightarrow> (v, free_node last_node q1))) (take_tail_locked q)"

definition dq_empty :: "'j double_ended_queue \<Rightarrow> bool" where
  "dq_empty q \<longleftrightarrow> dq_head q = dq_tail q"

subsection \<open>Threads\<close>

text \<open>
  Where a thread is: before or after it took a lock, or about to free a node. A lock is
  released with the last access it guards. The log records each operation at the step in which
  it takes effect, with its result.
\<close>

datatype 'j dq_pc = Idle
  | App_lock nat 'j | App_publish nat 'j | App_swing nat
  | Pre_lock_head nat 'j | Pre_lock_tail nat 'j | Pre_locked nat 'j
  | Th_lock | Th_read | Th_next nat
  | Tt_lock_head | Tt_lock_tail | Tt_locked
  | Del nat

datatype 'j dq_event = Ev_append 'j | Ev_prepend 'j | Ev_head "'j option" | Ev_tail "'j option"

record 'j dqsys =
  dq :: "'j double_ended_queue"
  m_head_lock :: "nat option"
  m_tail_lock :: "nat option"
  pcs :: "nat \<Rightarrow> 'j dq_pc"
  dlog :: "(nat \<times> 'j dq_event) list"

datatype 'j outcome = Blocked | Diverges | Fails dq_error | Runs "'j dqsys"

definition goto :: "nat \<Rightarrow> 'j dq_pc \<Rightarrow> 'j dqsys \<Rightarrow> 'j dqsys" where
  "goto t p s = s\<lparr>pcs := (pcs s)(t := p)\<rparr>"

definition log_event :: "nat \<Rightarrow> 'j dq_event \<Rightarrow> 'j dqsys \<Rightarrow> 'j dqsys" where
  "log_event t e s = s\<lparr>dlog := dlog s @ [(t, e)]\<rparr>"

text \<open>The constructor of \<open>lock_guard\<close>; a thread spins while another one holds the lock.\<close>

definition lock_head :: "nat \<Rightarrow> 'j dq_pc \<Rightarrow> 'j dqsys \<Rightarrow> 'j outcome" where
  "lock_head t p s = (if m_head_lock s = None then Runs (goto t p (s\<lparr>m_head_lock := Some t\<rparr>)) else Blocked)"

definition lock_tail :: "nat \<Rightarrow> 'j dq_pc \<Rightarrow> 'j dqsys \<Rightarrow> 'j outcome" where
  "lock_tail t p s = (if m_tail_lock s = None then Runs (goto t p (s\<lparr>m_tail_lock := Some t\<rparr>)) else Blocked)"

definition dq_micro :: "nat \<Rightarrow> 'j dqsys \<Rightarrow> 'j outcome" where
  "dq_micro t s = (case pcs s t of
      Idle \<Rightarrow> Blocked
    | App_lock tmp v \<Rightarrow> lock_tail t (App_publish tmp v) s
    | App_publish tmp v \<Rightarrow>
        (case append_publish tmp (dq s) of
           Inl e \<Rightarrow> Fails e | Inr q \<Rightarrow> Runs (goto t (App_swing tmp) (log_event t (Ev_append v) (s\<lparr>dq := q\<rparr>))))
    | App_swing tmp \<Rightarrow> Runs (goto t Idle (s\<lparr>dq := append_swing tmp (dq s), m_tail_lock := None\<rparr>))
    | Pre_lock_head tmp v \<Rightarrow> lock_head t (Pre_lock_tail tmp v) s
    | Pre_lock_tail tmp v \<Rightarrow> lock_tail t (Pre_locked tmp v) s
    | Pre_locked tmp v \<Rightarrow>
        (case prepend_locked tmp (dq s) of
           Inl e \<Rightarrow> Fails e
         | Inr q \<Rightarrow> Runs (goto t Idle (log_event t (Ev_prepend v) (s\<lparr>dq := q, m_head_lock := None, m_tail_lock := None\<rparr>))))
    | Th_lock \<Rightarrow> lock_head t Th_read s
    | Th_read \<Rightarrow>
        (case head_next (dq s) of
           Inl e \<Rightarrow> Fails e
         | Inr None \<Rightarrow> Runs (goto t Idle (log_event t (Ev_head None) (s\<lparr>m_head_lock := None\<rparr>)))
         | Inr (Some n) \<Rightarrow> Runs (goto t (Th_next n) s))
    | Th_next n \<Rightarrow>
        (case head_swing n (dq s) of
           Inl e \<Rightarrow> Fails e
         | Inr (r, q) \<Rightarrow> Runs (goto t (Del (dq_head (dq s))) (log_event t (Ev_head r) (s\<lparr>dq := q, m_head_lock := None\<rparr>))))
    | Tt_lock_head \<Rightarrow> lock_head t Tt_lock_tail s
    | Tt_lock_tail \<Rightarrow> lock_tail t Tt_locked s
    | Tt_locked \<Rightarrow>
        (case take_tail_locked (dq s) of
           None \<Rightarrow> Diverges
         | Some (Inl e) \<Rightarrow> Fails e
         | Some (Inr (r, q)) \<Rightarrow>
             let s1 = s\<lparr>dq := q, m_head_lock := None, m_tail_lock := None\<rparr>
             in (case r of
                   None \<Rightarrow> Runs (goto t Idle (log_event t (Ev_tail None) s1))
                 | Some (v, last_node) \<Rightarrow> Runs (goto t (Del last_node) (log_event t (Ev_tail v) s1))))
    | Del a \<Rightarrow>
        (if heap (dq s) a = None then Fails Dangling_node else Runs (goto t Idle (s\<lparr>dq := free_node a (dq s)\<rparr>))))"

text \<open>An idle thread calls an operation (\<open>append\<close> and \<open>prepend\<close> first allocate their node); any
  other thread goes on with its operation.\<close>

inductive dq_step :: "'j dqsys \<Rightarrow> 'j dqsys \<Rightarrow> bool" where
  call_append: "pcs s t = Idle \<Longrightarrow> heap (dq s) tmp = None \<Longrightarrow>
    dq_step s (goto t (App_lock tmp v) (s\<lparr>dq := new_node tmp v (dq s)\<rparr>))"
| call_prepend: "pcs s t = Idle \<Longrightarrow> heap (dq s) tmp = None \<Longrightarrow>
    dq_step s (goto t (Pre_lock_head tmp v) (s\<lparr>dq := new_node tmp v (dq s)\<rparr>))"
| call_take_head: "pcs s t = Idle \<Longrightarrow> dq_step s (goto t Th_lock s)"
| call_take_tail: "pcs s t = Idle \<Longrightarrow> dq_step s (goto t Tt_lock_head s)"
| go_on: "dq_micro t s = Runs s' \<Longrightarrow> dq_step s s'"

inductive dq_reach :: "'j dqsys \<Rightarrow> bool" where
  dq_start: "dq_reach \<lparr>dq = new_queue a, m_head_lock = None, m_tail_lock = None, pcs = \<lambda>_. Idle, dlog = []\<rparr>"
| dq_next: "dq_reach s \<Longrightarrow> dq_step s s' \<Longrightarrow> dq_reach s'"

inductive_cases dq_stepE [elim]: "dq_step s s'"

subsection \<open>The queue as a list\<close>

text \<open>One operation with its result on a list; \<open>None\<close>: the operation cannot have this result.\<close>

fun deque_spec :: "'j dq_event \<Rightarrow> 'j list \<Rightarrow> 'j list option" where
  "deque_spec (Ev_append v) xs = Some (xs @ [v])"
| "deque_spec (Ev_prepend v) xs = Some (v # xs)"
| "deque_spec (Ev_head r) xs =
     (if r = (if xs = [] then None else Some (hd xs)) then Some (tl xs) else None)"
| "deque_spec (Ev_tail r) xs =
     (if r = (if xs = [] then None else Some (last xs)) then Some (butlast xs) else None)"

definition spec_run :: "'j dq_event list \<Rightarrow> 'j list option" where
  "spec_run es = fold (\<lambda>e xs. Option.bind xs (deque_spec e)) es (Some [])"

lemma spec_run_simps [simp]:
  "spec_run [] = Some []" "spec_run (es @ [e]) = Option.bind (spec_run es) (deque_spec e)"
  by (simp_all add: spec_run_def)

section \<open>The linked list\<close>

fun path :: "(nat \<rightharpoonup> 'j dnode) \<Rightarrow> nat option \<Rightarrow> nat list \<Rightarrow> bool" where
  "path h p [] \<longleftrightarrow> p = None"
| "path h p (n # ns) \<longleftrightarrow> p = Some n \<and> (\<exists>nd. h n = Some nd \<and> path h (nd_next nd) ns)"

definition node_value :: "(nat \<rightharpoonup> 'j dnode) \<Rightarrow> nat \<Rightarrow> 'j option" where
  "node_value h n = Option.bind (h n) nd_value"

text \<open>The queue consists of the nodes \<open>ns\<close>, the first of them the dummy, and stores \<open>xs\<close>.\<close>

definition represents :: "'j double_ended_queue \<Rightarrow> nat list \<Rightarrow> 'j list \<Rightarrow> bool" where
  "represents q ns xs \<longleftrightarrow> ns \<noteq> [] \<and> distinct ns \<and> path (heap q) (Some (dq_head q)) ns
     \<and> map (node_value (heap q)) (tl ns) = map Some xs"

lemma path_frame: "a \<notin> set ns \<Longrightarrow> path (h(a := v)) p ns = path h p ns"
  by (induction ns arbitrary: p) auto

lemma path_dom: "path h p ns \<Longrightarrow> n \<in> set ns \<Longrightarrow> h n \<noteq> None"
  by (induction ns arbitrary: p) auto

lemma path_snoc:
  "path h p ns \<Longrightarrow> ns \<noteq> [] \<Longrightarrow> distinct ns \<Longrightarrow> b \<notin> set ns \<Longrightarrow> h (last ns) = Some nd \<Longrightarrow> h b = Some fb \<Longrightarrow> nd_next fb = None
    \<Longrightarrow> path (h(last ns \<mapsto> nd\<lparr>nd_next := Some b\<rparr>)) p (ns @ [b])"
  by (induction ns arbitrary: p) (auto simp: path_frame split: if_splits)

lemma path_cut:
  "path h p (ns @ [a, b]) \<Longrightarrow> distinct (ns @ [a, b]) \<Longrightarrow> h a = Some nd \<Longrightarrow> path (h(a \<mapsto> nd\<lparr>nd_next := None\<rparr>)) p (ns @ [a])"
  by (induction ns arbitrary: p) auto

lemma find_predecessor_path:
  "path h p (ns @ [a, b]) \<Longrightarrow> distinct (ns @ [a, b]) \<Longrightarrow> find_predecessor h b p = Some (Inr (Some a))"
proof (induction ns arbitrary: p)
  case Nil
  then show ?case by (subst find_predecessor.simps) auto
next
  case (Cons n ns)
  then obtain nd where nd: "p = Some n" "h n = Some nd" "path h (nd_next nd) (ns @ [a, b])" by auto
  moreover have "nd_next nd \<noteq> Some b" using nd(3) Cons.prems(2) by (cases ns) auto
  ultimately show ?case using Cons by (subst find_predecessor.simps) simp
qed

section \<open>The operations on the list\<close>

lemma node_value_upd: "node_value (h(a := v)) n = (if n = a then Option.bind v nd_value else node_value h n)"
  by (simp add: node_value_def)

lemma map_values_frame [simp]: "a \<notin> set ns \<Longrightarrow> map (node_value (h(a := v))) ns = map (node_value h) ns"
  by (auto simp: node_value_upd)

lemma node_value_next: "h a = Some nd \<Longrightarrow> node_value (h(a \<mapsto> nd\<lparr>nd_next := p\<rparr>)) = node_value h"
  by (auto simp: node_value_def)

lemma represents_nth: "represents q (d # n # ns) xs \<Longrightarrow> dq_head q = d \<and> (\<exists>f. heap q d = Some f \<and> nd_next f = Some n)"
  by (auto simp: represents_def)

lemma represents_frame:
  "represents q ns xs \<Longrightarrow> a \<notin> set ns \<Longrightarrow> represents (q\<lparr>heap := (heap q)(a := v)\<rparr>) ns xs"
  by (cases ns) (auto simp: represents_def path_frame)

lemma append_publish_rep:
  assumes "represents q ns xs" "last ns = dq_tail q" "tmp \<notin> set ns" "heap q tmp = Some \<lparr>nd_value = Some v, nd_next = None\<rparr>"
  shows "\<exists>q'. append_publish tmp q = Inr q' \<and> represents q' (ns @ [tmp]) (xs @ [v]) \<and> dq_tail q' = dq_tail q \<and> dq_head q' = dq_head q
    \<and> (\<forall>a. a \<notin> set ns \<longrightarrow> heap q' a = heap q a)"
proof -
  have ns: "ns \<noteq> []" "distinct ns" "path (heap q) (Some (dq_head q)) ns" using assms(1) by (auto simp: represents_def)
  then obtain nd where nd: "heap q (dq_tail q) = Some nd" using path_dom [OF ns(3) last_in_set [OF ns(1)]] assms(2) by auto
  have "dq_tail q \<in> set ns" "dq_tail q \<noteq> tmp" using assms(2,3) last_in_set [OF ns(1)] by metis+
  then show ?thesis
    using path_snoc [OF ns(3,1,2) assms(3), of nd] assms ns nd node_value_next [of "heap q", OF nd]
    by (auto simp: append_publish_def set_next_def represents_def node_value_def)
qed

lemma head_next_rep: "represents q ns xs \<Longrightarrow> head_next q = Inr (case ns of _ # n # _ \<Rightarrow> Some n | _ \<Rightarrow> None)"
  by (auto simp: represents_def head_next_def neq_Nil_conv split: list.splits)

lemma represents_single: "represents q [d] xs \<Longrightarrow> xs = []"
  by (simp add: represents_def)

lemma represents_length: "represents q ns xs \<Longrightarrow> length ns = Suc (length xs)"
  by (cases ns) (auto simp: represents_def dest: arg_cong [where f = length])

lemma head_swing_rep:
  assumes "represents q (d # n # ns) xs"
  shows "\<exists>x ys q'. xs = x # ys \<and> head_swing n q = Inr (Some x, q') \<and> represents q' (n # ns) ys \<and> dq_tail q' = dq_tail q
    \<and> (\<forall>a. a \<noteq> n \<longrightarrow> heap q' a = heap q a)"
proof -
  obtain x ys where xs: "xs = x # ys" using represents_length [OF assms] by (cases xs) auto
  then obtain nd where nd: "heap q n = Some nd" "nd_value nd = Some x" "path (heap q) (nd_next nd) ns"
    "map (node_value (heap q)) ns = map Some ys" "distinct (d # n # ns)"
    using assms by (auto simp: represents_def node_value_def)
  then show ?thesis
    using xs by (auto simp: head_swing_def represents_def path_frame)
qed

lemma prepend_locked_rep:
  assumes "represents q ns xs" "last ns = dq_tail q" "tmp \<notin> set ns" "heap q tmp = Some \<lparr>nd_value = Some v, nd_next = None\<rparr>"
  shows "\<exists>q' d ms. ns = d # ms \<and> prepend_locked tmp q = Inr q' \<and> represents q' (d # tmp # ms) (v # xs) \<and> last (d # tmp # ms) = dq_tail q'
    \<and> (\<forall>a. a \<notin> set ns \<longrightarrow> a \<noteq> tmp \<longrightarrow> heap q' a = heap q a)"
proof -
  obtain d ms where ns: "ns = d # ms" using assms(1) by (cases ns) (auto simp: represents_def)
  then obtain f where f: "heap q d = Some f" "dq_head q = d" "path (heap q) (nd_next f) ms" "d \<notin> set ms" "distinct ms" "tmp \<noteq> d" "tmp \<notin> set ms"
    "map (node_value (heap q)) ms = map Some xs"
    using assms by (auto simp: represents_def)
  show ?thesis
  proof (cases ms)
    case Nil
    then show ?thesis
      using ns f assms by (auto simp: prepend_locked_def set_next_def represents_def node_value_def Let_def)
  next
    case (Cons n ms')
    then have "dq_tail q \<in> set ms" using ns assms(2) last_in_set [of ms] by simp
    then have "dq_tail q \<noteq> d" using f(4) by blast
    with Cons show ?thesis
      using ns f assms
      by (auto simp: prepend_locked_def set_next_def represents_def path_frame node_value_upd Let_def)
  qed
qed

lemma take_tail_locked_rep:
  assumes "represents q ns xs" "last ns = dq_tail q"
  shows "(xs = [] \<and> take_tail_locked q = Some (Inr (None, q))) \<or>
    (\<exists>ms ys x q'. ns = ms @ [dq_tail q] \<and> xs = ys @ [x] \<and> take_tail_locked q = Some (Inr (Some (Some x, dq_tail q), q'))
      \<and> represents q' ms ys \<and> last ms = dq_tail q' \<and> (\<forall>a. a \<notin> set ms \<longrightarrow> heap q' a = heap q a))"
proof (cases xs rule: rev_cases)
  case Nil
  then obtain d where "ns = [d]" using represents_length [OF assms(1)] by (auto simp: length_Suc_conv)
  with Nil assms show ?thesis by (auto simp: take_tail_locked_def represents_def)
next
  case (snoc ys x)
  have ns: "ns \<noteq> []" "distinct ns" "path (heap q) (Some (dq_head q)) ns" using assms(1) by (auto simp: represents_def)
  obtain ms a b where ms: "ns = ms @ [a, b]"
    using represents_length [OF assms(1)] snoc by (cases ns rule: rev_cases; cases "butlast ns" rule: rev_cases) auto
  have b: "b = dq_tail q" using assms(2) ms by simp
  have hd: "dq_head q = hd ns" using ns by (cases ns) auto
  then have "dq_head q \<noteq> b" using ns(2) ms by (cases ms) auto
  moreover obtain na nb where nd: "heap q a = Some na" "heap q b = Some nb"
    using path_dom [OF ns(3)] ms by fastforce
  moreover have "nd_value nb = Some x" "map (node_value (heap q)) (tl (ms @ [a])) = map Some ys"
    using assms(1) snoc nd ms by (cases ms; auto simp: represents_def node_value_def)+
  ultimately show ?thesis
    using find_predecessor_path [of "heap q" "Some (dq_head q)" ms a b] path_cut [of "heap q" "Some (dq_head q)" ms a b na] ns ms b snoc
      node_value_next [of "heap q" a, OF nd(1)]
    by (auto simp: take_tail_locked_def set_next_def represents_def Let_def)
qed

section \<open>The invariant of the threads\<close>

fun holds_head :: "'j dq_pc \<Rightarrow> bool" where
  "holds_head (Pre_lock_tail _ _) = True" | "holds_head (Pre_locked _ _) = True" | "holds_head Th_read = True"
| "holds_head (Th_next _) = True" | "holds_head Tt_lock_tail = True" | "holds_head Tt_locked = True" | "holds_head _ = False"

fun holds_tail :: "'j dq_pc \<Rightarrow> bool" where
  "holds_tail (App_publish _ _) = True" | "holds_tail (App_swing _) = True" | "holds_tail (Pre_locked _ _) = True"
| "holds_tail Tt_locked = True" | "holds_tail _ = False"

text \<open>The node only this thread knows, and the value it was made with.\<close>

fun owned :: "'j dq_pc \<Rightarrow> nat option" where
  "owned (App_lock a _) = Some a" | "owned (App_publish a _) = Some a" | "owned (Pre_lock_head a _) = Some a"
| "owned (Pre_lock_tail a _) = Some a" | "owned (Pre_locked a _) = Some a" | "owned (Del a) = Some a" | "owned _ = None"

fun made :: "'j dq_pc \<Rightarrow> 'j option" where
  "made (App_lock _ v) = Some v" | "made (App_publish _ v) = Some v" | "made (Pre_lock_head _ v) = Some v"
| "made (Pre_lock_tail _ v) = Some v" | "made (Pre_locked _ v) = Some v" | "made _ = None"

definition pc_ok :: "nat list \<Rightarrow> 'j double_ended_queue \<Rightarrow> 'j dq_pc \<Rightarrow> bool" where
  "pc_ok ns q p \<longleftrightarrow>
     (\<forall>a. owned p = Some a \<longrightarrow> a \<notin> set ns \<and> heap q a \<noteq> None
        \<and> (\<forall>v. made p = Some v \<longrightarrow> heap q a = Some \<lparr>nd_value = Some v, nd_next = None\<rparr>))
     \<and> (\<forall>n. p = Th_next n \<longrightarrow> (\<exists>ms. ns = dq_head q # n # ms))"

text \<open>Between the two steps of \<open>append\<close> the published node is the last one.\<close>

definition dq_end :: "'j dqsys \<Rightarrow> nat" where
  "dq_end s = (case m_tail_lock s of
      None \<Rightarrow> dq_tail (dq s)
    | Some t \<Rightarrow> (case pcs s t of App_swing tmp \<Rightarrow> tmp | _ \<Rightarrow> dq_tail (dq s)))"

definition locks_ok :: "'j dqsys \<Rightarrow> bool" where
  "locks_ok s \<longleftrightarrow> (\<forall>t. (holds_head (pcs s t) \<longleftrightarrow> m_head_lock s = Some t) \<and> (holds_tail (pcs s t) \<longleftrightarrow> m_tail_lock s = Some t))"

definition owners_ok :: "'j dqsys \<Rightarrow> bool" where
  "owners_ok s \<longleftrightarrow> (\<forall>t u a. t \<noteq> u \<longrightarrow> owned (pcs s t) = Some a \<longrightarrow> owned (pcs s u) \<noteq> Some a)"

definition dq_inv :: "nat list \<Rightarrow> 'j list \<Rightarrow> 'j dqsys \<Rightarrow> bool" where
  "dq_inv ns xs s \<longleftrightarrow> represents (dq s) ns xs \<and> spec_run (map snd (dlog s)) = Some xs \<and> last ns = dq_end s
     \<and> locks_ok s \<and> owners_ok s \<and> (\<forall>t. pc_ok ns (dq s) (pcs s t))"

lemmas dq_inv_defs = dq_inv_def locks_ok_def owners_ok_def goto_def log_event_def

lemma dq_invD:
  assumes "dq_inv ns xs s"
  shows "represents (dq s) ns xs" "spec_run (map snd (dlog s)) = Some xs" "last ns = dq_end s" "pc_ok ns (dq s) (pcs s t)"
    "holds_head (pcs s t) \<longleftrightarrow> m_head_lock s = Some t" "holds_tail (pcs s t) \<longleftrightarrow> m_tail_lock s = Some t"
    "t \<noteq> u \<Longrightarrow> owned (pcs s t) = Some a \<Longrightarrow> owned (pcs s u) \<noteq> Some a"
    "owned (pcs s t) = Some a \<Longrightarrow> a \<notin> set ns" "owned (pcs s t) = Some a \<Longrightarrow> heap (dq s) a \<noteq> None"
  using assms by (auto simp: dq_inv_def locks_ok_def owners_ok_def pc_ok_def)

lemma pc_ok_frame:
  assumes "pc_ok ns q p" "\<And>a. owned p = Some a \<Longrightarrow> heap q' a = heap q a \<and> a \<notin> set ns'"
    "\<And>n ms. p = Th_next n \<Longrightarrow> ns = dq_head q # n # ms \<Longrightarrow> \<exists>ms'. ns' = dq_head q' # n # ms'"
  shows "pc_ok ns' q' p"
  using assms unfolding pc_ok_def by fastforce

lemma pc_ok_simple: "owned p = None \<Longrightarrow> (\<And>n. p \<noteq> Th_next n) \<Longrightarrow> pc_ok ns q p"
  by (simp add: pc_ok_def)

text \<open>A step of thread \<open>t\<close> keeps the invariant if it does so for what \<open>t\<close> sees and leaves the
  private nodes of the others alone.\<close>

lemma dq_inv_step:
  assumes inv: "dq_inv ns xs s"
    and pcs: "pcs s' = (pcs s)(t := p)"
    and rep: "represents (dq s') ns' xs'" "spec_run (map snd (dlog s')) = Some xs'" "last ns' = dq_end s'"
    and locks: "\<And>u. u \<noteq> t \<Longrightarrow> (m_head_lock s' = Some u) = (m_head_lock s = Some u) \<and> (m_tail_lock s' = Some u) = (m_tail_lock s = Some u)"
      "holds_head p = (m_head_lock s' = Some t)" "holds_tail p = (m_tail_lock s' = Some t)"
    and own: "pc_ok ns' (dq s') p" "\<And>u a. u \<noteq> t \<Longrightarrow> owned p = Some a \<Longrightarrow> owned (pcs s u) \<noteq> Some a"
    and others: "\<And>u a. u \<noteq> t \<Longrightarrow> owned (pcs s u) = Some a \<Longrightarrow> heap (dq s') a = heap (dq s) a \<and> a \<notin> set ns'"
      "\<And>u n ms. u \<noteq> t \<Longrightarrow> pcs s u = Th_next n \<Longrightarrow> ns = dq_head (dq s) # n # ms \<Longrightarrow> \<exists>ms'. ns' = dq_head (dq s') # n # ms'"
  shows "dq_inv ns' xs' s'"
proof -
  have "locks_ok s'" using inv pcs locks by (auto simp: dq_inv_def locks_ok_def)
  moreover have "owners_ok s'" using inv pcs own(2) by (auto simp: dq_inv_def owners_ok_def)
  moreover have "pc_ok ns' (dq s') (pcs s' u)" for u
  proof (cases "u = t")
    case False
    have "pc_ok ns (dq s) (pcs s u)" using inv by (simp add: dq_inv_def)
    then show ?thesis using pc_ok_frame [of ns "dq s" "pcs s u" "dq s'" ns'] others [OF False] False pcs by auto
  qed (simp add: pcs own(1))
  ultimately show ?thesis using rep by (simp add: dq_inv_def)
qed


lemma dq_call_inv:
  assumes inv: "dq_inv ns xs s" and t: "pcs s t = Idle" and tmp: "heap (dq s) tmp = None"
    and p: "p = App_lock tmp v \<or> p = Pre_lock_head tmp v"
  shows "dq_inv ns xs (goto t p (s\<lparr>dq := new_node tmp v (dq s)\<rparr>))"
proof (rule dq_inv_step [OF inv, of _ t p])
  have ns: "tmp \<notin> set ns" using inv tmp path_dom [of "heap (dq s)" "Some (dq_head (dq s))" ns tmp] by (auto simp: dq_inv_def represents_def)
  have fresh: "owned (pcs s u) \<noteq> Some tmp" for u using dq_invD(9) [OF inv, of u tmp] tmp by blast
  show "represents (dq (goto t p (s\<lparr>dq := new_node tmp v (dq s)\<rparr>))) ns xs"
    using inv ns by (simp add: dq_inv_def goto_def new_node_def represents_frame)
  show "last ns = dq_end (goto t p (s\<lparr>dq := new_node tmp v (dq s)\<rparr>))"
    using inv t p by (auto simp: dq_inv_def dq_end_def goto_def new_node_def split: option.splits dq_pc.splits)
  show "pc_ok ns (dq (goto t p (s\<lparr>dq := new_node tmp v (dq s)\<rparr>))) p"
    using ns p by (auto simp: pc_ok_def goto_def new_node_def)
  fix u a
  assume u: "u \<noteq> t"
  show "owned (pcs s u) \<noteq> Some a" if "owned p = Some a" using p that fresh [of u] by auto
  show "heap (dq (goto t p (s\<lparr>dq := new_node tmp v (dq s)\<rparr>))) a = heap (dq s) a \<and> a \<notin> set ns" if "owned (pcs s u) = Some a"
    using inv that fresh [of u] by (auto simp: dq_inv_def pc_ok_def goto_def new_node_def)
qed (use inv t p in \<open>auto simp: dq_inv_def locks_ok_def goto_def new_node_def dest: spec [of _ t]\<close>)

text \<open>Steps that leave the queue as it is: calls, locking, and a read of the head.\<close>

lemma dq_still_inv:
  assumes inv: "dq_inv ns xs s" and s': "pcs s' = (pcs s)(t := p)" "dq s' = dq s" "spec_run (map snd (dlog s')) = Some xs"
    and locks: "m_head_lock s' = (if holds_head p then Some t else if holds_head (pcs s t) then None else m_head_lock s)"
      "m_tail_lock s' = (if holds_tail p then Some t else if holds_tail (pcs s t) then None else m_tail_lock s)"
      "holds_head p \<longrightarrow> m_head_lock s \<in> {None, Some t}" "holds_tail p \<longrightarrow> m_tail_lock s \<in> {None, Some t}"
    and p: "owned p = None \<or> owned p = owned (pcs s t) \<and> made p = made (pcs s t)" "\<And>n. p = Th_next n \<Longrightarrow> \<exists>ms. ns = dq_head (dq s) # n # ms"
      "\<And>a. p \<noteq> App_swing a" "\<And>a. pcs s t \<noteq> App_swing a"
  shows "dq_inv ns xs s'"
proof (rule dq_inv_step [OF inv s'(1)])
  have held: "(holds_head (pcs s u) \<longleftrightarrow> m_head_lock s = Some u) \<and> (holds_tail (pcs s u) \<longleftrightarrow> m_tail_lock s = Some u)" for u
    using inv by (simp add: dq_inv_def locks_ok_def)
  have ok: "pc_ok ns (dq s) (pcs s u)" for u using inv by (simp add: dq_inv_def)
  show "last ns = dq_end s'"
    using inv s' locks(2,4) p(3,4) held [of t] by (auto simp: dq_inv_def dq_end_def split: option.splits dq_pc.splits if_splits)
  show "pc_ok ns (dq s') p" using p(1)
  proof
    assume "owned p = None"
    then show ?thesis using p(2) s'(2) by (simp add: pc_ok_def)
  next
    assume "owned p = owned (pcs s t) \<and> made p = made (pcs s t)"
    then show ?thesis using ok [of t] p(2) s'(2) by (simp add: pc_ok_def)
  qed
  fix u
  assume u: "u \<noteq> t"
  show "(m_head_lock s' = Some u) = (m_head_lock s = Some u) \<and> (m_tail_lock s' = Some u) = (m_tail_lock s = Some u)"
    using u locks held [of t] by (auto split: if_splits)
  show "owned (pcs s u) \<noteq> Some a" if "owned p = Some a" for a
    using dq_invD(7) [OF inv, of t u a] that p(1) u by auto
  show "heap (dq s') a = heap (dq s) a \<and> a \<notin> set ns" if "owned (pcs s u) = Some a" for a
    using ok [of u] that s'(2) by (auto simp: pc_ok_def)
  show "\<exists>ms'. ns = dq_head (dq s') # n # ms'" if "ns = dq_head (dq s) # n # ms" for n ms using that s'(2) by simp
qed (use inv s' locks in \<open>auto simp: dq_inv_def locks_ok_def\<close>)


section \<open>Every step runs and keeps the invariant\<close>

lemma micro_publish:
  assumes inv: "dq_inv ns xs s" and t: "pcs s t = App_publish tmp v"
  shows "\<exists>s'. dq_micro t s = Runs s' \<and> dq_inv (ns @ [tmp]) (xs @ [v]) s'"
proof -
  note I = dq_invD [OF inv]
  have tl: "m_tail_lock s = Some t" using I(6) [of t] t by simp
  have "tmp \<notin> set ns" "heap (dq s) tmp = Some \<lparr>nd_value = Some v, nd_next = None\<rparr>" "last ns = dq_tail (dq s)"
    using I(4) [of t] t I(3) tl by (auto simp: pc_ok_def dq_end_def)
  with append_publish_rep [OF I(1)] obtain q where q: "append_publish tmp (dq s) = Inr q" "represents q (ns @ [tmp]) (xs @ [v])"
    "dq_head q = dq_head (dq s)" "\<forall>a. a \<notin> set ns \<longrightarrow> heap q a = heap (dq s) a" by blast
  let ?s = "goto t (App_swing tmp) (log_event t (Ev_append v) (s\<lparr>dq := q\<rparr>))"
  have "dq_inv (ns @ [tmp]) (xs @ [v]) ?s"
  proof (rule dq_inv_step [OF inv, of _ t "App_swing tmp"])
    show "last (ns @ [tmp]) = dq_end ?s" using tl by (simp add: dq_end_def goto_def log_event_def)
    show "\<And>u a. u \<noteq> t \<Longrightarrow> owned (pcs s u) = Some a \<Longrightarrow> heap (dq ?s) a = heap (dq s) a \<and> a \<notin> set (ns @ [tmp])"
      using q(4) I(8) I(7) [of _ t] t by (fastforce simp: goto_def log_event_def)
  qed (use I(2) I(5,6) [of t] t tl q in \<open>auto simp: goto_def log_event_def pc_ok_def\<close>)
  then show ?thesis using q(1) t by (simp add: dq_micro_def)
qed

lemma micro_swing:
  assumes inv: "dq_inv ns xs s" and t: "pcs s t = App_swing tmp"
  shows "\<exists>s'. dq_micro t s = Runs s' \<and> dq_inv ns xs s'"
proof -
  note I = dq_invD [OF inv]
  have tl: "m_tail_lock s = Some t" using I(6) [of t] t by simp
  let ?s = "goto t Idle (s\<lparr>dq := append_swing tmp (dq s), m_tail_lock := None\<rparr>)"
  have "dq_inv ns xs ?s"
  proof (rule dq_inv_step [OF inv, of _ t Idle])
    show "last ns = dq_end ?s" using tl t I(3) by (simp add: dq_end_def goto_def append_swing_def)
    show "represents (dq ?s) ns xs" using I(1) by (simp add: goto_def append_swing_def represents_def)
  qed (use I(2,8) I(5,6) [of t] t tl in \<open>auto simp: goto_def append_swing_def pc_ok_def\<close>)
  then show ?thesis using t by (simp add: dq_micro_def)
qed

lemma micro_prepend:
  assumes inv: "dq_inv ns xs s" and t: "pcs s t = Pre_locked tmp v"
  shows "\<exists>s' ns'. dq_micro t s = Runs s' \<and> dq_inv ns' (v # xs) s'"
proof -
  note I = dq_invD [OF inv]
  have l: "m_tail_lock s = Some t" "m_head_lock s = Some t" using I(5,6) [of t] t by simp_all
  have "tmp \<notin> set ns" "heap (dq s) tmp = Some \<lparr>nd_value = Some v, nd_next = None\<rparr>" "last ns = dq_tail (dq s)"
    using I(4) [of t] t I(3) l by (auto simp: pc_ok_def dq_end_def)
  with prepend_locked_rep [OF I(1)] obtain q d ms where q: "ns = d # ms" "prepend_locked tmp (dq s) = Inr q"
    "represents q (d # tmp # ms) (v # xs)" "last (d # tmp # ms) = dq_tail q" "\<forall>a. a \<notin> set ns \<longrightarrow> a \<noteq> tmp \<longrightarrow> heap q a = heap (dq s) a"
    by blast
  let ?s = "goto t Idle (log_event t (Ev_prepend v) (s\<lparr>dq := q, m_head_lock := None, m_tail_lock := None\<rparr>))"
  have "dq_inv (d # tmp # ms) (v # xs) ?s"
  proof (rule dq_inv_step [OF inv, of _ t Idle])
    show "\<And>u a. u \<noteq> t \<Longrightarrow> owned (pcs s u) = Some a \<Longrightarrow> heap (dq ?s) a = heap (dq s) a \<and> a \<notin> set (d # tmp # ms)"
      using q(1,5) I(8) I(7) [of _ t] t by (fastforce simp: goto_def log_event_def)
    show "\<exists>ms'. d # tmp # ms = dq_head (dq ?s) # n # ms'" if "u \<noteq> t" "pcs s u = Th_next n" for u n
      using I(5) [of u] that l by simp
  qed (use I(2) l q in \<open>auto simp: goto_def log_event_def pc_ok_def dq_end_def\<close>)
  then show ?thesis using q(2) t by (auto simp: dq_micro_def)
qed

lemma micro_head_swing:
  assumes inv: "dq_inv ns xs s" and t: "pcs s t = Th_next n"
  shows "\<exists>s' ns' xs'. dq_micro t s = Runs s' \<and> dq_inv ns' xs' s'"
proof -
  note I = dq_invD [OF inv]
  have l: "m_head_lock s = Some t" "m_tail_lock s \<noteq> Some t" using I(5,6) [of t] t by simp_all
  obtain ms where ms: "ns = dq_head (dq s) # n # ms" using I(4) [of t] t by (auto simp: pc_ok_def)
  with head_swing_rep I(1) obtain x ys q where q: "xs = x # ys" "head_swing n (dq s) = Inr (Some x, q)" "represents q (n # ms) ys"
    "dq_tail q = dq_tail (dq s)" "\<forall>a. a \<noteq> n \<longrightarrow> heap q a = heap (dq s) a" by metis
  have d: "distinct ns" "heap (dq s) (dq_head (dq s)) \<noteq> None" using I(1) ms by (auto simp: represents_def)
  let ?s = "goto t (Del (dq_head (dq s))) (log_event t (Ev_head (Some x)) (s\<lparr>dq := q, m_head_lock := None\<rparr>))"
  have "dq_inv (n # ms) ys ?s"
  proof (rule dq_inv_step [OF inv, of _ t "Del (dq_head (dq s))"])
    show "\<And>u a. u \<noteq> t \<Longrightarrow> owned (pcs s u) = Some a \<Longrightarrow> heap (dq ?s) a = heap (dq s) a \<and> a \<notin> set (n # ms)"
      using q(5) I(8) ms by (fastforce simp: goto_def log_event_def)
    show "\<And>u a. u \<noteq> t \<Longrightarrow> owned (Del (dq_head (dq s))) = Some a \<Longrightarrow> owned (pcs s u) \<noteq> Some a"
      using I(8) ms by fastforce
    show "\<exists>ms'. n # ms = dq_head (dq ?s) # m # ms'" if "u \<noteq> t" "pcs s u = Th_next m" for u m
      using I(5) [of u] that l by simp
    show "pc_ok (n # ms) (dq ?s) (Del (dq_head (dq s)))" using d q(5) ms by (auto simp: pc_ok_def goto_def log_event_def)
    show "last (n # ms) = dq_end ?s" using I(3) l q(4) ms
      by (auto simp: goto_def log_event_def dq_end_def split: option.splits dq_pc.splits)
  qed (use I(2) l q in \<open>auto simp: goto_def log_event_def\<close>)
  then show ?thesis using q(2) t by (auto simp: dq_micro_def)
qed


lemma micro_take_tail:
  assumes inv: "dq_inv ns xs s" and t: "pcs s t = Tt_locked"
  shows "\<exists>s' ns' xs'. dq_micro t s = Runs s' \<and> dq_inv ns' xs' s'"
proof -
  note I = dq_invD [OF inv]
  have l: "m_tail_lock s = Some t" "m_head_lock s = Some t" using I(5,6) [of t] t by simp_all
  have last: "last ns = dq_tail (dq s)" using t I(3) l by (simp add: dq_end_def)
  consider "xs = []" "take_tail_locked (dq s) = Some (Inr (None, dq s))"
    | ms ys x q where "ns = ms @ [dq_tail (dq s)]" "xs = ys @ [x]" "take_tail_locked (dq s) = Some (Inr (Some (Some x, dq_tail (dq s)), q))"
      "represents q ms ys" "last ms = dq_tail q" "\<forall>a. a \<notin> set ms \<longrightarrow> heap q a = heap (dq s) a"
    using take_tail_locked_rep [OF I(1) last] by blast
  then show ?thesis
  proof cases
    case 1
    let ?s = "goto t Idle (log_event t (Ev_tail None) (s\<lparr>dq := dq s, m_head_lock := None, m_tail_lock := None\<rparr>))"
    have "dq_inv ns [] ?s"
      by (rule dq_still_inv [OF inv [unfolded 1(1)], of _ t Idle])
        (use I(2) 1 t l in \<open>auto simp: goto_def log_event_def\<close>)
    then show ?thesis using 1 t by (auto simp: dq_micro_def Let_def)
  next
    case q: 2
    let ?s = "goto t (Del (dq_tail (dq s))) (log_event t (Ev_tail (Some x)) (s\<lparr>dq := q, m_head_lock := None, m_tail_lock := None\<rparr>))"
    have d: "dq_tail (dq s) \<notin> set ms" "heap (dq s) (dq_tail (dq s)) \<noteq> None"
      using I(1) q(1) path_dom [of "heap (dq s)" "Some (dq_head (dq s))" ns "dq_tail (dq s)"] by (auto simp: represents_def)
    have "dq_inv ms ys ?s"
    proof (rule dq_inv_step [OF inv, of _ t "Del (dq_tail (dq s))"])
      show "\<And>u a. u \<noteq> t \<Longrightarrow> owned (pcs s u) = Some a \<Longrightarrow> heap (dq ?s) a = heap (dq s) a \<and> a \<notin> set ms"
        using q(1,6) I(8) by (fastforce simp: goto_def log_event_def)
      show "\<And>u a. u \<noteq> t \<Longrightarrow> owned (Del (dq_tail (dq s))) = Some a \<Longrightarrow> owned (pcs s u) \<noteq> Some a"
        using I(8) q(1) by fastforce
      show "\<exists>ms'. ms = dq_head (dq ?s) # m # ms'" if "u \<noteq> t" "pcs s u = Th_next m" for u m
        using I(5) [of u] that l by simp
      show "pc_ok ms (dq ?s) (Del (dq_tail (dq s)))" using d q(6) by (auto simp: pc_ok_def goto_def log_event_def)
    qed (use I(2) l q in \<open>auto simp: goto_def log_event_def dq_end_def\<close>)
    then show ?thesis using q(3) t by (auto simp: dq_micro_def Let_def)
  qed
qed

lemma micro_delete:
  assumes inv: "dq_inv ns xs s" and t: "pcs s t = Del a"
  shows "\<exists>s'. dq_micro t s = Runs s' \<and> dq_inv ns xs s'"
proof -
  note I = dq_invD [OF inv]
  have a: "a \<notin> set ns" "heap (dq s) a \<noteq> None" using I(8,9) [of t] t by simp_all
  let ?s = "goto t Idle (s\<lparr>dq := free_node a (dq s)\<rparr>)"
  have "dq_inv ns xs ?s"
  proof (rule dq_inv_step [OF inv, of _ t Idle])
    show "represents (dq ?s) ns xs" using I(1) a(1) by (simp add: goto_def free_node_def represents_frame)
    show "last ns = dq_end ?s" using I(3) I(6) [of t] t
      by (auto simp: dq_end_def goto_def free_node_def split: option.splits dq_pc.splits)
    show "heap (dq ?s) b = heap (dq s) b \<and> b \<notin> set ns" if "u \<noteq> t" "owned (pcs s u) = Some b" for u b
      using I(7) [of t u a] I(8) that t by (auto simp: goto_def free_node_def)
  qed (use I(2) I(5,6) [of t] t in \<open>auto simp: goto_def free_node_def pc_ok_def\<close>)
  then show ?thesis using a t by (simp add: dq_micro_def)
qed

lemma micro_read:
  assumes inv: "dq_inv ns xs s" and t: "pcs s t = Th_read"
  shows "\<exists>s'. dq_micro t s = Runs s' \<and> dq_inv ns xs s'"
proof -
  note I = dq_invD [OF inv]
  have l: "m_head_lock s = Some t" "m_tail_lock s \<noteq> Some t" using I(5,6) [of t] t by simp_all
  consider d where "ns = [d]" "head_next (dq s) = Inr None" | n ms where "ns = dq_head (dq s) # n # ms" "head_next (dq s) = Inr (Some n)"
    using head_next_rep [OF I(1)] I(1) by (cases ns; cases "tl ns") (auto simp: represents_def)
  then show ?thesis
  proof cases
    case 1
    then have "xs = []" using I(1) represents_single by metis
    then have "dq_inv ns xs (goto t Idle (log_event t (Ev_head None) (s\<lparr>m_head_lock := None\<rparr>)))"
      by (intro dq_still_inv [OF inv, of _ t Idle]) (use I(2) t l in \<open>auto simp: goto_def log_event_def\<close>)
    then show ?thesis using 1 t by (simp add: dq_micro_def)
  next
    case 2
    then have "dq_inv ns xs (goto t (Th_next n) s)"
      by (intro dq_still_inv [OF inv, of _ t "Th_next n"]) (use I(2) t l in \<open>auto simp: goto_def\<close>)
    then show ?thesis using 2 t by (simp add: dq_micro_def)
  qed
qed

lemma micro_lock:
  assumes inv: "dq_inv ns xs s"
    and p: "\<And>a. p \<noteq> App_swing a" "\<And>a. pcs s t \<noteq> App_swing a" "\<And>n. p \<noteq> Th_next n" "owned p = owned (pcs s t)" "made p = made (pcs s t)"
      "\<not> holds_tail (pcs s t)"
  shows "holds_head p \<Longrightarrow> \<not> holds_tail p \<Longrightarrow> lock_head t p s = Blocked \<or> (\<exists>s' ns' xs'. lock_head t p s = Runs s' \<and> dq_inv ns' xs' s')"
    and "holds_tail p \<Longrightarrow> holds_head p = holds_head (pcs s t) \<Longrightarrow>
      lock_tail t p s = Blocked \<or> (\<exists>s' ns' xs'. lock_tail t p s = Runs s' \<and> dq_inv ns' xs' s')"
proof -
  have "dq_inv ns xs (goto t p (s\<lparr>m_head_lock := Some t\<rparr>))" if "m_head_lock s = None" "holds_head p" "\<not> holds_tail p"
    using p that dq_invD(2) [OF inv] by (intro dq_still_inv [OF inv, of _ t p]) (auto simp: goto_def)
  then show "holds_head p \<Longrightarrow> \<not> holds_tail p \<Longrightarrow> lock_head t p s = Blocked \<or> (\<exists>s' ns' xs'. lock_head t p s = Runs s' \<and> dq_inv ns' xs' s')"
    by (cases "m_head_lock s = None") (auto simp: lock_head_def)
  have "dq_inv ns xs (goto t p (s\<lparr>m_tail_lock := Some t\<rparr>))" if "m_tail_lock s = None" "holds_tail p" "holds_head p = holds_head (pcs s t)"
    using p that dq_invD(2) [OF inv] dq_invD(5) [OF inv, of t] by (intro dq_still_inv [OF inv, of _ t p]) (auto simp: goto_def)
  then show "holds_tail p \<Longrightarrow> holds_head p = holds_head (pcs s t) \<Longrightarrow>
      lock_tail t p s = Blocked \<or> (\<exists>s' ns' xs'. lock_tail t p s = Runs s' \<and> dq_inv ns' xs' s')"
    by (cases "m_tail_lock s = None") (auto simp: lock_tail_def)
qed

text \<open>A thread within an operation waits for a lock or makes a step that keeps the invariant.\<close>

lemma dq_micro_inv:
  assumes inv: "dq_inv ns xs s" and t: "pcs s t \<noteq> Idle"
  shows "dq_micro t s = Blocked \<or> (\<exists>s' ns' xs'. dq_micro t s = Runs s' \<and> dq_inv ns' xs' s')"
proof (cases "pcs s t")
  case (App_lock tmp v)
  then show ?thesis using micro_lock(2) [OF inv, where t = t and p = "App_publish tmp v"] by (simp add: dq_micro_def)
next
  case (Pre_lock_head tmp v)
  then show ?thesis using micro_lock(1) [OF inv, where t = t and p = "Pre_lock_tail tmp v"] by (simp add: dq_micro_def)
next
  case (Pre_lock_tail tmp v)
  then show ?thesis using micro_lock(2) [OF inv, where t = t and p = "Pre_locked tmp v"] by (simp add: dq_micro_def)
next
  case Th_lock
  then show ?thesis using micro_lock(1) [OF inv, where t = t and p = Th_read] by (simp add: dq_micro_def)
next
  case Tt_lock_head
  then show ?thesis using micro_lock(1) [OF inv, where t = t and p = Tt_lock_tail] by (simp add: dq_micro_def)
next
  case Tt_lock_tail
  then show ?thesis using micro_lock(2) [OF inv, where t = t and p = Tt_locked] by (simp add: dq_micro_def)
qed (use t micro_publish [OF inv] micro_swing [OF inv] micro_prepend [OF inv] micro_read [OF inv] micro_head_swing [OF inv]
    micro_take_tail [OF inv] micro_delete [OF inv] in blast)+

lemma dq_reach_inv: "dq_reach s \<Longrightarrow> \<exists>ns xs. dq_inv ns xs s"
proof (induction rule: dq_reach.induct)
  case (dq_start a)
  show ?case
    by (rule exI [of _ "[a]"], rule exI [of _ "[]"])
      (simp add: dq_inv_def represents_def new_queue_def dq_end_def locks_ok_def owners_ok_def pc_ok_def)
next
  case (dq_next s s')
  then obtain ns xs where inv: "dq_inv ns xs s" by blast
  from \<open>dq_step s s'\<close> show ?case
  proof cases
    case (call_append t tmp v)
    then show ?thesis using dq_call_inv [OF inv, of t tmp "App_lock tmp v" v] by blast
  next
    case (call_prepend t tmp v)
    then show ?thesis using dq_call_inv [OF inv, of t tmp "Pre_lock_head tmp v" v] by blast
  next
    case (call_take_head t)
    then have "dq_inv ns xs s'"
      by (intro dq_still_inv [OF inv, of _ t Th_lock]) (use dq_invD(2) [OF inv] in \<open>auto simp: goto_def\<close>)
    then show ?thesis by blast
  next
    case (call_take_tail t)
    then have "dq_inv ns xs s'"
      by (intro dq_still_inv [OF inv, of _ t Tt_lock_head]) (use dq_invD(2) [OF inv] in \<open>auto simp: goto_def\<close>)
    then show ?thesis by blast
  next
    case (go_on t)
    then have "pcs s t \<noteq> Idle" by (auto simp: dq_micro_def)
    then show ?thesis using dq_micro_inv [OF inv] go_on by fastforce
  qed
qed

section \<open>The interface of the scheduler\<close>

text \<open>What the scheduler relies on: a queue that stores the jobs \<open>xs\<close>, oldest first; \<open>fresh\<close> is an
  address the allocator may return.\<close>

locale job_queue =
  fixes stores :: "'q \<Rightarrow> 'j list \<Rightarrow> bool"
    and fresh :: "nat \<Rightarrow> 'q \<Rightarrow> bool"
    and append :: "nat \<Rightarrow> 'j \<Rightarrow> 'q \<Rightarrow> 'e + 'q"
    and prepend :: "nat \<Rightarrow> 'j \<Rightarrow> 'q \<Rightarrow> 'e + 'q"
    and take_first :: "'q \<Rightarrow> 'e + 'j option \<times> 'q"
    and take_last :: "'q \<Rightarrow> ('e + 'j option \<times> 'q) option"
  assumes stores_append: "stores q xs \<Longrightarrow> fresh a q \<Longrightarrow> \<exists>q'. append a v q = Inr q' \<and> stores q' (xs @ [v])"
    and stores_prepend: "stores q xs \<Longrightarrow> fresh a q \<Longrightarrow> \<exists>q'. prepend a v q = Inr q' \<and> stores q' (v # xs)"
    and stores_take_first: "stores q xs \<Longrightarrow>
      \<exists>q'. take_first q = Inr (if xs = [] then None else Some (hd xs), q') \<and> stores q' (tl xs)"
    and stores_take_last: "stores q xs \<Longrightarrow>
      \<exists>q'. take_last q = Some (Inr (if xs = [] then None else Some (last xs), q')) \<and> stores q' (butlast xs)"
    and stores_unique: "stores q xs \<Longrightarrow> stores q ys \<Longrightarrow> xs = ys"
begin

lemma append_Inr: "stores q xs \<Longrightarrow> fresh a q \<Longrightarrow> append a v q = Inr q' \<Longrightarrow> stores q' (xs @ [v])"
  using stores_append [of q xs a v] by auto

lemma prepend_Inr: "stores q xs \<Longrightarrow> fresh a q \<Longrightarrow> prepend a v q = Inr q' \<Longrightarrow> stores q' (v # xs)"
  using stores_prepend [of q xs a v] by auto

lemma take_first_Some:
  assumes "stores q xs" "take_first q = Inr (Some j, q')"
  shows "xs = j # tl xs \<and> stores q' (tl xs)"
  using stores_take_first [OF assms(1)] assms(2) by (auto split: if_splits)

lemma take_last_Some:
  assumes "stores q xs" "take_last q = Some (Inr (Some j, q'))"
  shows "xs = butlast xs @ [j] \<and> stores q' (butlast xs)"
  using stores_take_last [OF assms(1)] assms(2) by (auto split: if_splits)

lemma take_None:
  assumes "stores q xs"
  shows "take_first q = Inr (None, q') \<Longrightarrow> xs = [] \<and> stores q' []"
    and "take_last q = Some (Inr (None, q')) \<Longrightarrow> xs = [] \<and> stores q' []"
  using stores_take_first [OF assms] stores_take_last [OF assms] by (auto split: if_splits)

end

definition queue_jobs :: "'j double_ended_queue \<Rightarrow> 'j list \<Rightarrow> bool" where
  "queue_jobs q xs \<longleftrightarrow> (\<exists>ns. represents q ns xs \<and> last ns = dq_tail q)"

lemma heap_path_unique: "path h p ns \<Longrightarrow> path h p ms \<Longrightarrow> ns = ms"
  by (induction ns arbitrary: p ms) (case_tac ms; auto)+

lemma queue_jobs_new: "queue_jobs (new_queue a) []"
  by (auto simp: queue_jobs_def represents_def new_queue_def intro!: exI [of _ "[a]"])

lemma represents_unique: "represents q ns xs \<Longrightarrow> represents q ms ys \<Longrightarrow> ns = ms \<and> xs = ys"
  using heap_path_unique [of "heap q" "Some (dq_head q)" ns ms] inj_map_eq_map [of Some xs ys] by (auto simp: represents_def)

lemma queue_jobs_unique: "queue_jobs q xs \<Longrightarrow> queue_jobs q ys \<Longrightarrow> xs = ys"
  unfolding queue_jobs_def using represents_unique by blast

lemma queue_jobs_add:
  assumes "queue_jobs q xs" "heap q a = None"
  shows "\<exists>q'. dq_append a v q = Inr q' \<and> queue_jobs q' (xs @ [v])" "\<exists>q'. dq_prepend a v q = Inr q' \<and> queue_jobs q' (v # xs)"
proof -
  from assms(1) obtain ns where ns: "represents q ns xs" "last ns = dq_tail q" by (auto simp: queue_jobs_def)
  have "a \<notin> set ns" using ns(1) assms(2) path_dom [of "heap q" "Some (dq_head q)" ns a] by (auto simp: represents_def)
  then have new: "represents (new_node a v q) ns xs" "last ns = dq_tail (new_node a v q)" "a \<notin> set ns"
    "heap (new_node a v q) a = Some \<lparr>nd_value = Some v, nd_next = None\<rparr>"
    using ns by (simp_all add: new_node_def represents_frame)
  show "\<exists>q'. dq_append a v q = Inr q' \<and> queue_jobs q' (xs @ [v])"
    using append_publish_rep [OF new]
    by (auto simp: dq_append_def append_swing_def queue_jobs_def represents_def intro!: exI [of _ "ns @ [a]"])
  show "\<exists>q'. dq_prepend a v q = Inr q' \<and> queue_jobs q' (v # xs)"
    using prepend_locked_rep [OF new] unfolding dq_prepend_def queue_jobs_def by blast
qed

lemma queue_jobs_take_head:
  assumes q: "queue_jobs q xs"
  shows "\<exists>q'. dq_take_head q = Inr (if xs = [] then None else Some (hd xs), q') \<and> queue_jobs q' (tl xs)"
proof -
  from q obtain ns where ns: "represents q ns xs" "last ns = dq_tail q" by (auto simp: queue_jobs_def)
  show ?thesis
  proof (cases "xs = []")
    case True
    then obtain d where "ns = [d]" using represents_length [OF ns(1)] by (auto simp: length_Suc_conv)
    with True show ?thesis using head_next_rep [OF ns(1)] q by (simp add: dq_take_head_def)
  next
    case False
    then obtain d n ms where ms: "ns = d # n # ms" using represents_length [OF ns(1)] by (cases ns; cases "tl ns") auto
    then have d: "dq_head q = d" "d \<noteq> n" "d \<notin> set ms" using ns(1) by (auto simp: represents_def)
    obtain x ys q1 where q1: "xs = x # ys" "head_swing n q = Inr (Some x, q1)" "represents q1 (n # ms) ys" "dq_tail q1 = dq_tail q"
      using head_swing_rep ns(1) ms by metis
    have "represents (free_node d q1) (n # ms) ys" using represents_frame [OF q1(3), of d None] d by (simp add: free_node_def)
    then show ?thesis
      using head_next_rep [OF ns(1)] ms d q1 ns(2)
      by (auto simp: dq_take_head_def queue_jobs_def free_node_def intro!: exI [of _ "n # ms"])
  qed
qed

lemma queue_jobs_take_tail:
  assumes q: "queue_jobs q xs"
  shows "\<exists>q'. dq_take_tail q = Some (Inr (if xs = [] then None else Some (last xs), q')) \<and> queue_jobs q' (butlast xs)"
proof -
  from q obtain ns where ns: "represents q ns xs" "last ns = dq_tail q" by (auto simp: queue_jobs_def)
  consider "xs = []" "take_tail_locked q = Some (Inr (None, q))"
    | ms ys x q1 where "ns = ms @ [dq_tail q]" "xs = ys @ [x]" "take_tail_locked q = Some (Inr (Some (Some x, dq_tail q), q1))"
      "represents q1 ms ys" "last ms = dq_tail q1"
    using take_tail_locked_rep [OF ns] by blast
  then show ?thesis
  proof cases
    case 1
    then show ?thesis using q by (simp add: dq_take_tail_def)
  next
    case q1: 2
    have "dq_tail q \<notin> set ms" using ns(1) q1(1) by (simp add: represents_def)
    then have "represents (free_node (dq_tail q) q1) ms ys" "last ms = dq_tail (free_node (dq_tail q) q1)"
      using represents_frame [OF q1(4), of "dq_tail q" None] q1(5) by (simp_all add: free_node_def)
    then show ?thesis using q1(2,3) unfolding dq_take_tail_def queue_jobs_def by auto
  qed
qed

interpretation jobs: job_queue queue_jobs "\<lambda>a q. heap q a = None" dq_append dq_prepend dq_take_head dq_take_tail
  by unfold_locales (fact queue_jobs_add queue_jobs_take_head queue_jobs_take_tail queue_jobs_unique)+

section \<open>The queue between threads\<close>

lemma blocked_waits:
  "dq_micro t s = Blocked \<Longrightarrow> pcs s t = Idle \<or> (m_head_lock s \<noteq> None \<and> \<not> holds_head (pcs s t) \<and> \<not> holds_tail (pcs s t)) \<or> (m_tail_lock s \<noteq> None \<and> \<not> holds_tail (pcs s t))"
  by (cases "pcs s t")
    (auto simp: dq_micro_def lock_head_def lock_tail_def Let_def split: sum.splits option.splits if_splits)

lemma dq_progress:
  assumes inv: "dq_inv ns xs s" and t: "pcs s t \<noteq> Idle"
  shows "\<exists>u s'. dq_micro u s = Runs s'"
proof -
  obtain u where "pcs s u \<noteq> Idle" "holds_tail (pcs s u) \<or> m_tail_lock s = None \<and> (holds_head (pcs s u) \<or> m_head_lock s = None)"
  proof (cases "m_tail_lock s")
    case (Some u)
    then have "holds_tail (pcs s u)" using dq_invD(6) [OF inv, of u] by simp
    then show ?thesis using that [of u] by (cases "pcs s u = Idle") auto
  next
    case None
    show ?thesis
    proof (cases "m_head_lock s")
      case (Some u)
      then have "holds_head (pcs s u)" using dq_invD(5) [OF inv, of u] by simp
      then show ?thesis using that [of u] None by (cases "pcs s u = Idle") auto
    qed (use that [of t] t None in auto)
  qed
  moreover from this have "dq_micro u s \<noteq> Blocked" using blocked_waits [of u s]
    by (cases "pcs s u") auto
  ultimately show ?thesis using dq_micro_inv [OF inv, of u] by blast
qed

text \<open>
  C6. The job queue under any interleaving of any number of threads: the logged operations, in
  the order they took effect, have the results they would have on a list; no thread ever
  touches a freed node, fails an assertion or searches the list forever; and as long as some
  thread is within an operation, some thread can make a step. When no operation is under way, the queue
  is empty exactly if the list is, and the two ends are those of the list.
\<close>

theorem deque_linearizable:
  assumes "dq_reach s"
  shows "\<exists>xs. spec_run (map snd (dlog s)) = Some xs
    \<and> (\<forall>t. pcs s t \<noteq> Idle \<longrightarrow> dq_micro t s = Blocked \<or> (\<exists>s'. dq_micro t s = Runs s'))
    \<and> ((\<exists>t. pcs s t \<noteq> Idle) \<longrightarrow> (\<exists>t s'. dq_micro t s = Runs s'))
    \<and> ((\<forall>t. pcs s t = Idle) \<longrightarrow> dq_empty (dq s) = (xs = [])
         \<and> (\<exists>q. dq_take_head (dq s) = Inr (if xs = [] then None else Some (hd xs), q))
         \<and> (\<exists>q. dq_take_tail (dq s) = Some (Inr (if xs = [] then None else Some (last xs), q))))"
proof -
  obtain ns xs where inv: "dq_inv ns xs s" using dq_reach_inv [OF assms] by blast
  note I = dq_invD [OF inv]
  have "dq_empty (dq s) = (xs = []) \<and> queue_jobs (dq s) xs" if idle: "\<forall>t. pcs s t = Idle"
  proof -
    have "m_tail_lock s = None" using I(6) idle by (cases "m_tail_lock s") fastforce+
    then have last: "last ns = dq_tail (dq s)" using I(3) by (simp add: dq_end_def)
    have "dq_head (dq s) = hd ns" "distinct ns" "ns \<noteq> []" using I(1) by (cases ns; simp add: represents_def)+
    then have "dq_empty (dq s) = (length ns = 1)" using last by (cases ns; cases "tl ns" rule: rev_cases) (auto simp: dq_empty_def)
    then show ?thesis using represents_length [OF I(1)] I(1) last by (auto simp: queue_jobs_def)
  qed
  then show ?thesis
    using I(2) dq_micro_inv [OF inv] dq_progress [OF inv] jobs.stores_take_first [of "dq s" xs] jobs.stores_take_last [of "dq s" xs]
    by (intro exI [of _ xs] conjI allI impI) blast+
qed

text \<open>Thread 3 has published a job and not yet moved the tail when thread 2 takes the job.\<close>

definition run_thread :: "nat \<Rightarrow> 'j dqsys \<Rightarrow> 'j dqsys" where
  "run_thread t s = (case dq_micro t s of Runs s' \<Rightarrow> s' | _ \<Rightarrow> s)"

lemma run_thread_reach: "dq_reach s \<Longrightarrow> dq_reach (run_thread t s)"
  by (auto simp: run_thread_def split: outcome.splits intro: dq_next go_on)

lemma run_threads_reach: "dq_reach s \<Longrightarrow> dq_reach (fold run_thread ts s)"
  by (induction ts arbitrary: s) (simp_all add: run_thread_reach)

definition demo_start :: "nat dqsys" where
  "demo_start = \<lparr>dq = new_queue 0, m_head_lock = None, m_tail_lock = None, pcs = \<lambda>_. Idle, dlog = []\<rparr>"

definition demo_published :: "nat dqsys" where
  "demo_published = fold run_thread [3, 3] (goto 3 (App_lock 4 7) (demo_start\<lparr>dq := new_node 4 7 (dq demo_start)\<rparr>))"

definition demo_deque :: "nat dqsys" where
  "demo_deque = fold run_thread [2, 2, 2] (goto 2 Th_lock demo_published)"

lemmas demo_defs = run_thread_def dq_micro_def goto_def log_event_def lock_head_def lock_tail_def append_publish_def set_next_def
  new_node_def new_queue_def head_next_def head_swing_def

lemma demo_published_eq:
  "demo_published = \<lparr>dq = \<lparr>heap = [0 \<mapsto> \<lparr>nd_value = None, nd_next = Some 4\<rparr>, 4 \<mapsto> \<lparr>nd_value = Some 7, nd_next = None\<rparr>],
       dq_head = 0, dq_tail = 0\<rparr>, m_head_lock = None, m_tail_lock = Some 3, pcs = (\<lambda>_. Idle)(3 := App_swing 4),
     dlog = [(3, Ev_append 7)]\<rparr>"
  by (simp add: demo_published_def demo_start_def demo_defs fun_upd_twist)

lemma demo_deque_eq:
  "dlog demo_deque = [(3, Ev_append 7), (2, Ev_head (Some 7))]" "pcs demo_deque 3 = App_swing 4" "pcs demo_deque 2 = Del 0"
  by (simp_all add: demo_deque_def demo_published_eq demo_defs)

lemma demo_deque_reach: "dq_reach demo_deque"
proof -
  have "dq_reach demo_start" unfolding demo_start_def by (rule dq_start)
  moreover have "dq_step demo_start (goto 3 (App_lock 4 7) (demo_start\<lparr>dq := new_node 4 7 (dq demo_start)\<rparr>))"
    by (rule call_append) (simp_all add: demo_start_def new_queue_def)
  ultimately have "dq_reach demo_published" unfolding demo_published_def by (rule run_threads_reach [OF dq_next])
  moreover have "pcs demo_published 2 = Idle" by (simp add: demo_published_eq)
  then have "dq_step demo_published (goto 2 Th_lock demo_published)" by (rule call_take_head)
  ultimately show ?thesis unfolding demo_deque_def by (rule run_threads_reach [OF dq_next])
qed

theorem deque_linearizable_witness:
  "map snd (dlog demo_deque) = [Ev_append 7, Ev_head (Some 7)] \<and> pcs demo_deque 3 = App_swing 4 \<and> pcs demo_deque 2 = Del 0
    \<and> spec_run (map snd (dlog demo_deque)) = Some [] \<and> (\<exists>t s'. dq_micro t demo_deque = Runs s')"
proof -
  have "\<exists>t. pcs demo_deque t \<noteq> Idle" using demo_deque_eq(3) by (intro exI [of _ 2]) simp
  then have "\<exists>t s'. dq_micro t demo_deque = Runs s'" using deque_linearizable [OF demo_deque_reach] by blast
  moreover have "spec_run (map snd (dlog demo_deque)) = Some []" by (simp add: demo_deque_eq(1) spec_run_def)
  ultimately show ?thesis by (simp add: demo_deque_eq)
qed

end
