(* ===== verification/Work_Stealing.thy ===== *)
theory Work_Stealing
  imports Double_Ended_Queue "HOL-Library.Multiset"
begin

text \<open>
  The scheduler (caf/policy/work_stealing.hpp, caf/scheduler/worker.hpp,
  caf/scheduler/coordinator.hpp): workers that take jobs from their own queue or steal them
  from another one, the round-robin distribution of new jobs, and the shutdown of all workers.
  A job is resumed by arbitrary code, whose result is an argument; so are the rolled dice and
  the addresses the allocator returns. Each operation on a queue is one step, as
  \<open>Double_Ended_Queue\<close> justifies. Threads, joining and sleeping are left out.
\<close>

section \<open>Model\<close>

datatype 'j job = Job 'j | Shutdown_helper


datatype ws_error = Ws_queue dq_error | Ws_diverges | Ws_mod_zero



text \<open>Where a worker is: in \<open>dequeue\<close>, at attempt \<open>i\<close> of a strategy; past its last strategy,
  where it returns \<open>nullptr\<close>; running a job; or finished.\<close>

datatype 'j phase = Polling nat nat | Null_job | Running "'j job" | Stopped

datatype stop_phase = Not_stopping | Stop_enqueue "nat set" | Stop_await "nat set" | Stop_complete

record 'j scheduler =
  ws_queue :: "nat \<Rightarrow> 'j job double_ended_queue"
  ws_phase :: "nat \<Rightarrow> 'j phase"
  num_workers :: nat
  next_worker :: u64
  last_worker :: "nat option"
  ws_stop :: stop_phase
  idle_jobs :: "'j list"
  detached :: "'j list"

definition set_queue :: "nat \<Rightarrow> 'j scheduler \<Rightarrow> dq_error + 'j job double_ended_queue \<Rightarrow> ws_error + 'j scheduler" where
  "set_queue w s r = (case r of Inl e \<Rightarrow> Inl (Ws_queue e) | Inr q \<Rightarrow> Inr (s\<lparr>ws_queue := (ws_queue s)(w := q)\<rparr>))"


definition external_enqueue :: "nat \<Rightarrow> nat \<Rightarrow> 'j job \<Rightarrow> 'j scheduler \<Rightarrow> ws_error + 'j scheduler" where
  "external_enqueue w tmp job s = set_queue w s (dq_append tmp job (ws_queue s w))"



text \<open>The worker the next job goes to, and \<open>central_enqueue\<close>.\<close>

definition central_worker :: "'j scheduler \<Rightarrow> nat" where
  "central_worker s = unat (next_worker s) mod num_workers s"

definition central_enqueue :: "nat \<Rightarrow> 'j job \<Rightarrow> 'j scheduler \<Rightarrow> ws_error + 'j scheduler" where
  "central_enqueue tmp job s =
     (if num_workers s = 0 then Inl Ws_mod_zero
      else external_enqueue (central_worker s) tmp job (s\<lparr>next_worker := next_worker s + 1\<rparr>))"













section \<open>Where the jobs are\<close>

fun run_of :: "'j phase \<Rightarrow> 'j job multiset" where
  "run_of (Running j) = {#j#}" | "run_of _ = {#}"

definition work :: "'j scheduler \<Rightarrow> (nat \<Rightarrow> 'j job list) \<Rightarrow> nat \<Rightarrow> 'j job multiset" where
  "work s xs w = mset (xs w) + run_of (ws_phase s w)"

definition all_work :: "'j scheduler \<Rightarrow> (nat \<Rightarrow> 'j job list) \<Rightarrow> 'j job multiset" where
  "all_work s xs = (\<Sum>w<num_workers s. work s xs w)"

definition helpers :: "'j scheduler \<Rightarrow> 'j job multiset" where
  "helpers s = (case ws_stop s of Stop_await _ \<Rightarrow> if last_worker s = None then {#Shutdown_helper#} else {#} | _ \<Rightarrow> {#})"






lemma work_frame [simp]:
  "all_work (s\<lparr>detached := d\<rparr>) xs = all_work s xs" "all_work (s\<lparr>idle_jobs := is\<rparr>) xs = all_work s xs"
  "all_work (s\<lparr>next_worker := n\<rparr>) xs = all_work s xs" "all_work (s\<lparr>ws_stop := p\<rparr>) xs = all_work s xs"
  "all_work (s\<lparr>last_worker := l\<rparr>) xs = all_work s xs"
  "helpers (s\<lparr>detached := d\<rparr>) = helpers s" "helpers (s\<lparr>idle_jobs := is\<rparr>) = helpers s" "helpers (s\<lparr>next_worker := n\<rparr>) = helpers s"
  by (auto simp: all_work_def work_def helpers_def split: stop_phase.splits)




section \<open>The invariant\<close>




















section \<open>Shutdown\<close>







section \<open>Every job once\<close>























text \<open>A coordinator without workers cannot take a job: the number of workers is a divisor.\<close>

lemma no_workers_no_jobs: "num_workers s = 0 \<Longrightarrow> central_enqueue tmp job s = Inl Ws_mod_zero"
  by (simp add: central_enqueue_def)

end
