(* ===== verification/Timer_Printer.thy ===== *)
theory Timer_Printer
  imports Prelude "HOL-Library.Multiset"
begin

text \<open>
  The two utility actors of the scheduler (libcaf_core/src/abstract_coordinator.cpp) and the
  durations they use (caf/duration.hpp): the timer, which keeps delayed messages until they are
  due, and the printer, which collects the output of actors line by line. Actors are numbers.
  A point in time is a number of nanoseconds; a clock that leaves its 64-bit range is undefined
  behavior, which is \<open>None\<close> here.
\<close>

section \<open>Durations\<close>

datatype time_unit = Unit_invalid | Unit_seconds | Unit_milliseconds | Unit_microseconds

record duration =
  dur_unit :: time_unit
  dur_count :: u64

text \<open>\<open>rd\<close>: the count of an STL duration whose period is \<open>num\<close> of its unit; \<open>None\<close> is \<open>invalid_argument\<close>.\<close>

definition dur_rd :: "int \<Rightarrow> u64 \<Rightarrow> u64 option" where
  "dur_rd c num = (if c < 0 then None else Some (word_of_int c * num))"

definition dur_valid :: "duration \<Rightarrow> bool" where
  "dur_valid d \<longleftrightarrow> dur_unit d \<noteq> Unit_invalid"

definition dur_is_zero :: "duration \<Rightarrow> bool" where
  "dur_is_zero d \<longleftrightarrow> dur_count d = 0"



section \<open>The timer\<close>











subsection \<open>Order of delivery\<close>



















section \<open>The printer\<close>

datatype print_msg = Print_add "nat option" string | Print_flush "nat option" | Print_down nat | Print_exit | Print_other

text \<open>The text that is not printed yet, per actor; what was printed, piece by piece, and for whom; whom the
  printer monitors; and what was added, an observation of the model.\<close>

record printer =
  out :: "nat \<rightharpoonup> string"
  cout :: "(nat \<times> string) list"
  monitored :: "nat list"
  running :: bool
  added :: "(nat \<times> string) list"

definition flush_output :: "nat option \<Rightarrow> printer \<Rightarrow> printer" where
  "flush_output s p = (case s of None \<Rightarrow> p | Some a \<Rightarrow> (case out p a of
      None \<Rightarrow> p
    | Some line \<Rightarrow> if line = [] then p else p\<lparr>cout := cout p @ [(a, line)], out := (out p)(a \<mapsto> [])\<rparr>))"

definition newline :: char where
  "newline = CHR 10"

text \<open>\<open>flush_if_needed\<close>; the text is not empty when it is called.\<close>

definition flush_if_needed :: "nat \<Rightarrow> printer \<Rightarrow> printer" where
  "flush_if_needed a p = (case out p a of
      None \<Rightarrow> p
    | Some str \<Rightarrow> if last str = newline then p\<lparr>cout := cout p @ [(a, str)], out := (out p)(a \<mapsto> [])\<rparr> else p)"

definition print_add :: "nat option \<Rightarrow> string \<Rightarrow> printer \<Rightarrow> printer" where
  "print_add s str p = (case s of
      None \<Rightarrow> p
    | Some a \<Rightarrow>
        if str = [] then p
        else let p1 = (case out p a of
                   None \<Rightarrow> p\<lparr>out := (out p)(a \<mapsto> str), monitored := monitored p @ [a]\<rparr>
                 | Some line \<Rightarrow> p\<lparr>out := (out p)(a \<mapsto> line @ str)\<rparr>)
             in flush_if_needed a (p1\<lparr>added := added p1 @ [(a, str)]\<rparr>))"

definition printer_handle :: "print_msg \<Rightarrow> printer \<Rightarrow> printer" where
  "printer_handle msg p = (case msg of
      Print_add s str \<Rightarrow> print_add s str p
    | Print_flush s \<Rightarrow> flush_output s p
    | Print_down a \<Rightarrow> (let p1 = flush_output (Some a) p in p1\<lparr>out := (out p1)(a := None)\<rparr>)
    | Print_exit \<Rightarrow> p\<lparr>running := False\<rparr>
    | Print_other \<Rightarrow> p)"

definition printer_start :: printer where
  "printer_start = \<lparr>out = Map.empty, cout = [], monitored = [], running = True, added = []\<rparr>"

text \<open>\<open>receive_while\<close>: messages are handled until the exit message.\<close>

fun printer_loop :: "print_msg list \<Rightarrow> printer \<Rightarrow> printer" where
  "printer_loop [] p = p"
| "printer_loop (m # ms) p = (if running p then printer_loop ms (printer_handle m p) else p)"

definition text_of :: "nat \<Rightarrow> (nat \<times> string) list \<Rightarrow> string" where
  "text_of a xs = concat (map snd (filter (\<lambda>x. fst x = a) xs))"

definition buffered :: "nat \<Rightarrow> printer \<Rightarrow> string" where
  "buffered a p = (case out p a of None \<Rightarrow> [] | Some str \<Rightarrow> str)"

lemma text_of_append [simp]: "text_of a (xs @ ys) = text_of a xs @ text_of a ys" "text_of a [] = []"
  "text_of a [(b, str)] = (if a = b then str else [])"
  by (simp_all add: text_of_def)

lemmas printer_defs = printer_handle_def print_add_def flush_output_def flush_if_needed_def buffered_def Let_def

lemma printer_handle_conserves:
  assumes "text_of a (cout p) @ buffered a p = text_of a (added p)"
  shows "text_of a (cout (printer_handle m p)) @ buffered a (printer_handle m p) = text_of a (added (printer_handle m p))"
proof (cases m)
  case (Print_add s str)
  then show ?thesis using assms by (auto simp: printer_defs split: option.splits)
next
  case (Print_flush s)
  then show ?thesis using assms by (auto simp: printer_defs split: option.splits)
next
  case (Print_down b)
  then show ?thesis using assms by (auto simp: printer_defs split: option.splits)
qed (use assms in \<open>simp_all add: printer_defs\<close>)

text \<open>
  The printer prints the text of every actor completely and in order: what it printed for an
  actor, followed by what it still holds back, is everything the actor added while the printer ran.
  What it prints at once is the text up to the end of a line, or all of it when the actor asks or
  terminates.
\<close>

theorem printer_keeps_text:
  "text_of a (cout (printer_loop ms printer_start)) @ buffered a (printer_loop ms printer_start)
     = text_of a (added (printer_loop ms printer_start))
   \<and> (running p \<longrightarrow> buffered a (printer_handle (Print_flush (Some a)) p) = [] \<and> buffered a (printer_handle (Print_down a) p) = []
      \<and> (str \<noteq> [] \<and> last str = newline \<longrightarrow> buffered a (printer_handle (Print_add (Some a) str) p) = []))"
proof -
  have "text_of a (cout (printer_loop ms q)) @ buffered a (printer_loop ms q) = text_of a (added (printer_loop ms q))"
    if "text_of a (cout q) @ buffered a q = text_of a (added q)" for q
    using that printer_handle_conserves by (induction ms q rule: printer_loop.induct) auto
  moreover have "text_of a (cout printer_start) @ buffered a printer_start = text_of a (added printer_start)"
    by (simp add: printer_start_def buffered_def)
  ultimately show ?thesis by (auto simp: printer_defs split: option.splits)
qed

theorem printer_keeps_text_witness:
  "cout (printer_loop [Print_add (Some 1) ''a'', Print_add (Some 2) ''b'', Print_add (Some 1) [newline], Print_flush (Some 2)] printer_start)
     = [(1, [CHR ''a'', newline]), (2, ''b'')]
   \<and> buffered 1 (printer_handle (Print_add (Some 1) [newline]) printer_start) = []"
  using printer_keeps_text [of 1 "[]" printer_start "[newline]"]
  by (simp add: printer_defs printer_start_def newline_def)

text \<open>The exit message ends the printer, and the text it held back is never printed.\<close>

lemma exit_drops_text:
  "cout (printer_loop [Print_add (Some a) ''x'', Print_exit, Print_flush (Some a)] printer_start) = []"
  by (simp add: printer_defs printer_start_def newline_def)

end
