(* ===== verification/Message_Matching.thy ===== *)
theory Message_Matching
  imports Prelude
begin

unbundle bit_operations_syntax

text \<open>
  How a message finds its handler (caf/detail/matcher.hpp, caf/match_expr.hpp,
  caf/detail/behavior_impl.hpp, src/behavior_impl.cpp, src/behavior.cpp): patterns of types with
  wildcards, match expressions with their cache of type tokens, and the combination of
  behaviors. Types are arbitrary values. The elements of a message are pairs of a type and a
  value, and a handler is a function on the matched values.
\<close>

section \<open>Model\<close>

subsection \<open>The matcher\<close>

text \<open>An element of a pattern is a type or the wildcard \<open>anything\<close> (a null pointer).\<close>

datatype 't pat = Anything | Typ 't

datatype match_error = Past_end | Out_overflow | Undefined_shift

text \<open>The variables the three callbacks share: the array \<open>out\<close> (\<open>None\<close>: the callbacks do nothing), which
  gets the positions of the matched elements, and its two positions.\<close>

record mstate =
  outp :: "nat list option"
  mpos :: nat
  fallback_pos :: nat

definition m_push :: "nat \<Rightarrow> mstate \<Rightarrow> match_error + mstate" where
  "m_push t st = (case outp st of
      None \<Rightarrow> Inr st
    | Some a \<Rightarrow> if mpos st < length a then Inr (st\<lparr>outp := Some (a[mpos st := t]), mpos := Suc (mpos st)\<rparr>) else Inl Out_overflow)"

definition m_commit :: "mstate \<Rightarrow> mstate" where
  "m_commit st = (if outp st = None then st else st\<lparr>fallback_pos := mpos st\<rparr>)"

definition m_rollback :: "mstate \<Rightarrow> mstate" where
  "m_rollback st = (if outp st = None then st else st\<lparr>mpos := fallback_pos st\<rparr>)"

text \<open>The loop over the pattern, and the loop that tries the rest of the pattern at each position.\<close>

function (sequential) match_seq :: "'t list \<Rightarrow> nat \<Rightarrow> 't pat list \<Rightarrow> mstate \<Rightarrow> match_error + bool \<times> mstate"
  and match_any :: "'t list \<Rightarrow> nat \<Rightarrow> 't pat list \<Rightarrow> mstate \<Rightarrow> match_error + bool \<times> mstate" where
  "match_seq ts t [] st = Inr (t = length ts, st)"
| "match_seq ts t (Anything # ps) st = (if ps = [] then Inr (True, st) else match_any ts t ps (m_commit st))"
| "match_seq ts t (Typ ty # ps) st =
     (if t \<ge> length ts then Inl Past_end
      else if ts ! t \<noteq> ty then Inr (False, st)
      else case m_push t st of Inl e \<Rightarrow> Inl e | Inr st' \<Rightarrow> match_seq ts (Suc t) ps st')"
| "match_any ts t ps st =
     (if t < length ts
      then case match_seq ts t ps st of
          Inl e \<Rightarrow> Inl e
        | Inr (found, st') \<Rightarrow> if found then Inr (True, st') else match_any ts (Suc t) ps (m_rollback st')
      else Inr (False, st))"
  by pat_completeness auto
termination
  by (relation "measures [\<lambda>x. case x of Inl (ts, t, ps, st) \<Rightarrow> length ps | Inr (ts, t, ps, st) \<Rightarrow> length ps,
      \<lambda>x. case x of Inl (ts, t, ps, st) \<Rightarrow> length ts - t | Inr (ts, t, ps, st) \<Rightarrow> length ts - t,
      \<lambda>x. case x of Inl _ \<Rightarrow> 0 | Inr _ \<Rightarrow> 1]") auto

text \<open>The second call operator: \<open>Us\<close> are the types of the pattern without the wildcards.\<close>

definition filtered :: "'t pat list \<Rightarrow> 't pat list" where
  "filtered p = filter (\<lambda>x. x \<noteq> Anything) p"

definition match_types :: "'t pat list \<Rightarrow> 't list \<Rightarrow> nat list option \<Rightarrow> match_error + bool \<times> nat list option" where
  "match_types p ts a =
     (if filtered p = [] then Inr (True, a)
      else if length ts < length (filtered p) then Inr (False, a)
      else case match_seq ts 0 p \<lparr>outp = a, mpos = 0, fallback_pos = 0\<rparr> of
          Inl e \<Rightarrow> Inl e | Inr (found, st) \<Rightarrow> Inr (found, outp st))"

text \<open>The call with an array that has room for the types of the pattern.\<close>

abbreviation match_out :: "'t pat list \<Rightarrow> 't list \<Rightarrow> match_error + bool \<times> nat list option" where
  "match_out p ts \<equiv> match_types p ts (Some (replicate (length (filtered p)) 0))"

subsection \<open>Match expressions\<close>

record ('t, 'v) message =
  elems :: "('t \<times> 'v) list"
  dynamically_typed :: bool

text \<open>The token of a statically typed message identifies the types of its elements.\<close>

definition type_token :: "('t, 'v) message \<Rightarrow> 't list" where
  "type_token msg = map fst (elems msg)"

record ('t, 'v, 'r) match_case =
  case_pattern :: "'t pat list"
  case_fun :: "'v list \<Rightarrow> 'r option"

text \<open>\<open>0x01 << N\<close> shifts an \<open>int\<close>; shifting into or past its sign bit is undefined.\<close>

definition case_bit :: "nat \<Rightarrow> match_error + u64" where
  "case_bit n = (if n < 31 then Inr (push_bit n 1) else Inl Undefined_shift)"

text \<open>\<open>calc_bitmask\<close> for the cases from \<open>n\<close> on.\<close>

fun calc_bitmask :: "nat \<Rightarrow> ('t, 'v, 'r) match_case list \<Rightarrow> 't list \<Rightarrow> match_error + u64" where
  "calc_bitmask n [] ts = Inr 0"
| "calc_bitmask n (c # cs) ts = (case match_types (case_pattern c) ts None of
      Inl e \<Rightarrow> Inl e
    | Inr (found, _) \<Rightarrow>
        (case (if found then case_bit n else Inr 0) of
           Inl e \<Rightarrow> Inl e
         | Inr b \<Rightarrow> (case calc_bitmask (Suc n) cs ts of Inl e \<Rightarrow> Inl e | Inr r \<Rightarrow> Inr (b OR r))))"

text \<open>\<open>unroll_expr\<close> for the cases from \<open>n\<close> on: the first enabled case that matches and whose function
  has a valid result.\<close>

fun unroll_expr :: "nat \<Rightarrow> ('t, 'v, 'r) match_case list \<Rightarrow> u64 \<Rightarrow> ('t, 'v) message \<Rightarrow> match_error + 'r option" where
  "unroll_expr n [] bitmask msg = Inr None"
| "unroll_expr n (c # cs) bitmask msg = (case case_bit n of
      Inl e \<Rightarrow> Inl e
    | Inr b \<Rightarrow>
        if bitmask AND b = 0 then unroll_expr (Suc n) cs bitmask msg
        else case match_out (case_pattern c) (map fst (elems msg)) of
            Inl e \<Rightarrow> Inl e
          | Inr (found, a) \<Rightarrow>
              if \<not> found then unroll_expr (Suc n) cs bitmask msg
              else case case_fun c (map (\<lambda>i. snd (elems msg ! i)) (the a)) of
                  Some r \<Rightarrow> Inr (Some r)
                | None \<Rightarrow> unroll_expr (Suc n) cs bitmask msg)"

definition cache_size :: nat where
  "cache_size = 10"

record ('t, 'v, 'r) match_expr =
  m_cases :: "('t, 'v, 'r) match_case list"
  m_cache :: "('t list option \<times> u64) list"
  m_cache_begin :: nat
  m_cache_end :: nat


definition advance :: "nat \<Rightarrow> nat" where
  "advance i = (i + 1) mod cache_size"

text \<open>\<open>find_token_pos\<close>; the first argument bounds the walk around the ring.\<close>

fun find_token :: "nat \<Rightarrow> 't list \<Rightarrow> nat \<Rightarrow> ('t, 'v, 'r) match_expr \<Rightarrow> nat" where
  "find_token 0 tok i m = m_cache_end m"
| "find_token (Suc k) tok i m =
     (if i = m_cache_end m then m_cache_end m
      else if fst (m_cache m ! i) = Some tok then i else find_token k tok (advance i) m)"

definition find_token_pos :: "'t list \<Rightarrow> ('t, 'v, 'r) match_expr \<Rightarrow> nat" where
  "find_token_pos tok m = find_token cache_size tok (m_cache_begin m) m"

definition get_cache_entry :: "('t, 'v) message \<Rightarrow> ('t, 'v, 'r) match_expr \<Rightarrow> match_error + u64 \<times> ('t, 'v, 'r) match_expr" where
  "get_cache_entry msg m =
     (if dynamically_typed msg then Inr (- 1, m)
      else let i = find_token_pos (type_token msg) m
           in if i \<noteq> m_cache_end m then Inr (snd (m_cache m ! i), m)
              else let e = advance (m_cache_end m);
                       b = (if e = m_cache_begin m then advance (m_cache_begin m) else m_cache_begin m)
                   in (case calc_bitmask 0 (m_cases m) (map fst (elems msg)) of
                         Inl err \<Rightarrow> Inl err
                       | Inr bits \<Rightarrow> Inr (bits, m\<lparr>m_cache := (m_cache m)[i := (Some (type_token msg), bits)], m_cache_begin := b, m_cache_end := e\<rparr>)))"

definition mx_apply :: "('t, 'v) message \<Rightarrow> ('t, 'v, 'r) match_expr \<Rightarrow> match_error + 'r option \<times> ('t, 'v, 'r) match_expr" where
  "mx_apply msg m = (case get_cache_entry msg m of
      Inl e \<Rightarrow> Inl e
    | Inr (bitmask, m') \<Rightarrow>
        (case unroll_expr 0 (m_cases m') bitmask msg of Inl e \<Rightarrow> Inl e | Inr r \<Rightarrow> Inr (r, m')))"

section \<open>What a pattern means\<close>

text \<open>The pattern matches the elements from position \<open>t\<close> on, its types at the positions \<open>ms\<close>.\<close>

fun embeds :: "'t list \<Rightarrow> nat \<Rightarrow> 't pat list \<Rightarrow> nat list \<Rightarrow> bool" where
  "embeds ts t [] ms \<longleftrightarrow> ms = [] \<and> t = length ts"
| "embeds ts t (Anything # ps) ms \<longleftrightarrow> (\<exists>k\<ge>t. k \<le> length ts \<and> embeds ts k ps ms)"
| "embeds ts t (Typ ty # ps) ms \<longleftrightarrow> t < length ts \<and> ts ! t = ty \<and> (\<exists>ms'. ms = t # ms' \<and> embeds ts (Suc t) ps ms')"

definition pattern_matches :: "'t pat list \<Rightarrow> 't list \<Rightarrow> bool" where
  "pattern_matches p ts \<longleftrightarrow> (\<exists>ms. embeds ts 0 p ms)"

text \<open>No two wildcards in a row.\<close>

fun wild_ok :: "'t pat list \<Rightarrow> bool" where
  "wild_ok (Anything # Anything # ps) \<longleftrightarrow> False"
| "wild_ok (p # ps) \<longleftrightarrow> wild_ok ps"
| "wild_ok [] \<longleftrightarrow> True"

section \<open>The matcher is correct\<close>

text \<open>A call leaves what was written before it alone, and its fallback position is the old one or
  lies behind what was written before.\<close>

definition frame_ok :: "mstate \<Rightarrow> mstate \<Rightarrow> bool" where
  "frame_ok st st' \<longleftrightarrow> (case outp st of
      None \<Rightarrow> outp st' = None
    | Some a \<Rightarrow> (\<exists>a'. outp st' = Some a' \<and> length a' = length a \<and> take (mpos st) a' = take (mpos st) a
        \<and> (fallback_pos st' = fallback_pos st \<or> mpos st \<le> fallback_pos st')))"

definition written :: "mstate \<Rightarrow> mstate \<Rightarrow> nat list \<Rightarrow> bool" where
  "written st st' ms \<longleftrightarrow> (case outp st' of
      None \<Rightarrow> True | Some a \<Rightarrow> mpos st \<le> mpos st' \<and> mpos st' \<le> length a \<and> ms = drop (mpos st) (take (mpos st') a))"

definition state_ok :: "mstate \<Rightarrow> bool" where
  "state_ok st \<longleftrightarrow> (case outp st of None \<Rightarrow> True | Some a \<Rightarrow> mpos st \<le> length a \<and> fallback_pos st \<le> length a)"

definition hopeless :: "'t list \<Rightarrow> nat \<Rightarrow> 't pat list \<Rightarrow> bool" where
  "hopeless ts t ps \<longleftrightarrow> (\<forall>k\<ge>t. \<forall>ms. \<not> embeds ts k ps ms)"

definition seq_result :: "'t list \<Rightarrow> nat \<Rightarrow> 't pat list \<Rightarrow> mstate \<Rightarrow> bool \<Rightarrow> mstate \<Rightarrow> bool" where
  "seq_result ts t ps st found st' \<longleftrightarrow> frame_ok st st' \<and> state_ok st' \<and>
     (if found then \<exists>ms. embeds ts t ps ms \<and> written st st' ms
      else (\<forall>ms. \<not> embeds ts t ps ms) \<and> (fallback_pos st' = fallback_pos st \<or> hopeless ts t ps))"

definition any_result :: "'t list \<Rightarrow> nat \<Rightarrow> 't pat list \<Rightarrow> mstate \<Rightarrow> bool \<Rightarrow> mstate \<Rightarrow> bool" where
  "any_result ts t ps st found st' \<longleftrightarrow> frame_ok st st' \<and> state_ok st' \<and>
     (if found then \<exists>k\<ge>t. k \<le> length ts \<and> (\<exists>ms. embeds ts k ps ms \<and> written st st' ms) else hopeless ts t ps)"

lemma m_push_result:
  assumes "m_push t st = Inr st1" "state_ok st" "seq_result ts (Suc t) ps st1 found st'" "t < length ts" "ts ! t = ty"
  shows "state_ok st1" "seq_result ts t (Typ ty # ps) st found st'"
proof -
  show "state_ok st1" using assms(1,2) by (auto simp: m_push_def state_ok_def split: option.splits if_splits)
  show "seq_result ts t (Typ ty # ps) st found st'"
  proof (cases "outp st")
    case None
    then have "st1 = st" using assms(1) by (simp add: m_push_def)
    then show ?thesis using assms None
      by (auto simp: seq_result_def frame_ok_def written_def hopeless_def split: if_splits)
  next
    case (Some a)
    then have m: "mpos st < length a" "st1 = st\<lparr>outp := Some (a[mpos st := t]), mpos := Suc (mpos st)\<rparr>"
      using assms(1) by (auto simp: m_push_def split: if_splits)
    obtain a' where a': "outp st' = Some a'" "length a' = length a" "take (Suc (mpos st)) a' = take (Suc (mpos st)) (a[mpos st := t])"
      "fallback_pos st' = fallback_pos st \<or> Suc (mpos st) \<le> fallback_pos st'"
      using assms(3) m(2) by (auto simp: seq_result_def frame_ok_def)
    have nth: "a' ! mpos st = t" using arg_cong [OF a'(3), of "\<lambda>l. l ! mpos st"] m(1) by simp
    have "take (mpos st) a' = take (mpos st) a" using arg_cong [OF a'(3), of "take (mpos st)"] by (simp add: min_def)
    then have "frame_ok st st'" using a' Some by (auto simp: frame_ok_def)
    moreover have "written st st' (t # ms)" if "written st1 st' ms" for ms
      using that m a' nth Cons_nth_drop_Suc [of "mpos st" "take (mpos st') a'"] by (auto simp: written_def)
    moreover have "hopeless ts t (Typ ty # ps)" if "hopeless ts (Suc t) ps" using that by (auto simp: hopeless_def)
    ultimately show ?thesis using assms(3,4,5) m(2) by (auto simp: seq_result_def split: if_splits)
  qed
qed


definition synced :: "mstate \<Rightarrow> bool" where
  "synced st \<longleftrightarrow> (outp st \<noteq> None \<longrightarrow> fallback_pos st = mpos st)"

lemma wild_ok_tail: "wild_ok (p # ps) \<Longrightarrow> wild_ok ps"
  by (cases "p # ps" rule: wild_ok.cases) auto

lemma hopeless_at_end: "wild_ok (Anything # ps) \<Longrightarrow> ps \<noteq> [] \<Longrightarrow> hopeless ts (length ts) ps"
  by (cases ps; cases "hd ps") (auto simp: hopeless_def)

lemma rollback_ok:
  assumes "state_ok st" "synced st" "seq_result ts t ps st False st1"
  shows "state_ok (m_rollback st1)" "synced (m_rollback st1)" "outp st \<noteq> None \<Longrightarrow> mpos st \<le> mpos (m_rollback st1)"
    "hopeless ts t ps \<or> outp st = None \<or> mpos (m_rollback st1) = mpos st"
  using assms by (auto simp: seq_result_def frame_ok_def state_ok_def synced_def m_rollback_def split: option.splits)

lemma any_next:
  assumes st: "state_ok st" "synced st" and seq: "seq_result ts t ps st False st1" and any: "any_result ts (Suc t) ps (m_rollback st1) found st'"
  shows "any_result ts t ps st found st'"
proof -
  note R = rollback_ok [OF st seq]
  have "frame_ok st st'"
  proof (cases "outp st")
    case None
    then show ?thesis using seq any by (auto simp: seq_result_def any_result_def frame_ok_def m_rollback_def)
  next
    case (Some a)
    then obtain a1 where a1: "outp st1 = Some a1" "length a1 = length a" "take (mpos st) a1 = take (mpos st) a"
      using seq by (auto simp: seq_result_def frame_ok_def)
    then obtain a' where a': "outp st' = Some a'" "length a' = length a1" "take (mpos (m_rollback st1)) a' = take (mpos (m_rollback st1)) a1"
      "fallback_pos st' = fallback_pos st1 \<or> mpos (m_rollback st1) \<le> fallback_pos st'"
      using any by (auto simp: any_result_def frame_ok_def m_rollback_def)
    have le: "mpos st \<le> mpos (m_rollback st1)" using R(3) Some by simp
    have "take (mpos st) a' = take (mpos st) a" using arg_cong [OF a'(3), of "take (mpos st)"] a1(3) le by (simp add: min_def)
    moreover have "fallback_pos st1 = fallback_pos st \<or> mpos st \<le> fallback_pos st1" using seq Some by (auto simp: seq_result_def frame_ok_def)
    ultimately show ?thesis using Some a1 a' le by (auto simp: frame_ok_def)
  qed
  moreover have "written st st' ms" if "written (m_rollback st1) st' ms" "embeds ts k ps ms" "Suc t \<le> k" for ms k
  proof -
    have "\<not> hopeless ts t ps" using that(2,3) by (force simp: hopeless_def)
    then show ?thesis using that(1) R(4) \<open>frame_ok st st'\<close> by (auto simp: written_def frame_ok_def split: option.splits)
  qed
  moreover have "hopeless ts t ps" if "hopeless ts (Suc t) ps"
    using that seq by (auto simp: hopeless_def seq_result_def le_eq_less_or_eq [of t] Suc_le_eq)
  ultimately show ?thesis using any by (auto simp: any_result_def split: if_splits) (meson Suc_leD)
qed

lemma match_correct:
  "match_seq ts t ps st = Inr (found, st') \<Longrightarrow> wild_ok ps \<Longrightarrow> t \<le> length ts \<Longrightarrow> state_ok st \<Longrightarrow> seq_result ts t ps st found st'"
  "match_any ts t ps st = Inr (found, st') \<Longrightarrow> wild_ok (Anything # ps) \<Longrightarrow> ps \<noteq> [] \<Longrightarrow> t \<le> length ts \<Longrightarrow> state_ok st \<Longrightarrow> synced st \<Longrightarrow>
     any_result ts t ps st found st'"
proof (induction ts t ps st and ts t ps st arbitrary: found st' and found st' rule: match_seq_match_any.induct)
  case (1 ts t st)
  then show ?case by (auto simp: seq_result_def frame_ok_def written_def state_ok_def split: option.splits)
next
  case (2 ts t ps st)
  show ?case
  proof (cases "ps = []")
    case True
    then show ?thesis using 2 by (auto simp: seq_result_def frame_ok_def written_def state_ok_def split: option.splits)
  next
    case False
    have c: "state_ok (m_commit st)" "synced (m_commit st)" using 2 by (auto simp: m_commit_def state_ok_def synced_def split: option.splits)
    from False 2 have "any_result ts t ps (m_commit st) found st'" using c by simp
    then show ?thesis
      by (auto simp: any_result_def seq_result_def frame_ok_def written_def m_commit_def hopeless_def split: option.splits if_splits)
  qed
next
  case (3 ts t ty ps st)
  show ?case
  proof (cases "ts ! t = ty")
    case True
    then obtain st1 where st1: "t < length ts" "m_push t st = Inr st1" "match_seq ts (Suc t) ps st1 = Inr (found, st')"
      using 3(2) by (auto split: if_splits sum.splits)
    have "state_ok st1" using st1(2) 3(5) by (auto simp: m_push_def state_ok_def split: option.splits if_splits)
    then have "seq_result ts (Suc t) ps st1 found st'" using 3 st1 True wild_ok_tail by auto
    then show ?thesis using st1(1) True by (rule m_push_result(2) [OF st1(2) 3(5)])
  next
    case False
    then show ?thesis using 3(2,5) by (auto simp: seq_result_def frame_ok_def split: if_splits option.splits)
  qed
next
  case (4 ts t ps st)
  show ?case
  proof (cases "t < length ts")
    case True
    then obtain f st1 where st1: "match_seq ts t ps st = Inr (f, st1)" using 4(3) by (auto split: sum.splits)
    then have seq: "seq_result ts t ps st f st1" using 4 True wild_ok_tail by blast
    show ?thesis
    proof (cases f)
      case True
      then show ?thesis using st1 seq 4(3) \<open>t < length ts\<close>
        by (auto simp: any_result_def seq_result_def intro!: exI [of _ t])
    next
      case False
      have m: "match_any ts (Suc t) ps (m_rollback st1) = Inr (found, st')"
        using 4(3) st1 True False by (subst (asm) match_any.simps) (simp del: match_any.simps)
      have seq': "seq_result ts t ps st False st1" using seq False by simp
      note R = rollback_ok [OF 4(7,8) seq']
      have "any_result ts (Suc t) ps (m_rollback st1) found st'"
        using 4(2) [OF True st1 _ _ m 4(4,5) _ R(1,2)] False True by simp
      then show ?thesis by (rule any_next [OF 4(7,8) seq'])
    qed
  next
    case False
    then show ?thesis using 4 hopeless_at_end [of ps ts] by (auto simp: any_result_def frame_ok_def split: option.splits)
  qed
qed

lemma embeds_types: "embeds ts t ps ms \<Longrightarrow> map (\<lambda>i. Typ (ts ! i)) ms = filtered ps"
  by (induction ts t ps ms rule: embeds.induct) (auto simp: filtered_def)

lemma embeds_length: "embeds ts t ps ms \<Longrightarrow> length ms = length (filtered ps)"
  using embeds_types [of ts t ps ms] by (metis length_map)

lemma embeds_bound: "embeds ts t ps ms \<Longrightarrow> t \<le> length ts \<and> length ms \<le> length ts - t"
  by (induction ts t ps ms rule: embeds.induct) fastforce+

definition room :: "mstate \<Rightarrow> 't pat list \<Rightarrow> bool" where
  "room st ps \<longleftrightarrow> (case outp st of None \<Rightarrow> True | Some a \<Rightarrow> mpos st + length (filtered ps) \<le> length a)"

text \<open>Where the pattern matches somewhere further on, no attempt runs past the end of the message or of the array.\<close>

lemma match_no_error:
  "wild_ok ps \<Longrightarrow> t \<le> length ts \<Longrightarrow> state_ok st \<Longrightarrow> room st ps \<Longrightarrow> \<not> hopeless ts t ps \<Longrightarrow> match_seq ts t ps st \<noteq> Inl e"
  "wild_ok (Anything # ps) \<Longrightarrow> ps \<noteq> [] \<Longrightarrow> t \<le> length ts \<Longrightarrow> state_ok st \<Longrightarrow> synced st \<Longrightarrow> room st ps \<Longrightarrow> \<not> hopeless ts t ps \<Longrightarrow>
     match_any ts t ps st \<noteq> Inl e"
proof (induction ts t ps st and ts t ps st rule: match_seq_match_any.induct)
  case (2 ts t ps st)
  have "state_ok (m_commit st)" "synced (m_commit st)" "room (m_commit st) ps"
    using 2 by (auto simp: m_commit_def state_ok_def synced_def room_def filtered_def split: option.splits)
  moreover have "\<not> hopeless ts t ps" using 2(6) by (auto simp: hopeless_def) (meson order_trans)
  ultimately show ?case using 2 by simp
next
  case (3 ts t ty ps st)
  then obtain k ms where k: "t \<le> k" "k < length ts" "embeds ts (Suc k) ps ms" by (auto simp: hopeless_def)
  then have h: "\<not> hopeless ts (Suc t) ps" by (auto simp: hopeless_def)
  obtain st1 where st1: "m_push t st = Inr st1" "state_ok st1" "room st1 ps"
    using 3(4,5) by (auto simp: m_push_def room_def state_ok_def filtered_def split: option.splits)
  show ?case
  proof (cases "ts ! t = ty")
    case True
    then have "match_seq ts (Suc t) ps st1 \<noteq> Inl e" using 3 st1 h k wild_ok_tail by auto
    then show ?thesis using True st1(1) k by auto
  qed (use k in auto)
next
  case (4 ts t ps st)
  then obtain k ms where k: "t \<le> k" "embeds ts k ps ms" by (auto simp: hopeless_def)
  have len: "t < length ts" using hopeless_at_end [OF 4(3,4), of ts] 4(5,9) by (cases "t = length ts") auto
  have "match_seq ts t ps st \<noteq> Inl e" using 4 len wild_ok_tail by blast
  moreover have "match_any ts (Suc t) ps (m_rollback st1) \<noteq> Inl e" if m: "match_seq ts t ps st = Inr (False, st1)" for st1
  proof -
    have seq: "seq_result ts t ps st False st1" using match_correct(1) [OF m wild_ok_tail [OF 4(3)] 4(5,6)] .
    note R = rollback_ok [OF 4(6,7) seq]
    have "\<not> embeds ts t ps ms" using seq by (simp add: seq_result_def)
    then have h: "\<not> hopeless ts (Suc t) ps" using k by (auto simp: hopeless_def) (metis Suc_leI le_neq_implies_less)
    have "room (m_rollback st1) ps"
      using R(4) 4(8,9) seq by (auto simp: room_def seq_result_def frame_ok_def m_rollback_def split: option.splits)
    then show ?thesis using 4(2) [OF len m] 4(3,4) len R(1,2) h by simp
  qed
  ultimately show ?case using len by (subst match_any.simps) (auto split: sum.splits)
qed auto

lemma match_types_correct:
  assumes "wild_ok p" "p \<noteq> []" "a = None \<or> a = Some (replicate (length (filtered p)) 0)"
  shows "(pattern_matches p ts \<longrightarrow> (\<exists>a'. match_types p ts a = Inr (True, a') \<and> (a = None \<longleftrightarrow> a' = None)
      \<and> (\<forall>ms. a' = Some ms \<longrightarrow> embeds ts 0 p ms \<and> map (\<lambda>i. Typ (ts ! i)) ms = filtered p)))
    \<and> (\<not> pattern_matches p ts \<longrightarrow> (\<forall>a'. match_types p ts a \<noteq> Inr (True, a')))"
proof (cases "filtered p = []")
  case True
  then have "p = [Anything]" using assms(1,2) by (cases p rule: wild_ok.cases) (auto simp: filtered_def split: if_splits)
  then have "pattern_matches p ts" by (auto simp: pattern_matches_def)
  then show ?thesis using True assms(3) \<open>p = [Anything]\<close> by (auto simp: match_types_def filtered_def)
next
  case False
  let ?st = "\<lparr>outp = a, mpos = 0, fallback_pos = 0\<rparr>"
  have st: "state_ok ?st" "room ?st p" using assms(3) by (auto simp: state_ok_def room_def)
  have found: "pattern_matches p ts = f \<and> (f \<longrightarrow> (a = None \<longleftrightarrow> outp st' = None) \<and> (\<forall>ms. outp st' = Some ms \<longrightarrow> embeds ts 0 p ms))"
    if m: "match_seq ts 0 p ?st = Inr (f, st')" for f st'
  proof -
    have r: "seq_result ts 0 p ?st f st'" by (rule match_correct(1) [OF m assms(1) _ st(1)]) simp
    have "embeds ts 0 p ms" if f: "f" and ms: "outp st' = Some ms" for ms
    proof -
      obtain ks where ks: "embeds ts 0 p ks" "mpos st' \<le> length ms" "ks = take (mpos st') ms"
        using r f ms by (auto simp: seq_result_def written_def)
      have "length ms = length (filtered p)" using r ms assms(3) by (auto simp: seq_result_def frame_ok_def)
      moreover have "length ks = length (filtered p)" using embeds_length [OF ks(1)] .
      ultimately show ?thesis using ks by simp
    qed
    then show ?thesis using r by (auto simp: seq_result_def pattern_matches_def frame_ok_def split: if_splits option.splits)
  qed
  have "length (filtered p) \<le> length ts" "\<not> hopeless ts 0 p" if "pattern_matches p ts"
    using that embeds_bound [of ts 0 p] embeds_length [of ts 0 p] by (fastforce simp: pattern_matches_def hopeless_def)+
  then have "pattern_matches p ts \<Longrightarrow> length (filtered p) \<le> length ts \<and> (\<exists>st'. match_seq ts 0 p ?st = Inr (True, st'))"
    using match_no_error(1) [OF assms(1) _ st] found by (cases "match_seq ts 0 p ?st") auto
  then show ?thesis using False found embeds_types by (fastforce simp: match_types_def split: sum.splits if_splits)
qed

lemma matcher_correct_array:
  assumes "wild_ok p" "p \<noteq> []"
  shows "(\<exists>ms. match_out p ts = Inr (True, Some ms) \<and> embeds ts 0 p ms)
    \<or> (\<not> pattern_matches p ts \<and> (\<forall>a. match_out p ts \<noteq> Inr (True, a)))"
  using match_types_correct [OF assms, of "Some (replicate (length (filtered p)) 0)" ts] by fastforce

text \<open>
  C32. The matcher decides whether a pattern matches the types of a message: if it does, the
  matcher says so, and the array holds the positions of the elements for the types of the pattern, in order;
  if it does not, the matcher never claims it does. Patterns with two wildcards in a row and the empty
  pattern are excepted.
\<close>

theorem matcher_correct:
  assumes "wild_ok p" "p \<noteq> []" "a = None \<or> a = Some (replicate (length (filtered p)) 0)"
  shows "(pattern_matches p ts \<longrightarrow> (\<exists>a'. match_types p ts a = Inr (True, a') \<and> (a = None \<longleftrightarrow> a' = None)
      \<and> (\<forall>ms. a' = Some ms \<longrightarrow> embeds ts 0 p ms \<and> map (\<lambda>i. Typ (ts ! i)) ms = filtered p)))
    \<and> (\<not> pattern_matches p ts \<longrightarrow> (\<forall>a'. match_types p ts a \<noteq> Inr (True, a')))"
  using match_types_correct [OF assms] .

section \<open>Patterns that go wrong\<close>

lemma past_end_any:
  assumes "outp st = None" "t \<le> length ts" "\<forall>k\<ge>t. \<forall>ms. \<not> embeds (ts @ [a]) k [Typ a, Typ b] ms"
  shows "match_any (ts @ [a]) t [Typ a, Typ b] st = Inl Past_end"
  using assms(2,3)
proof (induction "length ts - t" arbitrary: t)
  case 0
  then show ?case using assms(1) by (subst match_any.simps) (simp add: m_push_def nth_append)
next
  case (Suc n)
  have "match_seq (ts @ [a]) t [Typ a, Typ b] st = Inr (False, st)"
  proof -
    have "\<not> embeds (ts @ [a]) t [Typ a, Typ b] [t, Suc t]" using Suc(4) by blast
    then show ?thesis using assms(1) Suc(2) by (auto simp: m_push_def)
  qed
  moreover have "match_any (ts @ [a]) (Suc t) [Typ a, Typ b] st = Inl Past_end"
    by (rule Suc(1)) (use Suc(2,4) in \<open>auto simp del: match_any.simps\<close>)
  moreover have "t < length (ts @ [a])" using Suc(2) by simp
  ultimately show ?case using assms(1) by (subst match_any.simps) (simp add: m_rollback_def del: match_any.simps)
qed

text \<open>
  A pattern with two types after a wildcard makes the matcher read past the end of a message whose last
  element has the first of these types, whenever the message does not match. With two wildcards and a
  dynamically typed message it can also write past the end of the array of results.
\<close>

theorem matcher_leaves_message:
  assumes "\<not> pattern_matches [Anything, Typ a, Typ b] (ts @ [a])" "ts \<noteq> []" "c \<noteq> d"
  shows "match_types [Anything, Typ a, Typ b] (ts @ [a]) None = Inl Past_end
    \<and> match_types [Anything, Typ c, Anything, Typ d] [c, c, c] (Some [0, 0]) = Inl Out_overflow"
proof
  have "\<forall>k\<ge>0. \<forall>ms. \<not> embeds (ts @ [a]) k [Typ a, Typ b] ms"
    using assms(1) by (auto simp: pattern_matches_def less_imp_le)
  then have "match_any (ts @ [a]) 0 [Typ a, Typ b] \<lparr>outp = None, mpos = 0, fallback_pos = 0\<rparr> = Inl Past_end"
    by (intro past_end_any) auto
  then show "match_types [Anything, Typ a, Typ b] (ts @ [a]) None = Inl Past_end"
    using assms(2) by (simp add: match_types_def filtered_def m_commit_def Suc_le_eq del: match_any.simps)
  show "match_types [Anything, Typ c, Anything, Typ d] [c, c, c] (Some [0, 0]) = Inl Out_overflow"
    using assms(3) by (simp add: match_types_def filtered_def m_commit_def m_push_def m_rollback_def)
qed

theorem matcher_leaves_message_witness:
  "match_types [Anything, Typ 3, Typ (2 :: nat)] [2, 3] None = Inl Past_end"
proof -
  have "\<not> pattern_matches [Anything, Typ 3, Typ (2 :: nat)] ([2] @ [3])"
    by (auto simp: pattern_matches_def nth_Cons' split: if_splits)
  from matcher_leaves_message [OF this, of "0 :: nat" 2] show ?thesis by simp
qed

text \<open>The empty pattern matches every message, and two wildcards in a row do not match nothing.\<close>

lemma empty_pattern: "match_types [] ts a = Inr (True, a)"
  by (simp add: match_types_def filtered_def)

lemma double_wildcard: "pattern_matches [Typ a, Anything, Anything] [a]"
  "match_types [Typ a, Anything, Anything] [a] None = Inr (False, None)"
  by (auto simp: pattern_matches_def match_types_def filtered_def m_push_def m_commit_def intro!: exI [of _ "[0]"])


definition lead :: "'t pat list \<Rightarrow> nat" where
  "lead ps = length (takeWhile (\<lambda>x. x \<noteq> Anything) ps)"

lemma lead_simps [simp]: "lead [] = 0" "lead (Anything # ps) = 0" "lead (Typ a # ps) = Suc (lead ps)"
  by (simp_all add: lead_def)






section \<open>Match expressions\<close>

definition values_at :: "('t, 'v) message \<Rightarrow> nat list \<Rightarrow> 'v list" where
  "values_at msg ms = map (\<lambda>i. snd (elems msg ! i)) ms"

definition accepts :: "('t, 'v, 'r) match_case \<Rightarrow> ('t, 'v) message \<Rightarrow> 'r \<Rightarrow> bool" where
  "accepts c msg r \<longleftrightarrow> (\<exists>ms. embeds (map fst (elems msg)) 0 (case_pattern c) ms \<and> case_fun c (values_at msg ms) = Some r)"

definition rejects :: "('t, 'v, 'r) match_case \<Rightarrow> ('t, 'v) message \<Rightarrow> bool" where
  "rejects c msg \<longleftrightarrow> \<not> pattern_matches (case_pattern c) (map fst (elems msg))
     \<or> (\<exists>ms. embeds (map fst (elems msg)) 0 (case_pattern c) ms \<and> case_fun c (values_at msg ms) = None)"

text \<open>The result of the first case that accepts the message, if any does.\<close>

definition first_result :: "('t, 'v, 'r) match_case list \<Rightarrow> ('t, 'v) message \<Rightarrow> 'r option \<Rightarrow> bool" where
  "first_result cs msg r \<longleftrightarrow> (case r of
      None \<Rightarrow> (\<forall>c\<in>set cs. rejects c msg)
    | Some v \<Rightarrow> (\<exists>i<length cs. accepts (cs ! i) msg v \<and> (\<forall>j<i. rejects (cs ! j) msg)))"

definition case_ok :: "('t, 'v, 'r) match_case \<Rightarrow> bool" where
  "case_ok c \<longleftrightarrow> wild_ok (case_pattern c) \<and> case_pattern c \<noteq> []"

lemma first_result_skip: "rejects c msg \<Longrightarrow> first_result cs msg r \<Longrightarrow> first_result (c # cs) msg r"
  by (cases r) (auto simp: first_result_def Ex_less_Suc2 All_less_Suc2)

lemma first_result_hit: "accepts c msg v \<Longrightarrow> first_result (c # cs) msg (Some v)"
  by (auto simp: first_result_def)

lemma match_with_array:
  assumes "case_ok c"
  shows "(\<exists>ms. match_out (case_pattern c) ts = Inr (True, Some ms) \<and> embeds ts 0 (case_pattern c) ms)
    \<or> (\<not> pattern_matches (case_pattern c) ts \<and> (\<forall>a. match_out (case_pattern c) ts \<noteq> Inr (True, a)))"
  using assms matcher_correct_array [of "case_pattern c" ts] by (auto simp: case_ok_def)

lemma unroll_first:
  assumes "\<forall>c\<in>set cs. case_ok c" "n + length cs \<le> 31"
    "\<forall>i<length cs. pattern_matches (case_pattern (cs ! i)) (map fst (elems msg)) \<longrightarrow> bit bits (n + i)"
    "\<forall>i<length cs. bit bits (n + i) \<longrightarrow> pattern_matches (case_pattern (cs ! i)) (map fst (elems msg))
       \<or> (\<exists>r. match_out (case_pattern (cs ! i)) (map fst (elems msg)) = Inr r)"
  shows "\<exists>r. unroll_expr n cs bits msg = Inr r \<and> first_result cs msg r"
  using assms
proof (induction cs arbitrary: n)
  case (Cons c cs)
  let ?ts = "map fst (elems msg)"
  have "n < 31" using Cons.prems(2) by simp
  then have b: "case_bit n = Inr (push_bit n 1)" by (simp add: case_bit_def)
  have bit: "(bits AND push_bit n 1 = 0) = (\<not> bit bits n)" by (simp add: bit_iff_and_push_bit_not_eq_0)
  have "\<exists>r. unroll_expr (Suc n) cs bits msg = Inr r \<and> first_result cs msg r"
    by (rule Cons.IH) (use Cons.prems in \<open>simp_all add: All_less_Suc2\<close>)
  then obtain r where r: "unroll_expr (Suc n) cs bits msg = Inr r" "first_result cs msg r" by blast
  show ?case
  proof (cases "bit bits n")
    case False
    then have "rejects c msg" using Cons.prems(3) by (auto simp: rejects_def)
    then show ?thesis using False b bit r first_result_skip by auto
  next
    case True
    have c: "case_ok c" using Cons.prems(1) by simp
    from match_with_array [OF c, of ?ts] show ?thesis
    proof
      assume "\<exists>ms. match_out (case_pattern c) ?ts = Inr (True, Some ms) \<and> embeds ?ts 0 (case_pattern c) ms"
      then obtain ms where ms: "match_out (case_pattern c) ?ts = Inr (True, Some ms)" "embeds ?ts 0 (case_pattern c) ms"
        by blast
      show ?thesis
      proof (cases "case_fun c (values_at msg ms)")
        case None
        then have "rejects c msg" using ms(2) by (auto simp: rejects_def)
        then show ?thesis using True b bit r ms None first_result_skip by (auto simp: values_at_def)
      next
        case (Some v)
        then have "accepts c msg v" using ms(2) by (auto simp: accepts_def)
        then show ?thesis using True b bit ms Some first_result_hit by (auto simp: values_at_def)
      qed
    next
      assume no: "\<not> pattern_matches (case_pattern c) ?ts \<and> (\<forall>a. match_out (case_pattern c) ?ts \<noteq> Inr (True, a))"
      then obtain a where "match_out (case_pattern c) ?ts = Inr (False, a)"
        using Cons.prems(4) True by (auto simp: All_less_Suc2)
      moreover have "rejects c msg" using no by (simp add: rejects_def)
      ultimately show ?thesis using True b bit r first_result_skip by auto
    qed
  qed
qed (auto simp: first_result_def)

subsection \<open>The cache\<close>

text \<open>Every entry of the cache holds the bitmask of its types.\<close>

definition mx_ok :: "('t, 'v, 'r) match_expr \<Rightarrow> bool" where
  "mx_ok m \<longleftrightarrow> length (m_cache m) = cache_size \<and> m_cache_begin m < cache_size \<and> m_cache_end m < cache_size
     \<and> (\<forall>i<cache_size. \<forall>tok. fst (m_cache m ! i) = Some tok \<longrightarrow> calc_bitmask 0 (m_cases m) tok = Inr (snd (m_cache m ! i)))"


lemma advance_lt [simp]: "advance i < cache_size"
  by (simp add: advance_def cache_size_def)


text \<open>The bound on the walk around the ring is large enough: a longer walk finds nothing else.\<close>

definition ring_distance :: "nat \<Rightarrow> nat \<Rightarrow> nat" where
  "ring_distance i e = (e + cache_size - i) mod cache_size"

lemma ring_distance_advance: "i < cache_size \<Longrightarrow> e < cache_size \<Longrightarrow> i \<noteq> e \<Longrightarrow> ring_distance i e = Suc (ring_distance (advance i) e)"
  by (cases "i < e"; cases "Suc i = cache_size")
    (auto simp: ring_distance_def advance_def cache_size_def mod_if split: if_splits)

lemma find_token_bound:
  "i < cache_size \<Longrightarrow> m_cache_end m < cache_size \<Longrightarrow> ring_distance i (m_cache_end m) \<le> k \<Longrightarrow> find_token (k + n) tok i m = find_token k tok i m"
proof (induction k arbitrary: i)
  case 0
  then have "i = m_cache_end m" using ring_distance_advance [of i "m_cache_end m"] by (cases "i = m_cache_end m") auto
  then show ?case by (cases n) auto
next
  case (Suc k)
  then show ?case using ring_distance_advance [of i "m_cache_end m"] by (cases "i = m_cache_end m") auto
qed




text \<open>A dynamically typed message bypasses the cache; then the matcher may leave its array (see above).\<close>

lemma match_expr_dynamic:
  assumes "mx_ok m" "dynamically_typed msg" "\<forall>c\<in>set (m_cases m). case_ok c" "length (m_cases m) \<le> 31"
    "\<forall>c\<in>set (m_cases m). \<exists>r. match_out (case_pattern c) (map fst (elems msg)) = Inr r"
  shows "\<exists>r. mx_apply msg m = Inr (r, m) \<and> first_result (m_cases m) msg r"
proof -
  have "bit (- 1 :: u64) i" if "i < 31" for i using that by (simp add: bit_simps)
  then have "\<exists>r. unroll_expr 0 (m_cases m) (- 1) msg = Inr r \<and> first_result (m_cases m) msg r"
    by (intro unroll_first) (use assms in auto)
  then show ?thesis using assms(2) by (auto simp: mx_apply_def get_cache_entry_def)
qed

text \<open>With 32 cases the bit of the last one is not defined.\<close>

lemma too_many_cases: "calc_bitmask 0 (replicate 32 \<lparr>case_pattern = [Anything], case_fun = f\<rparr>) ts = Inl Undefined_shift"
  by (simp add: eval_nat_numeral match_types_def filtered_def case_bit_def)

theorem matcher_correct_witness:
  "match_types [Anything, Typ 3, Typ (4 :: nat)] [3, 3, 4] (Some [0, 0]) = Inr (True, Some [Suc 0, 2])
    \<and> embeds [3, 3, 4] 0 [Anything, Typ 3, Typ (4 :: nat)] [Suc 0, 2]"
proof -
  have m: "match_types [Anything, Typ 3, Typ (4 :: nat)] [3, 3, 4] (Some [0, 0]) = Inr (True, Some [Suc 0, 2])"
    by (simp add: match_types_def filtered_def m_commit_def m_push_def m_rollback_def)
  have "wild_ok [Anything, Typ 3, Typ (4 :: nat)]" "Some [0, 0] = Some (replicate (length (filtered [Anything, Typ 3, Typ (4 :: nat)])) 0)"
    by (simp_all add: filtered_def)
  from matcher_correct [OF this(1) _ disjI2 [OF this(2)], of "[3, 3, 4]"] m show ?thesis by auto
qed




section \<open>Behaviors\<close>

text \<open>The result of a handler and the message it becomes (\<open>optional_message_visitor\<close>).\<close>

datatype 'u handler_result = Res_none | Res_skip | Res_unit | Res_opt_skip bool | Res_values 'u | Res_message_id u64

datatype 'u reply_msg = Empty_reply | Values_reply 'u | Message_id_reply u64

fun optional_message_visitor :: "'u handler_result \<Rightarrow> 'u reply_msg option" where
  "optional_message_visitor Res_none = None"
| "optional_message_visitor Res_skip = None"
| "optional_message_visitor Res_unit = Some Empty_reply"
| "optional_message_visitor (Res_opt_skip skip) = (if skip then None else Some Empty_reply)"
| "optional_message_visitor (Res_values v) = Some (Values_reply v)"
| "optional_message_visitor (Res_message_id i) = Some (Message_id_reply i)"

text \<open>The implementations of \<open>behavior_impl\<close>: a match expression with a timeout, two of them in turn, or one
  with a continuation. A timeout is its duration with the number of its handler.\<close>

datatype ('m, 'u) bimpl =
    Default_impl "'m \<Rightarrow> 'u handler_result" "nat \<times> nat"
  | Combinator "('m, 'u) bimpl" "('m, 'u) bimpl"
  | Continuation_decorator "'u reply_msg \<Rightarrow> 'u reply_msg option" "('m, 'u) bimpl"

fun bimpl_invoke :: "('m, 'u) bimpl \<Rightarrow> 'm \<Rightarrow> 'u reply_msg option" where
  "bimpl_invoke (Default_impl e t) msg = optional_message_visitor (e msg)"
| "bimpl_invoke (Combinator a b) msg = (case bimpl_invoke a msg of None \<Rightarrow> bimpl_invoke b msg | Some r \<Rightarrow> Some r)"
| "bimpl_invoke (Continuation_decorator f d) msg = (case bimpl_invoke d msg of None \<Rightarrow> None | Some r \<Rightarrow> f r)"

text \<open>The timeout is fixed when the object is made; its handler is looked up when it fires.\<close>

fun bimpl_timeout :: "('m, 'u) bimpl \<Rightarrow> nat" where
  "bimpl_timeout (Default_impl e t) = fst t"
| "bimpl_timeout (Combinator a b) = bimpl_timeout b"
| "bimpl_timeout (Continuation_decorator f d) = bimpl_timeout d"

fun bimpl_handle_timeout :: "('m, 'u) bimpl \<Rightarrow> nat" where
  "bimpl_handle_timeout (Default_impl e t) = snd t"
| "bimpl_handle_timeout (Combinator a b) = bimpl_handle_timeout b"
| "bimpl_handle_timeout (Continuation_decorator f d) = bimpl_handle_timeout d"

fun bimpl_copy :: "nat \<times> nat \<Rightarrow> ('m, 'u) bimpl \<Rightarrow> ('m, 'u) bimpl" where
  "bimpl_copy tdef (Default_impl e t) = Default_impl e tdef"
| "bimpl_copy tdef (Combinator a b) = Combinator a (bimpl_copy tdef b)"
| "bimpl_copy tdef (Continuation_decorator f d) = Continuation_decorator f (bimpl_copy tdef d)"

definition bimpl_or_else :: "('m, 'u) bimpl \<Rightarrow> ('m, 'u) bimpl \<Rightarrow> ('m, 'u) bimpl" where
  "bimpl_or_else a b = Combinator a b"

definition add_continuation :: "('u reply_msg \<Rightarrow> 'u reply_msg option) \<Rightarrow> ('m, 'u) bimpl \<Rightarrow> ('m, 'u) bimpl" where
  "add_continuation f b = Continuation_decorator f b"

text \<open>\<open>dummy_match_expr\<close>, the handler of a behavior that is only a timeout.\<close>

definition dummy_match_expr :: "'m \<Rightarrow> 'u handler_result" where
  "dummy_match_expr msg = Res_none"

definition new_default_behavior :: "nat \<Rightarrow> nat \<Rightarrow> ('m, 'u) bimpl" where
  "new_default_behavior d f = Default_impl dummy_match_expr (d, f)"

text \<open>\<open>match_expr_concat\<close> of handlers and a timeout as last argument. Two match expressions in a row become one
  with the cases of both, which tries them in the same order.\<close>

fun match_expr_concat :: "('m, 'u) bimpl \<Rightarrow> ('m, 'u) bimpl list \<Rightarrow> (nat \<times> nat) option \<Rightarrow> ('m, 'u) bimpl" where
  "match_expr_concat a [] tdef = (case tdef of None \<Rightarrow> a | Some t \<Rightarrow> bimpl_copy t a)"
| "match_expr_concat a (b # bs) tdef = match_expr_concat (bimpl_or_else a b) bs tdef"

lemma bimpl_copy_ok [simp]:
  "bimpl_invoke (bimpl_copy tdef b) msg = bimpl_invoke b msg" "bimpl_timeout (bimpl_copy tdef b) = fst tdef"
  "bimpl_handle_timeout (bimpl_copy tdef b) = snd tdef"
  by (induction b) (auto split: option.splits)

fun first_some :: "'a option list \<Rightarrow> 'a option" where
  "first_some [] = None" | "first_some (None # xs) = first_some xs" | "first_some (Some x # xs) = Some x"

lemma first_some_Cons: "first_some (x # xs) = (case x of None \<Rightarrow> first_some xs | Some r \<Rightarrow> Some r)"
  by (cases x) auto

lemma concat_invoke:
  "bimpl_invoke (match_expr_concat a bs tdef) msg = first_some (map (\<lambda>b. bimpl_invoke b msg) (a # bs))"
  by (induction a bs tdef rule: match_expr_concat.induct) (auto simp: bimpl_or_else_def first_some_Cons split: option.splits)

lemma concat_timeout:
  "bimpl_timeout (match_expr_concat a bs tdef) = (case tdef of Some t \<Rightarrow> fst t | None \<Rightarrow> bimpl_timeout (last (a # bs)))"
  "bimpl_handle_timeout (match_expr_concat a bs tdef) = (case tdef of Some t \<Rightarrow> snd t | None \<Rightarrow> bimpl_handle_timeout (last (a # bs)))"
  by (induction a bs tdef rule: match_expr_concat.induct) (auto simp: bimpl_or_else_def split: option.splits)

lemma first_some_append: "first_some (xs @ ys) = (case first_some xs of None \<Rightarrow> first_some ys | Some r \<Rightarrow> Some r)"
  by (induction xs rule: first_some.induct) auto

text \<open>
  A behavior made of several handlers and a timeout gives a message to the handlers in their
  order until one has a result, and its timeout is the given one, or that of its last handler. The
  handlers of a behavior combined with \<open>or_else\<close> behave as if they had been written one after the other.
\<close>

theorem behavior_tries_in_order:
  "bimpl_invoke (match_expr_concat a bs tdef) msg = first_some (map (\<lambda>b. bimpl_invoke b msg) (a # bs))
   \<and> bimpl_timeout (match_expr_concat a bs tdef) = (case tdef of Some t \<Rightarrow> fst t | None \<Rightarrow> bimpl_timeout (last (a # bs)))
   \<and> bimpl_handle_timeout (match_expr_concat a bs tdef) = (case tdef of Some t \<Rightarrow> snd t | None \<Rightarrow> bimpl_handle_timeout (last (a # bs)))
   \<and> bimpl_invoke (bimpl_or_else (match_expr_concat a bs None) (match_expr_concat c cs None)) msg
       = bimpl_invoke (match_expr_concat a (bs @ c # cs) None) msg"
  unfolding bimpl_or_else_def bimpl_invoke.simps concat_invoke concat_timeout
  by (simp only: first_some_append [symmetric] map_append [symmetric] append_Cons simp_thms)

end
