(* ===== verification/Messages.thy ===== *)
theory Messages
  imports Prelude
begin

text \<open>
  Messages (src/message.cpp, caf/message.hpp), the representations of their elements
  (caf/detail/tuple_vals.hpp, src/decorated_tuple.cpp, src/message_data.cpp) and the builder for
  dynamically typed messages (src/message_builder.cpp). An element is a pair of the name of its type and a
  value. Representations are shared between messages and copied before a change.
\<close>

section \<open>Model\<close>

subsection \<open>Representations\<close>

datatype 'v message_data =
    Tuple_vals "(string \<times> 'v) list"
  | Dynamic_msg_data "(string \<times> 'v) list"
  | Decorated_tuple "'v message_data" "nat list"

fun md_size :: "'v message_data \<Rightarrow> nat" where
  "md_size (Tuple_vals xs) = length xs"
| "md_size (Dynamic_msg_data xs) = length xs"
| "md_size (Decorated_tuple d mapping) = length mapping"

text \<open>\<open>at\<close> with \<open>type_at\<close>; \<open>None\<close>: the position is out of range.\<close>

fun md_at :: "'v message_data \<Rightarrow> nat \<Rightarrow> (string \<times> 'v) option" where
  "md_at (Tuple_vals xs) pos = (if pos < length xs then Some (xs ! pos) else None)"
| "md_at (Dynamic_msg_data xs) pos = (if pos < length xs then Some (xs ! pos) else None)"
| "md_at (Decorated_tuple d mapping) pos = (if pos < length mapping then md_at d (mapping ! pos) else None)"

fun md_dynamically_typed :: "'v message_data \<Rightarrow> bool" where
  "md_dynamically_typed (Tuple_vals xs) = False" | "md_dynamically_typed _ = True"

definition md_equals :: "'v message_data \<Rightarrow> 'v message_data \<Rightarrow> bool" where
  "md_equals a b \<longleftrightarrow> md_size a = md_size b \<and> (\<forall>i\<in>set [0..<md_size a]. md_at a i = md_at b i)"

text \<open>The decorated tuple with an offset.\<close>

definition decorated_offset :: "'v message_data \<Rightarrow> nat \<Rightarrow> 'v message_data" where
  "decorated_offset d offset = Decorated_tuple d (if offset < md_size d then [offset..<md_size d] else [])"

text \<open>\<open>get_tuple_type_names\<close>.\<close>

definition get_tuple_type_names :: "'v message_data \<Rightarrow> string" where
  "get_tuple_type_names d = ''@<>'' @ concat (map (\<lambda>i. ''+'' @ (case md_at d i of Some (ty, _) \<Rightarrow> ty | None \<Rightarrow> [])) [0..<md_size d])"

text \<open>
  \<open>tuple_type_names\<close>: the name of a decorated tuple is a static variable of the function, initialised by the
  first call for any object; that of \<open>tuple_vals\<close> is one per list of types; the third representation has none.
\<close>

definition tuple_type_names :: "string option \<Rightarrow> 'v message_data \<Rightarrow> string option \<times> string option" where
  "tuple_type_names static_name d = (case d of
      Tuple_vals xs \<Rightarrow> (Some (get_tuple_type_names d), static_name)
    | Dynamic_msg_data xs \<Rightarrow> (None, static_name)
    | Decorated_tuple _ _ \<Rightarrow> (let r = (case static_name of Some n \<Rightarrow> n | None \<Rightarrow> get_tuple_type_names d) in (Some r, Some r)))"

text \<open>The name under which a message is serialized (\<open>serialize_impl\<close> of src/uniform_type_info_map.cpp).\<close>

definition serialized_name :: "string option \<Rightarrow> 'v message_data option \<Rightarrow> string \<times> string option" where
  "serialized_name static_name m = (case m of
      None \<Rightarrow> (''@<>'', static_name)
    | Some d \<Rightarrow>
        if md_size d = 0 then (''@<>'', static_name)
        else (case tuple_type_names static_name d of
                (Some n, s) \<Rightarrow> (n, s) | (None, s) \<Rightarrow> (get_tuple_type_names d, s)))"

subsection \<open>Messages\<close>

type_synonym 'v msg = "'v message_data option"

definition msg_size :: "'v msg \<Rightarrow> nat" where
  "msg_size m = (case m of None \<Rightarrow> 0 | Some d \<Rightarrow> md_size d)"

definition msg_drop :: "nat \<Rightarrow> 'v msg \<Rightarrow> 'v msg" where
  "msg_drop n m =
     (if n = 0 then m else if n \<ge> msg_size m then None else map_option (\<lambda>d. decorated_offset d n) m)"

definition msg_drop_right :: "nat \<Rightarrow> 'v msg \<Rightarrow> 'v msg" where
  "msg_drop_right n m =
     (if n = 0 then m else if n \<ge> msg_size m then None
      else map_option (\<lambda>d. Decorated_tuple d [0..<msg_size m - n]) m)"

definition msg_take :: "nat \<Rightarrow> 'v msg \<Rightarrow> 'v msg" where
  "msg_take n m = (if n \<ge> msg_size m then m else msg_drop_right (msg_size m - n) m)"

definition msg_take_right :: "nat \<Rightarrow> 'v msg \<Rightarrow> 'v msg" where
  "msg_take_right n m = (if n \<ge> msg_size m then m else msg_drop (msg_size m - n) m)"

text \<open>\<open>equals\<close>; \<open>None\<close>: a null pointer is followed.\<close>

definition msg_equals :: "'v msg \<Rightarrow> 'v msg \<Rightarrow> bool option" where
  "msg_equals a b = (case (a, b) of (Some x, Some y) \<Rightarrow> Some (md_equals x y) | _ \<Rightarrow> None)"

definition has_types :: "string list \<Rightarrow> 'v msg \<Rightarrow> bool" where
  "has_types ts m \<longleftrightarrow> msg_size m = length ts \<and>
     (\<forall>i\<in>set [0..<length ts]. (case Option.bind m (\<lambda>d. md_at d i) of Some (ty, _) \<Rightarrow> ty = ts ! i | None \<Rightarrow> False))"

section \<open>Messages are lists of elements\<close>

text \<open>The positions of a decorated tuple lie within the decorated one.\<close>

fun md_ok :: "'v message_data \<Rightarrow> bool" where
  "md_ok (Decorated_tuple d mapping) \<longleftrightarrow> md_ok d \<and> (\<forall>i\<in>set mapping. i < md_size d)"
| "md_ok _ \<longleftrightarrow> True"

definition content :: "'v message_data \<Rightarrow> (string \<times> 'v) list" where
  "content d = map (\<lambda>i. the (md_at d i)) [0..<md_size d]"

definition contents :: "'v msg \<Rightarrow> (string \<times> 'v) list" where
  "contents m = (case m of None \<Rightarrow> [] | Some d \<Rightarrow> content d)"

definition msg_ok :: "'v msg \<Rightarrow> bool" where
  "msg_ok m \<longleftrightarrow> (case m of None \<Rightarrow> True | Some d \<Rightarrow> md_ok d)"

lemma content_length [simp]: "length (content d) = md_size d"
  by (simp add: content_def)

lemma md_at_range: "md_ok d \<Longrightarrow> md_at d i = None \<longleftrightarrow> md_size d \<le> i"
proof (induction d arbitrary: i)
  case (Decorated_tuple d mapping)
  show ?case
  proof (cases "i < length mapping")
    case True
    then have "mapping ! i < md_size d" using Decorated_tuple.prems by simp
    then show ?thesis using True Decorated_tuple.IH [of "mapping ! i"] Decorated_tuple.prems by auto
  qed simp
qed simp_all

lemma md_at_content: "md_ok d \<Longrightarrow> md_at d i = (if i < md_size d then Some (content d ! i) else None)"
  using md_at_range [of d i] by (auto simp: content_def)

lemma content_leaf [simp]: "content (Tuple_vals xs) = xs" "content (Dynamic_msg_data xs) = xs"
  using nth_equalityI [of "content (Tuple_vals xs)" xs] nth_equalityI [of "content (Dynamic_msg_data xs)" xs] by (simp_all add: content_def)

lemma content_decorated:
  assumes "md_ok (Decorated_tuple d mapping)"
  shows "content (Decorated_tuple d mapping) = map (\<lambda>i. content d ! i) mapping"
proof -
  have "the (md_at (Decorated_tuple d mapping) i) = content d ! (mapping ! i)" if "i < length mapping" for i
    using assms that md_at_content [of d "mapping ! i"] by simp
  then have "content (Decorated_tuple d mapping) = map (\<lambda>i. content d ! (mapping ! i)) [0..<length mapping]" by (simp add: content_def)
  also have "\<dots> = map (\<lambda>i. content d ! i) (map (\<lambda>i. mapping ! i) [0..<length mapping])" by simp
  finally show ?thesis by (simp only: map_nth)
qed

lemma msg_size_contents: "msg_size m = length (contents m)"
  by (auto simp: msg_size_def contents_def split: option.splits)

lemma map_nth_upt: "n \<le> length xs \<Longrightarrow> map (\<lambda>i. xs ! i) [n..<length xs] = drop n xs" "n \<le> length xs \<Longrightarrow> map (\<lambda>i. xs ! i) [0..<n] = take n xs"
  by (auto intro!: nth_equalityI)

lemma msg_drop_contents: "msg_ok m \<Longrightarrow> contents (msg_drop n m) = drop n (contents m) \<and> msg_ok (msg_drop n m)"
proof (cases m)
  case (Some d)
  assume "msg_ok m"
  then have ok: "n < md_size d \<Longrightarrow> md_ok (Decorated_tuple d [n..<md_size d])" using Some by (auto simp: msg_ok_def)
  then show ?thesis
    using Some \<open>msg_ok m\<close> content_decorated [OF ok] map_nth_upt(1) [of n "content d"]
    by (auto simp: msg_drop_def msg_size_def decorated_offset_def contents_def msg_ok_def)
qed (auto simp: msg_drop_def contents_def msg_size_def msg_ok_def)

lemma msg_drop_right_contents:
  "msg_ok m \<Longrightarrow> contents (msg_drop_right n m) = take (length (contents m) - n) (contents m) \<and> msg_ok (msg_drop_right n m)"
proof (cases m)
  case (Some d)
  assume "msg_ok m"
  then have ok: "md_ok (Decorated_tuple d [0..<md_size d - n])" using Some by (auto simp: msg_ok_def)
  then show ?thesis
    using Some \<open>msg_ok m\<close> content_decorated [OF ok] map_nth_upt(2) [of "md_size d - n" "content d"]
    by (auto simp: msg_drop_right_def msg_size_def contents_def msg_ok_def)
qed (auto simp: msg_drop_right_def contents_def msg_size_def msg_ok_def)

lemma has_types_contents:
  assumes "msg_ok m"
  shows "has_types ts m = (map fst (contents m) = ts)"
proof (cases m)
  case None
  then show ?thesis by (auto simp: has_types_def msg_size_def contents_def)
next
  case (Some d)
  have "(case md_at d i of Some (ty, _) \<Rightarrow> ty = ts ! i | None \<Rightarrow> False) = (fst (content d ! i) = ts ! i)" if "i < md_size d" for i
    using assms Some that md_at_content [of d i] by (simp add: msg_ok_def split: prod.splits)
  then have "has_types ts m = (md_size d = length ts \<and> (\<forall>i<length ts. fst (content d ! i) = ts ! i))"
    using Some by (auto simp: has_types_def msg_size_def)
  then show ?thesis using Some by (auto simp: contents_def list_eq_iff_nth_eq)
qed

text \<open>
  Taking and dropping elements at either end of a message, in any combination, is taking and dropping on the
  list of its elements, although every step only adds a layer of positions; the layers stay
  within range. Equality and the check of types depend on the elements only.
\<close>

theorem message_ops_on_elements:
  assumes "msg_ok m" "msg_ok m'"
  shows "contents (msg_drop n m) = drop n (contents m) \<and> contents (msg_drop_right n m) = take (length (contents m) - n) (contents m)
    \<and> contents (msg_take n m) = take n (contents m) \<and> contents (msg_take_right n m) = drop (length (contents m) - n) (contents m)
    \<and> msg_ok (msg_drop n m) \<and> msg_ok (msg_drop_right n m) \<and> msg_ok (msg_take n m) \<and> msg_ok (msg_take_right n m)
    \<and> (m \<noteq> None \<and> m' \<noteq> None \<longrightarrow> msg_equals m m' = Some (contents m = contents m'))
    \<and> has_types ts m = (map fst (contents m) = ts)"
proof -
  have "msg_equals m m' = Some (contents m = contents m')" if some: "m \<noteq> None" "m' \<noteq> None"
  proof -
    obtain d d' where d: "m = Some d" "m' = Some d'" using some by auto
    have "md_equals d d' = (content d = content d')"
      using assms d md_at_content [of d] md_at_content [of d'] by (auto simp: md_equals_def msg_ok_def list_eq_iff_nth_eq)
    then show ?thesis using d by (simp add: msg_equals_def contents_def)
  qed
  moreover have "has_types ts m = (map fst (contents m) = ts)"
    using has_types_contents [OF assms(1)] .
  ultimately show ?thesis
    using msg_drop_contents [OF assms(1)] msg_drop_right_contents [OF assms(1)] assms(1)
    by (auto simp: msg_take_def msg_take_right_def msg_size_contents)
qed

theorem message_ops_on_elements_witness:
  "contents (msg_drop 1 (msg_take 3 (Some (Tuple_vals [(''a'', 1), (''b'', 2), (''c'', 3), (''d'', 4 :: nat)])))) = [(''b'', 2), (''c'', 3)]"
proof -
  let ?m = "Some (Tuple_vals [(''a'', 1), (''b'', 2), (''c'', 3), (''d'', 4 :: nat)])"
  have "msg_ok ?m" by (simp add: msg_ok_def)
  note a = message_ops_on_elements [OF this this, of _ "[]"]
  have "msg_ok (msg_take 3 ?m)" using a by blast
  note b = message_ops_on_elements [OF this this, of 1 "[]"]
  have "contents (msg_drop 1 (msg_take 3 ?m)) = drop 1 (take 3 (contents ?m))" using a b by metis
  then show ?thesis by (simp add: contents_def)
qed

text \<open>
  The names of the types of a decorated tuple are those of the first decorated tuple that was ever asked:
  a dropped or taken message that has other types is serialized under the wrong name.
\<close>

theorem decorated_names_stale:
  assumes "tuple_type_names None (Decorated_tuple d ms) = (Some n, s)" "md_size (Decorated_tuple d' ms') \<noteq> 0"
  shows "serialized_name s (Some (Decorated_tuple d' ms')) = (get_tuple_type_names (Decorated_tuple d ms), s)"
  using assms by (auto simp: tuple_type_names_def serialized_name_def Let_def)

theorem decorated_names_stale_witness:
  "fst (serialized_name (snd (tuple_type_names None (Decorated_tuple (Tuple_vals [(''a'', 1), (''b'', 2 :: nat)]) [0])))
     (Some (Decorated_tuple (Tuple_vals [(''a'', 1), (''b'', 2 :: nat)]) [1]))) = ''@<>+a''"
proof -
  let ?d = "Tuple_vals [(''a'', 1), (''b'', 2 :: nat)]"
  have "tuple_type_names None (Decorated_tuple ?d [0]) = (Some ''@<>+a'', Some ''@<>+a'')"
    by (simp add: tuple_type_names_def get_tuple_type_names_def Let_def)
  from decorated_names_stale [OF this, of ?d "[1]"] this show ?thesis by (simp add: get_tuple_type_names_def)
qed

section \<open>The message builder\<close>

text \<open>
  The representations by address, the one the builder appends to, and the messages that were built, with
  the elements they had then (an observation of the model). A message that is destroyed is removed.
\<close>

record 'v builder =
  store :: "nat \<Rightarrow> (string \<times> 'v) list"
  m_data :: nat
  built :: "(nat \<times> (string \<times> 'v) list) list"

definition unique :: "'v builder \<Rightarrow> bool" where
  "unique b \<longleftrightarrow> m_data b \<notin> fst ` set (built b)"

text \<open>\<open>data\<close>: a shared representation is copied to a new address.\<close>

definition mb_data :: "nat \<Rightarrow> 'v builder \<Rightarrow> 'v builder" where
  "mb_data fresh b = (if unique b then b else b\<lparr>store := (store b)(fresh := store b (m_data b)), m_data := fresh\<rparr>)"

definition mb_append :: "nat \<Rightarrow> string \<times> 'v \<Rightarrow> 'v builder \<Rightarrow> 'v builder" where
  "mb_append fresh what b = (let b1 = mb_data fresh b in b1\<lparr>store := (store b1)(m_data b1 := store b1 (m_data b1) @ [what])\<rparr>)"

definition mb_clear :: "nat \<Rightarrow> 'v builder \<Rightarrow> 'v builder" where
  "mb_clear fresh b = (let b1 = mb_data fresh b in b1\<lparr>store := (store b1)(m_data b1 := [])\<rparr>)"

definition to_message :: "nat \<Rightarrow> 'v builder \<Rightarrow> 'v builder" where
  "to_message fresh b = (let b1 = mb_data fresh b in b1\<lparr>built := built b1 @ [(m_data b1, store b1 (m_data b1))]\<rparr>)"

inductive builder_reach :: "'v builder \<Rightarrow> bool" where
  builder_new: "builder_reach \<lparr>store = (\<lambda>_. []), m_data = a, built = []\<rparr>"
| builder_append: "builder_reach b \<Longrightarrow> fresh \<notin> fst ` set (built b) \<Longrightarrow> builder_reach (mb_append fresh what b)"
| builder_clear: "builder_reach b \<Longrightarrow> fresh \<notin> fst ` set (built b) \<Longrightarrow> builder_reach (mb_clear fresh b)"
| builder_message: "builder_reach b \<Longrightarrow> fresh \<notin> fst ` set (built b) \<Longrightarrow> builder_reach (to_message fresh b)"
| builder_release: "builder_reach b \<Longrightarrow> set ms \<subseteq> set (built b) \<Longrightarrow> builder_reach (b\<lparr>built := ms\<rparr>)"

definition builder_inv :: "'v builder \<Rightarrow> bool" where
  "builder_inv b \<longleftrightarrow> (\<forall>(a, xs)\<in>set (built b). store b a = xs)"

lemma mb_data_inv:
  assumes "builder_inv b" "fresh \<notin> fst ` set (built b)"
  shows "builder_inv (mb_data fresh b)" "unique (mb_data fresh b)" "store (mb_data fresh b) (m_data (mb_data fresh b)) = store b (m_data b)"
    "built (mb_data fresh b) = built b"
  using assms by (auto simp: mb_data_def builder_inv_def unique_def split: if_splits) force+

lemma builder_upd_inv: "builder_inv b \<Longrightarrow> unique b \<Longrightarrow> builder_inv (b\<lparr>store := (store b)(m_data b := xs)\<rparr>)"
  by (force simp: builder_inv_def unique_def)

text \<open>
  A message that was built never changes: appending to the builder, clearing it or building further
  messages leaves the elements of every message that still exists as they were, and an append adds one
  element to what the builder holds.
\<close>

theorem built_messages_fixed:
  assumes "builder_reach b" "fresh \<notin> fst ` set (built b)"
  shows "(\<forall>(a, xs)\<in>set (built b). store b a = xs)
    \<and> store (mb_append fresh what b) (m_data (mb_append fresh what b)) = store b (m_data b) @ [what]
    \<and> fst (last (built (to_message fresh b))) = m_data (to_message fresh b) \<and> snd (last (built (to_message fresh b))) = store b (m_data b)"
proof -
  have "builder_inv b" using assms(1)
  proof (induction rule: builder_reach.induct)
    case (builder_append b fresh what)
    then show ?case using mb_data_inv [OF builder_append.IH builder_append.hyps(2)]
      by (simp add: mb_append_def Let_def builder_upd_inv)
  next
    case (builder_clear b fresh)
    then show ?case using mb_data_inv [OF builder_clear.IH builder_clear.hyps(2)]
      by (simp add: mb_clear_def Let_def builder_upd_inv)
  next
    case (builder_message b fresh)
    then show ?case using mb_data_inv [OF builder_message.IH builder_message.hyps(2)]
      by (auto simp: to_message_def Let_def builder_inv_def)
  qed (auto simp: builder_inv_def)
  then show ?thesis using mb_data_inv [OF _ assms(2)] by (auto simp: builder_inv_def mb_append_def to_message_def Let_def)
qed

theorem built_messages_fixed_witness:
  "store (mb_append 2 (''b'', 1) (to_message 2 (mb_append 2 (''a'', 0 :: nat) \<lparr>store = (\<lambda>_. []), m_data = 1, built = []\<rparr>))) 1 = [(''a'', 0)]"
proof -
  let ?b = "to_message 2 (mb_append 2 (''a'', 0 :: nat) \<lparr>store = (\<lambda>_. []), m_data = 1, built = []\<rparr>)"
  have "builder_reach (mb_append 2 (''b'', 1) ?b)"
    by (intro builder_append builder_message builder_new) (simp_all add: to_message_def mb_append_def mb_data_def unique_def Let_def)
  moreover have "(1, [(''a'', 0)]) \<in> set (built (mb_append 2 (''b'', 1) ?b))"
    by (simp add: to_message_def mb_append_def mb_data_def unique_def Let_def)
  ultimately show ?thesis using built_messages_fixed [of "mb_append 2 (''b'', 1) ?b" 5] by (auto simp: to_message_def mb_append_def mb_data_def unique_def Let_def)
qed

end
