(* ===== verification/Multiplexer.thy ===== *)
theory Multiplexer
  imports Prelude "HOL-Library.Monad_Syntax"
begin

unbundle bit_operations_syntax

text \<open>
  The event loop of the middleman (libcaf_io/src/default_multiplexer.cpp,
  caf/io/network/default_multiplexer.hpp): requests to watch sockets for reading and writing are
  collected in a sorted vector and carried out after each round of events, by the \<open>poll\<close>
  or by the \<open>epoll\<close> backend. A handler is a number, whose socket (\<open>fd()\<close>) the function \<open>sock\<close> gives; the null pointer stands for the pipe.
  The bits of the masks and the behavior of \<open>epoll_ctl\<close> belong to the operating system
  and are parameters.
\<close>

section \<open>Model\<close>

subsection \<open>Sorted vectors\<close>

text \<open>\<open>std::lower_bound\<close> on a sorted range, \<open>vector::insert\<close>.\<close>

definition lower_bound :: "('a \<Rightarrow> int) \<Rightarrow> int \<Rightarrow> 'a list \<Rightarrow> nat" where
  "lower_bound key x xs = length (takeWhile (\<lambda>e. key e < x) xs)"

definition insert_nth :: "nat \<Rightarrow> 'a \<Rightarrow> 'a list \<Rightarrow> 'a list" where
  "insert_nth i x xs = take i xs @ x # drop i xs"

subsection \<open>Requests\<close>

record masks =
  input_mask :: u32
  output_mask :: u32
  error_mask :: u32

definition masks_ok :: "masks \<Rightarrow> bool" where
  "masks_ok M \<longleftrightarrow> input_mask M \<noteq> 0 \<and> output_mask M \<noteq> 0 \<and> input_mask M AND output_mask M = 0"

datatype operation = Op_read | Op_write | Op_propagate_error

fun add_flag :: "masks \<Rightarrow> operation \<Rightarrow> u32 \<Rightarrow> u32" where
  "add_flag M Op_read bf = bf OR input_mask M"
| "add_flag M Op_write bf = bf OR output_mask M"
| "add_flag M Op_propagate_error bf = 0"

fun del_flag :: "masks \<Rightarrow> operation \<Rightarrow> u32 \<Rightarrow> u32" where
  "del_flag M Op_read bf = bf AND NOT (input_mask M)"
| "del_flag M Op_write bf = bf AND NOT (output_mask M)"
| "del_flag M Op_propagate_error bf = 0"

record event =
  ev_fd :: int
  ev_mask :: u32
  ev_ptr :: "nat option"

text \<open>The part both backends share: the pending events, the masks stored in the handlers, and the calls of
  \<open>removed_from_loop\<close>, an observation of the model.\<close>

record mpx =
  m_events :: "event list"
  eventbf :: "nat \<Rightarrow> u32"
  removed :: "(nat \<times> operation) list"

definition old_bf :: "masks \<Rightarrow> nat option \<Rightarrow> 'a mpx_scheme \<Rightarrow> u32" where
  "old_bf M ptr s = (case ptr of Some h \<Rightarrow> eventbf s h | None \<Rightarrow> input_mask M)"

definition new_event :: "masks \<Rightarrow> (operation \<Rightarrow> u32 \<Rightarrow> u32) \<Rightarrow> operation \<Rightarrow> int \<Rightarrow> nat option \<Rightarrow> 'a mpx_scheme \<Rightarrow> 'a mpx_scheme" where
  "new_event M fun op fd ptr s =
     (let es = m_events s; i = lower_bound ev_fd fd es
      in if i < length es \<and> ev_fd (es ! i) = fd
         then let bf = ev_mask (es ! i); mask = fun op bf; es1 = es[i := (es ! i)\<lparr>ev_mask := mask\<rparr>]
              in if mask = bf then s\<lparr>m_events := es1\<rparr>
                 else if mask = old_bf M ptr s then s\<lparr>m_events := erase_nth i es1\<rparr>
                 else s\<lparr>m_events := es1\<rparr>
         else let bf = fun op (old_bf M ptr s)
              in if bf = old_bf M ptr s then s
                 else s\<lparr>m_events := insert_nth i \<lparr>ev_fd = fd, ev_mask = bf, ev_ptr = ptr\<rparr> es\<rparr>)"

definition mx_add :: "masks \<Rightarrow> operation \<Rightarrow> int \<Rightarrow> nat option \<Rightarrow> 'a mpx_scheme \<Rightarrow> 'a mpx_scheme" where
  "mx_add M = new_event M (add_flag M)"

definition mx_del :: "masks \<Rightarrow> operation \<Rightarrow> int \<Rightarrow> nat option \<Rightarrow> 'a mpx_scheme \<Rightarrow> 'a mpx_scheme" where
  "mx_del M = new_event M (del_flag M)"

definition close_pipe :: "masks \<Rightarrow> int \<Rightarrow> 'a mpx_scheme \<Rightarrow> 'a mpx_scheme" where
  "close_pipe M pipe = mx_del M Op_read pipe None"

text \<open>\<open>remove_from_loop_if_needed\<close> for both operations.\<close>

definition lost_ops :: "masks \<Rightarrow> u32 \<Rightarrow> u32 \<Rightarrow> operation list" where
  "lost_ops M old new =
     (if old AND input_mask M \<noteq> 0 \<and> new AND input_mask M = 0 then [Op_read] else [])
     @ (if old AND output_mask M \<noteq> 0 \<and> new AND output_mask M = 0 then [Op_write] else [])"

subsection \<open>The backend for poll\<close>

record poll_mpx = mpx +
  m_pollset :: "(int \<times> u32) list"
  m_shadow :: "nat option list"

definition poll_init :: "masks \<Rightarrow> int \<Rightarrow> poll_mpx" where
  "poll_init M pipe = \<lparr>m_events = [], eventbf = \<lambda>_. 0, removed = [], m_pollset = [(pipe, input_mask M)], m_shadow = [None]\<rparr>"

definition poll_handle :: "masks \<Rightarrow> event \<Rightarrow> poll_mpx \<Rightarrow> poll_mpx" where
  "poll_handle M e s =
     (let i = lower_bound fst (ev_fd e) (m_pollset s);
          old_mask = (case ev_ptr e of Some h \<Rightarrow> eventbf s h | None \<Rightarrow> 0);
          s1 = (case ev_ptr e of Some h \<Rightarrow> s\<lparr>eventbf := (eventbf s)(h := ev_mask e)\<rparr> | None \<Rightarrow> s)
      in if i = length (m_pollset s)
         then (if ev_mask e \<noteq> 0
               then s1\<lparr>m_pollset := m_pollset s @ [(ev_fd e, ev_mask e)], m_shadow := m_shadow s @ [ev_ptr e]\<rparr> else s1)
         else if fst (m_pollset s ! i) = ev_fd e
         then let s2 = (if ev_mask e = 0
                        then s1\<lparr>m_pollset := erase_nth i (m_pollset s), m_shadow := erase_nth i (m_shadow s)\<rparr>
                        else s1\<lparr>m_pollset := (m_pollset s)[i := (ev_fd e, ev_mask e)]\<rparr>)
              in (case ev_ptr e of
                    Some h \<Rightarrow> s2\<lparr>removed := removed s2 @ map (Pair h) (lost_ops M old_mask (ev_mask e))\<rparr>
                  | None \<Rightarrow> s2)
         else s1\<lparr>m_pollset := insert_nth i (ev_fd e, ev_mask e) (m_pollset s), m_shadow := insert_nth i (ev_ptr e) (m_shadow s)\<rparr>)"

subsection \<open>The backend for epoll\<close>

datatype epoll_op = Epoll_ctl_add | Epoll_ctl_mod | Epoll_ctl_del

datatype epoll_error = Eexist | Enoent | Eother

text \<open>\<open>'k\<close> is the state of the kernel; a result other than an error is \<open>None\<close>.\<close>

type_synonym 'k epoll_ctl = "epoll_op \<Rightarrow> int \<Rightarrow> u32 \<Rightarrow> nat option \<Rightarrow> 'k \<Rightarrow> epoll_error option \<times> 'k"

record 'k epoll_mpx = mpx +
  m_epoll :: 'k
  m_shadow_count :: int

definition epoll_init :: "'k \<Rightarrow> 'k epoll_mpx" where
  "epoll_init k = \<lparr>m_events = [], eventbf = \<lambda>_. 0, removed = [], m_epoll = k, m_shadow_count = 1\<rparr>"

text \<open>\<open>None\<close>: the program is aborted by \<open>CAF_CRITICAL\<close>.\<close>

definition epoll_handle :: "'k epoll_ctl \<Rightarrow> masks \<Rightarrow> event \<Rightarrow> 'k epoll_mpx \<Rightarrow> 'k epoll_mpx option" where
  "epoll_handle ctl M e s =
     (if (case ev_ptr e of Some h \<Rightarrow> eventbf s h = ev_mask e | None \<Rightarrow> False) then Some s
      else let old = old_bf M (ev_ptr e) s;
               s1 = (case ev_ptr e of Some h \<Rightarrow> s\<lparr>eventbf := (eventbf s)(h := ev_mask e)\<rparr> | None \<Rightarrow> s);
               (op, delta) = (if ev_mask e = 0 then (Epoll_ctl_del, -1) else if old = 0 then (Epoll_ctl_add, 1) else (Epoll_ctl_mod, 0));
               (err, k) = ctl op (ev_fd e) (ev_mask e) (ev_ptr e) (m_epoll s);
               s2 = s1\<lparr>m_epoll := k, m_shadow_count := m_shadow_count s + delta\<rparr>
           in map_option (\<lambda>s3. case ev_ptr e of
                  Some h \<Rightarrow> s3\<lparr>removed := removed s3 @ map (Pair h) (lost_ops M old (ev_mask e))\<rparr>
                | None \<Rightarrow> s3)
                (case err of
                   None \<Rightarrow> Some s2
                 | Some Eexist \<Rightarrow> Some (s2\<lparr>m_shadow_count := m_shadow_count s2 - 1\<rparr>)
                 | Some Enoent \<Rightarrow> Some (if ev_mask e = 0 then s2\<lparr>m_shadow_count := m_shadow_count s2 + 1\<rparr> else s2)
                 | Some Eother \<Rightarrow> None))"

text \<open>What the manual says of \<open>epoll_ctl\<close>; \<open>view\<close> gives the masks of the registered sockets.\<close>

definition epoll_doc :: "'k epoll_ctl \<Rightarrow> ('k \<Rightarrow> int \<rightharpoonup> u32) \<Rightarrow> bool" where
  "epoll_doc ctl view \<longleftrightarrow> (\<forall>k fd mask ptr.
     (view k fd = None \<longrightarrow> fst (ctl Epoll_ctl_add fd mask ptr k) = None \<and> view (snd (ctl Epoll_ctl_add fd mask ptr k)) = (view k)(fd \<mapsto> mask))
     \<and> (view k fd \<noteq> None \<longrightarrow> fst (ctl Epoll_ctl_mod fd mask ptr k) = None \<and> view (snd (ctl Epoll_ctl_mod fd mask ptr k)) = (view k)(fd \<mapsto> mask))
     \<and> (view k fd \<noteq> None \<longrightarrow> fst (ctl Epoll_ctl_del fd mask ptr k) = None \<and> view (snd (ctl Epoll_ctl_del fd mask ptr k)) = (view k)(fd := None)))"

subsection \<open>The loop\<close>

text \<open>What \<open>handle_socket_event\<close> does for the mask of an event: callbacks of the handler, a callback read from the
  pipe, and requests to stop watching the socket.\<close>

datatype socket_call = Call_event operation nat | Run_dispatched | Call_del operation

definition handle_socket_event :: "masks \<Rightarrow> u32 \<Rightarrow> nat option \<Rightarrow> socket_call list" where
  "handle_socket_event M msk ptr =
     (let r = msk AND input_mask M \<noteq> 0; w = msk AND output_mask M \<noteq> 0
      in (if r then (case ptr of Some h \<Rightarrow> [Call_event Op_read h] | None \<Rightarrow> [Run_dispatched]) else [])
         @ (if w then (case ptr of Some h \<Rightarrow> [Call_event Op_write h] | None \<Rightarrow> []) else [])
         @ (if \<not> r \<and> \<not> w \<and> msk AND error_mask M \<noteq> 0
            then (case ptr of
                    Some h \<Rightarrow> [Call_event Op_propagate_error h, Call_del Op_read, Call_del Op_write]
                  | None \<Rightarrow> [Call_del Op_read])
            else []))"

text \<open>The end of a round: the pending events are carried out.\<close>

fun handle_all :: "(event \<Rightarrow> 's \<Rightarrow> 's option) \<Rightarrow> event list \<Rightarrow> 's \<Rightarrow> 's option" where
  "handle_all handle [] s = Some s"
| "handle_all handle (e # es) s = Option.bind (handle e s) (handle_all handle es)"

definition end_round :: "(event \<Rightarrow> 'a mpx_scheme \<Rightarrow> 'a mpx_scheme option) \<Rightarrow> 'a mpx_scheme \<Rightarrow> 'a mpx_scheme option" where
  "end_round handle s = map_option (\<lambda>s'. s'\<lparr>m_events := []\<rparr>) (handle_all handle (m_events s) s)"

text \<open>
  The runs of the loop: handlers ask to watch their socket or to stop that, the pipe is closed while it is
  watched, and rounds end. The argument \<open>I\<close> is what was asked for: for each handler and for the pipe the mask that results from the
  requests so far.
\<close>

inductive mx_reach :: "(event \<Rightarrow> 'a mpx_scheme \<Rightarrow> 'a mpx_scheme option) \<Rightarrow> masks \<Rightarrow> (nat \<Rightarrow> int) \<Rightarrow> int \<Rightarrow> 'a mpx_scheme
    \<Rightarrow> (nat option \<Rightarrow> u32) \<Rightarrow> 'a mpx_scheme \<Rightarrow> bool"
  for handle M sock pipe s0 where
  mx_start: "mx_reach handle M sock pipe s0 (\<lambda>p. if p = None then input_mask M else 0) s0"
| mx_request_add: "mx_reach handle M sock pipe s0 I s \<Longrightarrow> op \<noteq> Op_propagate_error \<Longrightarrow>
    mx_reach handle M sock pipe s0 (I(Some h := add_flag M op (I (Some h)))) (mx_add M op (sock h) (Some h) s)"
| mx_request_del: "mx_reach handle M sock pipe s0 I s \<Longrightarrow> op \<noteq> Op_propagate_error \<Longrightarrow>
    mx_reach handle M sock pipe s0 (I(Some h := del_flag M op (I (Some h)))) (mx_del M op (sock h) (Some h) s)"
| mx_close_pipe: "mx_reach handle M sock pipe s0 I s \<Longrightarrow> I None \<noteq> 0 \<Longrightarrow> mx_reach handle M sock pipe s0 (I(None := 0)) (close_pipe M pipe s)"
| mx_round: "mx_reach handle M sock pipe s0 I s \<Longrightarrow> end_round handle s = Some s' \<Longrightarrow> mx_reach handle M sock pipe s0 I s'"

section \<open>Sorted vectors\<close>

definition keyed :: "('a \<Rightarrow> int) \<Rightarrow> 'a list \<Rightarrow> bool" where
  "keyed key xs \<longleftrightarrow> sorted_wrt (<) (map key xs)"

lemma keyed_simps [simp]:
  "keyed key []" "keyed key (x # xs) \<longleftrightarrow> (\<forall>y\<in>set xs. key x < key y) \<and> keyed key xs"
  "keyed key (xs @ ys) \<longleftrightarrow> keyed key xs \<and> keyed key ys \<and> (\<forall>x\<in>set xs. \<forall>y\<in>set ys. key x < key y)"
  by (auto simp: keyed_def sorted_wrt_append)

lemma keyed_inj: "keyed key xs \<Longrightarrow> x \<in> set xs \<Longrightarrow> y \<in> set xs \<Longrightarrow> key x = key y \<Longrightarrow> x = y"
  by (induction xs) force+

text \<open>A sorted vector splits at \<open>lower_bound\<close>.\<close>

lemma lower_bound_split:
  assumes "keyed key xs"
  obtains ys zs where "xs = ys @ zs" "lower_bound key k xs = length ys" "\<forall>y\<in>set ys. key y < k" "\<forall>z\<in>set zs. k \<le> key z" "keyed key ys" "keyed key zs"
proof -
  have "\<forall>z\<in>set (dropWhile (\<lambda>e. key e < k) xs). k \<le> key z" using assms
    by (induction xs) (auto simp: not_less intro: order_trans less_imp_le)
  moreover have "\<forall>y\<in>set (takeWhile (\<lambda>e. key e < k) xs). key y < k" by (auto dest: set_takeWhileD)
  moreover have "xs = takeWhile (\<lambda>e. key e < k) xs @ dropWhile (\<lambda>e. key e < k) xs" by simp
  ultimately show thesis
    using that [of "takeWhile (\<lambda>e. key e < k) xs" "dropWhile (\<lambda>e. key e < k) xs"] assms keyed_simps(3)
    by (metis lower_bound_def)
qed

text \<open>The three changes of a sorted vector, as changes of its set.\<close>

lemma keyed_hit:
  assumes "keyed key xs" "i = lower_bound key k xs"
  shows "(i < length xs \<and> key (xs ! i) = k) \<longleftrightarrow> (\<exists>x\<in>set xs. key x = k)"
    "(\<exists>x\<in>set xs. key x = k) \<Longrightarrow> x \<in> set xs \<Longrightarrow> key x = k \<Longrightarrow> xs ! i = x"
proof -
  obtain ys zs where s: "xs = ys @ zs" "i = length ys" "\<forall>y\<in>set ys. key y < k" "\<forall>z\<in>set zs. k \<le> key z" "keyed key zs"
    using lower_bound_split [OF assms(1), of k] assms(2) by metis
  show "(i < length xs \<and> key (xs ! i) = k) \<longleftrightarrow> (\<exists>x\<in>set xs. key x = k)"
    using s by (cases zs) force+
  show "xs ! i = x" if "x \<in> set xs" "key x = k"
    using s that by (cases zs) force+
qed

lemma keyed_update:
  assumes "keyed key xs" "i = lower_bound key k xs" "x \<in> set xs" "key x = k" "key x' = k"
  shows "keyed key (xs[i := x'])" "set (xs[i := x']) = insert x' (set xs - {x})"
proof -
  obtain ys zs where s: "xs = ys @ zs" "i = length ys" "\<forall>y\<in>set ys. key y < k" "\<forall>z\<in>set zs. k \<le> key z" "keyed key zs" "keyed key ys"
    using lower_bound_split [OF assms(1), of k] assms(2) by metis
  then obtain us where us: "zs = x # us" using assms(3,4) by (cases zs) force+
  show "keyed key (xs[i := x'])" "set (xs[i := x']) = insert x' (set xs - {x})"
    using s us assms(4,5) by (auto simp: list_update_append) force+
qed

lemma keyed_erase:
  assumes "keyed key xs" "i = lower_bound key k xs" "x \<in> set xs" "key x = k"
  shows "keyed key (erase_nth i xs)" "set (erase_nth i xs) = set xs - {x}"
proof -
  obtain ys zs where s: "xs = ys @ zs" "i = length ys" "\<forall>y\<in>set ys. key y < k" "\<forall>z\<in>set zs. k \<le> key z" "keyed key zs" "keyed key ys"
    using lower_bound_split [OF assms(1), of k] assms(2) by metis
  then obtain us where us: "zs = x # us" using assms(3,4) by (cases zs) force+
  show "keyed key (erase_nth i xs)" "set (erase_nth i xs) = set xs - {x}"
    using s us assms(4) by (auto simp: erase_nth_def) force+
qed

lemma erase_update: "erase_nth i (xs[i := y]) = erase_nth i xs"
  by (simp add: erase_nth_def)

lemma keyed_insert:
  assumes "keyed key xs" "i = lower_bound key k xs" "\<forall>x\<in>set xs. key x \<noteq> k" "key x' = k"
  shows "keyed key (insert_nth i x' xs)" "set (insert_nth i x' xs) = insert x' (set xs)"
proof -
  obtain ys zs where s: "xs = ys @ zs" "i = length ys" "\<forall>y\<in>set ys. key y < k" "\<forall>z\<in>set zs. k \<le> key z" "keyed key zs" "keyed key ys"
    using lower_bound_split [OF assms(1), of k] assms(2) by metis
  then have "\<forall>z\<in>set zs. k < key z" using assms(3) by (fastforce simp: less_le)
  then show "keyed key (insert_nth i x' xs)" "set (insert_nth i x' xs) = insert x' (set xs)"
    using s assms(3,4) by (auto simp: insert_nth_def) force+
qed

section \<open>Backends\<close>

definition fd_of :: "(nat \<Rightarrow> int) \<Rightarrow> int \<Rightarrow> nat option \<Rightarrow> int" where
  "fd_of sock pipe p = (case p of Some h \<Rightarrow> sock h | None \<Rightarrow> pipe)"

definition sockets_ok :: "(nat \<Rightarrow> int) \<Rightarrow> int \<Rightarrow> bool" where
  "sockets_ok sock pipe \<longleftrightarrow> inj sock \<and> pipe \<notin> range sock"

lemma fd_of_inj: "sockets_ok sock pipe \<Longrightarrow> fd_of sock pipe p = fd_of sock pipe q \<longleftrightarrow> p = q"
  by (auto simp: sockets_ok_def fd_of_def inj_def split: option.splits)

text \<open>A pending event changes what is registered, and the pipe is only ever removed.\<close>

definition effective :: "(nat \<Rightarrow> int) \<Rightarrow> int \<Rightarrow> (int \<Rightarrow> u32) \<Rightarrow> event \<Rightarrow> bool" where
  "effective sock pipe reg e \<longleftrightarrow> ev_fd e = fd_of sock pipe (ev_ptr e) \<and> ev_mask e \<noteq> reg (ev_fd e) \<and> (ev_ptr e = None \<longrightarrow> ev_mask e = 0)"

definition notices :: "masks \<Rightarrow> (int \<Rightarrow> u32) \<Rightarrow> event \<Rightarrow> (nat \<times> operation) list" where
  "notices M reg e = (case ev_ptr e of None \<Rightarrow> [] | Some h \<Rightarrow> map (Pair h) (lost_ops M (reg (ev_fd e)) (ev_mask e)))"

text \<open>
  What the loop relies on: a backend keeps for each socket the mask it is registered with (\<open>reg\<close>, zero
  if it is not), and carries out an event that changes something.
\<close>

locale interest_backend =
  fixes handle :: "masks \<Rightarrow> event \<Rightarrow> 'a mpx_scheme \<Rightarrow> 'a mpx_scheme option"
    and reg :: "'a mpx_scheme \<Rightarrow> int \<Rightarrow> u32" and ok :: "masks \<Rightarrow> (nat \<Rightarrow> int) \<Rightarrow> int \<Rightarrow> 'a mpx_scheme \<Rightarrow> bool"
  assumes distinct_sockets: "ok M sock pipe s \<Longrightarrow> sockets_ok sock pipe"
    and bf_reg: "ok M sock pipe s \<Longrightarrow> eventbf s h = reg s (sock h)"
    and pipe_reg: "ok M sock pipe s \<Longrightarrow> reg s pipe = 0 \<or> reg s pipe = input_mask M"
    and handle_ok: "ok M sock pipe s \<Longrightarrow> effective sock pipe (reg s) e \<Longrightarrow> \<exists>s'. handle M e s = Some s' \<and> ok M sock pipe s' \<and>
      reg s' = (reg s)(ev_fd e := ev_mask e) \<and> removed s' = removed s @ notices M (reg s) e"
    and frame: "ok M sock pipe (s\<lparr>m_events := es\<rparr>) = ok M sock pipe s" "reg (s\<lparr>m_events := es\<rparr>) = reg s"
begin

definition pending_ok :: "(nat \<Rightarrow> int) \<Rightarrow> int \<Rightarrow> (nat option \<Rightarrow> u32) \<Rightarrow> 'a mpx_scheme \<Rightarrow> bool" where
  "pending_ok sock pipe I s \<longleftrightarrow> keyed ev_fd (m_events s) \<and> (\<forall>e\<in>set (m_events s). effective sock pipe (reg s) e \<and> I (ev_ptr e) = ev_mask e)
     \<and> (\<forall>p. p \<notin> ev_ptr ` set (m_events s) \<longrightarrow> I p = reg s (fd_of sock pipe p))"

lemma same_socket: "ok M sock pipe s \<Longrightarrow> pending_ok sock pipe I s \<Longrightarrow> e \<in> set (m_events s) \<Longrightarrow> ev_fd e = fd_of sock pipe p \<longleftrightarrow> ev_ptr e = p"
  using fd_of_inj [OF distinct_sockets] by (auto simp: pending_ok_def effective_def)

lemma new_event_ok:
  assumes "ok M sock pipe s" "pending_ok sock pipe I s" and old: "old_bf M p s = reg s (fd_of sock pipe p)" and pipe: "p = None \<Longrightarrow> f op (I p) = 0"
  shows "ok M sock pipe (new_event M f op (fd_of sock pipe p) p s)" "pending_ok sock pipe (I(p := f op (I p))) (new_event M f op (fd_of sock pipe p) p s)"
proof -
  define fd es i where d: "fd = fd_of sock pipe p" "es = m_events s" "i = lower_bound ev_fd fd es"
  let ?n = "new_event M f op fd p s"
  show "ok M sock pipe (new_event M f op (fd_of sock pipe p) p s)" using assms(1) by (simp add: new_event_def Let_def frame)
  have k: "keyed ev_fd es" using assms(2) by (simp add: pending_ok_def d)
  have ptr: "ev_fd e = fd \<longleftrightarrow> ev_ptr e = p" if "e \<in> set es" for e using same_socket [OF assms(1,2)] that by (simp add: d)
  have eff: "effective sock pipe (reg s) e" "I (ev_ptr e) = ev_mask e" if "e \<in> set es" for e using assms(2) that by (auto simp: pending_ok_def d)
  have rest: "I q = reg s (fd_of sock pipe q)" if "q \<notin> ev_ptr ` set es" for q using assms(2) that by (auto simp: pending_ok_def d)
  show "pending_ok sock pipe (I(p := f op (I p))) (new_event M f op (fd_of sock pipe p) p s)"
  proof (cases "\<exists>e\<in>set es. ev_fd e = fd")
    case True
    then obtain e where e: "e \<in> set es" "ev_fd e = fd" by blast
    have hit: "i < length es" "es ! i = e" using keyed_hit [OF k d(3)] True e by auto
    have only: "\<forall>e'\<in>set es - {e}. ev_ptr e' \<noteq> p \<and> ev_fd e' \<noteq> fd" using keyed_inj [OF k] e ptr by blast
    let ?e = "e\<lparr>ev_mask := f op (I p)\<rparr>"
    have p: "ev_ptr e = p" "ev_mask e = I p" using ptr e eff(2) [OF e(1)] by auto
    have others: "I q = reg s (fd_of sock pipe q)" if "q \<noteq> p" "q \<notin> ev_ptr ` (set es - {e})" for q using rest [of q] that p(1) by blast
    note up = keyed_update [OF k d(3) e, of ?e]
    have es1: "keyed ev_fd (es[i := ?e])" "set (es[i := ?e]) = insert ?e (set es - {e})" using up e(2) by auto
    show ?thesis
    proof (cases "f op (I p) = reg s fd \<and> f op (I p) \<noteq> I p")
      case True
      then have n: "?n = s\<lparr>m_events := erase_nth i es\<rparr>"
        using hit e p old by (auto simp: new_event_def Let_def d [symmetric] erase_update)
      have "keyed ev_fd (erase_nth i es)" "set (erase_nth i es) = set es - {e}" using keyed_erase [OF k d(3) e] by auto
      then show ?thesis
        using n True eff others only p by (auto simp: pending_ok_def frame d(1) [symmetric] image_iff)
    next
      case False
      then have n: "?n = s\<lparr>m_events := es[i := ?e]\<rparr>"
        using hit e p old by (auto simp: new_event_def Let_def d [symmetric])
      have "effective sock pipe (reg s) ?e" using eff(1) [OF e(1)] False e(2) p pipe by (auto simp: effective_def)
      then show ?thesis
        using n es1 eff others only p by (auto simp: pending_ok_def frame d(1) [symmetric] image_iff)
    qed
  next
    case False
    then have hit: "\<not> (i < length es \<and> ev_fd (es ! i) = fd)" using keyed_hit [OF k d(3)] by auto
    have none: "p \<notin> ev_ptr ` set es" using False ptr by auto
    then have I: "I p = reg s fd" using rest d(1) by simp
    let ?e = "\<lparr>ev_fd = fd, ev_mask = f op (I p), ev_ptr = p\<rparr>"
    show ?thesis
    proof (cases "f op (I p) = I p")
      case True
      then have "?n = s" using hit I old by (auto simp: new_event_def Let_def d [symmetric])
      then show ?thesis using True assms(2) d(1) by simp
    next
      case c: False
      then have n: "?n = s\<lparr>m_events := insert_nth i ?e es\<rparr>" using hit I old by (auto simp: new_event_def Let_def d [symmetric])
      have "effective sock pipe (reg s) ?e" using c I pipe d(1) by (auto simp: effective_def)
      then show ?thesis
        using n keyed_insert [OF k d(3), of ?e] False eff rest none by (auto simp: pending_ok_def frame d(1) [symmetric] image_iff)
    qed
  qed
qed

lemma handle_all_ok:
  assumes "ok M sock pipe s" "keyed ev_fd es" "\<forall>e\<in>set es. effective sock pipe (reg s) e"
  shows "\<exists>s'. handle_all (handle M) es s = Some s' \<and> ok M sock pipe s' \<and> (\<forall>e\<in>set es. reg s' (ev_fd e) = ev_mask e)
    \<and> (\<forall>fd. fd \<notin> ev_fd ` set es \<longrightarrow> reg s' fd = reg s fd) \<and> removed s' = removed s @ concat (map (notices M (reg s)) es)"
  using assms
proof (induction es arbitrary: s)
  case (Cons e es)
  then obtain s1 where s1: "handle M e s = Some s1" "ok M sock pipe s1" "reg s1 = (reg s)(ev_fd e := ev_mask e)" "removed s1 = removed s @ notices M (reg s) e"
    using handle_ok [of M sock pipe s e] by auto
  have ne: "ev_fd e' \<noteq> ev_fd e" if "e' \<in> set es" for e' using Cons.prems(2) that by force
  then have same: "reg s1 (ev_fd e') = reg s (ev_fd e')" if "e' \<in> set es" for e' using s1(3) that by simp
  have "effective sock pipe (reg s1) e'" if "e' \<in> set es" for e'
    using Cons.prems(3) same [OF that] that by (auto simp: effective_def)
  moreover have "notices M (reg s1) e' = notices M (reg s) e'" if "e' \<in> set es" for e'
    by (cases "ev_ptr e'") (simp_all add: notices_def same [OF that])
  moreover have "keyed ev_fd es" using Cons.prems(2) by simp
  ultimately obtain s' where s': "handle_all (handle M) es s1 = Some s'" "ok M sock pipe s'" "\<forall>e\<in>set es. reg s' (ev_fd e) = ev_mask e"
    "\<forall>fd. fd \<notin> ev_fd ` set es \<longrightarrow> reg s' fd = reg s1 fd" "removed s' = removed s1 @ concat (map (notices M (reg s)) es)"
    using Cons.IH [OF s1(2)] by (auto cong: map_cong)
  have "reg s' (ev_fd e) = ev_mask e" using spec [OF s'(4), of "ev_fd e"] s1(3) ne by force
  then show ?case using s' s1 by auto
qed simp

text \<open>After a round everything that was asked for is registered, and nothing is pending.\<close>

lemma end_round_ok:
  assumes "ok M sock pipe s" "pending_ok sock pipe I s"
  shows "\<exists>s'. end_round (handle M) s = Some s' \<and> ok M sock pipe s' \<and> pending_ok sock pipe I s' \<and> m_events s' = []
    \<and> (\<forall>p. reg s' (fd_of sock pipe p) = I p) \<and> removed s' = removed s @ concat (map (notices M (reg s)) (m_events s))"
proof -
  have es: "keyed ev_fd (m_events s)" "\<forall>e\<in>set (m_events s). effective sock pipe (reg s) e" using assms(2) by (auto simp: pending_ok_def)
  then obtain s' where s': "handle_all (handle M) (m_events s) s = Some s'" "ok M sock pipe s'" "\<forall>e\<in>set (m_events s). reg s' (ev_fd e) = ev_mask e"
    "\<forall>fd. fd \<notin> ev_fd ` set (m_events s) \<longrightarrow> reg s' fd = reg s fd" "removed s' = removed s @ concat (map (notices M (reg s)) (m_events s))"
    using handle_all_ok [OF assms(1)] by blast
  have "reg s' (fd_of sock pipe p) = I p" for p
  proof (cases "p \<in> ev_ptr ` set (m_events s)")
    case True
    then obtain e where e: "e \<in> set (m_events s)" "ev_ptr e = p" by blast
    then have "ev_fd e = fd_of sock pipe p" "I p = ev_mask e" using assms(2) by (auto simp: pending_ok_def effective_def)
    then show ?thesis using s'(3) e(1) by auto
  next
    case False
    then have "fd_of sock pipe p \<notin> ev_fd ` set (m_events s)" using same_socket [OF assms(1,2), of _ p] by (force simp: image_iff)
    then show ?thesis using s'(4) False assms(2) by (auto simp: pending_ok_def)
  qed
  then show ?thesis using s' by (simp add: end_round_def frame pending_ok_def)
qed

text \<open>The handlers that are told: those that lost an operation, once for each.\<close>

lemma notices_exact:
  assumes "ok M sock pipe s" "pending_ok sock pipe I s"
  shows "set (concat (map (notices M (reg s)) (m_events s))) = {(h, op). op \<in> set (lost_ops M (eventbf s h) (I (Some h)))}"
proof (intro set_eqI iffI; clarsimp)
  fix h op e
  assume e: "e \<in> set (m_events s)" "(h, op) \<in> set (notices M (reg s) e)"
  then have p: "ev_ptr e = Some h" "op \<in> set (lost_ops M (reg s (ev_fd e)) (ev_mask e))" by (auto simp: notices_def split: option.splits)
  then have "ev_fd e = sock h" "I (Some h) = ev_mask e" using assms(2) e(1) by (auto simp: pending_ok_def effective_def fd_of_def)
  then show "op \<in> set (lost_ops M (eventbf s h) (I (Some h)))" using p(2) bf_reg [OF assms(1)] by simp
next
  fix h op
  assume op: "op \<in> set (lost_ops M (eventbf s h) (I (Some h)))"
  then have "I (Some h) \<noteq> eventbf s h" by (auto simp: lost_ops_def split: if_splits)
  then have "Some h \<in> ev_ptr ` set (m_events s)" using assms(2) bf_reg [OF assms(1)] by (auto simp: pending_ok_def fd_of_def)
  then obtain e where e: "e \<in> set (m_events s)" "ev_ptr e = Some h" by force
  then have "ev_fd e = sock h" "I (Some h) = ev_mask e" using assms(2) by (auto simp: pending_ok_def effective_def fd_of_def)
  then show "\<exists>e\<in>set (m_events s). (h, op) \<in> set (notices M (reg s) e)"
    using e op bf_reg [OF assms(1)] by (intro bexI [of _ e]) (simp_all add: notices_def)
qed

lemma notices_once:
  assumes "ok M sock pipe s" "pending_ok sock pipe I s"
  shows "distinct (concat (map (notices M (reg s)) (m_events s)))"
proof -
  have "distinct (concat (map (notices M (reg s)) es))" if "keyed ev_fd es" "set es \<subseteq> set (m_events s)" for es
    using that
  proof (induction es)
    case (Cons e es)
    have "ev_ptr e' \<noteq> ev_ptr e" if "e' \<in> set es" for e' using Cons.prems that assms(2) by (force simp: pending_ok_def effective_def)
    then have "set (notices M (reg s) e) \<inter> set (notices M (reg s) e') = {}" if "e' \<in> set es" for e'
      using that by (auto simp: notices_def split: option.splits)
    moreover have "distinct (notices M (reg s) e)" by (auto simp: notices_def lost_ops_def split: option.splits)
    ultimately show ?case using Cons by auto
  qed simp
  then show ?thesis using assms(2) by (simp add: pending_ok_def)
qed

lemma request_ok:
  assumes "ok M sock pipe s" "pending_ok sock pipe I s"
  shows "ok M sock pipe (new_event M f op (sock h) (Some h) s)" "pending_ok sock pipe (I(Some h := f op (I (Some h)))) (new_event M f op (sock h) (Some h) s)"
proof -
  have "fd_of sock pipe (Some h) = sock h" "old_bf M (Some h) s = reg s (sock h)" using bf_reg [OF assms(1)] by (simp_all add: fd_of_def old_bf_def)
  then show "ok M sock pipe (new_event M f op (sock h) (Some h) s)" "pending_ok sock pipe (I(Some h := f op (I (Some h)))) (new_event M f op (sock h) (Some h) s)"
    using new_event_ok [OF assms, of "Some h" f op] by auto
qed

lemma reach_ok:
  assumes "mx_reach (handle M) M sock pipe s0 I s" "ok M sock pipe s0" "m_events s0 = []" "reg s0 pipe = input_mask M" "\<And>h. eventbf s0 h = 0"
  shows "ok M sock pipe s \<and> pending_ok sock pipe I s"
  using assms(1)
proof (induction rule: mx_reach.induct)
  case mx_start
  then show ?case using assms(2-) bf_reg [OF assms(2)] by (auto simp: pending_ok_def fd_of_def split: option.splits)
next
  case (mx_request_add I s op h)
  then show ?case using request_ok [where f = "add_flag M"] by (auto simp: mx_add_def fun_upd_def)
next
  case (mx_request_del I s op h)
  then show ?case using request_ok [where f = "del_flag M"] by (auto simp: mx_del_def fun_upd_def)
next
  case (mx_close_pipe I s)
  then have "None \<notin> ev_ptr ` set (m_events s)" by (force simp: pending_ok_def effective_def)
  then have I: "I None = reg s pipe" using mx_close_pipe by (auto simp: pending_ok_def fd_of_def)
  then have "I None = input_mask M" using mx_close_pipe pipe_reg [of M sock pipe s] by auto
  then have "del_flag M Op_read (I None) = 0" "fd_of sock pipe None = pipe" "old_bf M None s = reg s pipe"
    using I by (simp_all add: fd_of_def old_bf_def)
  then show ?case using mx_close_pipe.IH new_event_ok [where p = None and f = "del_flag M" and op = Op_read, of M sock pipe s] by (auto simp: close_pipe_def mx_del_def fun_upd_def)
next
  case (mx_round I s s')
  then show ?case using end_round_ok [of M sock pipe s I] by auto
qed

end

section \<open>The backend for poll keeps its promise\<close>

definition poll_reg :: "poll_mpx \<Rightarrow> int \<Rightarrow> u32" where
  "poll_reg s fd = (case map_of (m_pollset s) fd of None \<Rightarrow> 0 | Some m \<Rightarrow> m)"

definition rows :: "poll_mpx \<Rightarrow> ((int \<times> u32) \<times> nat option) list" where
  "rows s = zip (m_pollset s) (m_shadow s)"

definition poll_ok :: "masks \<Rightarrow> (nat \<Rightarrow> int) \<Rightarrow> int \<Rightarrow> poll_mpx \<Rightarrow> bool" where
  "poll_ok M sock pipe s \<longleftrightarrow> sockets_ok sock pipe \<and> keyed fst (m_pollset s) \<and> length (m_shadow s) = length (m_pollset s)
     \<and> (\<forall>r\<in>set (rows s). fst (fst r) = fd_of sock pipe (snd r) \<and> snd (fst r) \<noteq> 0)
     \<and> (\<forall>h. eventbf s h = poll_reg s (sock h)) \<and> (poll_reg s pipe = 0 \<or> poll_reg s pipe = input_mask M)"

lemma keyed_map_of: "keyed fst xs \<Longrightarrow> map_of xs k = Some v \<longleftrightarrow> (k, v) \<in> set xs"
  by (rule map_of_eq_Some_iff) (simp add: keyed_def strict_sorted_iff)

lemma zip_vectors:
  assumes "length ys = length xs"
  shows "zip (insert_nth i x xs) (insert_nth i y ys) = insert_nth i (x, y) (zip xs ys)"
    "zip (erase_nth i xs) (erase_nth i ys) = erase_nth i (zip xs ys)"
  using assms by (simp_all add: insert_nth_def erase_nth_def take_zip drop_zip min_def)

lemma zip_rows:
  assumes "length ys = length xs"
  shows "keyed (fst \<circ> fst) (zip xs ys) = keyed fst xs" "lower_bound (fst \<circ> fst) k (zip xs ys) = lower_bound fst k xs"
    "fst ` set (zip xs ys) = set xs"
proof -
  show "keyed (fst \<circ> fst) (zip xs ys) = keyed fst xs" using assms by (simp add: keyed_def flip: map_map)
  show "fst ` set (zip xs ys) = set xs" using assms by (metis list.set_map map_fst_zip)
  have "takeWhile (\<lambda>e. fst e < k) (map fst (zip xs ys)) = map fst (takeWhile (\<lambda>e. (fst \<circ> fst) e < k) (zip xs ys))"
    by (simp add: takeWhile_map comp_def)
  then show "lower_bound (fst \<circ> fst) k (zip xs ys) = lower_bound fst k xs" using assms by (simp add: lower_bound_def comp_def)
qed

lemma poll_reg_row:
  assumes l: "length (m_shadow s) = length (m_pollset s)" "keyed fst (m_pollset s)" "\<forall>r\<in>set (rows s). snd (fst r) \<noteq> 0"
  shows "poll_reg s fd = m \<and> m \<noteq> 0 \<longleftrightarrow> (\<exists>p. ((fd, m), p) \<in> set (rows s))"
proof -
  have "(fd, m) \<in> set (m_pollset s) \<longleftrightarrow> (\<exists>p. ((fd, m), p) \<in> set (rows s))" using zip_rows(3) [OF l(1)] by (force simp: rows_def)
  moreover have "poll_reg s fd = m \<and> m \<noteq> 0 \<longleftrightarrow> map_of (m_pollset s) fd = Some m \<and> m \<noteq> 0" by (auto simp: poll_reg_def split: option.splits)
  ultimately show ?thesis using keyed_map_of [OF l(2)] l(3) by force
qed

text \<open>The three branches of \<open>handle\<close>.\<close>

definition next_bf :: "event \<Rightarrow> 'a mpx_scheme \<Rightarrow> nat \<Rightarrow> u32" where
  "next_bf e s = (case ev_ptr e of Some h \<Rightarrow> (eventbf s)(h := ev_mask e) | None \<Rightarrow> eventbf s)"

definition bf_notices :: "masks \<Rightarrow> event \<Rightarrow> 'a mpx_scheme \<Rightarrow> (nat \<times> operation) list" where
  "bf_notices M e s = (case ev_ptr e of None \<Rightarrow> [] | Some h \<Rightarrow> map (Pair h) (lost_ops M (eventbf s h) (ev_mask e)))"

lemma poll_handle_branches:
  assumes "i = lower_bound fst (ev_fd e) (m_pollset s)"
  shows "i < length (m_pollset s) \<Longrightarrow> fst (m_pollset s ! i) = ev_fd e \<Longrightarrow> ev_mask e = 0 \<Longrightarrow>
      poll_handle M e s = s\<lparr>eventbf := next_bf e s, removed := removed s @ bf_notices M e s,
        m_pollset := erase_nth i (m_pollset s), m_shadow := erase_nth i (m_shadow s)\<rparr>"
    "i < length (m_pollset s) \<Longrightarrow> fst (m_pollset s ! i) = ev_fd e \<Longrightarrow> ev_mask e \<noteq> 0 \<Longrightarrow>
      poll_handle M e s = s\<lparr>eventbf := next_bf e s, removed := removed s @ bf_notices M e s,
        m_pollset := (m_pollset s)[i := (ev_fd e, ev_mask e)]\<rparr>"
    "i = length (m_pollset s) \<or> fst (m_pollset s ! i) \<noteq> ev_fd e \<Longrightarrow> length (m_shadow s) = length (m_pollset s) \<Longrightarrow> ev_mask e \<noteq> 0 \<Longrightarrow>
      poll_handle M e s = s\<lparr>eventbf := next_bf e s,
        m_pollset := insert_nth i (ev_fd e, ev_mask e) (m_pollset s), m_shadow := insert_nth i (ev_ptr e) (m_shadow s)\<rparr>"
  unfolding poll_handle_def Let_def assms [symmetric]
  by (cases "ev_ptr e"; auto simp: next_bf_def bf_notices_def insert_nth_def)+

text \<open>The effect on the two vectors, seen as one.\<close>

lemma poll_handle_hit:
  assumes l: "length (m_shadow s) = length (m_pollset s)" and k: "keyed fst (m_pollset s)" and r: "((ev_fd e, m), ev_ptr e) \<in> set (rows s)"
  shows "length (m_shadow (poll_handle M e s)) = length (m_pollset (poll_handle M e s))" "keyed (fst \<circ> fst) (rows (poll_handle M e s))"
    "set (rows (poll_handle M e s)) = {r \<in> set (rows s). fst (fst r) \<noteq> ev_fd e} \<union> (if ev_mask e = 0 then {} else {((ev_fd e, ev_mask e), ev_ptr e)})"
    "eventbf (poll_handle M e s) = next_bf e s" "removed (poll_handle M e s) = removed s @ bf_notices M e s"
proof -
  define R i where d: "R = rows s" "i = lower_bound (fst \<circ> fst) (ev_fd e) R"
  let ?r = "((ev_fd e, m), ev_ptr e)"
  note z = zip_rows [OF l, folded rows_def, folded d(1)]
  have kR: "keyed (fst \<circ> fst) R" and i: "i = lower_bound fst (ev_fd e) (m_pollset s)" using z k d by auto
  have rR: "?r \<in> set R" "(fst \<circ> fst) ?r = ev_fd e" using r by (simp_all add: d)
  have ex: "\<exists>r\<in>set R. (fst \<circ> fst) r = ev_fd e" using rR by blast
  then have hit: "i < length R" "R ! i = ?r" using keyed_hit(1) [OF kR d(2)] keyed_hit(2) [OF kR d(2) ex rR] by blast+
  then have at: "m_pollset s ! i = (ev_fd e, m)" "m_shadow s ! i = ev_ptr e" "i < length (m_pollset s)" using l by (auto simp: d rows_def)
  have uniq: "r' = ?r" if "r' \<in> set R" "fst (fst r') = ev_fd e" for r' using keyed_inj [OF kR that(1) rR(1)] that(2) by simp
  have "fst (fst ?r) = ev_fd e" by simp
  with uniq have only: "{r' \<in> set R. fst (fst r') \<noteq> ev_fd e} = set R - {?r}" by blast
  note b = poll_handle_branches(1,2) [OF i at(3)]
  have "length (m_shadow (poll_handle M e s)) = length (m_pollset (poll_handle M e s)) \<and> keyed (fst \<circ> fst) (rows (poll_handle M e s))
    \<and> set (rows (poll_handle M e s)) = (set R - {?r}) \<union> (if ev_mask e = 0 then {} else {((ev_fd e, ev_mask e), ev_ptr e)})"
  proof (cases "ev_mask e = 0")
    case True
    have "rows (poll_handle M e s) = erase_nth i R" using b(1) True at zip_vectors(2) [OF l, of i] by (simp add: rows_def d)
    then show ?thesis using True b(1) at l keyed_erase [OF kR d(2) rR] by (simp add: erase_nth_def comp_def)
  next
    case False
    have "rows (poll_handle M e s) = R[i := ((ev_fd e, ev_mask e), ev_ptr e)]"
      using b(2) False at update_zip [of "m_pollset s" "m_shadow s" i "((ev_fd e, ev_mask e), ev_ptr e)"] list_update_id [of "m_shadow s" i] by (simp add: rows_def d)
    then show ?thesis using False b(2) at l keyed_update [OF kR d(2) rR, of "((ev_fd e, ev_mask e), ev_ptr e)"] by (auto simp: comp_def)
  qed
  then show "length (m_shadow (poll_handle M e s)) = length (m_pollset (poll_handle M e s))" "keyed (fst \<circ> fst) (rows (poll_handle M e s))"
    "set (rows (poll_handle M e s)) = {r \<in> set (rows s). fst (fst r) \<noteq> ev_fd e} \<union> (if ev_mask e = 0 then {} else {((ev_fd e, ev_mask e), ev_ptr e)})"
    using only by (auto simp: d(1))
  show "eventbf (poll_handle M e s) = next_bf e s" "removed (poll_handle M e s) = removed s @ bf_notices M e s" using b at by (cases "ev_mask e = 0"; simp)+
qed

lemma poll_handle_miss:
  assumes l: "length (m_shadow s) = length (m_pollset s)" and k: "keyed fst (m_pollset s)"
    and r: "\<forall>r\<in>set (rows s). fst (fst r) \<noteq> ev_fd e" and nz: "ev_mask e \<noteq> 0"
  shows "length (m_shadow (poll_handle M e s)) = length (m_pollset (poll_handle M e s))" "keyed (fst \<circ> fst) (rows (poll_handle M e s))"
    "set (rows (poll_handle M e s)) = insert ((ev_fd e, ev_mask e), ev_ptr e) (set (rows s))"
    "eventbf (poll_handle M e s) = next_bf e s" "removed (poll_handle M e s) = removed s"
proof -
  define R i where d: "R = rows s" "i = lower_bound (fst \<circ> fst) (ev_fd e) R"
  note z = zip_rows [OF l, folded rows_def, folded d(1)]
  have kR: "keyed (fst \<circ> fst) R" and i: "i = lower_bound fst (ev_fd e) (m_pollset s)" using z k d by auto
  have le: "i \<le> length (m_pollset s)" by (simp add: i lower_bound_def length_takeWhile_le)
  have "\<not> (i < length (m_pollset s) \<and> fst (m_pollset s ! i) = ev_fd e)"
    using keyed_hit(1) [OF k i] z(3) r by (force simp: d)
  then have b: "poll_handle M e s = s\<lparr>eventbf := next_bf e s,
        m_pollset := insert_nth i (ev_fd e, ev_mask e) (m_pollset s), m_shadow := insert_nth i (ev_ptr e) (m_shadow s)\<rparr>"
    using poll_handle_branches(3) [OF i _ l nz] le by auto
  then have "rows (poll_handle M e s) = insert_nth i ((ev_fd e, ev_mask e), ev_ptr e) R" using zip_vectors(1) [OF l] by (simp add: rows_def d)
  then show "length (m_shadow (poll_handle M e s)) = length (m_pollset (poll_handle M e s))" "keyed (fst \<circ> fst) (rows (poll_handle M e s))"
    "set (rows (poll_handle M e s)) = insert ((ev_fd e, ev_mask e), ev_ptr e) (set (rows s))"
    "eventbf (poll_handle M e s) = next_bf e s" "removed (poll_handle M e s) = removed s"
    using b keyed_insert [OF kR d(2), of "((ev_fd e, ev_mask e), ev_ptr e)"] r l by (auto simp: d(1) insert_nth_def comp_def)
qed

lemma poll_handle_ok:
  assumes ok: "poll_ok M sock pipe s" and eff: "effective sock pipe (poll_reg s) e"
  shows "poll_ok M sock pipe (poll_handle M e s) \<and> poll_reg (poll_handle M e s) = (poll_reg s)(ev_fd e := ev_mask e)
    \<and> removed (poll_handle M e s) = removed s @ notices M (poll_reg s) e"
proof -
  let ?s = "poll_handle M e s"
  have l: "length (m_shadow s) = length (m_pollset s)" and k: "keyed fst (m_pollset s)" and bf: "\<And>h. eventbf s h = poll_reg s (sock h)"
    and sk: "sockets_ok sock pipe" and row: "\<forall>r\<in>set (rows s). fst (fst r) = fd_of sock pipe (snd r) \<and> snd (fst r) \<noteq> 0"
    and pr: "poll_reg s pipe = 0 \<or> poll_reg s pipe = input_mask M"
    using ok by (auto simp: poll_ok_def)
  have reg: "poll_reg s fd = m \<and> m \<noteq> 0 \<longleftrightarrow> (\<exists>p. ((fd, m), p) \<in> set (rows s))" for fd m using poll_reg_row [OF l k] row by blast
  have fd: "ev_fd e = fd_of sock pipe (ev_ptr e)" "ev_mask e \<noteq> poll_reg s (ev_fd e)" using eff by (auto simp: effective_def)
  have same: "bf_notices M e s = notices M (poll_reg s) e" using bf fd(1) by (simp add: bf_notices_def notices_def fd_of_def split: option.splits)
  have "length (m_shadow ?s) = length (m_pollset ?s) \<and> keyed (fst \<circ> fst) (rows ?s) \<and> eventbf ?s = next_bf e s
    \<and> set (rows ?s) = {r \<in> set (rows s). fst (fst r) \<noteq> ev_fd e} \<union> (if ev_mask e = 0 then {} else {((ev_fd e, ev_mask e), ev_ptr e)})
    \<and> removed ?s = removed s @ notices M (poll_reg s) e"
  proof (cases "\<exists>r\<in>set (rows s). fst (fst r) = ev_fd e")
    case True
    then obtain m p where r: "((ev_fd e, m), p) \<in> set (rows s)" by fastforce
    then have "p = ev_ptr e" using row fd(1) fd_of_inj [OF sk, of "ev_ptr e" p] by force
    with r have r': "((ev_fd e, m), ev_ptr e) \<in> set (rows s)" by simp
    show ?thesis using poll_handle_hit [OF l k r', of M] same by simp
  next
    case False
    then have "poll_reg s (ev_fd e) = 0" using reg [of "ev_fd e" "poll_reg s (ev_fd e)"] by force
    moreover then have "notices M (poll_reg s) e = []" by (simp add: notices_def lost_ops_def split: option.splits)
    ultimately show ?thesis using poll_handle_miss [OF l k, of e] False fd(2) by auto
  qed
  then have l': "length (m_shadow ?s) = length (m_pollset ?s)" and k': "keyed (fst \<circ> fst) (rows ?s)" and bf': "eventbf ?s = next_bf e s"
    and set': "set (rows ?s) = {r \<in> set (rows s). fst (fst r) \<noteq> ev_fd e} \<union> (if ev_mask e = 0 then {} else {((ev_fd e, ev_mask e), ev_ptr e)})"
    and removed: "removed ?s = removed s @ notices M (poll_reg s) e" by blast+
  have k2: "keyed fst (m_pollset ?s)" using k' zip_rows(1) [OF l'] by (simp add: rows_def)
  have row': "\<forall>r\<in>set (rows ?s). fst (fst r) = fd_of sock pipe (snd r) \<and> snd (fst r) \<noteq> 0" using row fd(1) by (auto simp: set')
  have reg': "poll_reg ?s fd = m \<and> m \<noteq> 0 \<longleftrightarrow> (\<exists>p. ((fd, m), p) \<in> set (rows ?s))" for fd m using poll_reg_row [OF l' k2] row' by blast
  have "(poll_reg ?s x = m \<and> m \<noteq> 0) \<longleftrightarrow> (((poll_reg s)(ev_fd e := ev_mask e)) x = m \<and> m \<noteq> 0)" for x m
    using reg [of x m] reg' [of x m] by (auto simp: set' split: if_splits)
  then have upd: "poll_reg ?s = (poll_reg s)(ev_fd e := ev_mask e)" by (intro ext) metis
  have "eventbf ?s h = poll_reg ?s (sock h)" for h
    using bf fd(1) fd_of_inj [OF sk, of "Some h" "ev_ptr e"] by (auto simp: bf' upd next_bf_def fd_of_def split: option.splits)
  moreover have "poll_reg ?s pipe = 0 \<or> poll_reg ?s pipe = input_mask M"
    using pr eff fd_of_inj [OF sk, of None "ev_ptr e"] by (auto simp: upd effective_def fd_of_def)
  ultimately show ?thesis using l' k2 row' sk upd removed by (simp add: poll_ok_def)
qed

interpretation poll_backend: interest_backend "\<lambda>M e s. Some (poll_handle M e s)" poll_reg poll_ok
proof unfold_locales
  show "poll_ok M sock pipe (s\<lparr>m_events := es\<rparr>) = poll_ok M sock pipe s" "poll_reg (s\<lparr>m_events := es\<rparr>) = poll_reg s" for M sock pipe s es
    by (simp_all add: poll_ok_def poll_reg_def rows_def fun_eq_iff)
  show "\<exists>s'. Some (poll_handle M e s) = Some s' \<and> poll_ok M sock pipe s' \<and> poll_reg s' = (poll_reg s)(ev_fd e := ev_mask e)
      \<and> removed s' = removed s @ notices M (poll_reg s) e"
    if "poll_ok M sock pipe s" "effective sock pipe (poll_reg s) e" for M sock pipe s e
    using poll_handle_ok [OF that] by blast
qed (auto simp: poll_ok_def)

lemma poll_init_ok:
  assumes "masks_ok M" "sockets_ok sock pipe"
  shows "poll_ok M sock pipe (poll_init M pipe)" "poll_reg (poll_init M pipe) pipe = input_mask M"
  using assms by (auto simp: poll_init_def poll_ok_def poll_reg_def rows_def fd_of_def masks_ok_def sockets_ok_def)

text \<open>
  C18. The \<open>poll\<close> backend watches exactly what was asked for: after a round its two vectors are sorted, of equal length, and pair
  every socket with the mask that results from all requests to add and delete and with the handler that asked, the pipe included, whatever
  requests were squashed together or cancelled each other on the way; and each handler that
  lost an operation in the round is told so exactly once.
\<close>

theorem poll_follows_requests:
  assumes "masks_ok M" "sockets_ok sock pipe" "mx_reach (\<lambda>e s. Some (poll_handle M e s)) M sock pipe (poll_init M pipe) I s"
  shows "\<exists>s' calls. end_round (\<lambda>e s. Some (poll_handle M e s)) s = Some s' \<and> m_events s' = []
    \<and> sorted_wrt (<) (map fst (m_pollset s')) \<and> length (m_shadow s') = length (m_pollset s')
    \<and> set (zip (m_pollset s') (m_shadow s')) = {((fd_of sock pipe p, I p), p) | p. I p \<noteq> 0}
    \<and> (\<forall>h. eventbf s' h = I (Some h)) \<and> removed s' = removed s @ calls \<and> distinct calls
    \<and> set calls = {(h, op). op \<in> set (lost_ops M (eventbf s h) (I (Some h)))}"
proof -
  have "eventbf (poll_init M pipe) h = 0" "m_events (poll_init M pipe) = []" for h by (simp_all add: poll_init_def)
  then have ok: "poll_ok M sock pipe s" "poll_backend.pending_ok sock pipe I s"
    using poll_backend.reach_ok [OF assms(3) poll_init_ok(1) [OF assms(1,2)] _ poll_init_ok(2) [OF assms(1,2)]] by auto
  then obtain s' where s': "end_round (\<lambda>e s. Some (poll_handle M e s)) s = Some s'" "poll_ok M sock pipe s'" "m_events s' = []"
    "\<forall>p. poll_reg s' (fd_of sock pipe p) = I p" "removed s' = removed s @ concat (map (notices M (poll_reg s)) (m_events s))"
    using poll_backend.end_round_ok [OF ok] by blast
  have l: "length (m_shadow s') = length (m_pollset s')" "keyed fst (m_pollset s')" "\<forall>r\<in>set (rows s'). snd (fst r) \<noteq> 0"
    and row: "\<forall>r\<in>set (rows s'). fst (fst r) = fd_of sock pipe (snd r)" and bf: "\<forall>h. eventbf s' h = poll_reg s' (sock h)"
    using s'(2) by (auto simp: poll_ok_def)
  have "set (rows s') = {((fd_of sock pipe p, I p), p) | p. I p \<noteq> 0}"
  proof (intro set_eqI iffI)
    fix r assume r: "r \<in> set (rows s')"
    obtain fd m p where rr: "r = ((fd, m), p)" by (metis prod.collapse)
    then have "poll_reg s' fd = m \<and> m \<noteq> 0" using poll_reg_row [OF l, of fd m] r by blast
    then show "r \<in> {((fd_of sock pipe p, I p), p) | p. I p \<noteq> 0}" using r rr row s'(4) by force
  next
    fix r assume "r \<in> {((fd_of sock pipe p, I p), p) | p. I p \<noteq> 0}"
    then obtain p where p: "r = ((fd_of sock pipe p, I p), p)" "I p \<noteq> 0" by blast
    then obtain q where q: "((fd_of sock pipe p, I p), q) \<in> set (rows s')" using poll_reg_row [OF l] s'(4) by blast
    then have "q = p" using row fd_of_inj [OF assms(2), of p q] by fastforce
    then show "r \<in> set (rows s')" using p q by simp
  qed
  moreover have "eventbf s' h = I (Some h)" for h using bf spec [OF s'(4), of "Some h"] by (simp add: fd_of_def)
  ultimately show ?thesis
    using s' l poll_backend.notices_exact [OF ok] poll_backend.notices_once [OF ok] by (auto simp: rows_def keyed_def)
qed

section \<open>The backend for epoll keeps its promise\<close>

definition epoll_reg :: "('k \<Rightarrow> int \<rightharpoonup> u32) \<Rightarrow> 'k epoll_mpx \<Rightarrow> int \<Rightarrow> u32" where
  "epoll_reg view s fd = (case view (m_epoll s) fd of None \<Rightarrow> 0 | Some m \<Rightarrow> m)"

definition epoll_ok :: "('k \<Rightarrow> int \<rightharpoonup> u32) \<Rightarrow> masks \<Rightarrow> (nat \<Rightarrow> int) \<Rightarrow> int \<Rightarrow> 'k epoll_mpx \<Rightarrow> bool" where
  "epoll_ok view M sock pipe s \<longleftrightarrow> sockets_ok sock pipe \<and> finite (dom (view (m_epoll s))) \<and> m_shadow_count s = int (card (dom (view (m_epoll s))))
     \<and> dom (view (m_epoll s)) \<subseteq> range (fd_of sock pipe) \<and> 0 \<notin> ran (view (m_epoll s))
     \<and> (\<forall>h. eventbf s h = epoll_reg view s (sock h)) \<and> (epoll_reg view s pipe = 0 \<or> epoll_reg view s pipe = input_mask M)"

lemma epoll_reg_None: "0 \<notin> ran (view (m_epoll s)) \<Longrightarrow> epoll_reg view s fd = 0 \<longleftrightarrow> view (m_epoll s) fd = None"
  by (auto simp: epoll_reg_def ran_def split: option.splits)

text \<open>An event that changes something is carried out without an error.\<close>

lemma epoll_handle_runs:
  assumes doc: "epoll_doc ctl view" and ok: "epoll_ok view M sock pipe s" and eff: "effective sock pipe (epoll_reg view s) e"
  shows "\<exists>k. epoll_handle ctl M e s = Some (s\<lparr>eventbf := next_bf e s, removed := removed s @ notices M (epoll_reg view s) e,
      m_epoll := k, m_shadow_count := m_shadow_count s + (if ev_mask e = 0 then -1 else if view (m_epoll s) (ev_fd e) = None then 1 else 0)\<rparr>)
    \<and> view k = (view (m_epoll s))(ev_fd e := (if ev_mask e = 0 then None else Some (ev_mask e)))"
proof -
  have nz: "0 \<notin> ran (view (m_epoll s))" and bf: "\<And>h. eventbf s h = epoll_reg view s (sock h)"
    and pr: "epoll_reg view s pipe = 0 \<or> epoll_reg view s pipe = input_mask M" using ok by (auto simp: epoll_ok_def)
  have fd: "ev_fd e = fd_of sock pipe (ev_ptr e)" "ev_mask e \<noteq> epoll_reg view s (ev_fd e)" "ev_ptr e = None \<longrightarrow> ev_mask e = 0"
    using eff by (auto simp: effective_def)
  have old: "old_bf M (ev_ptr e) s = epoll_reg view s (ev_fd e)" using fd pr bf by (auto simp: old_bf_def fd_of_def split: option.splits)
  have go: "\<not> (case ev_ptr e of Some h \<Rightarrow> eventbf s h = ev_mask e | None \<Rightarrow> False)" using fd bf by (auto simp: fd_of_def split: option.splits)
  define op where "op = (if ev_mask e = 0 then Epoll_ctl_del else if epoll_reg view s (ev_fd e) = 0 then Epoll_ctl_add else Epoll_ctl_mod)"
  have view: "view (m_epoll s) (ev_fd e) = None \<longleftrightarrow> epoll_reg view s (ev_fd e) = 0" using epoll_reg_None [of view s, OF nz] by simp
  obtain k where k: "ctl op (ev_fd e) (ev_mask e) (ev_ptr e) (m_epoll s) = (None, k)"
    "view k = (view (m_epoll s))(ev_fd e := (if ev_mask e = 0 then None else Some (ev_mask e)))"
  proof (rule that [of "snd (ctl op (ev_fd e) (ev_mask e) (ev_ptr e) (m_epoll s))"])
    have doc1: "fst (ctl op (ev_fd e) (ev_mask e) (ev_ptr e) (m_epoll s)) = None
      \<and> view (snd (ctl op (ev_fd e) (ev_mask e) (ev_ptr e) (m_epoll s))) = (view (m_epoll s))(ev_fd e := (if ev_mask e = 0 then None else Some (ev_mask e)))"
      using doc [unfolded epoll_doc_def, rule_format, of "m_epoll s" "ev_fd e" "ev_mask e" "ev_ptr e"] view fd(2) unfolding op_def by (cases "ev_mask e = 0"; cases "epoll_reg view s (ev_fd e) = 0") auto
    then show "ctl op (ev_fd e) (ev_mask e) (ev_ptr e) (m_epoll s) = (None, snd (ctl op (ev_fd e) (ev_mask e) (ev_ptr e) (m_epoll s)))"
      by (simp add: prod_eq_iff)
    show "view (snd (ctl op (ev_fd e) (ev_mask e) (ev_ptr e) (m_epoll s))) = (view (m_epoll s))(ev_fd e := (if ev_mask e = 0 then None else Some (ev_mask e)))"
      using doc1 by blast
  qed
  then show ?thesis using go old view
    by (intro exI [of _ k]) (auto simp: epoll_handle_def op_def Let_def next_bf_def notices_def split: option.splits)
qed

lemma epoll_handle_ok:
  assumes doc: "epoll_doc ctl view" and ok: "epoll_ok view M sock pipe s" and eff: "effective sock pipe (epoll_reg view s) e"
  shows "\<exists>s'. epoll_handle ctl M e s = Some s' \<and> epoll_ok view M sock pipe s' \<and> epoll_reg view s' = (epoll_reg view s)(ev_fd e := ev_mask e)
    \<and> removed s' = removed s @ notices M (epoll_reg view s) e"
proof -
  let ?V = "view (m_epoll s)"
  obtain k where k: "epoll_handle ctl M e s = Some (s\<lparr>eventbf := next_bf e s, removed := removed s @ notices M (epoll_reg view s) e,
      m_epoll := k, m_shadow_count := m_shadow_count s + (if ev_mask e = 0 then -1 else if ?V (ev_fd e) = None then 1 else 0)\<rparr>)"
    "view k = ?V(ev_fd e := (if ev_mask e = 0 then None else Some (ev_mask e)))" using epoll_handle_runs [OF assms] by blast
  let ?s = "s\<lparr>eventbf := next_bf e s, removed := removed s @ notices M (epoll_reg view s) e,
      m_epoll := k, m_shadow_count := m_shadow_count s + (if ev_mask e = 0 then -1 else if ?V (ev_fd e) = None then 1 else 0)\<rparr>"
  have o: "sockets_ok sock pipe" "finite (dom ?V)" "m_shadow_count s = int (card (dom ?V))" "dom ?V \<subseteq> range (fd_of sock pipe)" "0 \<notin> ran ?V"
    "\<And>h. eventbf s h = epoll_reg view s (sock h)" "epoll_reg view s pipe = 0 \<or> epoll_reg view s pipe = input_mask M"
    using ok by (auto simp: epoll_ok_def)
  have fd: "ev_fd e = fd_of sock pipe (ev_ptr e)" "ev_mask e \<noteq> epoll_reg view s (ev_fd e)" "ev_ptr e = None \<longrightarrow> ev_mask e = 0"
    using eff by (auto simp: effective_def)
  have upd: "epoll_reg view ?s = (epoll_reg view s)(ev_fd e := ev_mask e)" by (auto simp: epoll_reg_def k(2))
  have "ev_mask e = 0 \<Longrightarrow> ev_fd e \<in> dom ?V" using fd(2) by (auto simp: epoll_reg_def split: option.splits)
  then have "m_shadow_count ?s = int (card (dom (view (m_epoll ?s))))"
    using o(2,3) card_gt_0_iff [of "dom ?V"] by (auto simp: k(2) card_Diff_singleton card_insert_if dom_def [symmetric] domIff)
  moreover have "eventbf ?s h = epoll_reg view ?s (sock h)" for h
    using o(6) fd(1) fd_of_inj [OF o(1), of "Some h" "ev_ptr e"] unfolding upd by (auto simp: next_bf_def fd_of_def split: option.splits)
  moreover have "epoll_reg view ?s pipe = 0 \<or> epoll_reg view ?s pipe = input_mask M"
    using o(7) fd fd_of_inj [OF o(1), of None "ev_ptr e"] unfolding upd by (auto simp: fd_of_def)
  moreover have "0 \<notin> ran (view (m_epoll ?s))" using o(5) by (auto simp: k(2) ran_def)
  moreover have "finite (dom (view (m_epoll ?s)))" "dom (view (m_epoll ?s)) \<subseteq> range (fd_of sock pipe)" using o(2,4) fd(1) by (auto simp: k(2) split: if_splits)
  ultimately have "epoll_ok view M sock pipe ?s" unfolding epoll_ok_def using o(1) by blast
  then show ?thesis using k(1) upd by auto
qed

lemma epoll_backend:
  assumes "epoll_doc ctl view"
  shows "interest_backend (epoll_handle ctl) (epoll_reg view) (epoll_ok view)"
proof unfold_locales
  show "epoll_ok view M sock pipe (s\<lparr>m_events := es\<rparr>) = epoll_ok view M sock pipe s" "epoll_reg view (s\<lparr>m_events := es\<rparr>) = epoll_reg view s"
    for M sock pipe s es by (simp_all add: epoll_ok_def epoll_reg_def fun_eq_iff)
qed (use epoll_handle_ok [OF assms] in \<open>auto simp: epoll_ok_def\<close>)

text \<open>
  The \<open>epoll\<close> backend, on a kernel that behaves as documented, registers exactly what was asked for: after a round every
  socket is registered with the mask that results from all requests, or not at all if that is zero; no
  call of \<open>epoll_ctl\<close> fails; and the counter that keeps the loop running is the number of registered sockets, so that the loop ends
  exactly when nothing is watched any more.
\<close>

theorem epoll_follows_requests:
  assumes "masks_ok M" "sockets_ok sock pipe" "epoll_doc ctl view" "view k = [pipe \<mapsto> input_mask M]"
    "mx_reach (epoll_handle ctl M) M sock pipe (epoll_init k) I s"
  shows "\<exists>s'. end_round (epoll_handle ctl M) s = Some s'
    \<and> (\<forall>p. view (m_epoll s') (fd_of sock pipe p) = (if I p = 0 then None else Some (I p)))
    \<and> m_shadow_count s' = int (card {p. I p \<noteq> 0}) \<and> (m_shadow_count s' > 0 \<longleftrightarrow> (\<exists>p. I p \<noteq> 0))"
proof -
  note B = epoll_backend [OF assms(3)]
  have "epoll_ok view M sock pipe (epoll_init k)" "epoll_reg view (epoll_init k) pipe = input_mask M" "m_events (epoll_init k) = []"
    using assms(1,2,4) by (auto simp: epoll_init_def epoll_ok_def epoll_reg_def masks_ok_def sockets_ok_def fd_of_def image_iff split: if_splits intro!: exI [of _ None])
  then have ok: "epoll_ok view M sock pipe s \<and> interest_backend.pending_ok (epoll_reg view) sock pipe I s"
    using interest_backend.reach_ok [OF B assms(5)] by (simp add: epoll_init_def)
  then obtain s' where s': "end_round (epoll_handle ctl M) s = Some s'" "epoll_ok view M sock pipe s'" "\<forall>p. epoll_reg view s' (fd_of sock pipe p) = I p"
    using interest_backend.end_round_ok [OF B] by blast
  let ?V = "view (m_epoll s')"
  have o: "finite (dom ?V)" "m_shadow_count s' = int (card (dom ?V))" "dom ?V \<subseteq> range (fd_of sock pipe)" "0 \<notin> ran ?V" using s'(2) by (auto simp: epoll_ok_def)
  have V: "?V (fd_of sock pipe p) = (if I p = 0 then None else Some (I p))" for p
    using spec [OF s'(3), of p] epoll_reg_None [of view s' "fd_of sock pipe p", OF o(4)] by (auto simp: epoll_reg_def split: option.splits)
  then have "dom ?V = fd_of sock pipe ` {p. I p \<noteq> 0}" using o(3) by (fastforce simp: dom_def split: if_splits)
  moreover have "inj_on (fd_of sock pipe) {p. I p \<noteq> 0}" using fd_of_inj [OF assms(2)] by (auto simp: inj_on_def)
  ultimately have c: "card (dom ?V) = card {p. I p \<noteq> 0}" "finite {p. I p \<noteq> 0}" using o(1) by (simp_all add: card_image finite_image_iff)
  then have "m_shadow_count s' > 0 \<longleftrightarrow> (\<exists>p. I p \<noteq> 0)" using o(2) by (auto simp: card_gt_0_iff)
  then show ?thesis using s'(1) V o(2) c by auto
qed

section \<open>Witnesses\<close>

text \<open>The masks of Linux, two sockets, and a kernel that keeps the registered sockets in a map.\<close>

definition demo_masks :: masks where
  "demo_masks = \<lparr>input_mask = 1, output_mask = 4, error_mask = 8216\<rparr>"

definition demo_sock :: "nat \<Rightarrow> int" where
  "demo_sock h = int h + 4"

fun demo_ctl :: "(int \<rightharpoonup> u32) epoll_ctl" where
  "demo_ctl Epoll_ctl_add fd m p k = (if k fd = None then (None, k(fd \<mapsto> m)) else (Some Eexist, k))"
| "demo_ctl Epoll_ctl_mod fd m p k = (if k fd = None then (Some Enoent, k) else (None, k(fd \<mapsto> m)))"
| "demo_ctl Epoll_ctl_del fd m p k = (if k fd = None then (Some Enoent, k) else (None, k(fd := None)))"

lemma demo_ok: "masks_ok demo_masks" "sockets_ok demo_sock 3" "epoll_doc demo_ctl id"
  by (auto simp: masks_ok_def demo_masks_def sockets_ok_def demo_sock_def inj_def epoll_doc_def)

definition demo_interest :: "nat option \<Rightarrow> u32" where
  "demo_interest p = (if p = None then 1 else if p = Some 0 then 4 else if p = Some 1 then 1 else 0)"

lemma demo_run: "\<exists>s. mx_reach handle demo_masks demo_sock 3 s0 demo_interest s"
proof -
  let ?I = "\<lambda>p :: nat option. if p = None then input_mask demo_masks else 0"
  let ?J = "?I(Some 1 := add_flag demo_masks Op_read (?I (Some 1)))"
  have "mx_reach handle demo_masks demo_sock 3 s0 (?J(Some 0 := add_flag demo_masks Op_write (?J (Some 0))))
    (mx_add demo_masks Op_write (demo_sock 0) (Some 0) (mx_add demo_masks Op_read (demo_sock 1) (Some 1) s0))"
    by (rule mx_request_add [OF mx_request_add [OF mx_start]]) simp_all
  moreover have "?J(Some 0 := add_flag demo_masks Op_write (?J (Some 0))) = demo_interest"
    by (auto simp: demo_interest_def demo_masks_def fun_eq_iff)
  ultimately show ?thesis by auto
qed

theorem poll_follows_requests_witness:
  "\<exists>s s'. mx_reach (\<lambda>e s. Some (poll_handle demo_masks e s)) demo_masks demo_sock 3 (poll_init demo_masks 3) demo_interest s
     \<and> end_round (\<lambda>e s. Some (poll_handle demo_masks e s)) s = Some s' \<and> eventbf s' 0 = 4
     \<and> ((3, 1), None) \<in> set (zip (m_pollset s') (m_shadow s')) \<and> ((4, 4), Some 0) \<in> set (zip (m_pollset s') (m_shadow s'))"
proof -
  obtain s where s: "mx_reach (\<lambda>e s. Some (poll_handle demo_masks e s)) demo_masks demo_sock 3 (poll_init demo_masks 3) demo_interest s"
    using demo_run by blast
  from poll_follows_requests [OF demo_ok(1,2) s] obtain s' where s': "end_round (\<lambda>e s. Some (poll_handle demo_masks e s)) s = Some s'"
    "set (zip (m_pollset s') (m_shadow s')) = {((fd_of demo_sock 3 p, demo_interest p), p) | p. demo_interest p \<noteq> 0}"
    "\<forall>h. eventbf s' h = demo_interest (Some h)" by blast
  have "((fd_of demo_sock 3 p, demo_interest p), p) \<in> set (zip (m_pollset s') (m_shadow s'))" if "demo_interest p \<noteq> 0" for p
    using s'(2) that by blast
  from this [of None] this [of "Some 0"] show ?thesis using s s' by (auto simp: fd_of_def demo_sock_def demo_interest_def)
qed

theorem epoll_follows_requests_witness:
  "\<exists>s s'. mx_reach (epoll_handle demo_ctl demo_masks) demo_masks demo_sock 3 (epoll_init [3 \<mapsto> 1]) demo_interest s
     \<and> end_round (epoll_handle demo_ctl demo_masks) s = Some s' \<and> m_shadow_count s' = 3 \<and> m_epoll s' 5 = Some 1"
proof -
  obtain s where s: "mx_reach (epoll_handle demo_ctl demo_masks) demo_masks demo_sock 3 (epoll_init [3 \<mapsto> 1]) demo_interest s" using demo_run by blast
  have k: "id [3 \<mapsto> 1] = [3 \<mapsto> input_mask demo_masks]" by (simp add: demo_masks_def)
  from epoll_follows_requests [OF demo_ok k s] obtain s' where s': "end_round (epoll_handle demo_ctl demo_masks) s = Some s'"
    "\<forall>p. id (m_epoll s') (fd_of demo_sock 3 p) = (if demo_interest p = 0 then None else Some (demo_interest p))"
    "m_shadow_count s' = int (card {p. demo_interest p \<noteq> 0})" by blast
  have "{p. demo_interest p \<noteq> 0} = {None, Some 0, Some 1}" by (auto simp: demo_interest_def split: if_splits)
  moreover have "m_epoll s' 5 = Some 1" using spec [OF s'(2), of "Some 1"] by (simp add: fd_of_def demo_sock_def demo_interest_def)
  ultimately show ?thesis using s s' by auto
qed

text \<open>Removing the pipe twice: the null handler always counts as registered for reading, so that the second request is not
  recognised as superfluous, and the \<open>poll\<close> backend inserts the pipe again with an empty mask.\<close>

lemma pipe_closed_twice:
  "let handle = (\<lambda>e s. Some (poll_handle demo_masks e s));
       s1 = mx_add demo_masks Op_read 4 (Some 0) (poll_init demo_masks 3);
       s2 = the (end_round handle (close_pipe demo_masks 3 s1));
       s3 = the (end_round handle (close_pipe demo_masks 3 s2))
   in m_pollset s2 = [(4, 1)] \<and> m_pollset s3 = [(3, 0), (4, 1)]"
  by (simp add: Let_def poll_init_def demo_masks_def mx_add_def close_pipe_def mx_del_def new_event_def lower_bound_def old_bf_def
      insert_nth_def erase_nth_def end_round_def poll_handle_def lost_ops_def)

text \<open>Errors are passed on only when there is nothing left to read or write, and the socket is then given up.\<close>

lemma socket_error_last:
  "Call_event Op_propagate_error h \<in> set (handle_socket_event M msk (Some h)) \<longleftrightarrow>
     msk AND input_mask M = 0 \<and> msk AND output_mask M = 0 \<and> msk AND error_mask M \<noteq> 0"
  "Call_del Op_read \<in> set (handle_socket_event M msk (Some h)) \<longleftrightarrow> Call_event Op_propagate_error h \<in> set (handle_socket_event M msk (Some h))"
  unfolding handle_socket_event_def Let_def option.case
  by (cases "msk AND input_mask M = 0"; cases "msk AND output_mask M = 0"; cases "msk AND error_mask M = 0";
      simp only: simp_thms if_True if_False append.simps list.set; simp)+

end
