(* ===== verification/Socket_Stream.thy ===== *)
theory Socket_Stream
  imports Multiplexer
begin

text \<open>
  Connections (class \<open>stream\<close> of caf/io/network/default_multiplexer.hpp, the scribe of
  libcaf_io/src/default_multiplexer.cpp and of libcaf_io/src/broker.cpp): bytes read from a socket are
  collected according to the receive policy and handed to the broker, bytes written by the broker go through two
  buffers to the socket. What \<open>recv\<close> and \<open>send\<close> return, and what the broker does while it handles data, are
  arguments.
\<close>

section \<open>Model\<close>

subsection \<open>Sockets\<close>

text \<open>The result of \<open>recv\<close> and of \<open>send\<close>: an error, an error that only means that the call would block, or success.\<close>

datatype 'r sock_result = Sock_error | Sock_would_block | Sock_ok 'r

definition is_error :: "'r sock_result \<Rightarrow> bool" where
  "is_error r \<longleftrightarrow> r = Sock_error"

text \<open>\<open>read_some\<close> and \<open>write_some\<close>: \<open>None\<close> is the result \<open>false\<close>.\<close>

definition read_some :: "u8 list sock_result \<Rightarrow> u8 list option" where
  "read_some r = (if is_error r \<or> r = Sock_ok [] then None else Some (case r of Sock_ok bs \<Rightarrow> bs | _ \<Rightarrow> []))"

definition write_some :: "nat sock_result \<Rightarrow> nat option" where
  "write_some r = (if is_error r then None else Some (case r of Sock_ok n \<Rightarrow> n | _ \<Rightarrow> 0))"

subsection \<open>The stream and its scribe\<close>

datatype receive_policy_flag = At_least | At_most | Exactly

text \<open>
  The fields of the stream, then those of the scribe. The last five are observations of the model: the requests to the
  multiplexer, the chunks handed to the broker with the policy in force when reading began, and all bytes received, written by the
  broker, and accepted by the socket.
\<close>

record stream =
  m_rd_flag :: receive_policy_flag
  m_max :: nat
  m_threshold :: nat
  m_collected :: nat
  m_rd_buf :: "u8 list"
  m_reader :: bool
  m_writer :: bool
  m_writing :: bool
  m_written :: nat
  m_wr_buf :: "u8 list"
  m_wr_offline_buf :: "u8 list"
  m_launched :: bool
  m_disconnected :: bool
  closed_msgs :: nat
  requests :: "(bool \<times> operation) list"    \<comment> \<open>\<open>True\<close>: \<open>add\<close>\<close>
  armed :: "receive_policy_flag \<times> nat"
  chunks :: "((receive_policy_flag \<times> nat) \<times> u8 list) list"
  received :: "u8 list"
  handed :: "u8 list"
  sent :: "u8 list"

definition new_stream :: stream where
  "new_stream = \<lparr>m_rd_flag = At_most, m_max = 1024, m_threshold = 0, m_collected = 0, m_rd_buf = [], m_reader = False, m_writer = False,
     m_writing = False, m_written = 0, m_wr_buf = [], m_wr_offline_buf = [], m_launched = False, m_disconnected = False, closed_msgs = 0,
     requests = [], armed = (At_most, 1024), chunks = [], received = [], handed = [], sent = []\<rparr>"

definition st_request :: "bool \<Rightarrow> operation \<Rightarrow> stream \<Rightarrow> stream" where
  "st_request add op st = st\<lparr>requests := requests st @ [(add, op)]\<rparr>"

text \<open>\<open>vector::resize\<close>.\<close>

definition resize :: "nat \<Rightarrow> u8 list \<Rightarrow> u8 list" where
  "resize n bs = take n bs @ replicate (n - length bs) 0"

definition read_loop :: "stream \<Rightarrow> stream" where
  "read_loop st =
     (let m = m_max st;
          (size, threshold) = (case m_rd_flag st of
              Exactly \<Rightarrow> (m, m) | At_most \<Rightarrow> (m, 1) | At_least \<Rightarrow> (m + max 100 (m div 10), m))
      in st\<lparr>m_collected := 0, m_rd_buf := (if length (m_rd_buf st) \<noteq> size then resize size (m_rd_buf st) else m_rd_buf st),
            m_threshold := threshold, armed := (m_rd_flag st, m)\<rparr>)"

definition write_loop :: "stream \<Rightarrow> stream" where
  "write_loop st =
     (let st1 = st\<lparr>m_written := 0, m_wr_buf := []\<rparr>
      in if m_wr_offline_buf st1 = [] then st_request False Op_write (st1\<lparr>m_writing := False\<rparr>)
         else st1\<lparr>m_wr_buf := m_wr_offline_buf st1, m_wr_offline_buf := []\<rparr>)"

definition st_start :: "stream \<Rightarrow> stream" where
  "st_start st = read_loop (st_request True Op_read (st\<lparr>m_reader := True\<rparr>))"

definition st_write :: "u8 list \<Rightarrow> stream \<Rightarrow> stream" where
  "st_write bs st = st\<lparr>m_wr_offline_buf := m_wr_offline_buf st @ bs, handed := handed st @ bs\<rparr>"

definition st_flush :: "stream \<Rightarrow> stream" where
  "st_flush st =
     (if m_wr_offline_buf st \<noteq> [] \<and> \<not> m_writing st
      then write_loop ((st_request True Op_write st)\<lparr>m_writer := True, m_writing := True\<rparr>) else st)"

text \<open>\<open>disconnect\<close> of the servant, and the functions of the scribe that the broker calls.\<close>

definition sc_disconnect :: "bool \<Rightarrow> stream \<Rightarrow> stream" where
  "sc_disconnect invoke st =
     (if m_disconnected st then st
      else st\<lparr>m_disconnected := True, closed_msgs := closed_msgs st + (if invoke then 1 else 0)\<rparr>)"

definition sc_configure_read :: "receive_policy_flag \<Rightarrow> nat \<Rightarrow> stream \<Rightarrow> stream" where
  "sc_configure_read flag n st =
     (let st1 = st\<lparr>m_rd_flag := flag, m_max := n\<rparr>
      in if m_launched st1 then st1 else st_start (st1\<lparr>m_launched := True\<rparr>))"

definition sc_stop_reading :: "stream \<Rightarrow> stream" where
  "sc_stop_reading st = sc_disconnect False (st_request False Op_read st)"

datatype scribe_call = Sc_configure receive_policy_flag nat | Sc_write "u8 list" | Sc_flush | Sc_close

fun scribe_do :: "scribe_call \<Rightarrow> stream \<Rightarrow> stream" where
  "scribe_do (Sc_configure flag n) st = sc_configure_read flag n st"
| "scribe_do (Sc_write bs) st = st_write bs st"
| "scribe_do Sc_flush st = st_flush st"
| "scribe_do Sc_close st = sc_stop_reading st"

text \<open>
  \<open>consume\<close>: the broker handles the data, calling functions of the scribe (\<open>cs\<close>). If it does not handle the message but puts it
  into its cache (\<open>kept\<close> is false), the message object is moved away, and the scribe follows a null pointer to get its
  buffer back.
\<close>

datatype stream_error = Null_message

definition sc_consume :: "scribe_call list \<Rightarrow> bool \<Rightarrow> stream \<Rightarrow> stream_error + stream" where
  "sc_consume cs kept st =
     (let buf = take (m_collected st) (m_rd_buf st);
          st1 = fold scribe_do cs (st\<lparr>m_rd_buf := buf, chunks := chunks st @ [(armed st, buf)]\<rparr>)
      in if kept then Inr (st_flush st1) else Inl Null_message)"

text \<open>\<open>handle_event\<close>.\<close>

definition event_read :: "u8 list sock_result \<Rightarrow> scribe_call list \<Rightarrow> bool \<Rightarrow> stream \<Rightarrow> stream_error + stream" where
  "event_read r cs kept st = (case read_some r of
      None \<Rightarrow> Inr (st_request False Op_read (sc_disconnect True st))
    | Some bs \<Rightarrow>
        if bs = [] then Inr st
        else let c = m_collected st;
                 st1 = st\<lparr>m_rd_buf := take c (m_rd_buf st) @ bs @ drop (c + length bs) (m_rd_buf st), m_collected := c + length bs,
                   received := received st @ bs\<rparr>
             in if m_collected st1 \<ge> m_threshold st1
                then map_sum id read_loop (sc_consume cs kept st1) else Inr st1)"

definition event_write :: "nat sock_result \<Rightarrow> stream \<Rightarrow> stream" where
  "event_write r st = (case write_some r of
      None \<Rightarrow> st_request False Op_write (sc_disconnect True st)
    | Some n \<Rightarrow>
        if n = 0 then st
        else let st1 = st\<lparr>m_written := m_written st + n, sent := sent st @ take n (drop (m_written st) (m_wr_buf st))\<rparr>
             in if m_written st1 \<ge> length (m_wr_buf st1) then write_loop st1 else st1)"

definition event_error :: "stream \<Rightarrow> stream" where
  "event_error st = (let st1 = (if m_reader st then sc_disconnect True st else st)
     in if m_writer st1 then sc_disconnect True st1 else st1)"

fun removed_from_loop :: "operation \<Rightarrow> stream \<Rightarrow> stream" where
  "removed_from_loop Op_read st = st\<lparr>m_reader := False\<rparr>"
| "removed_from_loop Op_write st = st\<lparr>m_writer := False\<rparr>"
| "removed_from_loop Op_propagate_error st = st"

text \<open>
  The runs of a connection. Policies ask for at least one byte. A call returns at most as many bytes as it was given
  room for, and as it was given to send. Writing is reported possible only while the stream writes.
\<close>

inductive st_reach :: "stream \<Rightarrow> bool" where
  st_new: "st_reach new_stream"
| st_call: "st_reach st \<Longrightarrow> (\<forall>f n. c = Sc_configure f n \<longrightarrow> 0 < n) \<Longrightarrow> st_reach (scribe_do c st)"
| st_readable: "st_reach st \<Longrightarrow> m_launched st \<Longrightarrow> (\<forall>bs. r = Sock_ok bs \<longrightarrow> length bs \<le> length (m_rd_buf st) - m_collected st) \<Longrightarrow>
    (\<forall>f n. Sc_configure f n \<in> set cs \<longrightarrow> 0 < n) \<Longrightarrow> event_read r cs kept st = Inr st' \<Longrightarrow> st_reach st'"
| st_writable: "st_reach st \<Longrightarrow> m_writing st \<Longrightarrow> (\<forall>n. r = Sock_ok n \<longrightarrow> n \<le> length (m_wr_buf st) - m_written st) \<Longrightarrow> st_reach (event_write r st)"
| st_error: "st_reach st \<Longrightarrow> st_reach (event_error st)"
| st_removed: "st_reach st \<Longrightarrow> st_reach (removed_from_loop op st)"

section \<open>Reading\<close>

fun policy_size :: "receive_policy_flag \<times> nat \<Rightarrow> nat" where
  "policy_size (At_least, n) = n + max 100 (n div 10)" | "policy_size (_, n) = n"

fun policy_threshold :: "receive_policy_flag \<times> nat \<Rightarrow> nat" where
  "policy_threshold (At_most, n) = 1" | "policy_threshold (_, n) = n"

definition chunk_ok :: "(receive_policy_flag \<times> nat) \<times> u8 list \<Rightarrow> bool" where
  "chunk_ok x \<longleftrightarrow> policy_threshold (fst x) \<le> length (snd x) \<and> length (snd x) \<le> policy_size (fst x)"

text \<open>While the broker handles a chunk (\<open>busy\<close>), the buffer is with the broker and reading has not begun again.\<close>

definition read_inv :: "bool \<Rightarrow> stream \<Rightarrow> bool" where
  "read_inv busy st \<longleftrightarrow> 0 < m_max st \<and> (\<forall>x\<in>set (chunks st). chunk_ok x)
     \<and> (if busy then m_launched st \<and> concat (map snd (chunks st)) = received st
        else concat (map snd (chunks st)) @ take (m_collected st) (m_rd_buf st) = received st
          \<and> (if m_launched st then length (m_rd_buf st) = policy_size (armed st) \<and> m_threshold st = policy_threshold (armed st)
               \<and> m_collected st < m_threshold st \<and> 0 < snd (armed st)
             else m_collected st = 0 \<and> m_rd_buf st = [] \<and> received st = []))"

lemma length_resize [simp]: "length (resize n bs) = n"
  by (simp add: resize_def)



lemma read_inv_cong:
  "m_max st' = m_max st \<Longrightarrow> chunks st' = chunks st \<Longrightarrow> m_launched st' = m_launched st \<Longrightarrow> received st' = received st \<Longrightarrow>
   m_collected st' = m_collected st \<Longrightarrow> m_rd_buf st' = m_rd_buf st \<Longrightarrow> armed st' = armed st \<Longrightarrow> m_threshold st' = m_threshold st \<Longrightarrow>
   read_inv b st' = read_inv b st"
  by (simp add: read_inv_def)

lemmas write_defs = st_request_def sc_disconnect_def st_write_def write_loop_def st_flush_def event_write_def event_error_def sc_stop_reading_def Let_def

lemma read_inv_frame [simp]:
  "read_inv b (st_request a op st) = read_inv b st" "read_inv b (sc_disconnect i st) = read_inv b st"
  "read_inv b (st_write bs st) = read_inv b st" "read_inv b (st_flush st) = read_inv b st" "read_inv b (event_write w st) = read_inv b st"
  "read_inv b (event_error st) = read_inv b st" "read_inv b (sc_stop_reading st) = read_inv b st"
  by (rule read_inv_cong; simp add: write_defs split: option.splits)+

lemma read_inv_removed [simp]: "read_inv b (removed_from_loop op st) = read_inv b st"
  by (cases op) (simp_all add: read_inv_def)






section \<open>Writing\<close>

definition watched :: "operation \<Rightarrow> stream \<Rightarrow> bool" where
  "watched op st \<longleftrightarrow> (let rs = filter (\<lambda>r. snd r = op) (requests st) in rs \<noteq> [] \<and> fst (last rs))"

definition write_inv :: "stream \<Rightarrow> bool" where
  "write_inv st \<longleftrightarrow> sent st @ drop (m_written st) (m_wr_buf st) @ m_wr_offline_buf st = handed st
     \<and> (if m_writing st then m_written st < length (m_wr_buf st) else m_wr_buf st = [])
     \<and> (watched Op_write st \<longrightarrow> m_writing st) \<and> (m_writing st \<longrightarrow> watched Op_write st \<or> m_disconnected st)
     \<and> closed_msgs st \<le> 1 \<and> (closed_msgs st = 1 \<longrightarrow> m_disconnected st)"

lemma watched_request [simp]: "watched op (st_request a op' st) = (if op = op' then a else watched op st)"
  by (simp add: watched_def st_request_def Let_def)

lemma watched_frame [simp]:
  "watched op (st\<lparr>m_written := n\<rparr>) = watched op st" "watched op (st\<lparr>m_wr_buf := bs\<rparr>) = watched op st" "watched op (st\<lparr>m_writing := b\<rparr>) = watched op st"
  "watched op (st\<lparr>m_wr_offline_buf := bs\<rparr>) = watched op st" "watched op (st\<lparr>m_writer := b\<rparr>) = watched op st" "watched op (st\<lparr>handed := bs\<rparr>) = watched op st"
  "watched op (st\<lparr>sent := bs\<rparr>) = watched op st" "watched op (st\<lparr>m_disconnected := b\<rparr>) = watched op st" "watched op (st\<lparr>closed_msgs := n\<rparr>) = watched op st"
  by (simp_all add: watched_def)

lemma request_fields [simp]:
  "sent (st_request a op st) = sent st" "m_written (st_request a op st) = m_written st" "m_wr_buf (st_request a op st) = m_wr_buf st"
  "m_wr_offline_buf (st_request a op st) = m_wr_offline_buf st" "handed (st_request a op st) = handed st" "m_writing (st_request a op st) = m_writing st"
  "m_disconnected (st_request a op st) = m_disconnected st" "closed_msgs (st_request a op st) = closed_msgs st"
  by (simp_all add: st_request_def)

lemma write_inv_cong:
  "sent st' = sent st \<Longrightarrow> m_written st' = m_written st \<Longrightarrow> m_wr_buf st' = m_wr_buf st \<Longrightarrow> m_wr_offline_buf st' = m_wr_offline_buf st \<Longrightarrow>
   handed st' = handed st \<Longrightarrow> m_writing st' = m_writing st \<Longrightarrow> m_disconnected st' = m_disconnected st \<Longrightarrow> closed_msgs st' = closed_msgs st \<Longrightarrow>
   watched Op_write st' = watched Op_write st \<Longrightarrow> write_inv st' = write_inv st"
  by (simp add: write_inv_def)

lemma disconnect_write_inv: "write_inv st \<Longrightarrow> write_inv (sc_disconnect i st)"
  by (auto simp: write_inv_def sc_disconnect_def)

text \<open>\<open>write_loop\<close> is called when everything in the first buffer was sent.\<close>

lemma write_loop_inv:
  assumes "sent st @ m_wr_offline_buf st = handed st" "closed_msgs st \<le> 1" "closed_msgs st = 1 \<longrightarrow> m_disconnected st"
    "m_writing st" "watched Op_write st \<or> m_disconnected st"
  shows "write_inv (write_loop st)"
  using assms by (auto simp: write_inv_def write_loop_def Let_def)

lemma flush_write_inv: "write_inv st \<Longrightarrow> write_inv (st_flush st)"
proof (cases "m_wr_offline_buf st \<noteq> [] \<and> \<not> m_writing st")
  case True
  assume "write_inv st"
  then have "write_inv (write_loop ((st_request True Op_write st)\<lparr>m_writer := True, m_writing := True\<rparr>))"
    using True by (intro write_loop_inv) (auto simp: write_inv_def)
  then show ?thesis using True by (simp add: st_flush_def)
qed (auto simp: st_flush_def)

lemma scribe_do_write_inv: "write_inv st \<Longrightarrow> write_inv (scribe_do c st)"
proof (cases c)
  case (Sc_configure f n)
  assume "write_inv st"
  then show ?thesis using Sc_configure
    write_inv_cong [of "sc_configure_read f n st" st] by (auto simp: sc_configure_read_def st_start_def read_loop_def Let_def watched_def st_request_def split: prod.splits)
next
  case (Sc_write bs)
  assume "write_inv st"
  then show ?thesis using Sc_write by (auto simp: write_inv_def st_write_def split: if_splits)
next
  case Sc_close
  assume "write_inv st"
  then have "write_inv (st_request False Op_read st)" by (simp add: write_inv_def)
  then show ?thesis using Sc_close disconnect_write_inv by (simp add: sc_stop_reading_def)
qed (simp add: flush_write_inv)

lemma calls_write_inv: "write_inv st \<Longrightarrow> write_inv (fold scribe_do cs st)"
  by (induction cs arbitrary: st) (simp_all add: scribe_do_write_inv)

lemma read_loop_write_inv: "write_inv (read_loop st) = write_inv st"
  by (rule write_inv_cong; simp add: read_loop_def Let_def watched_def split: prod.splits)

lemma event_read_write_inv:
  assumes inv: "write_inv st" and e: "event_read r cs kept st = Inr st'"
  shows "write_inv st'"
proof (cases "read_some r")
  case None
  then have "st' = st_request False Op_read (sc_disconnect True st)" using e by (simp add: event_read_def)
  then show ?thesis using disconnect_write_inv [OF inv, of True] by (simp add: write_inv_def)
next
  case (Some bs)
  let ?st = "st\<lparr>m_rd_buf := take (m_collected st) (m_rd_buf st) @ bs @ drop (m_collected st + length bs) (m_rd_buf st),
    m_collected := m_collected st + length bs, received := received st @ bs\<rparr>"
  let ?buf = "take (m_collected ?st) (m_rd_buf ?st)"
  let ?s1 = "fold scribe_do cs (?st\<lparr>m_rd_buf := ?buf, chunks := chunks st @ [(armed st, ?buf)]\<rparr>)"
  have st: "write_inv ?st" using inv by (simp add: write_inv_def watched_def)
  have "write_inv (?st\<lparr>m_rd_buf := ?buf, chunks := chunks st @ [(armed st, ?buf)]\<rparr>)" using inv by (simp add: write_inv_def watched_def)
  then have "write_inv (st_flush ?s1)" using calls_write_inv flush_write_inv by blast
  then have "write_inv (read_loop (st_flush ?s1))" by (simp only: read_loop_write_inv)
  moreover have "st' = st \<or> st' = ?st \<or> st' = read_loop (st_flush ?s1)"
    using Some e unfolding event_read_def sc_consume_def Let_def by (auto split: if_splits)
  ultimately show ?thesis using inv st by (elim disjE) simp_all
qed

lemma event_write_inv:
  assumes inv: "write_inv st" and w: "m_writing st" and r: "\<forall>n. r = Sock_ok n \<longrightarrow> n \<le> length (m_wr_buf st) - m_written st"
  shows "write_inv (event_write r st)"
proof (cases "write_some r")
  case None
  have "m_disconnected (sc_disconnect True st)" by (simp add: sc_disconnect_def)
  then show ?thesis using None disconnect_write_inv [OF inv, of True] by (simp add: event_write_def write_inv_def)
next
  case (Some n)
  let ?st = "st\<lparr>m_written := m_written st + n, sent := sent st @ take n (drop (m_written st) (m_wr_buf st))\<rparr>"
  have n: "n \<le> length (m_wr_buf st) - m_written st" using Some r by (cases r) (auto simp: write_some_def is_error_def)
  have split: "take n (drop (m_written st) (m_wr_buf st)) @ drop (m_written st + n) (m_wr_buf st) @ xs = drop (m_written st) (m_wr_buf st) @ xs" for xs
    by (metis append_assoc append_take_drop_id drop_drop add.commute)
  have eq: "sent ?st @ drop (m_written ?st) (m_wr_buf ?st) @ m_wr_offline_buf ?st = handed ?st"
    using inv by (simp add: write_inv_def split)
  show ?thesis
  proof (cases "m_written st + n \<ge> length (m_wr_buf st)")
    case True
    then have "write_inv (write_loop ?st)" using eq inv w by (intro write_loop_inv) (auto simp: write_inv_def)
    then show ?thesis using Some True inv by (simp add: event_write_def Let_def)
  next
    case False
    then have "write_inv ?st" using eq inv w by (auto simp: write_inv_def)
    then show ?thesis using Some False inv by (simp add: event_write_def Let_def)
  qed
qed

lemma reach_write_inv: "st_reach st \<Longrightarrow> write_inv st"
proof (induction rule: st_reach.induct)
  case st_new
  then show ?case by (simp add: write_inv_def new_stream_def watched_def)
next
  case (st_error st)
  then show ?case using disconnect_write_inv by (simp add: event_error_def Let_def)
next
  case (st_removed st op)
  then show ?case by (cases op) (simp_all add: write_inv_def watched_def)
qed (use scribe_do_write_inv event_read_write_inv event_write_inv in blast)+

text \<open>
  C24. What a broker writes to a connection is sent in order, no byte lost or repeated: what the socket accepted, the rest of the
  buffer being sent, and the buffer the broker fills are together everything the broker wrote. While something is being sent,
  there is something left to send, and the socket is watched for writing unless the connection failed or was closed; a flush starts sending
  whatever was written. The broker is told at most once that the connection is closed.
\<close>

theorem stream_sends_in_order:
  assumes "st_reach st"
  shows "sent st @ drop (m_written st) (m_wr_buf st) @ m_wr_offline_buf st = handed st
    \<and> (m_writing st \<longrightarrow> drop (m_written st) (m_wr_buf st) \<noteq> [] \<and> (watched Op_write st \<or> m_disconnected st))
    \<and> (\<not> m_writing st \<longrightarrow> m_wr_buf st = [] \<and> \<not> watched Op_write st)
    \<and> (\<not> m_writing (st_flush st) \<longrightarrow> sent (st_flush st) = handed (st_flush st))
    \<and> closed_msgs st \<le> 1"
proof -
  have inv: "write_inv st" "write_inv (st_flush st)" using reach_write_inv [OF assms] flush_write_inv by blast+
  have "\<not> m_writing (st_flush st) \<Longrightarrow> m_wr_offline_buf (st_flush st) = []" by (auto simp: st_flush_def write_loop_def Let_def st_request_def split: if_splits)
  then show ?thesis using inv by (auto simp: write_inv_def)
qed

section \<open>Witnesses\<close>

text \<open>A broker that asks for exactly two bytes, gets them in two pieces, and answers with two.\<close>

definition demo_st :: stream where
  "demo_st = scribe_do (Sc_configure Exactly 2) new_stream"

definition demo_st2 :: stream where
  "demo_st2 = projr (event_read (Sock_ok [7]) [] True demo_st)"

definition demo_st3 :: stream where
  "demo_st3 = projr (event_read (Sock_ok [8]) [Sc_write [1, 2]] True demo_st2)"

lemmas stream_defs = demo_st_def demo_st2_def demo_st3_def new_stream_def sc_configure_read_def st_start_def read_loop_def event_read_def read_some_def
  is_error_def sc_consume_def st_write_def st_flush_def write_loop_def st_request_def event_write_def write_some_def resize_def Let_def

lemma demo_reach: "st_reach demo_st3"
proof -
  have 1: "st_reach demo_st" unfolding demo_st_def by (rule st_call [OF st_new]) simp
  have "event_read (Sock_ok [7]) [] True demo_st = Inr demo_st2" by (simp add: stream_defs)
  then have 2: "st_reach demo_st2" by (rule st_readable [OF 1, rotated 3]) (simp_all add: stream_defs)
  have "event_read (Sock_ok [8]) [Sc_write [1, 2]] True demo_st2 = Inr demo_st3" by (simp add: stream_defs)
  then show ?thesis by (rule st_readable [OF 2, rotated 3]) (simp_all add: stream_defs)
qed


theorem stream_sends_in_order_witness:
  "m_writing demo_st3 \<and> watched Op_write demo_st3 \<and> sent (event_write (Sock_ok 1) demo_st3) = [1] \<and> handed demo_st3 = [1, 2]"
proof -
  have "m_writing demo_st3" "\<not> m_disconnected demo_st3" by (simp_all add: stream_defs)
  then have "watched Op_write demo_st3" using stream_sends_in_order [OF demo_reach] by blast
  then show ?thesis by (simp add: stream_defs)
qed

section \<open>Where the code falls short\<close>

text \<open>A broker that leaves a chunk of data unhandled crashes.\<close>

lemma unhandled_data_crashes:
  assumes "m_threshold st \<le> m_collected st + length bs" "bs \<noteq> []"
  shows "event_read (Sock_ok bs) cs False st = Inl Null_message"
  using assms by (simp add: event_read_def read_some_def is_error_def sc_consume_def Let_def)

text \<open>A policy that asks for no bytes makes \<open>recv\<close> return none, which counts as the end of the connection.\<close>

lemma empty_policy_disconnects:
  "m_rd_buf (sc_configure_read Exactly 0 new_stream) = [] \<and> map_sum id m_disconnected (event_read (Sock_ok []) cs k st) = Inr True"
  by (simp add: stream_defs sc_disconnect_def)

text \<open>Closing a connection does not send what was written but not flushed.\<close>

lemma close_keeps_unflushed:
  assumes "st_reach st" "\<not> m_writing st"
  shows "m_wr_offline_buf (scribe_do Sc_close (scribe_do (Sc_write bs) st)) = m_wr_offline_buf st @ bs"
    "\<not> watched Op_write (scribe_do Sc_close (scribe_do (Sc_write bs) st))"
  using reach_write_inv [OF assms(1)] assms(2) by (auto simp: write_inv_def sc_stop_reading_def sc_disconnect_def st_write_def)

end
