(* ===== verification/Ripemd_160.thy ===== *)
theory Ripemd_160
  imports Prelude
begin

unbundle bit_operations_syntax

text \<open>
  The hash function of the identifiers of hosts (libcaf_core/src/ripemd_160.cpp). The unrolled code is
  compared with the definition of RIPEMD-160 by its authors (Dobbertin, Bosselaers and
  Preneel, 1996): two lines of five rounds, given by a permutation of the message words, a table of shifts per
  word, and the padding of the message to whole blocks. A string is a list of bytes.
\<close>

section \<open>The code\<close>

subsection \<open>Macros\<close>

definition bytes_to_dword :: "u8 \<Rightarrow> u8 \<Rightarrow> u8 \<Rightarrow> u8 \<Rightarrow> u32" where
  "bytes_to_dword b0 b1 b2 b3 =
     ((push_bit 24 (ucast b3) OR push_bit 16 (ucast b2)) OR push_bit 8 (ucast b1)) OR ucast b0"

definition ROL :: "u32 \<Rightarrow> nat \<Rightarrow> u32" where
  "ROL x n = push_bit n x OR drop_bit (32 - n) x"

datatype basic = Fn_F | Fn_G | Fn_H | Fn_I | Fn_J

fun basic_fun :: "basic \<Rightarrow> u32 \<Rightarrow> u32 \<Rightarrow> u32 \<Rightarrow> u32" where
  "basic_fun Fn_F x y z = x XOR y XOR z"
| "basic_fun Fn_G x y z = (x AND y) OR (NOT x AND z)"
| "basic_fun Fn_H x y z = (x OR NOT y) XOR z"
| "basic_fun Fn_I x y z = (x AND z) OR (y AND NOT z)"
| "basic_fun Fn_J x y z = x XOR (y OR NOT z)"

text \<open>The ten operations: the function and the constant of each.\<close>

datatype macro = FF | GG | HH | II | JJ | FFF | GGG | HHH | III | JJJ

fun macro_fun :: "macro \<Rightarrow> basic" where
  "macro_fun FF = Fn_F" | "macro_fun GG = Fn_G" | "macro_fun HH = Fn_H" | "macro_fun II = Fn_I" | "macro_fun JJ = Fn_J"
| "macro_fun FFF = Fn_F" | "macro_fun GGG = Fn_G" | "macro_fun HHH = Fn_H" | "macro_fun III = Fn_I" | "macro_fun JJJ = Fn_J"

fun macro_const :: "macro \<Rightarrow> u32" where
  "macro_const FF = 0" | "macro_const GG = 0x5a827999" | "macro_const HH = 0x6ed9eba1"
| "macro_const II = 0x8f1bbcdc" | "macro_const JJ = 0xa953fd4e"
| "macro_const FFF = 0" | "macro_const GGG = 0x7a6d76e9" | "macro_const HHH = 0x6d703ef3"
| "macro_const III = 0x5c4dd124" | "macro_const JJJ = 0x50a28be6"

text \<open>One line of \<open>compress\<close>: the operation, the five variables, the index into \<open>X\<close> and the shift.\<close>

datatype reg = Ra | Rb | Rc | Rd | Re

datatype rline = Line macro reg reg reg reg reg nat nat

fun exec_line :: "u32 list \<Rightarrow> rline \<Rightarrow> (reg \<Rightarrow> u32) \<Rightarrow> reg \<Rightarrow> u32" where
  "exec_line X (Line op a b c d e x s) v =
     (let v1 = v(a := v a + (basic_fun (macro_fun op) (v b) (v c) (v d) + X ! x + macro_const op));
          v2 = v1(a := ROL (v1 a) s + v1 e)
      in v2(c := ROL (v2 c) 10))"

subsection \<open>Compression of a block\<close>

definition left_lines :: "rline list" where
  "left_lines = [
     Line FF Ra Rb Rc Rd Re 0 11, Line FF Re Ra Rb Rc Rd 1 14, Line FF Rd Re Ra Rb Rc 2 15, Line FF Rc Rd Re Ra Rb 3 12,
     Line FF Rb Rc Rd Re Ra 4 5, Line FF Ra Rb Rc Rd Re 5 8, Line FF Re Ra Rb Rc Rd 6 7, Line FF Rd Re Ra Rb Rc 7 9,
     Line FF Rc Rd Re Ra Rb 8 11, Line FF Rb Rc Rd Re Ra 9 13, Line FF Ra Rb Rc Rd Re 10 14, Line FF Re Ra Rb Rc Rd 11 15,
     Line FF Rd Re Ra Rb Rc 12 6, Line FF Rc Rd Re Ra Rb 13 7, Line FF Rb Rc Rd Re Ra 14 9, Line FF Ra Rb Rc Rd Re 15 8,
     Line GG Re Ra Rb Rc Rd 7 7, Line GG Rd Re Ra Rb Rc 4 6, Line GG Rc Rd Re Ra Rb 13 8, Line GG Rb Rc Rd Re Ra 1 13,
     Line GG Ra Rb Rc Rd Re 10 11, Line GG Re Ra Rb Rc Rd 6 9, Line GG Rd Re Ra Rb Rc 15 7, Line GG Rc Rd Re Ra Rb 3 15,
     Line GG Rb Rc Rd Re Ra 12 7, Line GG Ra Rb Rc Rd Re 0 12, Line GG Re Ra Rb Rc Rd 9 15, Line GG Rd Re Ra Rb Rc 5 9,
     Line GG Rc Rd Re Ra Rb 2 11, Line GG Rb Rc Rd Re Ra 14 7, Line GG Ra Rb Rc Rd Re 11 13, Line GG Re Ra Rb Rc Rd 8 12,
     Line HH Rd Re Ra Rb Rc 3 11, Line HH Rc Rd Re Ra Rb 10 13, Line HH Rb Rc Rd Re Ra 14 6, Line HH Ra Rb Rc Rd Re 4 7,
     Line HH Re Ra Rb Rc Rd 9 14, Line HH Rd Re Ra Rb Rc 15 9, Line HH Rc Rd Re Ra Rb 8 13, Line HH Rb Rc Rd Re Ra 1 15,
     Line HH Ra Rb Rc Rd Re 2 14, Line HH Re Ra Rb Rc Rd 7 8, Line HH Rd Re Ra Rb Rc 0 13, Line HH Rc Rd Re Ra Rb 6 6,
     Line HH Rb Rc Rd Re Ra 13 5, Line HH Ra Rb Rc Rd Re 11 12, Line HH Re Ra Rb Rc Rd 5 7, Line HH Rd Re Ra Rb Rc 12 5,
     Line II Rc Rd Re Ra Rb 1 11, Line II Rb Rc Rd Re Ra 9 12, Line II Ra Rb Rc Rd Re 11 14, Line II Re Ra Rb Rc Rd 10 15,
     Line II Rd Re Ra Rb Rc 0 14, Line II Rc Rd Re Ra Rb 8 15, Line II Rb Rc Rd Re Ra 12 9, Line II Ra Rb Rc Rd Re 4 8,
     Line II Re Ra Rb Rc Rd 13 9, Line II Rd Re Ra Rb Rc 3 14, Line II Rc Rd Re Ra Rb 7 5, Line II Rb Rc Rd Re Ra 15 6,
     Line II Ra Rb Rc Rd Re 14 8, Line II Re Ra Rb Rc Rd 5 6, Line II Rd Re Ra Rb Rc 6 5, Line II Rc Rd Re Ra Rb 2 12,
     Line JJ Rb Rc Rd Re Ra 4 9, Line JJ Ra Rb Rc Rd Re 0 15, Line JJ Re Ra Rb Rc Rd 5 5, Line JJ Rd Re Ra Rb Rc 9 11,
     Line JJ Rc Rd Re Ra Rb 7 6, Line JJ Rb Rc Rd Re Ra 12 8, Line JJ Ra Rb Rc Rd Re 2 13, Line JJ Re Ra Rb Rc Rd 10 12,
     Line JJ Rd Re Ra Rb Rc 14 5, Line JJ Rc Rd Re Ra Rb 1 12, Line JJ Rb Rc Rd Re Ra 3 13, Line JJ Ra Rb Rc Rd Re 8 14,
     Line JJ Re Ra Rb Rc Rd 11 11, Line JJ Rd Re Ra Rb Rc 6 8, Line JJ Rc Rd Re Ra Rb 15 5, Line JJ Rb Rc Rd Re Ra 13 6]"

definition right_lines :: "rline list" where
  "right_lines = [
     Line JJJ Ra Rb Rc Rd Re 5 8, Line JJJ Re Ra Rb Rc Rd 14 9, Line JJJ Rd Re Ra Rb Rc 7 9, Line JJJ Rc Rd Re Ra Rb 0 11,
     Line JJJ Rb Rc Rd Re Ra 9 13, Line JJJ Ra Rb Rc Rd Re 2 15, Line JJJ Re Ra Rb Rc Rd 11 15, Line JJJ Rd Re Ra Rb Rc 4 5,
     Line JJJ Rc Rd Re Ra Rb 13 7, Line JJJ Rb Rc Rd Re Ra 6 7, Line JJJ Ra Rb Rc Rd Re 15 8, Line JJJ Re Ra Rb Rc Rd 8 11,
     Line JJJ Rd Re Ra Rb Rc 1 14, Line JJJ Rc Rd Re Ra Rb 10 14, Line JJJ Rb Rc Rd Re Ra 3 12, Line JJJ Ra Rb Rc Rd Re 12 6,
     Line III Re Ra Rb Rc Rd 6 9, Line III Rd Re Ra Rb Rc 11 13, Line III Rc Rd Re Ra Rb 3 15, Line III Rb Rc Rd Re Ra 7 7,
     Line III Ra Rb Rc Rd Re 0 12, Line III Re Ra Rb Rc Rd 13 8, Line III Rd Re Ra Rb Rc 5 9, Line III Rc Rd Re Ra Rb 10 11,
     Line III Rb Rc Rd Re Ra 14 7, Line III Ra Rb Rc Rd Re 15 7, Line III Re Ra Rb Rc Rd 8 12, Line III Rd Re Ra Rb Rc 12 7,
     Line III Rc Rd Re Ra Rb 4 6, Line III Rb Rc Rd Re Ra 9 15, Line III Ra Rb Rc Rd Re 1 13, Line III Re Ra Rb Rc Rd 2 11,
     Line HHH Rd Re Ra Rb Rc 15 9, Line HHH Rc Rd Re Ra Rb 5 7, Line HHH Rb Rc Rd Re Ra 1 15, Line HHH Ra Rb Rc Rd Re 3 11,
     Line HHH Re Ra Rb Rc Rd 7 8, Line HHH Rd Re Ra Rb Rc 14 6, Line HHH Rc Rd Re Ra Rb 6 6, Line HHH Rb Rc Rd Re Ra 9 14,
     Line HHH Ra Rb Rc Rd Re 11 12, Line HHH Re Ra Rb Rc Rd 8 13, Line HHH Rd Re Ra Rb Rc 12 5, Line HHH Rc Rd Re Ra Rb 2 14,
     Line HHH Rb Rc Rd Re Ra 10 13, Line HHH Ra Rb Rc Rd Re 0 13, Line HHH Re Ra Rb Rc Rd 4 7, Line HHH Rd Re Ra Rb Rc 13 5,
     Line GGG Rc Rd Re Ra Rb 8 15, Line GGG Rb Rc Rd Re Ra 6 5, Line GGG Ra Rb Rc Rd Re 4 8, Line GGG Re Ra Rb Rc Rd 1 11,
     Line GGG Rd Re Ra Rb Rc 3 14, Line GGG Rc Rd Re Ra Rb 11 14, Line GGG Rb Rc Rd Re Ra 15 6, Line GGG Ra Rb Rc Rd Re 0 14,
     Line GGG Re Ra Rb Rc Rd 5 6, Line GGG Rd Re Ra Rb Rc 12 9, Line GGG Rc Rd Re Ra Rb 2 12, Line GGG Rb Rc Rd Re Ra 13 9,
     Line GGG Ra Rb Rc Rd Re 9 12, Line GGG Re Ra Rb Rc Rd 7 5, Line GGG Rd Re Ra Rb Rc 10 15, Line GGG Rc Rd Re Ra Rb 14 8,
     Line FFF Rb Rc Rd Re Ra 12 8, Line FFF Ra Rb Rc Rd Re 15 5, Line FFF Re Ra Rb Rc Rd 10 12, Line FFF Rd Re Ra Rb Rc 4 9,
     Line FFF Rc Rd Re Ra Rb 1 12, Line FFF Rb Rc Rd Re Ra 5 5, Line FFF Ra Rb Rc Rd Re 8 14, Line FFF Re Ra Rb Rc Rd 7 6,
     Line FFF Rd Re Ra Rb Rc 6 8, Line FFF Rc Rd Re Ra Rb 2 13, Line FFF Rb Rc Rd Re Ra 13 6, Line FFF Ra Rb Rc Rd Re 14 5,
     Line FFF Re Ra Rb Rc Rd 0 15, Line FFF Rd Re Ra Rb Rc 3 13, Line FFF Rc Rd Re Ra Rb 9 11, Line FFF Rb Rc Rd Re Ra 11 11]"

record mdbuf =
  md0 :: u32
  md1 :: u32
  md2 :: u32
  md3 :: u32
  md4 :: u32

definition MDinit :: mdbuf where
  "MDinit = \<lparr>md0 = 0x67452301, md1 = 0xefcdab89, md2 = 0x98badcfe, md3 = 0x10325476, md4 = 0xc3d2e1f0\<rparr>"

fun load_vars :: "mdbuf \<Rightarrow> reg \<Rightarrow> u32" where
  "load_vars h Ra = md0 h" | "load_vars h Rb = md1 h" | "load_vars h Rc = md2 h" | "load_vars h Rd = md3 h" | "load_vars h Re = md4 h"

definition compress :: "mdbuf \<Rightarrow> u32 list \<Rightarrow> mdbuf" where
  "compress h X =
     (let v = fold (exec_line X) left_lines (load_vars h);
          w = fold (exec_line X) right_lines (load_vars h);
          ddd = w Rd + (v Rc + md1 h)
      in \<lparr>md0 = ddd, md1 = md2 h + v Rd + w Re, md2 = md3 h + v Re + w Ra, md3 = md4 h + v Ra + w Rb, md4 = md0 h + v Rb + w Rc\<rparr>)"

subsection \<open>The message\<close>

text \<open>The loop over the bytes that are left; \<open>i\<close> counts them.\<close>

fun put_bytes :: "nat \<Rightarrow> u8 list \<Rightarrow> u32 list \<Rightarrow> u32 list" where
  "put_bytes i [] X = X"
| "put_bytes i (b # bs) X = put_bytes (Suc i) bs (X[i div 4 := X ! (i div 4) XOR push_bit (8 * (i mod 4)) (ucast b)])"

definition MDfinish :: "mdbuf \<Rightarrow> u8 list \<Rightarrow> u32 \<Rightarrow> u32 \<Rightarrow> mdbuf" where
  "MDfinish h strptr lswlen mswlen =
     (let X0 = put_bytes 0 (take (unat (lswlen AND 63)) strptr) (replicate 16 0);
          j = unat (drop_bit 2 lswlen AND 15);
          X1 = X0[j := X0 ! j XOR push_bit (8 * unat (lswlen AND 3) + 7) 1];
          (h1, X2) = (if unat (lswlen AND 63) > 55 then (compress h X1, replicate 16 0) else (h, X1));
          X3 = X2[14 := push_bit 3 lswlen];
          X4 = X3[15 := drop_bit 29 lswlen OR push_bit 3 mswlen]
      in compress h1 X4)"

text \<open>One block of sixteen words.\<close>

fun get_words :: "u8 list \<Rightarrow> u32 list" where
  "get_words (b0 # b1 # b2 # b3 # bs) = bytes_to_dword b0 b1 b2 b3 # get_words bs"
| "get_words _ = []"

text \<open>The loop over the blocks; it leaves the hash and the rest of the message.\<close>

function md_blocks :: "nat \<Rightarrow> u8 list \<Rightarrow> mdbuf \<Rightarrow> mdbuf \<times> u8 list" where
  "md_blocks nbytes msg h =
     (if nbytes > 63 then md_blocks (nbytes - 64) (drop 64 msg) (compress h (get_words (take 64 msg))) else (h, msg))"
  by pat_completeness auto
termination
  by (relation "measure fst") auto

declare md_blocks.simps [simp del]

definition dword_bytes :: "u32 \<Rightarrow> u8 list" where
  "dword_bytes w = [ucast w, ucast (drop_bit 8 w), ucast (drop_bit 16 w), ucast (drop_bit 24 w)]"

definition ripemd_160 :: "u8 list \<Rightarrow> u8 list" where
  "ripemd_160 data =
     (let len = (word_of_nat (length data) :: u32);
          (h, message) = md_blocks (unat len) data MDinit;
          h1 = MDfinish h message len 0
      in concat (map dword_bytes [md0 h1, md1 h1, md2 h1, md3 h1, md4 h1]))"

section \<open>The definition of RIPEMD-160\<close>

text \<open>The words are permuted by \<open>\<rho>\<close> from round to round, and by \<open>\<pi>\<close> at the beginning of the right line. The shift depends on the round and the
  word. Left and right line use the functions in opposite order.\<close>

definition rho :: "nat \<Rightarrow> nat" where
  "rho i = [7, 4, 13, 1, 10, 6, 15, 3, 12, 0, 9, 5, 2, 14, 11, 8] ! i"

definition pi_perm :: "nat \<Rightarrow> nat" where
  "pi_perm i = (9 * i + 5) mod 16"

definition shift_table :: "nat list list" where
  "shift_table =
    [[11, 14, 15, 12, 5, 8, 7, 9, 11, 13, 14, 15, 6, 7, 9, 8],
     [12, 13, 11, 15, 6, 9, 9, 7, 12, 15, 11, 13, 7, 8, 7, 7],
     [13, 15, 14, 11, 7, 7, 6, 8, 13, 14, 13, 12, 5, 5, 6, 9],
     [14, 11, 12, 14, 8, 6, 5, 5, 15, 12, 15, 14, 9, 9, 8, 6],
     [15, 12, 13, 13, 9, 5, 8, 6, 14, 11, 12, 11, 8, 6, 5, 5]]"

definition round_fun :: "nat \<Rightarrow> basic" where
  "round_fun k = [Fn_F, Fn_G, Fn_H, Fn_I, Fn_J] ! k"

definition const_left :: "nat \<Rightarrow> u32" where
  "const_left k = [0, 0x5a827999, 0x6ed9eba1, 0x8f1bbcdc, 0xa953fd4e] ! k"

definition const_right :: "nat \<Rightarrow> u32" where
  "const_right k = [0x50a28be6, 0x5c4dd124, 0x6d703ef3, 0x7a6d76e9, 0] ! k"

type_synonym rstep = "basic \<times> u32 \<times> nat \<times> nat"    \<comment> \<open>function, constant, word, shift\<close>

definition left_step :: "nat \<Rightarrow> rstep" where
  "left_step j = (let k = j div 16; w = (rho ^^ k) (j mod 16) in (round_fun k, const_left k, w, shift_table ! k ! w))"

definition right_step :: "nat \<Rightarrow> rstep" where
  "right_step j = (let k = j div 16; w = (rho ^^ k) (pi_perm (j mod 16)) in (round_fun (4 - k), const_right k, w, shift_table ! k ! w))"

type_synonym chain5 = "u32 \<times> u32 \<times> u32 \<times> u32 \<times> u32"

definition rol32 :: "nat \<Rightarrow> u32 \<Rightarrow> u32" where
  "rol32 n x = word_rotl n x"

fun ref_step :: "u32 list \<Rightarrow> rstep \<Rightarrow> chain5 \<Rightarrow> chain5" where
  "ref_step X (f, k, w, s) (A, B, C, D, E) = (E, rol32 s (A + basic_fun f B C D + X ! w + k) + E, B, rol32 10 C, D)"

fun ref_compress :: "chain5 \<Rightarrow> u32 list \<Rightarrow> chain5" where
  "ref_compress (h0, h1, h2, h3, h4) X =
     (let (A, B, C, D, E) = fold (ref_step X) (map left_step [0..<80]) (h0, h1, h2, h3, h4);
          (A', B', C', D', E') = fold (ref_step X) (map right_step [0..<80]) (h0, h1, h2, h3, h4)
      in (h1 + C + D', h2 + D + E', h3 + E + A', h4 + A + B', h0 + B + C'))"

text \<open>The padded message as words: a one bit, zeros up to the last two words of a block, and the number of bits.\<close>

definition ref_words :: "u8 list \<Rightarrow> u32 list" where
  "ref_words data = get_words (data @ 0x80 # replicate ((119 - length data mod 64) mod 64) 0)
     @ [word_of_nat (8 * length data), word_of_nat (8 * length data div 2 ^ 32)]"

fun in_blocks :: "u32 list \<Rightarrow> u32 list list" where
  "in_blocks [] = []"
| "in_blocks (w # ws) = take 16 (w # ws) # in_blocks (drop 15 ws)"

definition ref_hash :: "u8 list \<Rightarrow> u8 list" where
  "ref_hash data = (case fold (\<lambda>X h. ref_compress h X) (in_blocks (ref_words data)) (0x67452301, 0xefcdab89, 0x98badcfe, 0x10325476, 0xc3d2e1f0) of
      (h0, h1, h2, h3, h4) \<Rightarrow> concat (map dword_bytes [h0, h1, h2, h3, h4]))"

section \<open>The lines of the code are the steps of the definition\<close>

text \<open>Each line works on the variables in the roles of the line before, turned by one.\<close>

fun roles_turn :: "reg \<times> reg \<times> reg \<times> reg \<times> reg \<Rightarrow> rline list \<Rightarrow> bool" where
  "roles_turn _ [] \<longleftrightarrow> True"
| "roles_turn (a, b, c, d, e) (Line op a' b' c' d' e' x s # ls) \<longleftrightarrow>
     (a', b', c', d', e') = (a, b, c, d, e) \<and> roles_turn (e, a, b, c, d) ls"

fun line_step :: "rline \<Rightarrow> rstep" where
  "line_step (Line op a b c d e x s) = (macro_fun op, macro_const op, x, s)"

fun line_shift :: "rline \<Rightarrow> nat" where
  "line_shift (Line op a b c d e x s) = s"

fun view :: "reg \<times> reg \<times> reg \<times> reg \<times> reg \<Rightarrow> (reg \<Rightarrow> u32) \<Rightarrow> chain5" where
  "view (a, b, c, d, e) v = (v a, v b, v c, v d, v e)"

fun turned :: "nat \<Rightarrow> reg \<times> reg \<times> reg \<times> reg \<times> reg \<Rightarrow> reg \<times> reg \<times> reg \<times> reg \<times> reg" where
  "turned 0 r = r" | "turned (Suc n) (a, b, c, d, e) = turned n (e, a, b, c, d)"

lemma ROL_rotl: "0 < n \<Longrightarrow> n < 32 \<Longrightarrow> ROL x n = rol32 n x"
proof (rule bit_word_eqI)
  fix t
  assume n: "0 < n" "n < 32" and t: "t < LENGTH(32)"
  then have m: "(t + (32 - n)) mod 32 = (if t < n then t + (32 - n) else t - n)"
    by (auto simp: mod_if)
  have "bit (rol32 n x) t \<longleftrightarrow> bit x ((t + (32 - n)) mod 32)"
    using n t by (simp add: rol32_def bit_word_rotl_iff)
  moreover have "bit (ROL x n) t \<longleftrightarrow> bit x (if t < n then t + (32 - n) else t - n)"
    using n t by (auto simp: ROL_def bit_simps add.commute dest: bit_imp_le_length)
  ultimately show "bit (ROL x n) t = bit (rol32 n x) t" by (simp only: m)
qed

lemma lines_as_steps:
  assumes "roles_turn (a, b, c, d, e) ls" "distinct [a, b, c, d, e]" "\<forall>l\<in>set ls. 0 < line_shift l \<and> line_shift l < 32"
  shows "view (turned (length ls) (a, b, c, d, e)) (fold (exec_line X) ls v) = fold (ref_step X) (map line_step ls) (view (a, b, c, d, e) v)"
  using assms
proof (induction ls arbitrary: a b c d e v)
  case (Cons l ls)
  obtain op x s where l: "l = Line op a b c d e x s" using Cons.prems(1) by (cases l) auto
  have "view (e, a, b, c, d) (exec_line X l v) = ref_step X (line_step l) (view (a, b, c, d, e) v)"
    using Cons.prems(2,3) by (auto simp: l ROL_rotl Let_def ac_simps)
  moreover have "distinct [e, a, b, c, d]" using Cons.prems(2) by auto
  ultimately show ?case using Cons.IH [of e a b c d "exec_line X l v"] Cons.prems
    by (simp add: l del: exec_line.simps view.simps ref_step.simps line_step.simps)
qed simp

lemma left_lines_ok:
  "map line_step left_lines = map left_step [0..<80]" "roles_turn (Ra, Rb, Rc, Rd, Re) left_lines"
  "\<forall>l\<in>set left_lines. 0 < line_shift l \<and> line_shift l < 32"
  by (code_simp)+

lemma right_lines_ok:
  "map line_step right_lines = map right_step [0..<80]" "roles_turn (Ra, Rb, Rc, Rd, Re) right_lines"
  "\<forall>l\<in>set right_lines. 0 < line_shift l \<and> line_shift l < 32"
  by (code_simp)+

definition chain_of :: "mdbuf \<Rightarrow> chain5" where
  "chain_of h = (md0 h, md1 h, md2 h, md3 h, md4 h)"

lemma compress_ref: "ref_compress (chain_of h) X = chain_of (compress h X)"
proof -
  let ?r = "(Ra, Rb, Rc, Rd, Re)"
  have turn: "turned (length left_lines) ?r = ?r" "turned (length right_lines) ?r = ?r" by code_simp+
  have h: "view ?r (load_vars h) = chain_of h" by (simp add: chain_of_def)
  have "view ?r (fold (exec_line X) left_lines (load_vars h)) = fold (ref_step X) (map left_step [0..<80]) (chain_of h)"
    "view ?r (fold (exec_line X) right_lines (load_vars h)) = fold (ref_step X) (map right_step [0..<80]) (chain_of h)"
    using lines_as_steps [OF left_lines_ok(2) _ left_lines_ok(3), of X "load_vars h"]
      lines_as_steps [OF right_lines_ok(2) _ right_lines_ok(3), of X "load_vars h"]
    unfolding turn h left_lines_ok(1) right_lines_ok(1) by simp_all
  then show ?thesis
    by (simp add: compress_def chain_of_def Let_def ac_simps flip: view.simps split: prod.splits) (auto simp: ac_simps)
qed

section \<open>The padding\<close>

lemma put_bytes_append: "put_bytes i (xs @ ys) X = put_bytes (i + length xs) ys (put_bytes i xs X)"
  by (induction xs arbitrary: i X) simp_all

lemma put_bytes_zeros: "put_bytes i (replicate n 0) X = X"
  by (induction n arbitrary: i X) simp_all

lemma put_bytes_length [simp]: "length (put_bytes i bs X) = length X"
  by (induction i bs X rule: put_bytes.induct) simp_all

text \<open>Four bytes, put into a word one after the other.\<close>

lemma xor_bytes:
  "((ucast b0 XOR push_bit 8 (ucast b1)) XOR push_bit 16 (ucast b2)) XOR push_bit 24 (ucast b3) = bytes_to_dword b0 b1 b2 b3"
  by (rule bit_word_eqI) (auto simp: bytes_to_dword_def bit_simps dest: bit_imp_le_length)

lemma put_four:
  assumes "j < length X" "X ! j = 0"
  shows "put_bytes (4 * j) [b0, b1, b2, b3] X = X[j := bytes_to_dword b0 b1 b2 b3]"
proof -
  have "(4 * j) div 4 = j" "(4 * j) mod 4 = 0" "Suc (4 * j) div 4 = j" "Suc (4 * j) mod 4 = 1"
    "Suc (Suc (4 * j)) div 4 = j" "Suc (Suc (4 * j)) mod 4 = 2" "Suc (Suc (Suc (4 * j))) div 4 = j" "Suc (Suc (Suc (4 * j))) mod 4 = 3"
    by presburger+
  then show ?thesis using assms by (simp add: xor_bytes)
qed

lemma get_words_length: "length (get_words bs) = length bs div 4"
  by (induction bs rule: get_words.induct) simp_all

lemma get_words_append: "length xs mod 4 = 0 \<Longrightarrow> get_words (xs @ ys) = get_words xs @ get_words ys"
  by (induction xs rule: get_words.induct) (simp_all add: mod_Suc split: if_splits)

lemma put_bytes_words:
  assumes "length bs = 4 * m"
  shows "put_bytes (4 * length ws) bs (ws @ replicate m 0) = ws @ get_words bs"
  using assms
proof (induction m arbitrary: bs ws)
  case (Suc m)
  then have "length bs = Suc (Suc (Suc (Suc (4 * m))))" by simp
  then obtain b0 b1 b2 b3 cs where bs: "bs = b0 # b1 # b2 # b3 # cs" "length cs = 4 * m"
    unfolding length_Suc_conv by blast
  let ?w = "bytes_to_dword b0 b1 b2 b3"
  have e: "4 * length ws + length [b0, b1, b2, b3] = 4 * length (ws @ [?w])" by simp
  have "put_bytes (4 * length ws) bs (ws @ replicate (Suc m) 0) = put_bytes (4 * length (ws @ [?w])) cs (put_bytes (4 * length ws) [b0, b1, b2, b3] (ws @ replicate (Suc m) 0))"
    using put_bytes_append [of "4 * length ws" "[b0, b1, b2, b3]" cs "ws @ replicate (Suc m) 0"] unfolding bs(1) e by (simp only: append.simps)
  also have "put_bytes (4 * length ws) [b0, b1, b2, b3] (ws @ replicate (Suc m) 0) = (ws @ [?w]) @ replicate m 0"
    by (subst put_four) (simp_all add: nth_append)
  also have "put_bytes (4 * length (ws @ [?w])) cs ((ws @ [?w]) @ replicate m 0) = (ws @ [?w]) @ get_words cs"
    using Suc.IH [OF bs(2)] .
  finally show ?case by (simp add: bs(1))
qed simp

text \<open>The arithmetic on the length.\<close>

lemma length_word:
  fixes w :: u32
  assumes "n < 2 ^ 32" "w = word_of_nat n"
  shows "unat w = n" "unat (w AND 63) = n mod 64" "unat (w AND 3) = n mod 4" "unat (drop_bit 2 w AND 15) = n mod 64 div 4"
    "push_bit 3 w = word_of_nat (8 * n)" "drop_bit 29 w = word_of_nat (8 * n div 2 ^ 32)"
proof -
  have n: "unat w = n" using assms by (simp add: unat_of_nat take_bit_nat_eq_self)
  have m: "(63 :: u32) = mask 6" "(3 :: u32) = mask 2" "(15 :: u32) = mask 4" by (simp_all add: mask_eq_exp_minus_1)
  show "unat w = n" by (rule n)
  have low: "unat (v AND mask k) = unat v mod 2 ^ k" for v :: u32 and k
    unfolding take_bit_eq_mask [symmetric] unsigned_take_bit_eq by (simp add: take_bit_eq_mod)
  have high: "unat (drop_bit k w) = n div 2 ^ k" for k unfolding unat_drop_bit_eq n by (simp add: drop_bit_eq_div)
  show "unat (w AND 63) = n mod 64" "unat (w AND 3) = n mod 4" unfolding m low n by simp_all
  have "unat (drop_bit 2 w AND 15) = n div 4 mod 16" unfolding m low high by simp
  then show "unat (drop_bit 2 w AND 15) = n mod 64 div 4" by (simp add: mod_mult2_eq [of n 4 16, simplified])
  show "push_bit 3 w = word_of_nat (8 * n)" by (simp add: assms(2) push_bit_eq_mult)
  have "8 * n div 2 ^ 32 = n div 2 ^ 29" by simp
  moreover have "n div 2 ^ 29 < 2 ^ 32" using assms(1) by (simp add: div_less_dividend less_mult_imp_div_less)
  ultimately have "unat (drop_bit 29 w) = unat (word_of_nat (8 * n div 2 ^ 32) :: u32)"
    by (simp add: high unat_of_nat take_bit_nat_eq_self)
  then show "drop_bit 29 w = word_of_nat (8 * n div 2 ^ 32)" by (rule unsigned_word_eqI)
qed

text \<open>The block \<open>MDfinish\<close> starts with.\<close>

lemma first_tail_block:
  assumes "length r < 64"
  defines "X0 \<equiv> put_bytes 0 r (replicate 16 0)"
  shows "X0[length r div 4 := X0 ! (length r div 4) XOR push_bit (8 * (length r mod 4) + 7) 1] = get_words (r @ 0x80 # replicate (63 - length r) 0)"
proof -
  have "push_bit (8 * (length r mod 4)) (ucast (0x80 :: u8) :: u32) = push_bit (8 * (length r mod 4) + 7) 1"
  proof -
    have "(ucast (0x80 :: u8) :: u32) = push_bit 7 1" by simp
    then show ?thesis by (simp only: push_bit_push_bit)
  qed
  then have "X0[length r div 4 := X0 ! (length r div 4) XOR push_bit (8 * (length r mod 4) + 7) 1] = put_bytes (length r) [0x80] X0" by simp
  also have "\<dots> = put_bytes 0 (r @ 0x80 # replicate (63 - length r) 0) ([] @ replicate 16 0)"
    using put_bytes_append [of 0 "r @ [0x80]" "replicate (63 - length r) 0" "replicate 16 0"] put_bytes_append [of 0 r "[0x80]" "replicate 16 0"]
    by (simp add: X0_def put_bytes_zeros)
  also have "\<dots> = get_words (r @ 0x80 # replicate (63 - length r) 0)"
    using put_bytes_words [of "r @ 0x80 # replicate (63 - length r) 0" 16 "[]"] assms(1) by simp
  finally show ?thesis .
qed

lemma get_zeros: "get_words (replicate (4 * n) 0) = replicate n 0"
proof (induction n)
  case (Suc n)
  have "replicate (4 * Suc n) (0 :: u8) = 0 # 0 # 0 # 0 # replicate (4 * n) 0" by (simp add: numeral_eq_Suc)
  then show ?case using Suc by (simp add: bytes_to_dword_def)
qed simp

lemma zero_block: "(replicate 16 (0 :: u32))[14 := a, 15 := b] = replicate 14 0 @ [a, b]"
  by (simp add: numeral_eq_Suc)

definition tail_blocks :: "u8 list \<Rightarrow> u32 \<Rightarrow> u32 \<Rightarrow> u32 list list" where
  "tail_blocks r lo hi =
     (if length r > 55 then [get_words (r @ 0x80 # replicate (63 - length r) 0), replicate 14 0 @ [lo, hi]]
      else [get_words (r @ 0x80 # replicate (55 - length r) 0) @ [lo, hi]])"

lemma MDfinish_blocks:
  assumes "n < 2 ^ 32" "length r = n mod 64"
  shows "MDfinish h r (word_of_nat n) 0 = fold (\<lambda>X h. compress h X) (tail_blocks r (word_of_nat (8 * n)) (word_of_nat (8 * n div 2 ^ 32))) h"
proof -
  note lw = length_word [OF assms(1) refl]
  have l: "length r < 64" "n mod 4 = length r mod 4" using assms(2) by (simp_all add: mod_mod_cancel)
  let ?X1 = "get_words (r @ 0x80 # replicate (63 - length r) 0)"
  let ?lo = "word_of_nat (8 * n) :: u32" and ?hi = "word_of_nat (8 * n div 2 ^ 32) :: u32"
  have "MDfinish h r (word_of_nat n) 0 =
     (let (h1, X2) = (if length r > 55 then (compress h ?X1, replicate 16 0) else (h, ?X1))
      in compress h1 (X2[14 := ?lo, 15 := ?hi]))"
    unfolding MDfinish_def Let_def lw l(2) assms(2) [symmetric]
    by (simp only: first_tail_block [OF l(1)] take_all order_refl push_bit_of_0 or.right_neutral)
  moreover have "(replicate 16 0)[14 := ?lo, 15 := ?hi] = replicate 14 0 @ [?lo, ?hi]" by (rule zero_block)
  moreover have "?X1[14 := ?lo, 15 := ?hi] = get_words (r @ 0x80 # replicate (55 - length r) 0) @ [?lo, ?hi]" if "length r \<le> 55"
  proof -
    have "replicate (63 - length r) (0 :: u8) = replicate (55 - length r) 0 @ replicate (4 * 2) 0" using that by (simp flip: replicate_add)
    then have "?X1 = get_words (r @ 0x80 # replicate (55 - length r) 0) @ [0, 0]"
      using get_words_append [of "r @ 0x80 # replicate (55 - length r) 0" "replicate (4 * 2) 0"] get_zeros [of 2] that by (simp add: numeral_2_eq_2)
    moreover have "length (get_words (r @ 0x80 # replicate (55 - length r) 0)) = 14" using that by (simp add: get_words_length)
    ultimately show ?thesis by (simp add: list_update_append)
  qed
  ultimately show ?thesis by (auto simp: tail_blocks_def)
qed

section \<open>The message in blocks\<close>

lemma in_blocks_block: "length b = 16 \<Longrightarrow> in_blocks (b @ ws) = b # in_blocks ws"
  by (cases b) simp_all

abbreviation hash_blocks :: "u32 list list \<Rightarrow> mdbuf \<Rightarrow> mdbuf" where
  "hash_blocks bs h \<equiv> fold (\<lambda>X h. compress h X) bs h"

text \<open>The loop over the blocks leaves the rest of the message.\<close>

lemma md_blocks_rest:
  "\<exists>h' r. md_blocks (length msg) msg h = (h', r) \<and> length r = length msg mod 64
     \<and> (\<forall>ys ws. hash_blocks (in_blocks (get_words (msg @ ys) @ ws)) h = hash_blocks (in_blocks (get_words (r @ ys) @ ws)) h')"
proof (induction "length msg" arbitrary: msg h rule: less_induct)
  case less
  show ?case
  proof (cases "length msg > 63")
    case True
    let ?b = "take 64 msg" and ?m = "drop 64 msg"
    let ?h = "compress h (get_words ?b)"
    have b: "length ?b mod 4 = 0" "length (get_words ?b) = 16" using True by (simp_all add: get_words_length)
    have "length ?m < length msg" using True by simp
    then obtain h' r where r: "md_blocks (length ?m) ?m ?h = (h', r)" "length r = length ?m mod 64"
      "\<forall>ys ws. hash_blocks (in_blocks (get_words (?m @ ys) @ ws)) ?h = hash_blocks (in_blocks (get_words (r @ ys) @ ws)) h'"
      using less [of ?m ?h] by blast
    have "md_blocks (length msg) msg h = (h', r)" using True r(1) by (subst md_blocks.simps) simp
    moreover have "length r = length msg mod 64" using r(2) True by (simp add: le_mod_geq)
    moreover have "hash_blocks (in_blocks (get_words (msg @ ys) @ ws)) h = hash_blocks (in_blocks (get_words (r @ ys) @ ws)) h'" for ys ws
    proof -
      have "get_words (msg @ ys) = get_words ?b @ get_words (?m @ ys)"
        using get_words_append [OF b(1), of "?m @ ys"] by (metis append_assoc append_take_drop_id)
      then show ?thesis using in_blocks_block [OF b(2), of "get_words (?m @ ys) @ ws"] r(3) by simp
    qed
    ultimately show ?thesis by blast
  next
    case False
    then show ?thesis by (subst md_blocks.simps) auto
  qed
qed

lemma tail_in_blocks:
  assumes "length r < 64"
  shows "in_blocks (get_words (r @ 0x80 # replicate ((119 - length r) mod 64) 0) @ [lo, hi]) = tail_blocks r lo hi"
proof (cases "length r > 55")
  case True
  let ?b = "r @ 0x80 # replicate (63 - length r) (0 :: u8)"
  have "(119 - length r) mod 64 = (63 - length r) + 4 * 14" using True assms by simp
  then have "r @ 0x80 # replicate ((119 - length r) mod 64) 0 = ?b @ replicate (4 * 14) 0" by (simp only: replicate_add append_assoc append_Cons)
  then have "get_words (r @ 0x80 # replicate ((119 - length r) mod 64) 0) = get_words ?b @ replicate 14 0"
    using get_words_append [of ?b "replicate (4 * 14) 0"] get_zeros [of 14] assms by simp
  moreover have "length (get_words ?b) = 16" using assms by (simp add: get_words_length)
  ultimately show ?thesis using True in_blocks_block [of "get_words ?b" "replicate 14 0 @ [lo, hi]"]
    in_blocks_block [of "replicate 14 0 @ [lo, hi]" "[]"] by (simp add: tail_blocks_def)
next
  case False
  have "119 - length r = 64 + (55 - length r)" using False by simp
  then have "(119 - length r) mod 64 = 55 - length r" by (simp only: mod_add_self1) simp
  moreover have "length (get_words (r @ 0x80 # replicate (55 - length r) 0)) = 14" using False by (simp add: get_words_length)
  ultimately show ?thesis
    using False in_blocks_block [of "get_words (r @ 0x80 # replicate (55 - length r) 0) @ [lo, hi]" "[]"] by (simp add: tail_blocks_def)
qed

lemma ref_fold: "fold (\<lambda>X h. ref_compress h X) bs (chain_of h) = chain_of (hash_blocks bs h)"
  by (induction bs arbitrary: h) (simp_all add: compress_ref)

text \<open>
  C29. The unrolled code computes RIPEMD-160 as its authors define it, for every string shorter than 4 GiB: the hundred and sixty lines of \<open>compress\<close>, which
  keep the variables in place and turn their roles, are the steps given by the permutations and the table of shifts; and
  the loop over the blocks with \<open>MDfinish\<close> processes the padded message.
\<close>

theorem ripemd_160_correct:
  assumes "length data < 2 ^ 32"
  shows "ripemd_160 data = ref_hash data"
proof -
  let ?n = "length data"
  let ?lo = "word_of_nat (8 * ?n) :: u32" and ?hi = "word_of_nat (8 * ?n div 2 ^ 32) :: u32"
  let ?pad = "0x80 # replicate ((119 - ?n mod 64) mod 64) (0 :: u8)"
  obtain h' r where r: "md_blocks ?n data MDinit = (h', r)" "length r = ?n mod 64"
    "\<forall>ys ws. hash_blocks (in_blocks (get_words (data @ ys) @ ws)) MDinit = hash_blocks (in_blocks (get_words (r @ ys) @ ws)) h'"
    using md_blocks_rest [of data MDinit] by blast
  have "MDfinish h' r (word_of_nat ?n) 0 = hash_blocks (tail_blocks r ?lo ?hi) h'" using MDfinish_blocks [OF assms r(2)] .
  also have "\<dots> = hash_blocks (in_blocks (get_words (r @ ?pad) @ [?lo, ?hi])) h'"
    using tail_in_blocks [of r ?lo ?hi] by (simp only: r(2))
  also have "\<dots> = hash_blocks (in_blocks (ref_words data)) MDinit" using r(3) by (simp only: ref_words_def)
  finally have fin: "MDfinish h' r (word_of_nat ?n) 0 = hash_blocks (in_blocks (ref_words data)) MDinit" .
  have "chain_of MDinit = (0x67452301, 0xefcdab89, 0x98badcfe, 0x10325476, 0xc3d2e1f0)" by (simp add: chain_of_def MDinit_def)
  then have "fold (\<lambda>X h. ref_compress h X) (in_blocks (ref_words data)) (0x67452301, 0xefcdab89, 0x98badcfe, 0x10325476, 0xc3d2e1f0)
      = chain_of (MDfinish h' r (word_of_nat ?n) 0)" using ref_fold [of "in_blocks (ref_words data)" MDinit] fin by simp
  moreover have "unat (word_of_nat ?n :: u32) = ?n" using length_word(1) [OF assms refl] .
  ultimately show ?thesis by (simp add: ripemd_160_def ref_hash_def r(1) chain_of_def Let_def)
qed

theorem ripemd_160_correct_witness:
  "length [0x61, 0x62, 0x63 :: u8] < 2 ^ 32 \<and> ripemd_160 [0x61, 0x62, 0x63] = ref_hash [0x61, 0x62, 0x63]"
  using ripemd_160_correct [of "[0x61, 0x62, 0x63]"] by simp

text \<open>The length is kept in 32 bits: a longer string is cut to its length modulo \<open>2\<^sup>3\<^sup>2\<close>.\<close>

lemma long_string_truncated:
  assumes "length data = 2 ^ 32"
  shows "ripemd_160 data = ripemd_160 []"
proof -
  have "(word_of_nat (length data) :: u32) = 0" unfolding assms by (simp add: word_of_nat_eq_0_iff)
  then show ?thesis by (simp add: ripemd_160_def MDfinish_def md_blocks.simps)
qed

end
