(* ===== verification/Type_Info_Map.thy ===== *)
theory Type_Info_Map
  imports Binary_Serialization "HOL-Library.Char_ord" "HOL-Library.List_Lexorder"
begin

text \<open>
  The table of types (libcaf_core/src/uniform_type_info_map.cpp, src/uniform_type_info.cpp): built-in types, types announced by
  the program, and types of messages, which are made when their name is first looked up. Both parts of the table are
  sorted by name and searched by bisection. Also \<open>split\<close> of src/string_algorithms.cpp, which takes the name of a message type
  apart. The locks of the table make each operation one step.
\<close>

section \<open>Model\<close>

subsection \<open>Splitting strings\<close>

text \<open>The loop of \<open>split\<close>, on what is left of the string.\<close>

function split_str :: "string \<Rightarrow> string \<Rightarrow> bool \<Rightarrow> string list" where
  "split_str str delims keep_all =
     (let substr = takeWhile (\<lambda>c. c \<notin> set delims) str; rest = dropWhile (\<lambda>c. c \<notin> set delims) str
      in if rest \<noteq> []
         then (if substr \<noteq> [] then (if substr \<noteq> [] \<or> keep_all then [substr] else []) else []) @ split_str (tl rest) delims keep_all
         else if substr \<noteq> [] then [substr] else [])"
  by pat_completeness auto
termination
  by (relation "measure (\<lambda>(str, _). length str)")
    (auto simp: length_dropWhile_le less_le_trans [OF diff_less length_dropWhile_le])

declare split_str.simps [simp del]

subsection \<open>Names\<close>

text \<open>The built-in types, in the order of \<open>builtin_types\<close>.\<close>

datatype builtin =
    Bi_node | Bi_channel | Bi_down | Bi_exit | Bi_actor | Bi_addr | Bi_group | Bi_group_down | Bi_message | Bi_message_id
  | Bi_duration | Bi_sync_exited | Bi_sync_timeout | Bi_timeout | Bi_unit | Bi_atom | Bi_str | Bi_u16str | Bi_u32str | Bi_strmap
  | Bi_bool | Bi_float | Bi_double | Bi_ldouble | Bi_int int_type | Bi_charbuf | Bi_strvec

definition storage :: "builtin list" where
  "storage = [Bi_node, Bi_channel, Bi_down, Bi_exit, Bi_actor, Bi_addr, Bi_group, Bi_group_down, Bi_message, Bi_message_id,
     Bi_duration, Bi_sync_exited, Bi_sync_timeout, Bi_timeout, Bi_unit, Bi_atom, Bi_str, Bi_u16str, Bi_u32str, Bi_strmap,
     Bi_bool, Bi_float, Bi_double, Bi_ldouble, Bi_int Ty_i8, Bi_int Ty_u8, Bi_int Ty_i16, Bi_int Ty_u16, Bi_int Ty_i32,
     Bi_int Ty_u32, Bi_int Ty_i64, Bi_int Ty_u64, Bi_charbuf, Bi_strvec]"

definition mapped_type_names :: "(string \<times> string) list" where
  "mapped_type_names = [
     (''bool'', ''bool''), (''caf::actor'', ''@actor''), (''caf::actor_addr'', ''@addr''), (''caf::atom_value'', ''@atom''),
     (''caf::channel'', ''@channel''), (''caf::down_msg'', ''@down''), (''caf::duration'', ''@duration''), (''caf::exit_msg'', ''@exit''),
     (''caf::group'', ''@group''), (''caf::group_down_msg'', ''@group_down''), (''caf::message'', ''@message''),
     (''caf::message_id'', ''@message_id''), (''caf::node_id'', ''@node''), (''caf::sync_exited_msg'', ''@sync_exited''),
     (''caf::sync_timeout_msg'', ''@sync_timeout''), (''caf::timeout_msg'', ''@timeout''), (''caf::unit_t'', ''@unit''),
     (''double'', ''double''), (''float'', ''float''), (''long double'', ''@ldouble''),
     (''std::basic_string<@i8,std::char_traits<@i8>,std::allocator<@i8>>'', ''@str''),
     (''std::basic_string<@u16,std::char_traits<@u16>,std::allocator<@u16>>'', ''@u16str''),
     (''std::basic_string<@u32,std::char_traits<@u32>,std::allocator<@u32>>'', ''@u32str''),
     (''std::map<@str,@str,std::less<@str>,std::allocator<std::pair<const @str,@str>>>'', ''@strmap''),
     (''std::vector<@i8,std::allocator<@i8>>'', ''@charbuf''),
     (''std::vector<@str,std::allocator<@str>>'', ''@strvec'')]"

definition static_type_table :: "builtin list" where
  "static_type_table = [Bi_bool, Bi_actor, Bi_addr, Bi_atom, Bi_channel, Bi_down, Bi_duration, Bi_exit, Bi_group, Bi_group_down,
     Bi_message, Bi_message_id, Bi_node, Bi_sync_exited, Bi_sync_timeout, Bi_timeout, Bi_unit, Bi_double, Bi_float, Bi_ldouble,
     Bi_str, Bi_u16str, Bi_u32str, Bi_strmap, Bi_charbuf]"

text \<open>\<open>tl_find\<close> and \<open>mapped_name\<close>.\<close>

definition tl_find :: "'a list \<Rightarrow> 'a \<Rightarrow> nat" where
  "tl_find ts t = length (takeWhile (\<lambda>u. u \<noteq> t) ts)"

definition mapped_name :: "builtin \<Rightarrow> string" where
  "mapped_name t = snd (mapped_type_names ! tl_find static_type_table t)"

definition mapped_int_names :: "(string \<times> string) list" where
  "mapped_int_names = [([], []), (''@u8'', ''@i8''), (''@u16'', ''@i16''), ([], []), (''@u32'', ''@i32''), ([], []), ([], []), ([], []),
     (''@u64'', ''@i64'')]"

definition mapped_int_name :: "int_type \<Rightarrow> string" where
  "mapped_int_name t = (let names = mapped_int_names ! width t in if int_min t < 0 then snd names else fst names)"

definition mapped_name_by_decorated_name :: "string \<Rightarrow> string" where
  "mapped_name_by_decorated_name cstr = (case List.find (\<lambda>p. fst p = cstr) mapped_type_names of
      Some p \<Rightarrow> snd p
    | None \<Rightarrow> if cstr = ''std::string'' then mapped_name Bi_str else cstr)"

text \<open>The name of a built-in type. Those of containers go through the name that the compiler gives them.\<close>

definition builtin_name :: "builtin \<Rightarrow> string" where
  "builtin_name b = (case b of
      Bi_int t \<Rightarrow> mapped_int_name t
    | Bi_strmap \<Rightarrow> mapped_name_by_decorated_name ''std::map<@str,@str,std::less<@str>,std::allocator<std::pair<const @str,@str>>>''
    | Bi_charbuf \<Rightarrow> mapped_name_by_decorated_name ''std::vector<@i8,std::allocator<@i8>>''
    | Bi_strvec \<Rightarrow> mapped_name_by_decorated_name ''std::vector<@str,std::allocator<@str>>''
    | _ \<Rightarrow> mapped_name b)"

subsection \<open>Types\<close>

text \<open>
  A type is built-in, announced with a name, the number of its native type and the way its members are serialized, or the type
  of a message, with pointers to the types of its elements. The second type lists the overloads of
  \<open>default_serialize_policy\<close> that are modelled.
\<close>

datatype tinfo =
    TI_builtin builtin
  | TI_user string nat "ser list"
  | TI_meta string "tinfo option list"
and ser =
    S_prim btype
  | S_list ser
  | S_pair ser ser
  | S_opt ser
  | S_rec tinfo

text \<open>A name is returned as a C string, which ends at the first zero byte.\<close>

definition cstr :: "string \<Rightarrow> string" where
  "cstr s = takeWhile (\<lambda>c. c \<noteq> CHR 0x00) s"

fun ti_name :: "tinfo \<Rightarrow> string" where
  "ti_name (TI_builtin b) = builtin_name b"
| "ti_name (TI_user name _ _) = cstr name"
| "ti_name (TI_meta name _) = cstr name"

text \<open>Native types: the integer types of C++ with their sizes and signs on 64-bit Linux, and all others.\<close>

datatype c_int = C_char | C_schar | C_uchar | C_short | C_ushort | C_int | C_uint | C_long | C_ulong | C_llong | C_ullong
  | C_wchar | C_char16 | C_char32

datatype rtti = Rt_int c_int | Rt_builtin builtin | Rt_user nat

definition native_int :: "c_int \<Rightarrow> int_type" where
  "native_int c = (case c of C_char \<Rightarrow> Ty_i8 | C_schar \<Rightarrow> Ty_i8 | C_uchar \<Rightarrow> Ty_u8 | C_short \<Rightarrow> Ty_i16 | C_ushort \<Rightarrow> Ty_u16
     | C_int \<Rightarrow> Ty_i32 | C_uint \<Rightarrow> Ty_u32 | C_long \<Rightarrow> Ty_i64 | C_ulong \<Rightarrow> Ty_u64 | C_llong \<Rightarrow> Ty_i64 | C_ullong \<Rightarrow> Ty_u64
     | C_wchar \<Rightarrow> Ty_i32 | C_char16 \<Rightarrow> Ty_u16 | C_char32 \<Rightarrow> Ty_u32)"

fun equal_to :: "rtti \<Rightarrow> tinfo \<Rightarrow> bool" where
  "equal_to (Rt_int c) (TI_builtin (Bi_int t)) \<longleftrightarrow> native_int c = t"
| "equal_to (Rt_builtin b) (TI_builtin b') \<longleftrightarrow> b = b' \<and> (\<forall>t. b \<noteq> Bi_int t)"
| "equal_to (Rt_user n) (TI_user _ n' _) \<longleftrightarrow> n = n'"
| "equal_to _ _ \<longleftrightarrow> False"

subsection \<open>The table\<close>

record type_map =
  m_builtin_types :: "tinfo list"
  m_user_types :: "tinfo list"

definition initialize :: type_map where
  "initialize = \<lparr>m_builtin_types = sort_key ti_name (map TI_builtin storage), m_user_types = []\<rparr>"

definition find_rtti :: "tinfo list \<Rightarrow> rtti \<Rightarrow> tinfo option" where
  "find_rtti c ti = List.find (equal_to ti) c"

definition by_rtti :: "rtti \<Rightarrow> type_map \<Rightarrow> tinfo option" where
  "by_rtti ti m = (case find_rtti (m_builtin_types m) ti of Some t \<Rightarrow> Some t | None \<Rightarrow> find_rtti (m_user_types m) ti)"

text \<open>The position of \<open>std::lower_bound\<close> in a sorted range.\<close>

definition lower_bound_by :: "(tinfo \<Rightarrow> bool) \<Rightarrow> tinfo list \<Rightarrow> nat" where
  "lower_bound_by before c = length (takeWhile before c)"

definition find_name :: "tinfo list \<Rightarrow> string \<Rightarrow> tinfo option" where
  "find_name c name = (let i = lower_bound_by (\<lambda>p. ti_name p < name) c
     in if i < length c \<and> ti_name (c ! i) = name then Some (c ! i) else None)"

definition tm_insert :: "tinfo \<Rightarrow> type_map \<Rightarrow> tinfo \<times> type_map" where
  "tm_insert uti m =
     (let c = m_user_types m; i = lower_bound_by (\<lambda>lhs. ti_name lhs < ti_name uti) c
      in if i = length c then (uti, m\<lparr>m_user_types := c @ [uti]\<rparr>)
         else if ti_name uti = ti_name (c ! i) then (c ! i, m)
         else (uti, m\<lparr>m_user_types := take i c @ uti # drop i c\<rparr>))"

text \<open>The first half of \<open>by_uniform_name\<close>, under the lock.\<close>

definition tm_find :: "type_map \<Rightarrow> string \<Rightarrow> tinfo option" where
  "tm_find m name = (case find_name (m_builtin_types m) name of Some t \<Rightarrow> Some t | None \<Rightarrow> find_name (m_user_types m) name)"

text \<open>Names that \<open>split\<close> returns are shorter than the string, all together.\<close>

lemma split_str_length: "sum_list (map (\<lambda>e. length e + 1) (split_str str delims k)) \<le> length str + 1"
proof (induction str delims k rule: split_str.induct)
  case (1 str delims k)
  let ?P = "\<lambda>c. c \<notin> set delims"
  have len: "length str = length (takeWhile ?P str) + length (dropWhile ?P str)"
    by (metis length_append takeWhile_dropWhile_id)
  show ?case
  proof (cases "dropWhile ?P str")
    case Nil
    then show ?thesis using len by (subst split_str.simps) (simp add: Let_def)
  next
    case (Cons c rest)
    with 1 [OF refl refl] len show ?thesis by (subst split_str.simps) (auto simp: Let_def)
  qed
qed

lemma split_str_first:
  assumes "str \<noteq> []" "hd str \<notin> set delims"
  obtains e es where "split_str str delims k = e # es" "e \<noteq> []"
proof -
  let ?e = "takeWhile (\<lambda>c. c \<notin> set delims) str"
  have e: "?e \<noteq> []" using assms by (cases str) auto
  then have "split_str str delims k = ?e # (if dropWhile (\<lambda>c. c \<notin> set delims) str \<noteq> []
      then split_str (tl (dropWhile (\<lambda>c. c \<notin> set delims) str)) delims k else [])"
    by (subst split_str.simps) (simp add: Let_def)
  with e show thesis using that by blast
qed

text \<open>
  \<open>by_uniform_name\<close> with the constructor of \<open>default_meta_message\<close>, which looks up the names of the elements, but for the
  first one, and stores what it gets, be it a null pointer.
\<close>

function by_uniform_name :: "string \<Rightarrow> type_map \<Rightarrow> tinfo option \<times> type_map"
  and meta_elements :: "string list \<Rightarrow> type_map \<Rightarrow> tinfo option list \<times> type_map" where
  "by_uniform_name name m = (case tm_find m name of
      Some t \<Rightarrow> (Some t, m)
    | None \<Rightarrow>
        if take 3 name = ''@<>''
        then (let (es, m1) = meta_elements (tl (split_str name ''+'' True)) m; (t, m2) = tm_insert (TI_meta name es) m1
              in (Some t, m2))
        else (None, m))"
| "meta_elements [] m = ([], m)"
| "meta_elements (e # es) m =
     (let (t, m1) = by_uniform_name e m; (ts, m2) = meta_elements es m1 in (t # ts, m2))"
  by pat_completeness auto
termination
proof (relation "measure (\<lambda>x. case x of Inl (name, _) \<Rightarrow> 2 * length name + 1 | Inr (es, _) \<Rightarrow> sum_list (map (\<lambda>e. 2 * length e + 2) es))")
  fix name and m :: type_map
  assume "take 3 name = ''@<>''"
  then have "name \<noteq> []" "hd name \<notin> set ''+''" by (cases name; auto)+
  then obtain e es where es: "split_str name ''+'' True = e # es" "e \<noteq> []" by (rule split_str_first)
  have "sum_list (map (\<lambda>e. 2 * length e + 2) es) = 2 * sum_list (map (\<lambda>e. length e + 1) es)" by (induction es) auto
  moreover have "0 < length e" using es(2) by simp
  ultimately have "sum_list (map (\<lambda>e. 2 * length e + 2) (tl (split_str name ''+'' True))) < 2 * length name + 1"
    using split_str_length [of name "''+''" True] es(1) by simp
  then show "(Inr (tl (split_str name ''+'' True), m), Inl (name, m))
      \<in> measure (\<lambda>x. case x of Inl (name, _) \<Rightarrow> 2 * length name + 1 | Inr (es, _) \<Rightarrow> sum_list (map (\<lambda>e. 2 * length e + 2) es))" by simp
qed auto

declare by_uniform_name.simps [simp del]

definition get_all :: "type_map \<Rightarrow> tinfo list" where
  "get_all m = m_builtin_types m @ m_user_types m"

text \<open>The functions of \<open>uniform_type_info\<close> that throw for unknown types, and \<open>announce\<close>.\<close>

datatype type_error = Unknown_type_name string | Unknown_typeid rtti

definition from_name :: "string \<Rightarrow> type_map \<Rightarrow> (type_error + tinfo) \<times> type_map" where
  "from_name name m = (case by_uniform_name name m of
      (Some t, m1) \<Rightarrow> (Inr t, m1) | (None, m1) \<Rightarrow> (Inl (Unknown_type_name name), m1))"

definition from_rtti :: "rtti \<Rightarrow> type_map \<Rightarrow> type_error + tinfo" where
  "from_rtti ti m = (case by_rtti ti m of Some t \<Rightarrow> Inr t | None \<Rightarrow> Inl (Unknown_typeid ti))"

definition announce :: "tinfo \<Rightarrow> type_map \<Rightarrow> tinfo \<times> type_map" where
  "announce utype m = tm_insert utype m"

section \<open>Splitting\<close>

lemma takeWhile_no_delim: "set e \<inter> set delims = {} \<Longrightarrow> takeWhile (\<lambda>c. c \<notin> set delims) e = e \<and> dropWhile (\<lambda>c. c \<notin> set delims) e = []"
  by (induction e) auto

lemma span_delim:
  assumes "set e \<inter> set delims = {}" "d \<in> set delims"
  shows "takeWhile (\<lambda>c. c \<notin> set delims) (e @ d # rest) = e" "dropWhile (\<lambda>c. c \<notin> set delims) (e @ d # rest) = d # rest"
  using assms by (induction e) auto

lemma split_str_step:
  assumes "set e \<inter> set delims = {}" "e \<noteq> []"
  shows "split_str e delims k = [e]" "d \<in> set delims \<Longrightarrow> split_str (e @ d # rest) delims k = e # split_str rest delims k"
proof -
  show "split_str e delims k = [e]"
    unfolding split_str.simps [of e] Let_def using takeWhile_no_delim [OF assms(1)] assms(2) by metis
  show "split_str (e @ d # rest) delims k = e # split_str rest delims k" if "d \<in> set delims"
    unfolding split_str.simps [of "e @ d # rest"] Let_def span_delim [OF assms(1) that] using assms(2) by simp
qed

text \<open>A string put together with separators is taken apart into its parts.\<close>

definition plus_names :: "string list \<Rightarrow> string" where
  "plus_names ns = concat (map (\<lambda>n. ''+'' @ n) ns)"

lemma split_plus_names:
  assumes "e \<noteq> []" "CHR ''+'' \<notin> set e" "\<forall>n\<in>set ns. n \<noteq> [] \<and> CHR ''+'' \<notin> set n"
  shows "split_str (e @ plus_names ns) ''+'' k = e # ns"
  using assms
proof (induction ns arbitrary: e)
  case Nil
  then show ?case using split_str_step(1) [of e "''+''"] by (simp add: plus_names_def)
next
  case (Cons n ns)
  have "split_str (e @ CHR ''+'' # (n @ plus_names ns)) ''+'' k = e # split_str (n @ plus_names ns) ''+'' k"
    using Cons.prems split_str_step(2) [of e "''+''" "CHR ''+''"] by simp
  with Cons.IH [of n] Cons.prems show ?case by (simp add: plus_names_def)
qed

text \<open>The last argument of \<open>split\<close> makes no difference.\<close>

lemma split_keep_all_ignored: "split_str str delims True = split_str str delims False"
proof (induction str delims True rule: split_str.induct)
  case (1 str delims)
  then show ?case by (subst (1 2) split_str.simps) (simp add: Let_def)
qed

section \<open>Looking up names\<close>

definition sorted_names :: "tinfo list \<Rightarrow> bool" where
  "sorted_names c \<longleftrightarrow> sorted_wrt (<) (map ti_name c)"

definition tm_ok :: "type_map \<Rightarrow> bool" where
  "tm_ok m \<longleftrightarrow> m_builtin_types m = m_builtin_types initialize \<and> sorted_names (m_user_types m)"

lemma sorted_names_simps [simp]:
  "sorted_names []" "sorted_names (t # c) \<longleftrightarrow> (\<forall>u\<in>set c. ti_name t < ti_name u) \<and> sorted_names c"
  "sorted_names (c @ d) \<longleftrightarrow> sorted_names c \<and> sorted_names d \<and> (\<forall>t\<in>set c. \<forall>u\<in>set d. ti_name t < ti_name u)"
  by (auto simp: sorted_names_def sorted_wrt_append)

lemma lower_bound_names:
  assumes "sorted_names c"
  obtains ys zs where "c = ys @ zs" "lower_bound_by (\<lambda>t. ti_name t < n) c = length ys" "\<forall>t\<in>set ys. ti_name t < n" "\<forall>t\<in>set zs. n \<le> ti_name t"
proof -
  let ?P = "\<lambda>t. ti_name t < n"
  have "\<forall>t\<in>set (dropWhile ?P c). n \<le> ti_name t" using assms
    by (induction c) (auto simp: not_less intro: order_trans less_imp_le)
  moreover have "\<forall>t\<in>set (takeWhile ?P c). ti_name t < n" by (auto dest: set_takeWhileD)
  ultimately show thesis using that [of "takeWhile ?P c" "dropWhile ?P c"] by (simp add: lower_bound_by_def)
qed

lemma find_name_iff:
  assumes "sorted_names c"
  shows "find_name c n = Some t \<longleftrightarrow> t \<in> set c \<and> ti_name t = n"
proof -
  obtain ys zs where c: "c = ys @ zs" "lower_bound_by (\<lambda>t. ti_name t < n) c = length ys" "\<forall>t\<in>set ys. ti_name t < n" "\<forall>t\<in>set zs. n \<le> ti_name t"
    using lower_bound_names [OF assms, of n] by metis
  show ?thesis
  proof (cases zs)
    case Nil
    then show ?thesis using c by (auto simp: find_name_def)
  next
    case (Cons z us)
    then have "\<forall>u\<in>set us. n < ti_name u" using assms c(1,4) by (force dest: le_less_trans)
    then show ?thesis using c Cons by (auto simp: find_name_def Let_def)
  qed
qed

lemma find_name_None: "sorted_names c \<Longrightarrow> find_name c n = None \<longleftrightarrow> (\<forall>t\<in>set c. ti_name t \<noteq> n)"
  using find_name_iff [of c n] by (cases "find_name c n") auto

lemma tm_insert_cases:
  assumes "sorted_names (m_user_types m)" "tm_insert uti m = (t, m')"
  obtains (known) "find_name (m_user_types m) (ti_name uti) = Some t" "m' = m"
    | (fresh) "find_name (m_user_types m) (ti_name uti) = None" "t = uti" "m_builtin_types m' = m_builtin_types m"
      "sorted_names (m_user_types m')" "set (m_user_types m') = insert uti (set (m_user_types m))"
proof -
  let ?c = "m_user_types m" and ?n = "ti_name uti"
  obtain ys zs where c: "?c = ys @ zs" "lower_bound_by (\<lambda>t. ti_name t < ?n) ?c = length ys" "\<forall>t\<in>set ys. ti_name t < ?n" "\<forall>t\<in>set zs. ?n \<le> ti_name t"
    using lower_bound_names [OF assms(1), of ?n] by metis
  have i: "tm_insert uti m = (if zs = [] then (uti, m\<lparr>m_user_types := ?c @ [uti]\<rparr>)
      else if ?n = ti_name (hd zs) then (hd zs, m) else (uti, m\<lparr>m_user_types := ys @ uti # zs\<rparr>))"
    unfolding tm_insert_def Let_def c(2) using c(1) by (cases zs) auto
  show thesis
  proof (cases "zs \<noteq> [] \<and> ?n = ti_name (hd zs)")
    case True
    then have "t = hd zs" "m' = m" using i assms(2) by (auto split: if_splits)
    then show thesis using True c(1) find_name_iff [OF assms(1), of ?n "hd zs"] by (intro known) auto
  next
    case False
    have gt: "\<forall>u\<in>set zs. ?n < ti_name u"
      using False c(1,4) assms(1) by (cases zs) (auto simp: order_le_less intro: less_trans)
    then have "find_name ?c ?n = None" unfolding find_name_None [OF assms(1)] using c(1,3) by auto
    moreover have m': "t = uti" "m' = m\<lparr>m_user_types := ys @ uti # zs\<rparr>" using False i assms(2) c(1) by (auto split: if_splits)
    moreover have "sorted_names (ys @ uti # zs)" using assms(1) c(1,3) gt by simp
    ultimately show thesis using c(1) by (intro fresh) auto
  qed
qed

lemma tm_insert_fresh:
  assumes "tm_ok m" "find_name (m_user_types m) (ti_name uti) = None" "tm_insert uti m = (t, m')"
  shows "t = uti"
proof -
  have "sorted_names (m_user_types m)" using assms(1) by (simp add: tm_ok_def)
  from this assms(3) show ?thesis by (cases rule: tm_insert_cases) (use assms(2) in auto)
qed

text \<open>Inserting adds a name or changes nothing.\<close>

lemma tm_insert_ok:
  assumes "tm_ok m" "tm_insert uti m = (t, m')"
  shows "tm_ok m'" "ti_name t = ti_name uti" "find_name (m_user_types m') (ti_name uti) = Some t"
    "\<And>n u. tm_find m n = Some u \<Longrightarrow> tm_find m' n = Some u" "\<And>n. n \<noteq> ti_name uti \<Longrightarrow> tm_find m' n = tm_find m n"
proof -
  have s: "sorted_names (m_user_types m)" using assms(1) by (simp add: tm_ok_def)
  have "tm_ok m' \<and> ti_name t = ti_name uti \<and> find_name (m_user_types m') (ti_name uti) = Some t
    \<and> (\<forall>n u. tm_find m n = Some u \<longrightarrow> tm_find m' n = Some u) \<and> (\<forall>n. n \<noteq> ti_name uti \<longrightarrow> tm_find m' n = tm_find m n)"
    using s assms(2)
  proof (cases rule: tm_insert_cases)
    case known
    then show ?thesis using assms(1) find_name_iff [OF s] by auto
  next
    case fresh
    have "find_name (m_user_types m') n = find_name (m_user_types m) n" if "n \<noteq> ti_name uti" for n
      using fresh(5) that find_name_iff [OF s, of n] find_name_iff [OF fresh(4), of n] option.exhaust by (metis insert_iff not_None_eq)
    moreover have "find_name (m_user_types m') (ti_name uti) = Some uti"
      using fresh(5) find_name_iff [OF fresh(4)] by simp
    ultimately have f: "find_name (m_user_types m') = (find_name (m_user_types m))(ti_name uti \<mapsto> uti)" by auto
    show ?thesis using assms(1) fresh f by (auto simp: tm_ok_def tm_find_def split: option.splits)
  qed
  then show "tm_ok m'" "ti_name t = ti_name uti" "find_name (m_user_types m') (ti_name uti) = Some t"
    "\<And>n u. tm_find m n = Some u \<Longrightarrow> tm_find m' n = Some u" "\<And>n. n \<noteq> ti_name uti \<Longrightarrow> tm_find m' n = tm_find m n" by blast+
qed

text \<open>The built-in names, sorted.\<close>

lemma builtin_names:
  "sorted_names (m_builtin_types initialize)" "set (m_builtin_types initialize) = TI_builtin ` set storage"
  "list_all (\<lambda>b. builtin_name b \<noteq> [] \<and> take 3 (builtin_name b) \<noteq> ''@<>'' \<and> CHR ''+'' \<notin> set (builtin_name b) \<and> CHR 0x00 \<notin> set (builtin_name b)) storage"
proof -
  have d: "distinct (map builtin_name storage)" by code_simp
  then have "sorted (map ti_name (m_builtin_types initialize))" "distinct (map ti_name (m_builtin_types initialize))"
    by (simp_all add: initialize_def distinct_map inj_on_def)
  then show "sorted_names (m_builtin_types initialize)" by (simp add: sorted_names_def strict_sorted_iff)
  show "set (m_builtin_types initialize) = TI_builtin ` set storage" by (simp add: initialize_def)
  show "list_all (\<lambda>b. builtin_name b \<noteq> [] \<and> take 3 (builtin_name b) \<noteq> ''@<>'' \<and> CHR ''+'' \<notin> set (builtin_name b) \<and> CHR 0x00 \<notin> set (builtin_name b)) storage"
    by code_simp
qed

lemma storage_complete: "b \<in> set storage"
proof (cases b)
  case (Bi_int t)
  then show ?thesis by (cases t) (simp_all add: storage_def)
qed (simp_all add: storage_def)

lemma find_builtin:
  assumes "tm_ok m"
  shows "tm_find m (builtin_name b) = Some (TI_builtin b)"
proof -
  have "find_name (m_builtin_types initialize) (builtin_name b) = Some (TI_builtin b)"
    unfolding find_name_iff [OF builtin_names(1)] using builtin_names(2) storage_complete [of b] by auto
  then show ?thesis using assms by (simp add: tm_find_def tm_ok_def)
qed

lemma tm_find_name: "tm_ok m \<Longrightarrow> tm_find m n = Some t \<Longrightarrow> ti_name t = n"
  using find_name_iff [of "m_builtin_types m" n t] find_name_iff [of "m_user_types m" n t] builtin_names(1)
  by (auto simp: tm_find_def tm_ok_def split: option.splits)

lemma builtin_not_meta: "tm_ok m \<Longrightarrow> take 3 n = ''@<>'' \<Longrightarrow> tm_find m n = find_name (m_user_types m) n"
proof -
  assume m: "tm_ok m" and n: "take 3 n = ''@<>''"
  have "n \<noteq> builtin_name b" for b using builtin_names(3) storage_complete [of b] n by (auto simp: list_all_iff)
  then have "find_name (m_builtin_types initialize) n = None" unfolding find_name_None [OF builtin_names(1)]
    using builtin_names(2) by auto
  then show ?thesis using m by (simp add: tm_find_def tm_ok_def)
qed

text \<open>Looking up a name keeps all that is known, and finds the same type again.\<close>

lemma lookup_keeps:
  "tm_ok m \<Longrightarrow> tm_ok (snd (by_uniform_name name m)) \<and> (\<forall>n u. tm_find m n = Some u \<longrightarrow> tm_find (snd (by_uniform_name name m)) n = Some u)"
  "tm_ok m \<Longrightarrow> tm_ok (snd (meta_elements es m)) \<and> (\<forall>n u. tm_find m n = Some u \<longrightarrow> tm_find (snd (meta_elements es m)) n = Some u)"
proof (induction name m and es m rule: by_uniform_name_meta_elements.induct)
  case (1 name m)
  show ?case
  proof (cases "tm_find m name = None \<and> take 3 name = ''@<>''")
    case False
    then show ?thesis using 1(2) by (subst (1 2) by_uniform_name.simps) (auto split: option.splits)
  next
    case True
    obtain es m1 where e: "meta_elements (tl (split_str name ''+'' True)) m = (es, m1)" by fastforce
    obtain t m2 where i: "tm_insert (TI_meta name es) m1 = (t, m2)" by fastforce
    have "by_uniform_name name m = (Some t, m2)" using True by (subst by_uniform_name.simps) (simp add: e i)
    moreover have "tm_ok m1 \<and> (\<forall>n u. tm_find m n = Some u \<longrightarrow> tm_find m1 n = Some u)" using 1 True e by simp
    ultimately show ?thesis using tm_insert_ok [OF _ i] by simp
  qed
next
  case (3 e es m)
  obtain t m1 where t: "by_uniform_name e m = (t, m1)" by fastforce
  obtain ts m2 where ts: "meta_elements es m1 = (ts, m2)" by fastforce
  show ?case using 3(1,3) 3(2) [OF refl] t ts by auto
qed simp

lemmas lookup_ok = lookup_keeps [THEN conjunct1]

lemma cstr_id: "CHR 0x00 \<notin> set s \<Longrightarrow> cstr s = s"
  by (induction s) (auto simp: cstr_def)

lemma lookup_found:
  assumes "tm_ok m" "CHR 0x00 \<notin> set name" "by_uniform_name name m = (Some t, m')"
  shows "tm_find m' name = Some t" "ti_name t = name"
proof -
  have "tm_find m' name = Some t"
  proof (cases "tm_find m name")
    case None
    then have at: "take 3 name = ''@<>''" using assms(3) by (subst (asm) by_uniform_name.simps) (auto split: if_splits)
    obtain es m1 where e: "meta_elements (tl (split_str name ''+'' True)) m = (es, m1)" by fastforce
    obtain u m2 where i: "tm_insert (TI_meta name es) m1 = (u, m2)" by fastforce
    have "u = t" "m2 = m'" using None at assms(3) by (subst (asm) by_uniform_name.simps; simp add: e i)+
    moreover have "tm_ok m1" using lookup_ok(2) [OF assms(1)] e by (metis snd_conv)
    ultimately show ?thesis
      using tm_insert_ok(1,3) [OF _ i] builtin_not_meta [OF _ at, of m2] by (simp add: cstr_id [OF assms(2)])
  next
    case (Some u)
    then show ?thesis using assms(3) by (subst (asm) by_uniform_name.simps) auto
  qed
  then show "tm_find m' name = Some t" "ti_name t = name"
    using tm_find_name lookup_ok(1) [OF assms(1), of name] assms(3) by auto
qed

section \<open>Interface of a table of types\<close>

text \<open>What serialization relies on: a name that was found keeps its meaning.\<close>

locale growing_table =
  fixes look :: "'t \<Rightarrow> string \<Rightarrow> 'a option" and grow :: "'o \<Rightarrow> 't \<Rightarrow> 't" and ok :: "'t \<Rightarrow> bool"
  assumes grow_ok: "ok m \<Longrightarrow> ok (grow oper m)"
    and grow_keeps: "ok m \<Longrightarrow> look m n = Some t \<Longrightarrow> look (grow oper m) n = Some t"
begin

lemma all_ok: "ok m \<Longrightarrow> ok (fold grow opers m)"
  by (induction opers arbitrary: m) (auto simp: grow_ok)

lemma stays: "ok m \<Longrightarrow> look m n = Some t \<Longrightarrow> look (fold grow opers m) n = Some t"
  by (induction opers arbitrary: m) (auto simp: grow_ok grow_keeps)

end

datatype type_op = Do_announce tinfo | Do_look_up string

fun tm_apply :: "type_op \<Rightarrow> type_map \<Rightarrow> type_map" where
  "tm_apply (Do_announce t) m = snd (announce t m)"
| "tm_apply (Do_look_up n) m = snd (by_uniform_name n m)"

lemma announce_keeps: "tm_ok m \<Longrightarrow> tm_ok (snd (announce t m)) \<and> (tm_find m n = Some u \<longrightarrow> tm_find (snd (announce t m)) n = Some u)"
  using tm_insert_ok(1,4) [of m t "fst (announce t m)" "snd (announce t m)"] by (simp add: announce_def)

interpretation types: growing_table tm_find tm_apply tm_ok
proof
  show "tm_ok (tm_apply oper m)" if "tm_ok m" for oper m
    using that lookup_ok announce_keeps by (cases oper) auto
  show "tm_find (tm_apply oper m) n = Some t" if "tm_ok m" "tm_find m n = Some t" for oper m n t
    using that lookup_keeps(1) announce_keeps by (cases oper) auto
qed

lemma initialize_ok: "tm_ok initialize"
  by (simp add: tm_ok_def initialize_def)

text \<open>
  C34. Names of types are unique and for ever: whatever the program announces and looks up, in any order, the announced types stay sorted without a
  repeated name, a name that was found once, or created for a message, always gives the same type again, and that
  type has this name; a built-in type is found under its name and is never replaced.
\<close>

theorem type_names_unique:
  assumes "m = fold tm_apply opers initialize" "CHR 0x00 \<notin> set name" "by_uniform_name name m = (Some t, m1)" "m2 = fold tm_apply opers' m1"
  shows "ti_name t = name \<and> by_uniform_name name m2 = (Some t, m2)
    \<and> sorted (map ti_name (m_user_types m2)) \<and> distinct (map ti_name (m_user_types m2))
    \<and> by_uniform_name (builtin_name b) m2 = (Some (TI_builtin b), m2)"
proof -
  have m: "tm_ok m" unfolding assms(1) by (rule types.all_ok [OF initialize_ok])
  have m1: "tm_ok m1" using lookup_ok(1) [OF m, of name] assms(3) by simp
  note f = lookup_found [OF m assms(2,3)]
  have m2: "tm_ok m2" unfolding assms(4) by (rule types.all_ok [OF m1])
  have "tm_find m2 name = Some t" unfolding assms(4) by (rule types.stays [OF m1 f(1)])
  moreover have "sorted (map ti_name (m_user_types m2)) \<and> distinct (map ti_name (m_user_types m2))"
    using m2 by (simp add: tm_ok_def sorted_names_def strict_sorted_iff)
  ultimately show ?thesis
    using f(2) find_builtin [OF m2, of b] by (simp add: by_uniform_name.simps [of name] by_uniform_name.simps [of "builtin_name b"])
qed

lemma message_name_found: "take 3 name = ''@<>'' \<Longrightarrow> \<exists>t m'. by_uniform_name name m = (Some t, m')"
  by (subst by_uniform_name.simps) (auto split: option.splits prod.splits)

theorem type_names_unique_witness:
  "\<exists>t m1. by_uniform_name ''@<>+@i32'' initialize = (Some t, m1) \<and> by_uniform_name ''@<>+@i32'' m1 = (Some t, m1) \<and> ti_name t = ''@<>+@i32''"
proof -
  obtain t m1 where r: "by_uniform_name ''@<>+@i32'' initialize = (Some t, m1)" using message_name_found [of "''@<>+@i32''" initialize] by auto
  from type_names_unique [of initialize "[]" "''@<>+@i32''" t m1 m1 "[]"] r show ?thesis by simp
qed

section \<open>Types of messages\<close>

lemma known_elements: "\<forall>n\<in>set ns. tm_find m n \<noteq> None \<Longrightarrow> meta_elements ns m = (map (tm_find m) ns, m)"
  by (induction ns) (auto simp: by_uniform_name.simps)

lemma plus_names_first [simp]: "take 3 (''@<>'' @ plus_names ns) = ''@<>''"
  by (simp add: numeral_3_eq_3)

text \<open>The type of a message is made of the types of its elements if they are all known when it is first looked up.\<close>

lemma meta_lookup:
  assumes "tm_ok m" "tm_find m (''@<>'' @ plus_names ns) = None" "\<forall>n\<in>set ns. tm_find m n \<noteq> None"
    and ns: "\<forall>n\<in>set ns. n \<noteq> [] \<and> CHR ''+'' \<notin> set n \<and> CHR 0x00 \<notin> set n"
  shows "\<exists>m'. by_uniform_name (''@<>'' @ plus_names ns) m = (Some (TI_meta (''@<>'' @ plus_names ns) (map (tm_find m) ns)), m')"
proof -
  let ?n = "''@<>'' @ plus_names ns"
  have split: "tl (split_str ?n ''+'' True) = ns" using split_plus_names [of "''@<>''" ns True] ns by simp
  have z: "cstr ?n = ?n" using ns by (intro cstr_id) (auto simp: plus_names_def)
  obtain t m' where i: "tm_insert (TI_meta ?n (map (tm_find m) ns)) m = (t, m')" by fastforce
  have "find_name (m_user_types m) ?n = None" using assms(2) builtin_not_meta [OF assms(1), of ?n] by simp
  then have "t = TI_meta ?n (map (tm_find m) ns)" using tm_insert_fresh [OF assms(1) _ i] z by simp
  then have "by_uniform_name ?n m = (Some (TI_meta ?n (map (tm_find m) ns)), m')"
    using assms(2) split known_elements [OF assms(3)] i by (subst by_uniform_name.simps) (simp del: append_Cons append_Nil)
  then show ?thesis by blast
qed

text \<open>
  The type of a message with an element of an unknown type is made nevertheless, with a null pointer, and keeps it even
  when the type is announced later.
\<close>

lemma unknown_element_null:
  assumes "tm_ok m" "tm_find m ''@<>+foo'' = None" "tm_find m ''foo'' = None" "by_uniform_name ''@<>+foo'' m = (r, m1)"
  shows "r = Some (TI_meta ''@<>+foo'' [None])" "tm_find (fold tm_apply opers m1) ''@<>+foo'' = Some (TI_meta ''@<>+foo'' [None])"
proof -
  have split: "tl (split_str ''@<>+foo'' ''+'' True) = [''foo'']"
    using split_plus_names [of "''@<>''" "[''foo'']" True] by (simp add: plus_names_def)
  obtain t m' where i: "tm_insert (TI_meta ''@<>+foo'' [None]) m = (t, m')" by fastforce
  have "find_name (m_user_types m) ''@<>+foo'' = None" using assms(2) builtin_not_meta [OF assms(1), of "''@<>+foo''"] by simp
  then have "t = TI_meta ''@<>+foo'' [None]" using tm_insert_fresh [OF assms(1) _ i] by (simp add: cstr_def)
  moreover have "by_uniform_name ''foo'' m = (None, m)" using assms(3) by (subst by_uniform_name.simps) simp
  ultimately show r: "r = Some (TI_meta ''@<>+foo'' [None])"
    using assms(2,4) split i by (subst (asm) by_uniform_name.simps) simp
  from types.stays [OF _ lookup_found(1) [OF assms(1) _ assms(4) [unfolded r]], of opers] lookup_ok(1) [OF assms(1), of "''@<>+foo''"] assms(4)
  show "tm_find (fold tm_apply opers m1) ''@<>+foo'' = Some (TI_meta ''@<>+foo'' [None])" by simp
qed

text \<open>Integer types of C++ are found by size and sign.\<close>

lemma native_ints: "by_rtti (Rt_int c) initialize = Some (TI_builtin (Bi_int (native_int c)))"
proof -
  have "list_all (\<lambda>b. case b of Bi_int t \<Rightarrow> True | _ \<Rightarrow> \<not> equal_to (Rt_int c) (TI_builtin b)) storage" by (simp add: storage_def)
  moreover have "List.find (equal_to (Rt_int c)) (m_builtin_types initialize) \<noteq> None"
    unfolding find_None_iff builtin_names(2) using storage_complete [of "Bi_int (native_int c)"] by force
  then obtain t where t: "List.find (equal_to (Rt_int c)) (m_builtin_types initialize) = Some t" by blast
  then have "equal_to (Rt_int c) t" by (auto simp: find_Some_iff)
  then have "t = TI_builtin (Bi_int (native_int c))" by (cases "(Rt_int c, t)" rule: equal_to.cases) auto
  with t show ?thesis by (simp add: by_rtti_def find_rtti_def)
qed

end
