(* ===== verification/Message_Serialization.thy ===== *)
theory Message_Serialization
  imports Type_Info_Map Actor_Namespace Timer_Printer
begin

text \<open>
  Values of the built-in and of announced types, and their binary form (\<open>serialize_impl\<close> and \<open>deserialize_impl\<close> of
  libcaf_core/src/uniform_type_info_map.cpp, caf/detail/default_uniform_type_info.hpp), up to whole messages, whose type is
  found by name in the table of \<open>Type_Info_Map\<close>. A floating point value stands for what it is converted to, an integer of its
  size or, for \<open>long double\<close>, a string. An address that is read is what \<open>actor_namespace::read\<close> finds; making a proxy
  for it is the business of the broker (\<open>Basp_Broker\<close>), as it is that of the module of a group to make an instance
  (\<open>Group_Manager\<close>). Associative containers other than \<open>map<string, string>\<close> are left out.
\<close>

section \<open>Model\<close>

subsection \<open>Values\<close>

text \<open>\<open>'a\<close> is the type of addresses. A group of the module \<open>local\<close> has an identifier and a broker.\<close>

datatype 'a group_val = G_invalid | G_local string 'a

datatype 'a channel_val = Ch_invalid | Ch_actor 'a | Ch_group "'a group_val"

datatype 'a uval =
    V_prim bvalue
  | V_float nat | V_double nat | V_ldouble string
  | V_unit
  | V_bool bool
  | V_addr 'a
  | V_actor 'a
  | V_group "'a group_val"
  | V_channel "'a channel_val"
  | V_node node_id
  | V_duration time_unit nat
  | V_down 'a nat | V_exit 'a nat | V_sync_exited 'a nat
  | V_group_down "'a group_val"
  | V_message_id nat
  | V_timeout nat
  | V_sync_timeout
  | V_strmap "(string \<times> string) list"
  | V_charbuf "nat list"
  | V_strvec "string list"
  | V_message "tinfo list" "'a uval list"    \<comment> \<open>the types and values of its elements\<close>
  | V_tuple "tinfo list" "'a uval list"      \<comment> \<open>a message as a value of a type of messages\<close>
  | V_list "'a uval list"
  | V_pair "'a uval" "'a uval"
  | V_opt "'a uval option"
  | V_obj "'a uval list"                       \<comment> \<open>the members of an announced type\<close>

subsection \<open>Writing\<close>

text \<open>The bytes of an address do not depend on the node that writes it (\<open>ns_write_bytes\<close> below).\<close>

definition addr_bytes :: "actor_addr \<Rightarrow> nat list" where
  "addr_bytes addr = fst (ns_write Invalid_node_id (\<lambda>_. 0) addr registry_new)"

fun write_group :: "actor_addr group_val \<Rightarrow> nat list" where
  "write_group G_invalid = write_string []"
| "write_group (G_local identifier broker) = write_string ''local'' @ write_string identifier @ addr_bytes broker"

fun write_channel :: "actor_addr channel_val \<Rightarrow> nat list" where
  "write_channel Ch_invalid = write_int 1 0"
| "write_channel (Ch_actor a) = write_int 1 1 @ addr_bytes a"
| "write_channel (Ch_group g) = write_int 1 2 @ write_group g"

definition unit_value :: "time_unit \<Rightarrow> nat" where
  "unit_value u = (case u of Unit_invalid \<Rightarrow> 0 | Unit_seconds \<Rightarrow> 1 | Unit_milliseconds \<Rightarrow> 1000 | Unit_microseconds \<Rightarrow> 1000000)"

text \<open>The count of a duration has 64 bits.\<close>

definition write_duration :: "time_unit \<Rightarrow> nat \<Rightarrow> nat list" where
  "write_duration u n = write_int 4 (int (unit_value u)) @ write_int 8 (int n)"

definition message_name :: "tinfo list \<Rightarrow> string" where
  "message_name ts = ''@<>'' @ plus_names (map ti_name ts)"

primrec write_val :: "actor_addr uval \<Rightarrow> nat list" where
  "write_val (V_prim v) = binary_writer v"
| "write_val (V_float n) = write_int 4 (int n)"
| "write_val (V_double n) = write_int 8 (int n)"
| "write_val (V_ldouble s) = write_string s"
| "write_val V_unit = []"
| "write_val (V_bool b) = write_int 1 (if b then 1 else 0)"
| "write_val (V_addr a) = addr_bytes a"
| "write_val (V_actor a) = addr_bytes a"
| "write_val (V_group g) = write_group g"
| "write_val (V_channel c) = write_channel c"
| "write_val (V_node n) = nid_serialize n"
| "write_val (V_duration u n) = write_duration u n"
| "write_val (V_down a reason) = addr_bytes a @ write_int 4 (int reason)"
| "write_val (V_exit a reason) = addr_bytes a @ write_int 4 (int reason)"
| "write_val (V_sync_exited a reason) = addr_bytes a @ write_int 4 (int reason)"
| "write_val (V_group_down g) = write_group g"
| "write_val (V_message_id n) = write_int 8 (int n)"
| "write_val (V_timeout n) = write_int 4 (int n)"
| "write_val V_sync_timeout = []"
| "write_val (V_strmap kvs) = write_int 4 (int (length kvs)) @ concat (map (\<lambda>(k, v). write_string k @ write_string v) kvs)"
| "write_val (V_charbuf cs) = write_int 4 (int (length cs)) @ concat (map (\<lambda>c. write_int 1 (int c)) cs)"
| "write_val (V_strvec ss) = write_int 4 (int (length ss)) @ concat (map write_string ss)"
| "write_val (V_message ts vs) = write_string (message_name ts) @ concat (map write_val vs)"
| "write_val (V_tuple ts vs) = concat (map write_val vs)"
| "write_val (V_list vs) = write_int 4 (int (length vs)) @ concat (map write_val vs)"
| "write_val (V_pair v w) = write_val v @ write_val w"
| "write_val (V_opt x) = (case map_option write_val x of None \<Rightarrow> write_int 1 0 | Some bs \<Rightarrow> write_int 1 1 @ bs)"
| "write_val (V_obj vs) = concat (map write_val vs)"

subsection \<open>Reading\<close>

text \<open>
  A reader works on the buffer and the table of types. The last error is that of the model: messages nested more deeply than
  the bound of \<open>read_nested\<close>.
\<close>

datatype read_error = Re_binary bin_error | Re_unknown_type string | Re_null_type | Re_null_module string | Re_invalid_flag nat | Re_depth

type_synonym rstate = "nat list \<times> type_map"
type_synonym 'r reader = "rstate \<Rightarrow> read_error + 'r \<times> rstate"

definition rret :: "'r \<Rightarrow> 'r reader" where
  "rret x st = Inr (x, st)"

definition rfail :: "read_error \<Rightarrow> 'r reader" where
  "rfail e st = Inl e"

definition rbind :: "'r reader \<Rightarrow> ('r \<Rightarrow> 's reader) \<Rightarrow> 's reader" where
  "rbind r f st = (case r st of Inl e \<Rightarrow> Inl e | Inr (x, st') \<Rightarrow> f x st')"

definition rmap :: "('r \<Rightarrow> 's) \<Rightarrow> 'r reader \<Rightarrow> 's reader" where
  "rmap f r = rbind r (\<lambda>x. rret (f x))"

text \<open>A reading operation of the deserializer.\<close>

definition rlift :: "(nat list \<Rightarrow> bin_error + 'r \<times> nat list) \<Rightarrow> 'r reader" where
  "rlift f st = (case f (fst st) of Inl e \<Rightarrow> Inl (Re_binary e) | Inr (x, buf) \<Rightarrow> Inr (x, (buf, snd st)))"

primrec rseq :: "'r reader list \<Rightarrow> 'r list reader" where
  "rseq [] = rret []"
| "rseq (r # rs) = rbind r (\<lambda>x. rbind (rseq rs) (\<lambda>xs. rret (x # xs)))"

definition runt :: "nat \<Rightarrow> nat reader" where
  "runt w = rlift (read_uint w)"

definition rstring :: "string reader" where
  "rstring = rlift read_range_string"

text \<open>\<open>begin_sequence\<close> with the loop over its elements.\<close>

definition rlist :: "'r reader \<Rightarrow> 'r list reader" where
  "rlist r = rbind (rlift bd_begin_sequence) (\<lambda>n. rseq (replicate n r))"

definition read_group :: "'a reader \<Rightarrow> 'a group_val reader" where
  "read_group ra = rbind rstring (\<lambda>modname.
     if modname = [] then rret G_invalid
     else if modname = ''local'' then rbind rstring (\<lambda>identifier. rmap (G_local identifier) ra)
     else rfail (Re_null_module modname))"

definition read_channel :: "'a reader \<Rightarrow> 'a channel_val reader" where
  "read_channel ra = rbind (runt 1) (\<lambda>flag.
     if flag = 0 then rret Ch_invalid else if flag = 1 then rmap Ch_actor ra else if flag = 2 then rmap Ch_group (read_group ra)
     else rfail (Re_invalid_flag flag))"

definition read_duration :: "'a uval reader" where
  "read_duration = rbind (runt 4) (\<lambda>unit_val. rbind (runt 4) (\<lambda>count_val.
     rret (V_duration (if unit_val = 1 then Unit_seconds else if unit_val = 1000 then Unit_milliseconds
       else if unit_val = 1000000 then Unit_microseconds else Unit_invalid) count_val)))"

text \<open>\<open>map::insert\<close>: an entry with a key that is there is dropped.\<close>

fun strmap_insert :: "string \<times> string \<Rightarrow> (string \<times> string) list \<Rightarrow> (string \<times> string) list" where
  "strmap_insert kv [] = [kv]"
| "strmap_insert kv (kv' # kvs) = (if fst kv < fst kv' then kv # kv' # kvs else if fst kv = fst kv' then kv' # kvs
     else kv' # strmap_insert kv kvs)"

definition read_strmap :: "(string \<times> string) list reader" where
  "read_strmap = rmap (\<lambda>kvs. fold strmap_insert kvs []) (rlist (rbind rstring (\<lambda>k. rmap (Pair k) rstring)))"

text \<open>The built-in types; \<open>ra\<close> reads an address, \<open>rm\<close> a message.\<close>

definition read_builtin :: "'a reader \<Rightarrow> 'a uval reader \<Rightarrow> builtin \<Rightarrow> 'a uval reader" where
  "read_builtin ra rm b = (case b of
      Bi_node \<Rightarrow> rmap V_node (rlift nid_deserialize)
    | Bi_channel \<Rightarrow> rmap V_channel (read_channel ra)
    | Bi_down \<Rightarrow> rbind ra (\<lambda>a. rmap (V_down a) (runt 4))
    | Bi_exit \<Rightarrow> rbind ra (\<lambda>a. rmap (V_exit a) (runt 4))
    | Bi_actor \<Rightarrow> rmap V_actor ra
    | Bi_addr \<Rightarrow> rmap V_addr ra
    | Bi_group \<Rightarrow> rmap V_group (read_group ra)
    | Bi_group_down \<Rightarrow> rmap V_group_down (read_group ra)
    | Bi_message \<Rightarrow> rm
    | Bi_message_id \<Rightarrow> rmap V_message_id (runt 8)
    | Bi_duration \<Rightarrow> read_duration
    | Bi_sync_exited \<Rightarrow> rbind ra (\<lambda>a. rmap (V_sync_exited a) (runt 4))
    | Bi_sync_timeout \<Rightarrow> rret V_sync_timeout
    | Bi_timeout \<Rightarrow> rmap V_timeout (runt 4)
    | Bi_unit \<Rightarrow> rret V_unit
    | Bi_atom \<Rightarrow> rmap V_prim (rlift (bd_read_value BT_atom))
    | Bi_str \<Rightarrow> rmap V_prim (rlift (bd_read_value BT_string))
    | Bi_u16str \<Rightarrow> rmap V_prim (rlift (bd_read_value BT_u16string))
    | Bi_u32str \<Rightarrow> rmap V_prim (rlift (bd_read_value BT_u32string))
    | Bi_strmap \<Rightarrow> rmap V_strmap read_strmap
    | Bi_bool \<Rightarrow> rmap (\<lambda>n. V_bool (n \<noteq> 0)) (runt 1)
    | Bi_float \<Rightarrow> rmap V_float (runt 4)
    | Bi_double \<Rightarrow> rmap V_double (runt 8)
    | Bi_ldouble \<Rightarrow> rmap V_ldouble rstring
    | Bi_int t \<Rightarrow> rmap V_prim (rlift (bd_read_value (BT_int t)))
    | Bi_charbuf \<Rightarrow> rmap V_charbuf (rlist (runt 1))
    | Bi_strvec \<Rightarrow> rmap V_strvec (rlist rstring))"

text \<open>\<open>deserialize\<close> of a type, and of a member by \<open>default_serialize_policy\<close>.\<close>

primrec read_ti :: "'a reader \<Rightarrow> 'a uval reader \<Rightarrow> tinfo \<Rightarrow> 'a uval reader"
  and read_ser :: "'a reader \<Rightarrow> 'a uval reader \<Rightarrow> ser \<Rightarrow> 'a uval reader" where
  "read_ti ra rm (TI_builtin b) = read_builtin ra rm b"
| "read_ti ra rm (TI_user _ _ ss) = rmap V_obj (rseq (map (read_ser ra rm) ss))"
| "read_ti ra rm (TI_meta _ es) = rmap (V_tuple (List.map_filter id es))
     (rseq (map (\<lambda>x. case x of None \<Rightarrow> rfail Re_null_type | Some r \<Rightarrow> r) (map (map_option (read_ti ra rm)) es)))"
| "read_ser ra rm (S_prim bt) = rmap V_prim (rlift (bd_read_value bt))"
| "read_ser ra rm (S_list s) = rmap V_list (rlist (read_ser ra rm s))"
| "read_ser ra rm (S_pair s s') = rbind (read_ser ra rm s) (\<lambda>v. rmap (V_pair v) (read_ser ra rm s'))"
| "read_ser ra rm (S_opt s) = rbind (runt 1) (\<lambda>flag. if flag \<noteq> 0 then rmap (\<lambda>v. V_opt (Some v)) (read_ser ra rm s) else rret (V_opt None))"
| "read_ser ra rm (S_rec t) = read_ti ra rm t"

text \<open>\<open>create\<close> of a type of messages follows the pointers to the types of the elements.\<close>

primrec has_null :: "tinfo \<Rightarrow> bool" where
  "has_null (TI_builtin _) \<longleftrightarrow> False"
| "has_null (TI_user _ _ _) \<longleftrightarrow> False"
| "has_null (TI_meta _ es) \<longleftrightarrow> list_ex (\<lambda>x. case x of None \<Rightarrow> True | Some b \<Rightarrow> b) (map (map_option has_null) es)"

definition as_message :: "tinfo \<Rightarrow> 'a uval \<Rightarrow> 'a uval" where
  "as_message t v = (case v of V_tuple ts vs \<Rightarrow> V_message ts vs | _ \<Rightarrow> V_message [t] [v])"

definition begin_object :: "tinfo reader" where
  "begin_object = rbind rstring (\<lambda>tname st. case by_uniform_name tname (snd st) of
      (Some t, m) \<Rightarrow> Inr (t, (fst st, m))
    | (None, m) \<Rightarrow> Inl (Re_unknown_type tname))"

text \<open>\<open>deserialize_impl(message&)\<close>, for messages nested at most that deeply.\<close>

primrec read_nested :: "'a reader \<Rightarrow> nat \<Rightarrow> 'a uval reader" where
  "read_nested ra 0 = rfail Re_depth"
| "read_nested ra (Suc n) = rbind begin_object (\<lambda>t. if has_null t then rfail Re_null_type
     else rmap (as_message t) (read_ti ra (read_nested ra n) t))"

text \<open>Reading a message at a node, with its registry of actors.\<close>

definition read_message :: "node_id \<Rightarrow> actor_registry \<Rightarrow> read_addr uval reader" where
  "read_message this_node reg st = read_nested (rlift (ns_read this_node reg)) (Suc (length (fst st))) st"

section \<open>Reading ends\<close>

text \<open>
  Two readers agree on buffers shorter than \<open>K\<close>: they give the same result, which is not the error of the model, and leave no more bytes
  than they were given.
\<close>

definition agree :: "nat \<Rightarrow> 'r reader \<Rightarrow> 'r reader \<Rightarrow> bool" where
  "agree K r r' \<longleftrightarrow> (\<forall>st. length (fst st) < K \<longrightarrow> r st \<noteq> Inl Re_depth \<and> r' st = r st)
     \<and> (\<forall>st x st'. r st = Inr (x, st') \<longrightarrow> length (fst st') \<le> length (fst st))"

lemma agreeD:
  "agree K r r' \<Longrightarrow> length (fst st) < K \<Longrightarrow> r st \<noteq> Inl Re_depth" "agree K r r' \<Longrightarrow> length (fst st) < K \<Longrightarrow> r' st = r st"
  "agree K r r' \<Longrightarrow> r st = Inr (x, st') \<Longrightarrow> length (fst st') \<le> length (fst st)"
  unfolding agree_def by blast+

lemma agree_rbind_at:
  assumes "agree K r r'" "length (fst st) < K" "\<And>x st'. r st = Inr (x, st') \<Longrightarrow> f x st' \<noteq> Inl Re_depth \<and> f' x st' = f x st'"
  shows "rbind r f st \<noteq> Inl Re_depth \<and> rbind r' f' st = rbind r f st"
  using agreeD(1,2) [OF assms(1,2)] assms(3) by (cases "r st") (auto simp: rbind_def)

named_theorems agreeing

lemma agree_base [agreeing]: "agree K (rret x) (rret x)" "e \<noteq> Re_depth \<Longrightarrow> agree K (rfail e) (rfail e)"
  by (auto simp: agree_def rret_def rfail_def)

lemma agree_rbind [agreeing]:
  assumes "agree K r r'" "\<And>x. agree K (f x) (f' x)"
  shows "agree K (rbind r f) (rbind r' f')"
  unfolding agree_def
proof (intro conjI allI impI)
  fix st :: rstate assume l: "length (fst st) < K"
  have "f x st' \<noteq> Inl Re_depth \<and> f' x st' = f x st'" if "r st = Inr (x, st')" for x st'
    using agreeD(3) [OF assms(1) that] l agreeD(1,2) [OF assms(2)] by simp
  then show "rbind r f st \<noteq> Inl Re_depth" "rbind r' f' st = rbind r f st" using agree_rbind_at [OF assms(1) l] by blast+
next
  fix st :: rstate and x st' assume "rbind r f st = Inr (x, st')"
  then obtain y st1 where "r st = Inr (y, st1)" "f y st1 = Inr (x, st')" by (auto simp: rbind_def split: sum.splits)
  then show "length (fst st') \<le> length (fst st)" using assms unfolding agree_def by (meson le_trans)
qed

lemma agree_rmap [agreeing]: "agree K r r' \<Longrightarrow> agree K (rmap f r) (rmap f r')"
  unfolding rmap_def by (intro agreeing)

lemma agree_if [agreeing]: "agree K r r' \<Longrightarrow> agree K q q' \<Longrightarrow> agree K (if b then r else q) (if b then r' else q')"
  by simp

lemma agree_rlift:
  assumes "\<And>buf x buf'. f buf = Inr (x, buf') \<Longrightarrow> length buf' \<le> length buf"
  shows "agree K (rlift f) (rlift f)"
  using assms by (auto simp: agree_def rlift_def split: sum.splits)

lemma read_uint_len: "read_uint w buf = Inr (x, buf') \<Longrightarrow> length buf = length buf' + w"
  by (auto simp: read_uint_def range_check_def split: if_splits)

lemma read_raw_len: "bd_read_raw n buf = Inr (x, buf') \<Longrightarrow> length buf' \<le> length buf"
  by (auto simp: bd_read_raw_def split: if_splits)

lemma read_string_len: "read_range_string buf = Inr (x, buf') \<Longrightarrow> length buf' + 4 \<le> length buf"
  by (auto simp: read_range_string_def split: sum.splits if_splits dest!: read_uint_len)

lemma read_chars_len: "read_chars w n buf = Inr (x, buf') \<Longrightarrow> length buf' \<le> length buf"
  by (induction w n buf arbitrary: x buf' rule: read_chars.induct) (auto split: sum.splits dest!: read_uint_len, fastforce)

lemma read_value_len: "bd_read_value t buf = Inr (x, buf') \<Longrightarrow> length buf' \<le> length buf"
  by (cases t) (auto simp: bd_read_value_def read_range_int_def read_unicode_string_def split: sum.splits
      dest!: read_uint_len read_string_len read_chars_len)

lemma nid_deserialize_len: "nid_deserialize buf = Inr (x, buf') \<Longrightarrow> length buf' \<le> length buf"
  by (auto simp: nid_deserialize_def split: sum.splits dest!: read_uint_len read_raw_len)

lemma ns_read_len: "ns_read node reg buf = Inr (x, buf') \<Longrightarrow> length buf' \<le> length buf"
  by (auto simp: ns_read_def split: sum.splits if_splits dest!: read_uint_len read_raw_len)

lemma agree_lifted [agreeing]:
  "agree K (rlift (bd_read_value t)) (rlift (bd_read_value t))" "agree K (rlift nid_deserialize) (rlift nid_deserialize)"
  "agree K (rlift (ns_read node reg)) (rlift (ns_read node reg))" "agree K (runt w) (runt w)" "agree K rstring rstring"
  "agree K (rlift bd_begin_sequence) (rlift bd_begin_sequence)"
  unfolding runt_def rstring_def
  by (rule agree_rlift, auto simp: bd_begin_sequence_def dest: read_value_len nid_deserialize_len ns_read_len read_uint_len read_string_len)+

lemma agree_rseq [agreeing]: "list_all2 (agree K) rs rs' \<Longrightarrow> agree K (rseq rs) (rseq rs')"
  by (induction rule: list_all2_induct) (auto intro!: agreeing)

lemma agree_rlist [agreeing]: "agree K r r' \<Longrightarrow> agree K (rlist r) (rlist r')"
  unfolding rlist_def by (intro agreeing) (simp add: list_all2_conv_all_nth)

lemma agree_read_builtin:
  assumes "agree K ra ra" "agree K rm rm'"
  shows "agree K (read_builtin ra rm b) (read_builtin ra rm' b)"
  unfolding read_builtin_def read_group_def read_channel_def read_duration_def read_strmap_def
  using assms by (cases b) (auto intro!: agreeing)

lemma agree_read_ti:
  assumes "agree K ra ra" "agree K rm rm'"
  shows "agree K (read_ti ra rm t) (read_ti ra rm' t)" "agree K (read_ser ra rm s) (read_ser ra rm' s)"
proof (induction t and s)
  case (TI_builtin b)
  then show ?case using agree_read_builtin [OF assms] by simp
next
  case (TI_user n k ss)
  then show ?case by (auto intro!: agreeing simp: list_all2_conv_all_nth)
next
  case (TI_meta n es)
  have "list_all2 (agree K) (map ((\<lambda>x. case x of None \<Rightarrow> rfail Re_null_type | Some r \<Rightarrow> r) \<circ> map_option (read_ti ra rm)) es)
     (map ((\<lambda>x. case x of None \<Rightarrow> rfail Re_null_type | Some r \<Rightarrow> r) \<circ> map_option (read_ti ra rm')) es)"
    using TI_meta by (auto simp: list_all2_conv_all_nth split: option.splits intro!: agree_base) (metis nth_mem option.set_intros)
  then show ?case by (auto intro!: agreeing)
qed (auto intro!: agreeing)

lemma begin_object_len: "begin_object st = Inr (t, st') \<Longrightarrow> length (fst st') + 4 \<le> length (fst st)"
  by (auto simp: begin_object_def rbind_def rstring_def rlift_def split: sum.splits prod.splits option.splits dest!: read_string_len)

lemma agree_begin_object: "agree K begin_object begin_object"
  using begin_object_len unfolding agree_def
  by (fastforce simp: begin_object_def rbind_def rstring_def rlift_def split: sum.splits prod.splits option.splits)

lemma read_nested_agree:
  assumes "\<And>K. agree K ra ra"
  shows "n \<le> k \<Longrightarrow> agree n (read_nested ra n) (read_nested ra k)"
proof (induction n arbitrary: k)
  case 0
  then show ?case by (auto simp: agree_def rfail_def)
next
  case (Suc n)
  then obtain k' where k: "k = Suc k'" "n \<le> k'" by (cases k) auto
  let ?f = "\<lambda>j t. if has_null t then rfail Re_null_type else rmap (as_message t) (read_ti ra (read_nested ra j) t)"
  have a: "agree n (?f n t) (?f k' t)" for t
    using agree_read_ti(1) [OF assms Suc.IH [OF k(2)]] by (auto intro!: agreeing)
  show ?case unfolding agree_def
  proof (intro conjI allI impI)
    fix st :: rstate assume l: "length (fst st) < Suc n"
    have "?f n t st' \<noteq> Inl Re_depth \<and> ?f k' t st' = ?f n t st'" if "begin_object st = Inr (t, st')" for t st'
      using begin_object_len [OF that] l agreeD(1,2) [OF a] by simp
    from agree_rbind_at [OF agree_begin_object l this]
    show "read_nested ra (Suc n) st \<noteq> Inl Re_depth" "read_nested ra k st = read_nested ra (Suc n) st" unfolding k(1) by simp_all
  next
    fix st :: rstate and x st' assume "read_nested ra (Suc n) st = Inr (x, st')"
    then obtain t st1 where "begin_object st = Inr (t, st1)" "?f n t st1 = Inr (x, st')" by (auto simp: rbind_def split: sum.splits)
    then show "length (fst st') \<le> length (fst st)" using agreeD(3) [OF a] begin_object_len [of st] by fastforce
  qed
qed

text \<open>
  C26. Reading a message from any bytes comes to an end: messages are nested less deeply than the buffer is long, so that the bound
  of the model is never met, and any greater bound gives the same result.
\<close>

theorem message_reading_ends:
  "read_message this_node reg (buf, m) \<noteq> Inl Re_depth
    \<and> (length buf < k \<longrightarrow> read_nested (rlift (ns_read this_node reg)) k (buf, m) = read_message this_node reg (buf, m))"
proof -
  have "agree (Suc (length buf)) (read_nested (rlift (ns_read this_node reg)) (Suc (length buf))) (read_nested (rlift (ns_read this_node reg)) k)"
    if "length buf < k" for k using read_nested_agree agreeing that by (metis Suc_leI)
  from this [of "Suc (length buf)"] this [of k] show ?thesis by (auto simp: agree_def read_message_def)
qed

theorem message_reading_ends_witness:
  "read_nested (rlift (ns_read Invalid_node_id registry_new)) 9 ([1, 2], initialize) = read_message Invalid_node_id registry_new ([1, 2], initialize)"
  using message_reading_ends [of Invalid_node_id registry_new "[1, 2]" initialize 9] by simp

section \<open>Values have their types\<close>

fun group_val_ok :: "'a group_val \<Rightarrow> bool" where
  "group_val_ok (G_local identifier broker) \<longleftrightarrow> length identifier < 2 ^ 32" | "group_val_ok G_invalid \<longleftrightarrow> True"

fun channel_val_ok :: "'a channel_val \<Rightarrow> bool" where
  "channel_val_ok (Ch_group g) \<longleftrightarrow> group_val_ok g" | "channel_val_ok _ \<longleftrightarrow> True"

text \<open>The values of the built-in types other than messages.\<close>

definition builtin_val :: "builtin \<Rightarrow> 'a uval \<Rightarrow> bool" where
  "builtin_val b v = (case b of
      Bi_node \<Rightarrow> \<exists>n. v = V_node n \<and> nid_ok n
    | Bi_channel \<Rightarrow> \<exists>c. v = V_channel c \<and> channel_val_ok c
    | Bi_down \<Rightarrow> \<exists>a r. v = V_down a r \<and> r < 2 ^ 32
    | Bi_exit \<Rightarrow> \<exists>a r. v = V_exit a r \<and> r < 2 ^ 32
    | Bi_sync_exited \<Rightarrow> \<exists>a r. v = V_sync_exited a r \<and> r < 2 ^ 32
    | Bi_actor \<Rightarrow> \<exists>a. v = V_actor a
    | Bi_addr \<Rightarrow> \<exists>a. v = V_addr a
    | Bi_group \<Rightarrow> \<exists>g. v = V_group g \<and> group_val_ok g
    | Bi_group_down \<Rightarrow> \<exists>g. v = V_group_down g \<and> group_val_ok g
    | Bi_message_id \<Rightarrow> \<exists>n. v = V_message_id n \<and> n < 2 ^ 64
    | Bi_duration \<Rightarrow> \<exists>u n. v = V_duration u n \<and> n < 2 ^ 64
    | Bi_sync_timeout \<Rightarrow> v = V_sync_timeout
    | Bi_timeout \<Rightarrow> \<exists>n. v = V_timeout n \<and> n < 2 ^ 32
    | Bi_unit \<Rightarrow> v = V_unit
    | Bi_atom \<Rightarrow> \<exists>x. v = V_prim x \<and> btype_of x = BT_atom \<and> bvalue_ok x
    | Bi_str \<Rightarrow> \<exists>x. v = V_prim x \<and> btype_of x = BT_string \<and> bvalue_ok x
    | Bi_u16str \<Rightarrow> \<exists>x. v = V_prim x \<and> btype_of x = BT_u16string \<and> bvalue_ok x
    | Bi_u32str \<Rightarrow> \<exists>x. v = V_prim x \<and> btype_of x = BT_u32string \<and> bvalue_ok x
    | Bi_int t \<Rightarrow> \<exists>x. v = V_prim x \<and> btype_of x = BT_int t \<and> bvalue_ok x
    | Bi_strmap \<Rightarrow> \<exists>kvs. v = V_strmap kvs \<and> sorted_wrt (<) (map fst kvs) \<and> length kvs < 2 ^ 32 \<and> (\<forall>kv\<in>set kvs. length (fst kv) < 2 ^ 32 \<and> length (snd kv) < 2 ^ 32)
    | Bi_bool \<Rightarrow> \<exists>b. v = V_bool b
    | Bi_float \<Rightarrow> \<exists>n. v = V_float n \<and> n < 2 ^ 32
    | Bi_double \<Rightarrow> \<exists>n. v = V_double n \<and> n < 2 ^ 64
    | Bi_ldouble \<Rightarrow> \<exists>s. v = V_ldouble s \<and> length s < 2 ^ 32
    | Bi_charbuf \<Rightarrow> \<exists>cs. v = V_charbuf cs \<and> length cs < 2 ^ 32 \<and> (\<forall>c\<in>set cs. c < 256)
    | Bi_strvec \<Rightarrow> \<exists>ss. v = V_strvec ss \<and> length ss < 2 ^ 32 \<and> (\<forall>s\<in>set ss. length s < 2 ^ 32)
    | Bi_message \<Rightarrow> False)"

inductive has_type :: "tinfo \<Rightarrow> 'a uval \<Rightarrow> bool" and has_ser :: "ser \<Rightarrow> 'a uval \<Rightarrow> bool" where
  ty_builtin: "builtin_val b v \<Longrightarrow> has_type (TI_builtin b) v"
| ty_message: "list_all2 has_type ts vs \<Longrightarrow> has_type (TI_builtin Bi_message) (V_message ts vs)"
| ty_user: "list_all2 has_ser ss vs \<Longrightarrow> has_type (TI_user n k ss) (V_obj vs)"
| ty_meta: "list_all2 has_type ts vs \<Longrightarrow> has_type (TI_meta n (map Some ts)) (V_tuple ts vs)"
| se_prim: "btype_of v = bt \<Longrightarrow> bvalue_ok v \<Longrightarrow> has_ser (S_prim bt) (V_prim v)"
| se_list: "\<forall>v\<in>set vs. has_ser s v \<Longrightarrow> length vs < 2 ^ 32 \<Longrightarrow> has_ser (S_list s) (V_list vs)"
| se_pair: "has_ser s v \<Longrightarrow> has_ser s' v' \<Longrightarrow> has_ser (S_pair s s') (V_pair v v')"
| se_none: "has_ser (S_opt s) (V_opt None)"
| se_some: "has_ser s v \<Longrightarrow> has_ser (S_opt s) (V_opt (Some v))"
| se_rec: "has_type t v \<Longrightarrow> has_ser (S_rec t) v"
monos list_all2_mono

subsection \<open>What is read has the type asked for\<close>

definition bytes_ok :: "nat list \<Rightarrow> bool" where
  "bytes_ok buf \<longleftrightarrow> (\<forall>b\<in>set buf. b < 256)"

definition gives :: "('r \<Rightarrow> bool) \<Rightarrow> 'r reader \<Rightarrow> bool" where
  "gives P r \<longleftrightarrow> (\<forall>st x st'. bytes_ok (fst st) \<longrightarrow> r st = Inr (x, st') \<longrightarrow> P x \<and> bytes_ok (fst st'))"

lemma gives_base: "P x \<Longrightarrow> gives P (rret x)" "gives P (rfail e)"
  by (auto simp: gives_def rret_def rfail_def)

lemma givesD: "gives P r \<Longrightarrow> bytes_ok (fst st) \<Longrightarrow> r st = Inr (x, st') \<Longrightarrow> P x \<and> bytes_ok (fst st')"
  unfolding gives_def by blast

lemma gives_rbind:
  assumes "gives P r" "\<And>x. P x \<Longrightarrow> gives Q (f x)"
  shows "gives Q (rbind r f)"
  unfolding gives_def
proof (intro allI impI)
  fix st y st' assume st: "bytes_ok (fst st)" "rbind r f st = Inr (y, st')"
  then obtain x st1 where "r st = Inr (x, st1)" "f x st1 = Inr (y, st')" by (auto simp: rbind_def split: sum.splits)
  then show "Q y \<and> bytes_ok (fst st')" using givesD [OF assms(1) st(1)] givesD [OF assms(2)] by blast
qed

lemma gives_rmap: "gives P r \<Longrightarrow> (\<And>x. P x \<Longrightarrow> Q (f x)) \<Longrightarrow> gives Q (rmap f r)"
  unfolding rmap_def by (auto intro: gives_rbind gives_base)

lemma gives_weaken: "gives P r \<Longrightarrow> (\<And>x. P x \<Longrightarrow> Q x) \<Longrightarrow> gives Q r"
  by (auto simp: gives_def)

lemma gives_if: "(b \<Longrightarrow> gives P r) \<Longrightarrow> (\<not> b \<Longrightarrow> gives P q) \<Longrightarrow> gives P (if b then r else q)"
  by simp

lemma gives_rlift: "(\<And>buf x buf'. bytes_ok buf \<Longrightarrow> f buf = Inr (x, buf') \<Longrightarrow> P x \<and> bytes_ok buf') \<Longrightarrow> gives P (rlift f)"
  by (auto simp: gives_def rlift_def split: sum.splits)

lemma gives_rseq: "list_all2 gives Ps rs \<Longrightarrow> gives (\<lambda>xs. list_all2 (\<lambda>P x. P x) Ps xs) (rseq rs)"
  by (induction rule: list_all2_induct) (auto intro!: gives_base gives_rbind)

lemma bytes_ok_rest: "bytes_ok buf \<Longrightarrow> bytes_ok (drop n buf)" "bytes_ok buf \<Longrightarrow> bytes_ok (take n buf)"
  by (auto simp: bytes_ok_def dest: in_set_dropD in_set_takeD)

lemma le_value_bound: "bytes_ok bs \<Longrightarrow> le_value bs < 256 ^ length bs"
proof (induction bs)
  case (Cons b bs)
  then have "le_value bs + 1 \<le> 256 ^ length bs" "b < 256" by (simp_all add: bytes_ok_def Suc_leI)
  then have "256 * (le_value bs + 1) \<le> 256 * 256 ^ length bs" by (metis mult_le_mono2)
  then show ?case using \<open>b < 256\<close> by simp
qed simp

lemma read_uint_gives: "bytes_ok buf \<Longrightarrow> read_uint w buf = Inr (n, buf') \<Longrightarrow> n < 256 ^ w \<and> bytes_ok buf'"
  using le_value_bound [OF bytes_ok_rest(2), of buf w] bytes_ok_rest(1) [of buf w]
  by (simp add: read_uint_def range_check_def split: if_splits)

lemma gives_runt: "gives (\<lambda>n. n < 256 ^ w) (runt w)"
  unfolding runt_def by (rule gives_rlift) (rule read_uint_gives)

lemma read_uint4_gives: "bytes_ok buf \<Longrightarrow> read_uint 4 buf = Inr (n, buf') \<Longrightarrow> n < 2 ^ 32 \<and> bytes_ok buf'"
  using read_uint_gives [of buf 4 n buf'] by simp

lemma read_string_gives: "bytes_ok buf \<Longrightarrow> read_range_string buf = Inr (s, buf') \<Longrightarrow> length s < 2 ^ 32 \<and> bytes_ok buf'"
proof -
  assume b: "bytes_ok buf" "read_range_string buf = Inr (s, buf')"
  then obtain n b1 where n: "read_uint 4 buf = Inr (n, b1)" "s = map char_of (take n b1)" "buf' = drop n b1"
    by (auto simp: read_range_string_def split: sum.splits if_splits)
  then show ?thesis using read_uint4_gives [OF b(1) n(1)] bytes_ok_rest(1) by (simp add: min_less_iff_disj)
qed

lemma gives_rstring: "gives (\<lambda>s. length s < 2 ^ 32) rstring"
  unfolding rstring_def by (rule gives_rlift) (rule read_string_gives)

lemma read_chars_gives:
  "bytes_ok buf \<Longrightarrow> read_chars w n buf = Inr (cs, buf') \<Longrightarrow> length cs = n \<and> (\<forall>c\<in>set cs. c < 256 ^ w) \<and> bytes_ok buf'"
proof (induction w n buf arbitrary: cs buf' rule: read_chars.induct)
  case (2 w n buf)
  then obtain c b1 ds where c: "read_uint w buf = Inr (c, b1)" "read_chars w n b1 = Inr (ds, buf')" "cs = c # ds"
    by (auto split: sum.splits)
  then show ?case using 2(1) [OF c(1) refl] read_uint_gives [OF 2(2) c(1)] by simp
qed simp

lemma int_in_range:
  assumes "n < 256 ^ width t"
  shows "int_min t \<le> (if int_min t < 0 then to_signed (width t) n else int n) \<and> (if int_min t < 0 then to_signed (width t) n else int n) \<le> int_max t"
  using assms by (cases t) (auto simp: to_signed_def width_def int_min_def int_max_def)

lemma read_value_gives:
  assumes "bytes_ok buf" "bd_read_value t buf = Inr (v, buf')"
  shows "(btype_of v = t \<and> bvalue_ok v) \<and> bytes_ok buf'"
proof (cases t)
  case (BT_int it)
  then obtain n where n: "read_uint (width it) buf = Inr (n, buf')" "v = B_int it (if int_min it < 0 then to_signed (width it) n else int n)"
    using assms(2) by (auto simp: bd_read_value_def read_range_int_def split: sum.splits)
  then show ?thesis using read_uint_gives [OF assms(1) n(1)] int_in_range [of n it] BT_int by (simp add: btype_of_def bvalue_ok_def)
next
  case BT_atom
  then show ?thesis using assms read_uint_gives [OF assms(1)]
    by (auto simp: bd_read_value_def btype_of_def bvalue_ok_def split: sum.splits)
next
  case BT_string
  then show ?thesis using assms read_string_gives [OF assms(1)]
    by (auto simp: bd_read_value_def btype_of_def bvalue_ok_def split: sum.splits)
next
  case BT_u16string
  then obtain n b1 cs where n: "read_uint 4 buf = Inr (n, b1)" "read_chars 2 n b1 = Inr (cs, buf')" "v = B_u16string cs"
    using assms(2) by (auto simp: bd_read_value_def read_unicode_string_def split: sum.splits)
  then show ?thesis using BT_u16string read_uint4_gives [OF assms(1) n(1)] read_chars_gives [OF _ n(2)]
    by (simp add: btype_of_def bvalue_ok_def)
next
  case BT_u32string
  then obtain n b1 cs where n: "read_uint 4 buf = Inr (n, b1)" "read_chars 4 n b1 = Inr (cs, buf')" "v = B_u32string cs"
    using assms(2) by (auto simp: bd_read_value_def read_unicode_string_def split: sum.splits)
  then show ?thesis using BT_u32string read_uint4_gives [OF assms(1) n(1)] read_chars_gives [OF _ n(2)]
    by (simp add: btype_of_def bvalue_ok_def)
qed

lemma gives_value: "gives (\<lambda>v. btype_of v = t \<and> bvalue_ok v) (rlift (bd_read_value t))"
  by (rule gives_rlift) (rule read_value_gives)

lemma gives_rlist:
  assumes "gives P r"
  shows "gives (\<lambda>xs. length xs < 2 ^ 32 \<and> (\<forall>x\<in>set xs. P x)) (rlist r)"
proof -
  have n: "gives (\<lambda>n. n < 2 ^ 32) (rlift bd_begin_sequence)"
    by (rule gives_rlift) (auto simp: bd_begin_sequence_def dest: read_uint4_gives)
  have "gives (\<lambda>xs. length xs < 2 ^ 32 \<and> (\<forall>x\<in>set xs. P x)) (rseq (replicate n r))" if "n < 2 ^ 32" for n
  proof (rule gives_weaken)
    show "gives (\<lambda>xs. list_all2 (\<lambda>P x. P x) (replicate n P) xs) (rseq (replicate n r))"
      by (rule gives_rseq) (simp add: list_all2_conv_all_nth assms)
  qed (use that in \<open>auto simp: list_all2_conv_all_nth in_set_conv_nth\<close>)
  then show ?thesis unfolding rlist_def by (rule gives_rbind [OF n])
qed

lemma nid_deserialize_gives: "bytes_ok buf \<Longrightarrow> nid_deserialize buf = Inr (n, buf') \<Longrightarrow> nid_ok n \<and> bytes_ok buf'"
proof -
  assume b: "bytes_ok buf" "nid_deserialize buf = Inr (n, buf')"
  then obtain hid b1 pid where r: "bd_read_raw host_id_size buf = Inr (hid, b1)" "read_uint 4 b1 = Inr (pid, buf')"
    "n = (if pid = 0 \<and> list_all (\<lambda>v. v = 0) hid then Invalid_node_id else Node_id pid hid)"
    by (auto simp: nid_deserialize_def split: sum.splits)
  have hid: "length hid = host_id_size" "bytes_ok hid" "bytes_ok b1"
    using r(1) b(1) by (auto simp: bd_read_raw_def range_check_def bytes_ok_rest split: if_splits)
  then show ?thesis using read_uint4_gives [OF hid(3) r(2)] r(3) by (auto simp: nid_ok_def bytes_ok_def list_all_iff)
qed

lemma ns_read_gives: "bytes_ok buf \<Longrightarrow> ns_read node reg buf = Inr (x, buf') \<Longrightarrow> bytes_ok buf'"
proof -
  assume b: "bytes_ok buf" "ns_read node reg buf = Inr (x, buf')"
  then obtain aid b1 hid b2 pid where r: "read_uint 4 buf = Inr (aid, b1)" "bd_read_raw host_id_size b1 = Inr (hid, b2)" "read_uint 4 b2 = Inr (pid, buf')"
    by (auto simp: ns_read_def split: sum.splits if_splits)
  have "bytes_ok b2" using r(2) read_uint_gives [OF b(1) r(1)] by (auto simp: bd_read_raw_def bytes_ok_rest split: if_splits)
  then show ?thesis using read_uint_gives r(3) by blast
qed

lemma sorted_strmap_insert: "sorted_wrt (<) (map fst kvs) \<Longrightarrow> sorted_wrt (<) (map fst (strmap_insert kv kvs))"
proof (induction kvs)
  case (Cons kv' kvs)
  have "set (strmap_insert kv kvs) \<subseteq> insert kv (set kvs)" by (induction kvs) auto
  then show ?case using Cons by (fastforce simp: not_less_iff_gr_or_eq)
qed simp

lemma strmap_insert_frame: "length (strmap_insert kv kvs) \<le> Suc (length kvs)" "set (strmap_insert kv kvs) \<subseteq> insert kv (set kvs)"
  by (induction kvs) auto

lemma strmap_fold:
  "sorted_wrt (<) (map fst acc) \<Longrightarrow> sorted_wrt (<) (map fst (fold strmap_insert kvs acc))
    \<and> length (fold strmap_insert kvs acc) \<le> length kvs + length acc \<and> set (fold strmap_insert kvs acc) \<subseteq> set kvs \<union> set acc"
proof (induction kvs arbitrary: acc)
  case (Cons kv kvs)
  from Cons.IH [OF sorted_strmap_insert [OF Cons.prems, of kv]] strmap_insert_frame [of kv acc] show ?case by auto
qed simp

lemma gives_read_group:
  assumes "gives (\<lambda>_. True) ra"
  shows "gives group_val_ok (read_group ra)"
  unfolding read_group_def
proof (intro gives_rbind [OF gives_rstring] gives_if)
  fix m ident :: string assume i: "length ident < 2 ^ 32"
  show "gives group_val_ok (rmap (G_local ident) ra)" by (rule gives_rmap [OF assms]) (use i in simp)
qed (auto intro: gives_base)

lemma gives_read_channel:
  assumes "gives (\<lambda>_. True) ra"
  shows "gives channel_val_ok (read_channel ra)"
  unfolding read_channel_def
proof (intro gives_rbind [OF gives_runt] gives_if)
  show "gives channel_val_ok (rmap Ch_actor ra)" by (rule gives_rmap [OF assms]) simp
  show "gives channel_val_ok (rmap Ch_group (read_group ra))" by (rule gives_rmap [OF gives_read_group [OF assms]]) simp
qed (auto intro: gives_base)

lemma gives_read_strmap: "gives (\<lambda>kvs. builtin_val Bi_strmap (V_strmap kvs)) read_strmap"
proof -
  have "gives (\<lambda>kv. length (fst kv) < 2 ^ 32 \<and> length (snd kv) < 2 ^ 32) (rbind rstring (\<lambda>k. rmap (Pair k) rstring))"
    by (rule gives_rbind [OF gives_rstring], rule gives_rmap [OF gives_rstring]) simp
  note g = gives_rlist [OF this]
  show ?thesis unfolding read_strmap_def
  proof (rule gives_rmap [OF g])
    fix kvs :: "(string \<times> string) list"
    assume k: "length kvs < 2 ^ 32 \<and> (\<forall>kv\<in>set kvs. length (fst kv) < 2 ^ 32 \<and> length (snd kv) < 2 ^ 32)"
    show "builtin_val Bi_strmap (V_strmap (fold strmap_insert kvs []))"
      using strmap_fold [of "[]" kvs] k by (auto simp: builtin_val_def)
  qed
qed

lemma gives_read_duration: "gives (builtin_val Bi_duration) read_duration"
  unfolding read_duration_def
proof (intro gives_rbind [OF gives_runt] gives_base(1))
  fix u n :: nat assume "n < 256 ^ 4"
  then show "builtin_val Bi_duration (V_duration (if u = 1 then Unit_seconds else if u = 1000 then Unit_milliseconds
      else if u = 1000000 then Unit_microseconds else Unit_invalid) n)" by (simp add: builtin_val_def)
qed

lemma gives_addr_msg:
  assumes "gives (\<lambda>_. True) ra" "\<And>a r. r < 2 ^ 32 \<Longrightarrow> Q (f a r)"
  shows "gives Q (rbind ra (\<lambda>a. rmap (f a) (runt 4)))"
  by (rule gives_rbind [OF assms(1)], rule gives_rmap [OF gives_runt]) (use assms(2) in simp)

lemma gives_read_builtin:
  assumes "gives (\<lambda>_. True) ra" "b \<noteq> Bi_message"
  shows "gives (builtin_val b) (read_builtin ra rm b)"
proof -
  note nid = gives_rlift [of nid_deserialize nid_ok, OF nid_deserialize_gives]
  note rules = gives_addr_msg [OF assms(1)] gives_rmap [OF assms(1)] gives_rmap [OF gives_read_group [OF assms(1)]]
    gives_rmap [OF gives_read_channel [OF assms(1)]] gives_rmap [OF gives_runt] gives_rmap [OF gives_rstring] gives_rmap [OF gives_value]
    gives_rmap [OF nid] gives_rmap [OF gives_rlist [OF gives_runt]] gives_rmap [OF gives_rlist [OF gives_rstring]] gives_read_duration
    gives_rmap [OF gives_read_strmap] gives_base(1)
  show ?thesis using assms(2) unfolding read_builtin_def by (cases b; simp only: builtin.case; intro rules) (auto simp: builtin_val_def)
qed

lemma list_all2_some: "list_all2 (\<lambda>e v. \<exists>t. e = Some t \<and> P t v) es vs \<Longrightarrow> es = map Some (List.map_filter id es) \<and> list_all2 P (List.map_filter id es) vs"
  by (induction rule: list_all2_induct) (auto simp: map_filter_def)

lemma gives_all:
  assumes "\<And>x. x \<in> set xs \<Longrightarrow> gives (P x) (r x)"
  shows "gives (list_all2 P xs) (rseq (map r xs))"
proof (rule gives_weaken)
  show "gives (\<lambda>ys. list_all2 (\<lambda>P x. P x) (map P xs) ys) (rseq (map r xs))"
    by (rule gives_rseq) (use assms in \<open>simp add: list_all2_conv_all_nth\<close>)
qed (simp add: list_all2_map1)

lemma gives_read_ti:
  assumes ra: "gives (\<lambda>_. True) ra" and rm: "gives (has_type (TI_builtin Bi_message)) rm"
  shows "gives (has_type t) (read_ti ra rm t)" "gives (has_ser s) (read_ser ra rm s)"
proof (induction t and s)
  case (TI_builtin b)
  show ?case
  proof (cases "b = Bi_message")
    case True
    then show ?thesis using rm by (simp add: read_builtin_def)
  next
    case False
    then show ?thesis using gives_weaken [OF gives_read_builtin [OF ra False] ty_builtin] by simp
  qed
next
  case (TI_user n k ss)
  show ?case unfolding read_ti.simps by (rule gives_rmap [OF gives_all [of ss has_ser]]) (auto intro: TI_user ty_user)
next
  case (TI_meta n es)
  let ?r = "\<lambda>e. case map_option (read_ti ra rm) e of None \<Rightarrow> rfail Re_null_type | Some r \<Rightarrow> r"
  have "gives (\<lambda>v. \<exists>t. e = Some t \<and> has_type t v) (?r e)" if "e \<in> set es" for e
    using TI_meta that by (cases e) (auto intro!: gives_base gives_weaken [of "has_type _"])
  then have "gives (list_all2 (\<lambda>e v. \<exists>t. e = Some t \<and> has_type t v) es) (rseq (map ?r es))" by (rule gives_all)
  then have "gives (has_type (TI_meta n es)) (rmap (V_tuple (List.map_filter id es)) (rseq (map ?r es)))"
  proof (rule gives_rmap)
    fix vs assume "list_all2 (\<lambda>e v. \<exists>t. e = Some t \<and> has_type t v) es vs"
    from list_all2_some [OF this] show "has_type (TI_meta n es) (V_tuple (List.map_filter id es) vs)" by (metis ty_meta)
  qed
  then show ?case by (simp add: comp_def)
next
  case (S_prim bt)
  show ?case unfolding read_ser.simps by (rule gives_rmap [OF gives_value]) (auto intro: se_prim)
next
  case (S_list s)
  show ?case unfolding read_ser.simps by (rule gives_rmap [OF gives_rlist [OF S_list]]) (auto intro: se_list)
next
  case (S_pair s s')
  show ?case unfolding read_ser.simps by (rule gives_rbind [OF S_pair(1)], rule gives_rmap [OF S_pair(2)]) (rule se_pair)
next
  case (S_opt s)
  show ?case unfolding read_ser.simps
    by (intro gives_rbind [OF gives_runt] gives_if gives_rmap [OF S_opt] gives_base(1)) (auto intro: se_some se_none)
next
  case (S_rec t)
  show ?case unfolding read_ser.simps by (rule gives_weaken [OF S_rec]) (rule se_rec)
qed

lemma as_message_typed: "has_type t v \<Longrightarrow> has_type (TI_builtin Bi_message) (as_message t v)"
proof (cases "\<exists>ts vs. v = V_tuple ts vs")
  case True
  assume "has_type t v"
  then show ?thesis using True by (cases rule: has_type.cases) (auto simp: as_message_def builtin_val_def intro: ty_message split: builtin.splits)
next
  case False
  assume "has_type t v"
  then show ?thesis using False by (auto simp: as_message_def intro!: ty_message split: uval.split)
qed

lemma gives_begin_object: "gives (\<lambda>_. True) begin_object"
proof -
  have "gives (\<lambda>_. True) (\<lambda>st. case by_uniform_name tname (snd st) of (Some t, m) \<Rightarrow> Inr (t, (fst st, m)) | (None, m) \<Rightarrow> Inl (Re_unknown_type tname))" for tname
    by (auto simp: gives_def split: prod.splits option.splits)
  then show ?thesis unfolding begin_object_def by (rule gives_rbind [OF gives_rstring])
qed

lemma gives_read_nested:
  assumes "gives (\<lambda>_. True) ra"
  shows "gives (has_type (TI_builtin Bi_message)) (read_nested ra n)"
proof (induction n)
  case (Suc n)
  show ?case unfolding read_nested.simps
    by (intro gives_rbind [OF gives_begin_object] gives_if gives_base(2) gives_rmap [OF gives_read_ti(1) [OF assms Suc]] as_message_typed)
qed (simp add: gives_base)

text \<open>
  C17. Whatever bytes arrive, a message that is read from them is well typed: it has as many values as types, each value is one of
  its type, integers are in range, strings and lists shorter than 2^32, maps sorted by distinct keys, and so on for the messages and
  objects in it.
\<close>

theorem read_message_well_typed:
  assumes "\<forall>b\<in>set buf. b < 256" "read_message this_node reg (buf, m) = Inr (v, st')"
  shows "has_type (TI_builtin Bi_message) v \<and> (\<exists>ts vs. v = V_message ts vs \<and> list_all2 has_type ts vs)"
proof -
  have "gives (\<lambda>_. True) (rlift (ns_read this_node reg))" by (rule gives_rlift) (auto dest: ns_read_gives)
  note g = gives_read_nested [OF this, of "Suc (length buf)"]
  have "has_type (TI_builtin Bi_message) v"
    using givesD [OF g, of "(buf, m)" v st'] assms by (simp add: read_message_def bytes_ok_def)
  then show ?thesis by (cases rule: has_type.cases) (auto simp: builtin_val_def intro: ty_message)
qed

section \<open>What is written is read back\<close>

text \<open>
  \<open>K\<close> is a set of types with proper names. A table knows them if it finds them by name, and if a type of messages made of
  them is either not yet there or the right one.
\<close>

definition types_ok :: "tinfo set \<Rightarrow> bool" where
  "types_ok K \<longleftrightarrow> (\<forall>t\<in>K. ti_name t \<noteq> [] \<and> CHR ''+'' \<notin> set (ti_name t) \<and> CHR 0x00 \<notin> set (ti_name t) \<and> \<not> has_null t)"

definition table_knows :: "tinfo set \<Rightarrow> type_map \<Rightarrow> bool" where
  "table_knows K m \<longleftrightarrow> tm_ok m \<and> (\<forall>t\<in>K. tm_find m (ti_name t) = Some t)
     \<and> (\<forall>ts. set ts \<subseteq> K \<longrightarrow> tm_find m (message_name ts) \<in> {None, Some (TI_meta (message_name ts) (map Some ts))})"

lemma message_name_split:
  assumes "types_ok K" "set ts \<subseteq> K"
  shows "split_str (message_name ts) ''+'' True = ''@<>'' # map ti_name ts"
  unfolding message_name_def using assms by (intro split_plus_names) (auto simp: types_ok_def)

lemma message_name_inj:
  assumes "types_ok K" "table_knows K m" "set ts \<subseteq> K" "set us \<subseteq> K" "message_name ts = message_name us"
  shows "ts = us"
proof -
  have "map ti_name ts = map ti_name us"
    using message_name_split [OF assms(1,3)] message_name_split [OF assms(1,4)] assms(5) by simp
  then have "map (tm_find m) (map ti_name ts) = map (tm_find m) (map ti_name us)" by simp
  moreover have "map (tm_find m) (map ti_name xs) = map Some xs" if "set xs \<subseteq> K" for xs
    using assms(2) that by (auto simp: table_knows_def)
  ultimately have "map Some ts = map Some us" using assms(3,4) by metis
  then show ?thesis by (simp add: inj_map_eq_map)
qed

text \<open>Looking up the type of a message of known types gives that type; the table still knows them.\<close>

lemma lookup_known:
  assumes K: "types_ok K" and m: "table_knows K m" and ts: "set ts \<subseteq> K"
  obtains m' where "by_uniform_name (message_name ts) m = (Some (TI_meta (message_name ts) (map Some ts)), m')" "table_knows K m'"
proof (cases "tm_find m (message_name ts)")
  case (Some t)
  then have "t = TI_meta (message_name ts) (map Some ts)" using m ts by (force simp: table_knows_def)
  then show thesis using Some m that by (subst (asm) by_uniform_name.simps) simp
next
  case None
  let ?n = "message_name ts" and ?t = "TI_meta (message_name ts) (map Some ts)"
  have f: "map (tm_find m) (map ti_name ts) = map Some ts" using m ts by (auto simp: table_knows_def)
  have el: "meta_elements (tl (split_str ?n ''+'' True)) m = (map Some ts, m)"
    using message_name_split [OF K ts] known_elements [of "map ti_name ts" m] f m ts by (auto simp: table_knows_def)
  obtain u m' where i: "tm_insert ?t m = (u, m')" by fastforce
  have ok: "tm_ok m" using m by (simp add: table_knows_def)
  have at: "take 3 ?n = ''@<>''" by (simp add: message_name_def)
  have z: "cstr ?n = ?n" using K ts by (intro cstr_id) (auto simp: message_name_def plus_names_def types_ok_def)
  have "find_name (m_user_types m) ?n = None" using None builtin_not_meta [OF ok at] by simp
  then have u: "u = ?t" using tm_insert_fresh [OF ok _ i] z by simp
  have "by_uniform_name ?n m = (Some ?t, m')" using None at el i u by (subst by_uniform_name.simps) simp
  moreover have "table_knows K m'"
    unfolding table_knows_def
  proof (intro conjI ballI allI impI)
    show ok': "tm_ok m'" by (rule tm_insert_ok(1) [OF ok i])
    show "tm_find m' (ti_name t) = Some t" if "t \<in> K" for t
      using tm_insert_ok(4) [OF ok i] m that by (simp add: table_knows_def)
    show "tm_find m' (message_name us) \<in> {None, Some (TI_meta (message_name us) (map Some us))}" if us: "set us \<subseteq> K" for us
    proof (cases "message_name us = ?n")
      case True
      then have "us = ts" using message_name_inj [OF K m us ts] by simp
      then show ?thesis using tm_insert_ok(3) [OF ok i] builtin_not_meta [OF ok' at] u z by simp
    next
      case False
      then show ?thesis using tm_insert_ok(5) [OF ok i, of "message_name us"] m us z by (simp add: table_knows_def)
    qed
  qed
  ultimately show thesis by (rule that)
qed

subsection \<open>Readers and what they read\<close>

definition reads :: "tinfo set \<Rightarrow> 'r reader \<Rightarrow> nat list \<Rightarrow> 'r \<Rightarrow> bool" where
  "reads K r bs x \<longleftrightarrow> (\<forall>rest m. table_knows K m \<longrightarrow> (\<exists>m'. table_knows K m' \<and> r (bs @ rest, m) = Inr (x, (rest, m'))))"

lemma reads_rret: "reads K (rret x) [] x"
  by (simp add: reads_def rret_def)

lemma reads_rbind:
  assumes "reads K r bs x" "reads K (f x) bs' y"
  shows "reads K (rbind r f) (bs @ bs') y"
  unfolding reads_def
proof (intro allI impI)
  fix rest m assume "table_knows K m"
  then obtain m1 where m1: "table_knows K m1" "r (bs @ bs' @ rest, m) = Inr (x, (bs' @ rest, m1))" using assms(1) by (auto simp: reads_def)
  then obtain m2 where "table_knows K m2" "f x (bs' @ rest, m1) = Inr (y, (rest, m2))" using assms(2) by (auto simp: reads_def)
  then show "\<exists>m'. table_knows K m' \<and> rbind r f ((bs @ bs') @ rest, m) = Inr (y, (rest, m'))" using m1 by (auto simp: rbind_def)
qed

lemma reads_rmap: "reads K r bs x \<Longrightarrow> reads K (rmap f r) bs (f x)"
  using reads_rbind [OF _ reads_rret, of K r bs x f] by (simp add: rmap_def)

lemma reads_rlift: "(\<And>rest. f (bs @ rest) = Inr (x, rest)) \<Longrightarrow> reads K (rlift f) bs x"
  by (simp add: reads_def rlift_def)

lemma reads_runt: "n < 256 ^ w \<Longrightarrow> reads K (runt w) (write_int w (int n)) n"
proof -
  assume "n < 256 ^ w"
  then have "int n < 256 ^ w" by (metis of_nat_less_iff of_nat_numeral of_nat_power)
  then show ?thesis unfolding runt_def by (intro reads_rlift) (simp add: read_uint_write_int)
qed

lemma reads_rstring: "length s < 2 ^ 32 \<Longrightarrow> reads K rstring (write_string s) s"
  unfolding rstring_def by (intro reads_rlift read_string_written)

lemma reads_rseq: "list_all2 (\<lambda>r v. reads K r (w v) (f v)) rs vs \<Longrightarrow> reads K (rseq rs) (concat (map w vs)) (map f vs)"
proof (induction rule: list_all2_induct)
  case (Cons r rs v vs)
  have "reads K (rbind (rseq rs) (\<lambda>xs. rret (f v # xs))) (concat (map w vs) @ []) (f v # map f vs)"
    by (rule reads_rbind [OF Cons(3) reads_rret])
  from reads_rbind [OF Cons(1), of "\<lambda>x. rbind (rseq rs) (\<lambda>xs. rret (x # xs))", OF this] show ?case by simp
qed (simp add: reads_rret)

lemma reads_rlist:
  assumes "length vs < 2 ^ 32" "\<forall>v\<in>set vs. reads K r (w v) (f v)"
  shows "reads K (rlist r) (write_int 4 (int (length vs)) @ concat (map w vs)) (map f vs)"
proof -
  have "reads K (rlift bd_begin_sequence) (write_int 4 (int (length vs))) (length vs)"
    using assms(1) by (intro reads_rlift) (simp add: bd_begin_sequence_def read_length)
  moreover have "reads K (rseq (replicate (length vs) r)) (concat (map w vs)) (map f vs)"
    using assms(2) by (intro reads_rseq) (simp add: list_all2_conv_all_nth)
  ultimately show ?thesis unfolding rlist_def by (rule reads_rbind)
qed

lemma fold_strmap_sorted:
  "sorted_wrt (<) (map fst (acc @ kvs)) \<Longrightarrow> fold strmap_insert kvs acc = acc @ kvs"
proof (induction kvs arbitrary: acc)
  case (Cons kv kvs)
  have "\<forall>kv'\<in>set acc. fst kv' < fst kv" using Cons.prems by (auto simp: sorted_wrt_append)
  then have "strmap_insert kv acc = acc @ [kv]" by (induction acc) (auto dest: less_not_sym)
  with Cons.IH [of "acc @ [kv]"] Cons.prems show ?case by simp
qed simp

lemma reads_strmap:
  assumes "builtin_val Bi_strmap (V_strmap kvs)"
  shows "reads K read_strmap (write_int 4 (int (length kvs)) @ concat (map (\<lambda>(k, v). write_string k @ write_string v) kvs)) kvs"
proof -
  have k: "sorted_wrt (<) (map fst kvs)" "length kvs < 2 ^ 32" "\<forall>kv\<in>set kvs. length (fst kv) < 2 ^ 32 \<and> length (snd kv) < 2 ^ 32"
    using assms by (auto simp: builtin_val_def)
  have "\<forall>kv\<in>set kvs. reads K (rbind rstring (\<lambda>k. rmap (Pair k) rstring)) ((\<lambda>(k, v). write_string k @ write_string v) kv) (id kv)"
  proof
    fix kv assume "kv \<in> set kvs"
    then have "reads K (rbind rstring (\<lambda>k. rmap (Pair k) rstring)) (write_string (fst kv) @ write_string (snd kv)) (fst kv, snd kv)"
      using k(3) by (intro reads_rbind [OF reads_rstring] reads_rmap [OF reads_rstring]) auto
    then show "reads K (rbind rstring (\<lambda>k. rmap (Pair k) rstring)) ((\<lambda>(k, v). write_string k @ write_string v) kv) (id kv)"
      by (cases kv) simp
  qed
  from reads_rmap [OF reads_rlist [OF k(2) this], of "\<lambda>kvs. fold strmap_insert kvs []"] fold_strmap_sorted [of "[]" kvs] k(1)
  show ?thesis by (simp add: read_strmap_def)
qed

text \<open>The addresses are those of \<open>Actor_Namespace\<close>: what is read depends on the node that reads.\<close>

lemma ns_write_bytes: "fst (ns_write node exit_of addr reg) = addr_bytes addr"
  by (auto simp: addr_bytes_def ns_write_def split: option.splits)

lemma reads_addr:
  assumes "nid_ok node" "addr_ok addr"
  shows "reads K (rlift (ns_read node reg)) (addr_bytes addr) (resolve_addr node reg addr)"
proof (rule reads_rlift)
  fix rest
  obtain bs r where w: "ns_write node (\<lambda>_. 0) addr registry_new = (bs, r)" by fastforce
  then have "bs = addr_bytes addr" using ns_write_bytes [of node "\<lambda>_. 0" addr registry_new] by simp
  with ns_read_written [OF assms(2,1) w] show "ns_read node reg (addr_bytes addr @ rest) = Inr (resolve_addr node reg addr, rest)" by simp
qed

lemma reads_group:
  assumes "group_val_ok g" "\<forall>a\<in>set_group_val g. reads K ra (addr_bytes a) (f a)"
  shows "reads K (read_group ra) (write_group g) (map_group_val f g)"
proof (cases g)
  case G_invalid
  have "reads K (read_group ra) (write_string [] @ []) G_invalid"
    unfolding read_group_def by (rule reads_rbind [OF reads_rstring]) (simp_all add: reads_rret)
  then show ?thesis using G_invalid by simp
next
  case (G_local i a)
  have "reads K (rbind rstring (\<lambda>i. rmap (G_local i) ra)) (write_string i @ addr_bytes a) (G_local i (f a))"
    using assms G_local by (intro reads_rbind [OF reads_rstring] reads_rmap) auto
  then have "reads K (read_group ra) (write_string ''local'' @ write_string i @ addr_bytes a) (G_local i (f a))"
    unfolding read_group_def by (intro reads_rbind [OF reads_rstring]) simp_all
  then show ?thesis using G_local by simp
qed

lemma reads_channel:
  assumes "channel_val_ok c" "\<forall>a\<in>set_channel_val c. reads K ra (addr_bytes a) (f a)"
  shows "reads K (read_channel ra) (write_channel c) (map_channel_val f c)"
proof (cases c)
  case Ch_invalid
  have "reads K (read_channel ra) (write_int 1 (int 0) @ []) Ch_invalid"
    unfolding read_channel_def by (rule reads_rbind [OF reads_runt]) (simp_all add: reads_rret)
  then show ?thesis using Ch_invalid by simp
next
  case (Ch_actor a)
  have "reads K (read_channel ra) (write_int 1 (int 1) @ addr_bytes a) (Ch_actor (f a))"
    unfolding read_channel_def using assms Ch_actor by (intro reads_rbind [OF reads_runt]) (simp_all add: reads_rmap)
  then show ?thesis using Ch_actor by simp
next
  case (Ch_group g)
  have "reads K (read_channel ra) (write_int 1 (int 2) @ write_group g) (Ch_group (map_group_val f g))"
    unfolding read_channel_def using assms Ch_group reads_group [of g K ra f]
    by (intro reads_rbind [OF reads_runt]) (simp_all add: reads_rmap)
  then show ?thesis using Ch_group by simp
qed

lemma reads_addr_msg:
  assumes "reads K ra (addr_bytes a) x" "r < 2 ^ 32"
  shows "reads K (rbind ra (\<lambda>a. rmap (c a) (runt 4))) (addr_bytes a @ write_int 4 (int r)) (c x r)"
  by (rule reads_rbind [OF assms(1)], rule reads_rmap, rule reads_runt) (use assms(2) in simp)

lemma reads_value: "bvalue_ok v \<Longrightarrow> btype_of v = t \<Longrightarrow> reads K (rlift (bd_read_value t)) (binary_writer v) v"
  using read_value_written by (intro reads_rlift) auto

lemma reads_nid: "nid_ok n \<Longrightarrow> reads K (rlift nid_deserialize) (nid_serialize n) n"
  by (intro reads_rlift) (rule nid_roundtrip)

text \<open>
  Values that can be sent: the types of the elements of messages are in \<open>K\<close>, messages are nested at most \<open>n\<close> deep, and there
  is no duration, which cannot be read back.
\<close>

fun sendable :: "tinfo set \<Rightarrow> nat \<Rightarrow> 'a uval \<Rightarrow> bool" where
  "sendable K n (V_message ts vs) \<longleftrightarrow> 0 < n \<and> set ts \<subseteq> K \<and> length (message_name ts) < 2 ^ 32 \<and> (\<forall>v\<in>set vs. sendable K (n - 1) v)"
| "sendable K n (V_tuple ts vs) \<longleftrightarrow> (\<forall>v\<in>set vs. sendable K n v)"
| "sendable K n (V_list vs) \<longleftrightarrow> (\<forall>v\<in>set vs. sendable K n v)"
| "sendable K n (V_pair v w) \<longleftrightarrow> sendable K n v \<and> sendable K n w"
| "sendable K n (V_opt (Some v)) \<longleftrightarrow> sendable K n v"
| "sendable K n (V_obj vs) \<longleftrightarrow> (\<forall>v\<in>set vs. sendable K n v)"
| "sendable K n (V_duration _ _) \<longleftrightarrow> False"
| "sendable K n _ \<longleftrightarrow> True"

lemma sendable_mono: "sendable K n v \<Longrightarrow> n \<le> n' \<Longrightarrow> sendable K n' v"
  by (induction K n v arbitrary: n' rule: sendable.induct) (auto simp: diff_le_mono)

lemma reads_builtin:
  assumes "builtin_val b v" "sendable K n v" "\<forall>a\<in>set_uval v. reads K ra (addr_bytes a) (f a)"
  shows "reads K (read_builtin ra rm b) (write_val v) (map_uval f v)"
proof -
  note [simp] = builtin_val_def read_builtin_def
  show ?thesis
  proof (cases b)
    case Bi_bool
    then obtain x where v: "v = V_bool x" using assms(1) by auto
    show ?thesis using reads_rmap [OF reads_runt [of "if x then 1 else 0" 1], of K "\<lambda>n. V_bool (n \<noteq> 0)"] Bi_bool v by (cases x) auto
  next
    case Bi_strmap
    then obtain kvs where v: "v = V_strmap kvs" "builtin_val Bi_strmap (V_strmap kvs)" using assms(1) by auto
    show ?thesis using reads_rmap [OF reads_strmap [OF v(2)], of K V_strmap] Bi_strmap v(1) by (simp del: builtin_val_def)
  next
    case Bi_charbuf
    then obtain cs where v: "v = V_charbuf cs" "length cs < 2 ^ 32" "\<forall>c\<in>set cs. c < 256" using assms(1) by auto
    have "\<forall>c\<in>set cs. reads K (runt 1) (write_int 1 (int c)) (id c)" using v(3) reads_runt [of _ 1] by simp
    from reads_rmap [OF reads_rlist [OF v(2) this], of V_charbuf] show ?thesis using Bi_charbuf v(1) by simp
  next
    case Bi_strvec
    then obtain ss where v: "v = V_strvec ss" "length ss < 2 ^ 32" "\<forall>s\<in>set ss. length s < 2 ^ 32" using assms(1) by auto
    have "\<forall>s\<in>set ss. reads K rstring (write_string s) (id s)" using v(3) reads_rstring by simp
    from reads_rmap [OF reads_rlist [OF v(2) this], of V_strvec] show ?thesis using Bi_strvec v(1) by simp
  qed (use assms in \<open>auto intro!: reads_rmap reads_runt reads_rstring reads_value reads_nid reads_group reads_channel reads_addr_msg reads_rret\<close>)
qed

lemma reads_begin_object:
  assumes "types_ok K" "set ts \<subseteq> K" "length (message_name ts) < 2 ^ 32"
  shows "reads K begin_object (write_string (message_name ts)) (TI_meta (message_name ts) (map Some ts))"
proof -
  have l: "reads K (\<lambda>st. case by_uniform_name (message_name ts) (snd st) of (Some t, m) \<Rightarrow> Inr (t, (fst st, m))
      | (None, m) \<Rightarrow> Inl (Re_unknown_type (message_name ts))) [] (TI_meta (message_name ts) (map Some ts))"
    unfolding reads_def
  proof (intro allI impI)
    fix rest m assume "table_knows K m"
    from lookup_known [OF assms(1) this assms(2)] obtain m' where
      "by_uniform_name (message_name ts) m = (Some (TI_meta (message_name ts) (map Some ts)), m')" "table_knows K m'" .
    then show "\<exists>m'. table_knows K m' \<and> (case by_uniform_name (message_name ts) (snd ([] @ rest, m)) of
        (Some t, m1) \<Rightarrow> Inr (t, (fst ([] @ rest, m), m1)) | (None, m1) \<Rightarrow> Inl (Re_unknown_type (message_name ts)))
        = Inr (TI_meta (message_name ts) (map Some ts), (rest, m'))" by simp
  qed
  have "reads K begin_object (write_string (message_name ts) @ []) (TI_meta (message_name ts) (map Some ts))"
    unfolding begin_object_def by (rule reads_rbind [OF reads_rstring [OF assms(3)]]) (rule l)
  then show ?thesis by simp
qed

lemma reads_tuple:
  assumes "list_all2 (\<lambda>t v. reads K (read_ti ra rm t) (write_val v) (map_uval f v)) ts vs"
  shows "reads K (read_ti ra rm (TI_meta n (map Some ts))) (concat (map write_val vs)) (V_tuple ts (map (map_uval f) vs))"
proof -
  have "list_all2 (\<lambda>r v. reads K r (write_val v) (map_uval f v)) (map (read_ti ra rm) ts) vs" using assms by (simp add: list_all2_map1)
  from reads_rmap [OF reads_rseq [OF this], of "V_tuple ts"] show ?thesis by (simp add: comp_def map_filter_def)
qed

lemma reads_all:
  assumes "list_all2 (\<lambda>t v. P t v \<and> (\<forall>n. sendable K n v \<longrightarrow> (\<forall>a\<in>set_uval v. reads K ra (addr_bytes a) (f a))
      \<longrightarrow> reads K (R n t) (write_val v) (map_uval f v))) ts vs"
    and "\<forall>v\<in>set vs. sendable K n v" "\<forall>v\<in>set vs. \<forall>a\<in>set_uval v. reads K ra (addr_bytes a) (f a)"
  shows "list_all2 (\<lambda>t v. reads K (R n t) (write_val v) (map_uval f v)) ts vs"
  using assms unfolding list_all2_conv_all_nth by (metis nth_mem)

lemma reads_typed:
  assumes K: "types_ok K"
  shows "has_type t v \<Longrightarrow> sendable K n v \<Longrightarrow> \<forall>a\<in>set_uval v. reads K ra (addr_bytes a) (f a) \<Longrightarrow>
      reads K (read_ti ra (read_nested ra n) t) (write_val v) (map_uval f v)"
    and "has_ser s v \<Longrightarrow> sendable K n v \<Longrightarrow> \<forall>a\<in>set_uval v. reads K ra (addr_bytes a) (f a) \<Longrightarrow>
      reads K (read_ser ra (read_nested ra n) s) (write_val v) (map_uval f v)"
proof (induction arbitrary: n and n rule: has_type_has_ser.inducts)
  case (ty_builtin b v)
  then show ?case using reads_builtin by simp
next
  case (ty_message ts vs)
  then obtain k where n: "n = Suc k" by (cases n) auto
  let ?t = "TI_meta (message_name ts) (map Some ts)"
  have "list_all2 (\<lambda>t v. reads K (read_ti ra (read_nested ra k) t) (write_val v) (map_uval f v)) ts vs"
    using ty_message n by (intro reads_all [where R = "\<lambda>n. read_ti ra (read_nested ra n)"]) auto
  from reads_rmap [OF reads_tuple [OF this, of "message_name ts"], of "as_message ?t"]
  have r: "reads K (rmap (as_message ?t) (read_ti ra (read_nested ra k) ?t)) (concat (map write_val vs)) (V_message ts (map (map_uval f) vs))"
    by (simp add: as_message_def)
  have null: "\<not> has_null ?t" using ty_message.prems(1) K by (auto simp: list_ex_iff types_ok_def)
  have "reads K (read_nested ra (Suc k)) (write_string (message_name ts) @ concat (map write_val vs)) (V_message ts (map (map_uval f) vs))"
    unfolding read_nested.simps using ty_message.prems(1) null r by (intro reads_rbind [OF reads_begin_object [OF K]]) auto
  then show ?case using n by (simp add: read_builtin_def)
next
  case (ty_user ss vs i k)
  have "list_all2 (\<lambda>r v. reads K r (write_val v) (map_uval f v)) (map (read_ser ra (read_nested ra n)) ss) vs"
    unfolding list_all2_map1 using ty_user by (intro reads_all [where R = "\<lambda>n. read_ser ra (read_nested ra n)"]) auto
  from reads_rmap [OF reads_rseq [OF this], of V_obj] show ?case by simp
next
  case (ty_meta ts vs i)
  have "list_all2 (\<lambda>t v. reads K (read_ti ra (read_nested ra n) t) (write_val v) (map_uval f v)) ts vs"
    using ty_meta by (intro reads_all [where R = "\<lambda>n. read_ti ra (read_nested ra n)"]) auto
  from reads_tuple [OF this] show ?case by simp
next
  case (se_prim v bt)
  then show ?case using reads_rmap [OF reads_value, of v bt K V_prim] by simp
next
  case (se_list vs s)
  then have "\<forall>v\<in>set vs. reads K (read_ser ra (read_nested ra n) s) (write_val v) (map_uval f v)" by simp
  from reads_rmap [OF reads_rlist [OF se_list.hyps this], of V_list] show ?case by simp
next
  case (se_pair s v s' v')
  then show ?case by (auto intro!: reads_rbind reads_rmap)
next
  case (se_none s)
  have "reads K (read_ser ra (read_nested ra n) (S_opt s)) (write_int 1 (int 0) @ []) (V_opt None)"
    unfolding read_ser.simps by (rule reads_rbind [OF reads_runt]) (simp_all add: reads_rret)
  then show ?case by simp
next
  case (se_some s v)
  have "reads K (read_ser ra (read_nested ra n) (S_opt s)) (write_int 1 (int 1) @ write_val v) (V_opt (Some (map_uval f v)))"
    unfolding read_ser.simps using se_some reads_rmap by (intro reads_rbind [OF reads_runt]) force+
  then show ?case by simp
next
  case (se_rec t v)
  then show ?case by simp
qed

lemma message_read_back:
  assumes "nid_ok this_node" "has_type (TI_builtin Bi_message) v" "sendable K n v" "\<forall>a\<in>set_uval v. addr_ok a"
    and "types_ok K" "table_knows K m"
  shows "\<exists>m'. read_message this_node reg (write_val v @ rest, m) = Inr (map_uval (resolve_addr this_node reg) v, (rest, m'))
    \<and> table_knows K m'"
proof -
  let ?ra = "rlift (ns_read this_node reg)" and ?buf = "write_val v @ rest"
  have "\<forall>a\<in>set_uval v. reads K ?ra (addr_bytes a) (resolve_addr this_node reg a)" using assms(1,4) reads_addr by blast
  note r = reads_typed(1) [OF assms(5,2) _ this]
  let ?L = "Suc (length ?buf)"
  have "reads K (read_nested ?ra (max n ?L)) (write_val v) (map_uval (resolve_addr this_node reg) v)"
    using r [of "max n ?L"] sendable_mono [OF assms(3)] by (simp add: read_builtin_def)
  then obtain m' where m': "read_nested ?ra (max n ?L) (?buf, m) = Inr (map_uval (resolve_addr this_node reg) v, (rest, m'))" "table_knows K m'"
    using assms(6) by (auto simp: reads_def)
  have "agree ?L (read_nested ?ra ?L) (read_nested ?ra (max n ?L))" by (rule read_nested_agree) (auto intro: agreeing)
  from agreeD(2) [OF this, of "(?buf, m)"] have "read_message this_node reg (?buf, m) = read_nested ?ra (max n ?L) (?buf, m)"
    by (simp add: read_message_def del: read_nested.simps)
  then show ?thesis using m' by auto
qed


text \<open>Built-in types are known from the start.\<close>

lemma table_knows_builtin: "table_knows (range TI_builtin) initialize"
proof -
  have "tm_find initialize (message_name ts) = None" for ts
    using builtin_not_meta [OF initialize_ok, of "message_name ts"] by (simp add: message_name_def initialize_def find_name_def)
  then show ?thesis using initialize_ok find_builtin by (auto simp: table_knows_def)
qed

lemma types_ok_builtin: "types_ok (range TI_builtin)"
  using builtin_names(3) storage_complete by (auto simp: types_ok_def list_all_iff)

definition demo_node :: node_id where
  "demo_node = Node_id 7 (replicate 20 1)"


lemma demo_node_ok: "nid_ok demo_node"
  by (simp add: demo_node_def nid_ok_def host_id_size_def list_all_iff)





lemma empty_message: "has_type (TI_builtin Bi_message) (V_message [] [])" "sendable K 1 (V_message [] [])" "\<forall>b\<in>set (write_val (V_message [] [])). b < 256"
proof -
  show "has_type (TI_builtin Bi_message) (V_message [] [])" by (simp add: ty_message)
  show "sendable K 1 (V_message [] [])" by (simp add: message_name_def plus_names_def)
  show "\<forall>b\<in>set (write_val (V_message [] [])). b < 256" by code_simp
qed

theorem read_message_well_typed_witness:
  "\<exists>v st'. read_message demo_node registry_new (write_val (V_message [] []), initialize) = Inr (v, st') \<and> has_type (TI_builtin Bi_message) v"
proof -
  obtain v st' where r: "read_message demo_node registry_new (write_val (V_message [] []), initialize) = Inr (v, st')"
    using message_read_back [OF demo_node_ok empty_message(1,2) _ types_ok_builtin table_knows_builtin, of registry_new "[]"] by auto
  from read_message_well_typed [OF empty_message(3) r] r show ?thesis by blast
qed

section \<open>Failures\<close>

lemma le_bytes_add: "le_bytes (v + w) n = le_bytes v n @ le_bytes w (n div 256 ^ v)"
  by (induction v n rule: le_bytes.induct) (simp_all add: div_mult2_eq)

lemma le_bytes_mod: "le_bytes w (n mod 256 ^ w) = le_bytes w n"
proof (induction w n rule: le_bytes.induct)
  case (2 w n)
  have "n mod 256 ^ Suc w = n mod 256 + 256 * (n div 256 mod 256 ^ w)" by (simp add: mod_mult2_eq)
  then show ?case using 2 by simp
qed simp

lemma write_int_nat: "write_int w (int n) = le_bytes w n"
proof -
  have "nat (int n mod 256 ^ w) = n mod 256 ^ w" by (metis nat_int of_nat_numeral of_nat_power zmod_int)
  then show ?thesis by (simp add: write_int_def le_bytes_mod)
qed

text \<open>
  A duration is not read back: it is written with a 64-bit count and read with a 32-bit one, so that four of its twelve bytes
  are left and taken for the beginning of what follows.
\<close>

theorem duration_misread:
  "read_ti ra rm (TI_builtin Bi_duration) (write_val (V_duration u n) @ rest, m)
    = Inr (V_duration u (n mod 2 ^ 32), (write_int 4 (int (n div 2 ^ 32)) @ rest, m))"
proof -
  have n: "write_int 8 (int n) = write_int 4 (int (n mod 2 ^ 32)) @ write_int 4 (int (n div 2 ^ 32))"
    using le_bytes_add [of 4 4 n] by (simp add: write_int_nat le_bytes_mod [of 4, simplified])
  have r: "read_uint 4 (write_int 4 (int k) @ bs) = Inr (k, bs)" if "k < 2 ^ 32" for k bs using that by (rule read_uint4)
  have "unit_value u < 2 ^ 32" by (cases u) (simp_all add: unit_value_def)
  from r [OF this] r [of "n mod 2 ^ 32"] show ?thesis
    by (cases u) (simp_all add: read_builtin_def read_duration_def rbind_def runt_def rlift_def rret_def write_duration_def n unit_value_def)
qed

text \<open>
  A message with an element of a type that the reader does not know is not rejected like any other unknown type: its type is made with a null
  pointer, which is then followed.
\<close>

lemma unknown_element_crashes:
  assumes "tm_ok m" "tm_find m ''@<>+foo'' = None" "tm_find m ''foo'' = None"
  shows "read_message node reg (write_string ''@<>+foo'' @ rest, m) = Inl Re_null_type"
proof -
  obtain m1 where "by_uniform_name ''@<>+foo'' m = (Some (TI_meta ''@<>+foo'' [None]), m1)"
    using unknown_element_null(1) [OF assms] by (metis prod.collapse)
  moreover have "read_range_string (write_string ''@<>+foo'' @ rest) = Inr (''@<>+foo'', rest)" by (rule read_string_written) simp
  ultimately show ?thesis by (simp add: read_message_def begin_object_def rbind_def rstring_def rlift_def rfail_def)
qed

text \<open>A group of a module that is not there: the pointer to the module is null.\<close>

lemma unknown_module_crashes:
  assumes "modname \<noteq> []" "modname \<noteq> ''local''" "length modname < 2 ^ 32"
  shows "read_ti ra rm (TI_builtin Bi_group) (write_string modname @ rest, m) = Inl (Re_null_module modname)"
  using assms read_string_written [OF assms(3)] by (simp add: read_builtin_def read_group_def rmap_def rbind_def rstring_def rlift_def rfail_def)

end
