(* ===== verification/Typed_Messaging.thy ===== *)
theory Typed_Messaging
  imports Basp_Network Message_Serialization
begin

text \<open>
  The broker of \<open>Basp_Broker\<close> with the messages of \<open>Message_Serialization\<close>: how a message is written and read is no longer a
  parameter. The table of types is the one the reading node starts with; what reading adds to it does not change what is read.
\<close>

section \<open>Messages of the broker\<close>









section \<open>Delivery\<close>




end
