(* ===== verification/Shared_Spinlock.thy ===== *)
theory Shared_Spinlock
  imports Prelude
begin

text \<open>
  The readers-writer lock (libcaf_core/src/shared_spinlock.cpp, with the guards of caf/locks.hpp) and a user of it, the anchor
  of a proxy (src/actor_proxy.cpp, caf/ref_counted.hpp). The threads interleave at each access to an atomic variable; a weak
  compare-and-exchange may fail for no reason. Counters are unbounded here, and shown to stay in the range of
  \<open>long\<close> for fewer than \<open>2 ^ 63\<close> threads.
\<close>

section \<open>The lock\<close>

text \<open>
  Where a thread is: outside of the lock, about to call \<open>lock\<close> or \<open>lock_shared\<close>, in the loop of one of the four functions that
  take the lock with the value \<open>v\<close> it has read, or holding the lock.
\<close>

datatype lock_pc = Unlocked | Call_lock | Call_lock_shared | In_lock int | In_lock_shared int | In_try_lock int | In_try_lock_shared int
  | Holds_unique | Holds_shared

record spinlock =
  m_flag :: int
  lock_pc :: "nat \<Rightarrow> lock_pc"

definition min_long :: int where
  "min_long = - (2 ^ 63)"


definition go :: "nat \<Rightarrow> lock_pc \<Rightarrow> int \<Rightarrow> spinlock \<Rightarrow> spinlock" where
  "go i pc flag s = \<lparr>m_flag = flag, lock_pc = (lock_pc s)(i := pc)\<rparr>"

text \<open>
  The steps of thread \<open>i\<close>. A failed compare-and-exchange stores the current value in \<open>v\<close>.
\<close>

inductive lock_step :: "nat \<Rightarrow> spinlock \<Rightarrow> spinlock \<Rightarrow> bool" for i where
  call_lock: "lock_pc s i = Unlocked \<Longrightarrow> lock_step i s (go i Call_lock (m_flag s) s)"
| call_lock_shared: "lock_pc s i = Unlocked \<Longrightarrow> lock_step i s (go i Call_lock_shared (m_flag s) s)"
| lock_load: "lock_pc s i = Call_lock \<Longrightarrow> lock_step i s (go i (In_lock (m_flag s)) (m_flag s) s)"
| lock_reload: "lock_pc s i = In_lock v \<Longrightarrow> v \<noteq> 0 \<Longrightarrow> lock_step i s (go i (In_lock (m_flag s)) (m_flag s) s)"
| lock_exchange: "lock_pc s i = In_lock v \<Longrightarrow> v = 0 \<Longrightarrow> m_flag s = v \<Longrightarrow> lock_step i s (go i Holds_unique min_long s)"
| lock_fail: "lock_pc s i = In_lock v \<Longrightarrow> v = 0 \<Longrightarrow> lock_step i s (go i (In_lock (m_flag s)) (m_flag s) s)"
| unlock: "lock_pc s i = Holds_unique \<Longrightarrow> lock_step i s (go i Unlocked 0 s)"
| try_lock_load: "lock_pc s i = Unlocked \<Longrightarrow> lock_step i s (go i (In_try_lock (m_flag s)) (m_flag s) s)"
| try_lock_exchange: "lock_pc s i = In_try_lock v \<Longrightarrow> v = 0 \<Longrightarrow> m_flag s = v \<Longrightarrow> lock_step i s (go i Holds_unique min_long s)"
| try_lock_fail: "lock_pc s i = In_try_lock v \<Longrightarrow> lock_step i s (go i Unlocked (m_flag s) s)"
| shared_load: "lock_pc s i = Call_lock_shared \<Longrightarrow> lock_step i s (go i (In_lock_shared (m_flag s)) (m_flag s) s)"
| shared_reload: "lock_pc s i = In_lock_shared v \<Longrightarrow> v < 0 \<Longrightarrow> lock_step i s (go i (In_lock_shared (m_flag s)) (m_flag s) s)"
| shared_exchange: "lock_pc s i = In_lock_shared v \<Longrightarrow> \<not> v < 0 \<Longrightarrow> m_flag s = v \<Longrightarrow> lock_step i s (go i Holds_shared (v + 1) s)"
| shared_fail: "lock_pc s i = In_lock_shared v \<Longrightarrow> \<not> v < 0 \<Longrightarrow> lock_step i s (go i (In_lock_shared (m_flag s)) (m_flag s) s)"
| unlock_shared: "lock_pc s i = Holds_shared \<Longrightarrow> lock_step i s (go i Unlocked (m_flag s - 1) s)"
| try_shared_load: "lock_pc s i = Unlocked \<Longrightarrow> lock_step i s (go i (In_try_lock_shared (m_flag s)) (m_flag s) s)"
| try_shared_exchange: "lock_pc s i = In_try_lock_shared v \<Longrightarrow> v \<ge> 0 \<Longrightarrow> m_flag s = v \<Longrightarrow> lock_step i s (go i Holds_shared (v + 1) s)"
| try_shared_fail: "lock_pc s i = In_try_lock_shared v \<Longrightarrow> lock_step i s (go i Unlocked (m_flag s) s)"
| unlock_upgrade_and_lock: "lock_pc s i = Holds_shared \<Longrightarrow> lock_step i s (go i Call_lock (m_flag s - 1) s)"
| unlock_and_lock_upgrade: "lock_pc s i = Holds_unique \<Longrightarrow> lock_step i s (go i Call_lock_shared 0 s)"


subsection \<open>Exclusion\<close>







lemma flag_go [simp]: "m_flag (go i pc f s) = f" "lock_pc (go i pc f s) i = pc"
  by (simp_all add: go_def)











text \<open>Upgrading is not atomic: a reader that wants to write gives up the lock first, so that another writer may come before it.\<close>

lemma upgrade_preempted:
  assumes "lock_pc s 0 = Holds_shared" "m_flag s = 1" "lock_pc s 1 = In_lock 0"
  shows "\<exists>s1 s2. lock_step 0 s s1 \<and> lock_pc s1 0 = Call_lock \<and> lock_step 1 s1 s2 \<and> lock_pc s2 1 = Holds_unique"
proof -
  let ?s = "go 0 Call_lock 0 s"
  have "lock_step 0 s ?s" using unlock_upgrade_and_lock [OF assms(1)] assms(2) by simp
  moreover have "lock_step 1 ?s (go 1 Holds_unique min_long ?s)" by (rule lock_exchange [of _ _ 0]) (use assms(3) in \<open>simp_all add: go_def\<close>)
  ultimately show ?thesis by (metis flag_go(2))
qed

section \<open>The anchor of a proxy\<close>

text \<open>
  A proxy is owned by references; its anchor points to it without owning it, and gives out new references as long as it does. Who drops the last
  reference runs \<open>request_deletion\<close>, which clears the anchor, unless there are references again, and deletes the proxy. What
  the lock of the anchor protects is one step. A thread has a number of references and is possibly about to call \<open>try_expire\<close>, about to delete
  the proxy, or has followed a pointer to nothing.
\<close>

datatype anchor_pc = An_idle | An_expire | An_delete | An_crashed

record anchor =
  an_rc :: nat
  an_ptr :: bool            \<comment> \<open>\<open>m_ptr\<close> is not null\<close>
  an_deleted :: bool
  an_refs :: "nat \<Rightarrow> nat"
  an_pc :: "nat \<Rightarrow> anchor_pc"
  an_deletions :: nat       \<comment> \<open>an observation of the model\<close>

definition new_anchor :: anchor where
  "new_anchor = \<lparr>an_rc = 1, an_ptr = True, an_deleted = False, an_refs = (\<lambda>i. if i = 0 then 1 else 0), an_pc = (\<lambda>_. An_idle), an_deletions = 0\<rparr>"

definition proxy_get :: "nat \<Rightarrow> anchor \<Rightarrow> anchor" where
  "proxy_get i s = (if an_ptr s then s\<lparr>an_rc := an_rc s + 1, an_refs := (an_refs s)(i := an_refs s i + 1)\<rparr> else s)"

definition proxy_ref :: "nat \<Rightarrow> anchor \<Rightarrow> anchor" where
  "proxy_ref i s = s\<lparr>an_rc := an_rc s + 1, an_refs := (an_refs s)(i := an_refs s i + 1)\<rparr>"

definition proxy_deref :: "nat \<Rightarrow> anchor \<Rightarrow> anchor" where
  "proxy_deref i s = (let s1 = s\<lparr>an_rc := an_rc s - 1, an_refs := (an_refs s)(i := an_refs s i - 1)\<rparr>
     in if an_rc s1 = 0 then s1\<lparr>an_pc := (an_pc s1)(i := An_expire)\<rparr> else s1)"

definition try_expire :: "nat \<Rightarrow> anchor \<Rightarrow> anchor" where
  "try_expire i s =
     (if an_deleted s \<or> \<not> an_ptr s then s\<lparr>an_pc := (an_pc s)(i := An_crashed)\<rparr>
      else if an_rc s = 0 then s\<lparr>an_ptr := False, an_pc := (an_pc s)(i := An_delete)\<rparr>
      else s\<lparr>an_pc := (an_pc s)(i := An_idle)\<rparr>)"

definition delete_proxy :: "nat \<Rightarrow> anchor \<Rightarrow> anchor" where
  "delete_proxy i s = s\<lparr>an_deleted := True, an_deletions := an_deletions s + 1, an_pc := (an_pc s)(i := An_idle)\<rparr>"

inductive anchor_reach :: "nat \<Rightarrow> anchor \<Rightarrow> bool" for N where
  an_new: "anchor_reach N new_anchor"
| an_get: "anchor_reach N s \<Longrightarrow> i < N \<Longrightarrow> an_pc s i = An_idle \<Longrightarrow> anchor_reach N (proxy_get i s)"
| an_ref: "anchor_reach N s \<Longrightarrow> i < N \<Longrightarrow> an_pc s i = An_idle \<Longrightarrow> 0 < an_refs s i \<Longrightarrow> anchor_reach N (proxy_ref i s)"
| an_deref: "anchor_reach N s \<Longrightarrow> i < N \<Longrightarrow> an_pc s i = An_idle \<Longrightarrow> 0 < an_refs s i \<Longrightarrow> anchor_reach N (proxy_deref i s)"
| an_expire: "anchor_reach N s \<Longrightarrow> i < N \<Longrightarrow> an_pc s i = An_expire \<Longrightarrow> anchor_reach N (try_expire i s)"
| an_delete: "anchor_reach N s \<Longrightarrow> i < N \<Longrightarrow> an_pc s i = An_delete \<Longrightarrow> anchor_reach N (delete_proxy i s)"

definition deleting :: "nat \<Rightarrow> anchor \<Rightarrow> nat set" where
  "deleting N s = {i. i < N \<and> an_pc s i = An_delete}"

definition anchor_inv :: "nat \<Rightarrow> anchor \<Rightarrow> bool" where
  "anchor_inv N s \<longleftrightarrow> an_rc s = (\<Sum>i<N. an_refs s i)
     \<and> (if an_ptr s then deleting N s = {} \<and> \<not> an_deleted s \<and> an_deletions s = 0
        else an_rc s = 0 \<and> (if an_deleted s then deleting N s = {} \<and> an_deletions s = 1 else card (deleting N s) = 1 \<and> an_deletions s = 0))"

lemmas anchor_defs = proxy_get_def proxy_ref_def proxy_deref_def try_expire_def delete_proxy_def

lemma sum_refs_update: "i < N \<Longrightarrow> (\<Sum>j<N. (f(i := x)) j) + f i = (\<Sum>j<N. f j) + x" for f :: "nat \<Rightarrow> nat"
  by (simp add: sum.remove [of "{..<N}" i])

lemma deleting_set: "i < N \<Longrightarrow> an_pc s i \<noteq> An_delete \<Longrightarrow> x \<noteq> An_delete \<Longrightarrow> deleting N (s\<lparr>an_pc := (an_pc s)(i := x)\<rparr>) = deleting N s"
  by (auto simp: deleting_def)

lemma refs_zero: "anchor_inv N s \<Longrightarrow> i < N \<Longrightarrow> 0 < an_refs s i \<Longrightarrow> an_ptr s \<and> 0 < an_rc s"
proof -
  assume i: "anchor_inv N s" "i < N" "0 < an_refs s i"
  have "an_refs s i \<le> (\<Sum>j<N. an_refs s j)" using i(2) by (intro member_le_sum) auto
  then show ?thesis using i(1,3) by (auto simp: anchor_inv_def split: if_splits)
qed

lemma inv_expire_pc: "anchor_inv N s \<Longrightarrow> i < N \<Longrightarrow> an_pc s i \<noteq> An_delete \<Longrightarrow> anchor_inv N (s\<lparr>an_pc := (an_pc s)(i := An_expire)\<rparr>)"
  using deleting_set [of i N s An_expire] by (auto simp: anchor_inv_def)

lemma anchor_reach_inv: "anchor_reach N s \<Longrightarrow> 0 < N \<Longrightarrow> anchor_inv N s"
proof (induction rule: anchor_reach.induct)
  case an_new
  have "(\<Sum>i<N. if i = 0 then 1 else 0 :: nat) = 1" using an_new by simp
  then show ?case by (simp add: anchor_inv_def new_anchor_def deleting_def)
next
  case (an_get s i)
  then show ?case using sum_refs_update [OF an_get(2), of "an_refs s" "an_refs s i + 1"]
    by (auto simp: anchor_inv_def proxy_get_def deleting_def)
next
  case (an_ref s i)
  have inv: "anchor_inv N s" using an_ref by simp
  have p: "an_ptr s" using refs_zero [OF inv an_ref(2,4)] by simp
  from inv show ?case using p sum_refs_update [OF an_ref(2), of "an_refs s" "an_refs s i + 1"]
    by (simp add: anchor_inv_def proxy_ref_def deleting_def)
next
  case (an_deref s i)
  let ?s1 = "s\<lparr>an_rc := an_rc s - 1, an_refs := (an_refs s)(i := an_refs s i - 1)\<rparr>"
  have p: "an_ptr s" "0 < an_rc s" using refs_zero [of N s i] an_deref by auto
  have inv: "anchor_inv N ?s1"
    using an_deref p sum_refs_update [OF an_deref(2), of "an_refs s" "an_refs s i - 1"] by (auto simp: anchor_inv_def deleting_def)
  show ?case using inv inv_expire_pc [OF inv an_deref(2)] an_deref(3) 
    unfolding proxy_deref_def Let_def by (cases "an_rc ?s1 = 0") simp_all
next
  case (an_expire s i)
  have d: "deleting N (s\<lparr>an_pc := (an_pc s)(i := x)\<rparr>) = deleting N s" if "x \<noteq> An_delete" for x
    using an_expire that by (intro deleting_set) auto
  have del: "deleting N (s\<lparr>an_ptr := False, an_pc := (an_pc s)(i := An_delete)\<rparr>) = insert i (deleting N s)"
    using an_expire(2) by (auto simp: deleting_def)
  have "anchor_inv N s" using an_expire by simp
  then show ?case using d [of An_crashed] d [of An_idle] del
    by (cases "an_deleted s \<or> \<not> an_ptr s"; cases "an_rc s = 0") (auto simp: try_expire_def anchor_inv_def)
next
  case (an_delete s i)
  have i: "i \<in> deleting N s" using an_delete by (simp add: deleting_def)
  have "deleting N (delete_proxy i s) = deleting N s - {i}" by (auto simp: deleting_def delete_proxy_def)
  then show ?case using an_delete i by (auto simp: anchor_inv_def delete_proxy_def card_1_singleton_iff split: if_splits)
qed

text \<open>
  C30. A proxy is never deleted while somebody refers to it, and never twice, however the threads that get, copy and drop references interleave: a thread
  with a reference finds the proxy alive and the anchor set, and once the anchor is cleared nobody gets a reference any more.
\<close>

theorem proxy_alive_while_referenced:
  assumes "anchor_reach N s" "i < N"
  shows "(0 < an_refs s i \<longrightarrow> \<not> an_deleted s \<and> an_ptr s) \<and> an_deletions s \<le> 1 \<and> (\<not> an_ptr s \<longrightarrow> proxy_get i s = s \<and> (\<forall>j<N. an_refs s j = 0))"
proof -
  have inv: "anchor_inv N s" using anchor_reach_inv [OF assms(1)] assms(2) by simp
  then have "an_deletions s \<le> 1" by (auto simp: anchor_inv_def split: if_splits)
  moreover have "\<forall>j<N. an_refs s j = 0" if "\<not> an_ptr s" using inv that refs_zero by blast
  ultimately show ?thesis using refs_zero [OF inv assms(2)] inv by (auto simp: anchor_inv_def proxy_get_def split: if_splits)
qed

theorem proxy_alive_while_referenced_witness: "\<not> an_deleted (proxy_get 1 new_anchor) \<and> an_ptr (proxy_get 1 new_anchor)"
proof -
  have "anchor_reach 2 (proxy_get 1 new_anchor)" by (rule an_get [OF an_new]) (simp_all add: new_anchor_def)
  from proxy_alive_while_referenced [OF this, of 1] show ?thesis by (simp add: proxy_get_def new_anchor_def)
qed

text \<open>
  Two threads can drop the last reference, one after the other: between the first drop and the check of the anchor, another thread may get a reference and
  drop it again. Both then run \<open>request_deletion\<close>; the first one clears the anchor and deletes the proxy, and the second one follows a
  null pointer, or looks for the anchor in the deleted proxy.
\<close>

theorem anchor_race: "\<exists>s. anchor_reach 2 s \<and> an_pc s 1 = An_crashed"
proof -
  let ?s1 = "proxy_deref 0 new_anchor" let ?s2 = "proxy_get 1 ?s1" let ?s3 = "proxy_deref 1 ?s2" let ?s4 = "try_expire 0 ?s3" let ?s5 = "try_expire 1 ?s4"
  note d = anchor_defs new_anchor_def Let_def
  have "anchor_reach 2 ?s1" by (rule an_deref [OF an_new]) (simp_all add: d)
  then have "anchor_reach 2 ?s2" by (rule an_get) (simp_all add: d)
  then have "anchor_reach 2 ?s3" by (rule an_deref) (simp_all add: d)
  then have "anchor_reach 2 ?s4" by (rule an_expire) (simp_all add: d)
  then have "anchor_reach 2 ?s5" by (rule an_expire) (simp_all add: d)
  moreover have "an_pc ?s5 1 = An_crashed" by (simp add: d)
  ultimately show ?thesis by blast
qed

end
