(* ===== verification/Remote_Links.thy ===== *)
theory Remote_Links
  imports Abstract_Actor
begin

text \<open>
  Proxies of remote actors (libcaf_io/src/remote_actor_proxy.cpp) and links between actors on different nodes.
  A proxy keeps its own list of attachables and tells the actor it stands for, by way of the broker, that a link was made or removed;
  the broker of that node (\<open>dispatch\<close> of libcaf_io/src/basp_broker.cpp) then links the actor to a proxy of its own. An actor has
  the same number on all nodes: the pair of node and id its address consists of. On the node \<open>n\<close> the number \<open>i\<close> is the
  actor itself, if \<open>n\<close> is its node, and otherwise its proxy.
\<close>

section \<open>Definitions\<close>

subsection \<open>A node\<close>

datatype wire_msg =
    Link_msg nat      \<comment> \<open>\<open>_Link\<close> with an address\<close>
  | Unlink_msg nat
  | Sys_msg sys_msg

type_synonym dispatched = "nat \<times> nat \<times> message_id \<times> wire_msg"    \<comment> \<open>receiver, sender, id, content\<close>

text \<open>The actors and proxies of a node, what its proxies handed to the broker (\<open>_Dispatch\<close>) and did not arrive yet, and the
  link signals that were put into a mailbox as ordinary messages.\<close>

record node =
  nd_store :: actor_store
  nd_out :: "dispatched list"
  nd_stray :: "(nat \<times> wire_msg) list"

definition in_store :: "(actor_store \<Rightarrow> actor_store) \<Rightarrow> node \<Rightarrow> node" where
  "in_store f nd = nd\<lparr>nd_store := f (nd_store nd)\<rparr>"

definition forward_msg :: "nat \<Rightarrow> nat \<Rightarrow> message_id \<Rightarrow> wire_msg \<Rightarrow> node \<Rightarrow> node" where
  "forward_msg self sender mid msg nd = nd\<lparr>nd_out := nd_out nd @ [(self, sender, mid, msg)]\<rparr>"

text \<open>The virtual function \<open>enqueue\<close>; \<open>px\<close> tells which actors of the node are proxies. The store records every call.\<close>

definition px_enqueue :: "(nat \<Rightarrow> bool) \<Rightarrow> nat \<Rightarrow> nat \<Rightarrow> message_id \<Rightarrow> sys_msg \<Rightarrow> node \<Rightarrow> node" where
  "px_enqueue px receiver sender mid msg nd =
     (let nd1 = in_store (enqueue_to receiver sender mid msg) nd
      in if px receiver then forward_msg receiver sender mid (Sys_msg msg) nd1 else nd1)"

subsection \<open>Links\<close>

text \<open>The operations of \<open>abstract_actor\<close> again, now with the calls of virtual functions they make.\<close>

definition px_establish_backlink_impl :: "(nat \<Rightarrow> bool) \<Rightarrow> nat \<Rightarrow> nat option \<Rightarrow> node \<Rightarrow> bool \<times> node" where
  "px_establish_backlink_impl px self other nd = (case other of
      None \<Rightarrow> (False, nd)
    | Some o' \<Rightarrow>
        if o' = self then (False, nd)
        else let reason = m_exit_reason (acts (nd_store nd) self)
             in if reason = not_exited
                then if \<not> linked_to (m_attachables (acts (nd_store nd) self)) o' then (True, in_store (attach_impl self (Att_link o')) nd)
                     else (False, nd)
                else (False, px_enqueue px o' self invalid_message_id (Exit_msg self reason) nd))"

definition px_remove_backlink_impl :: "nat \<Rightarrow> nat option \<Rightarrow> node \<Rightarrow> bool \<times> node" where
  "px_remove_backlink_impl self other nd = (case other of
      None \<Rightarrow> (False, nd)
    | Some o' \<Rightarrow>
        if o' = self then (False, nd)
        else let (n, as) = detach_link (m_attachables (acts (nd_store nd) self)) o' in (n > 0, in_store (set_attachables self as) nd))"

text \<open>What \<open>link_impl\<close> of a proxy adds to each operation.\<close>

definition then_forward :: "nat \<Rightarrow> (nat \<Rightarrow> wire_msg) \<Rightarrow> nat option \<Rightarrow> bool \<times> node \<Rightarrow> bool \<times> node" where
  "then_forward self msg other r = (case other of
      Some o' \<Rightarrow> if fst r then (True, forward_msg self self invalid_message_id (msg o') (snd r)) else (False, snd r)
    | None \<Rightarrow> (False, snd r))"

definition px_establish_backlink :: "(nat \<Rightarrow> bool) \<Rightarrow> nat \<Rightarrow> nat option \<Rightarrow> node \<Rightarrow> bool \<times> node" where
  "px_establish_backlink px self other nd =
     (if px self then then_forward self Link_msg other (px_establish_backlink_impl px self other nd)
      else px_establish_backlink_impl px self other nd)"

definition px_remove_backlink :: "(nat \<Rightarrow> bool) \<Rightarrow> nat \<Rightarrow> nat option \<Rightarrow> node \<Rightarrow> bool \<times> node" where
  "px_remove_backlink px self other nd =
     (if px self then then_forward self Unlink_msg other (px_remove_backlink_impl self other nd)
      else px_remove_backlink_impl self other nd)"

definition px_establish_link_impl :: "(nat \<Rightarrow> bool) \<Rightarrow> nat \<Rightarrow> nat option \<Rightarrow> node \<Rightarrow> bool \<times> node" where
  "px_establish_link_impl px self other nd = (case other of
      None \<Rightarrow> (False, nd)
    | Some o' \<Rightarrow>
        if o' = self then (False, nd)
        else if exited self (nd_store nd)
        then (False, px_enqueue px o' self invalid_message_id (Exit_msg self (m_exit_reason (acts (nd_store nd) self))) nd)
        else let (ok, nd1) = px_establish_backlink px o' (Some self) nd
             in if ok then (True, in_store (attach_impl self (Att_link o')) nd1) else (False, nd1))"

definition px_remove_link_impl :: "(nat \<Rightarrow> bool) \<Rightarrow> nat \<Rightarrow> nat option \<Rightarrow> node \<Rightarrow> bool \<times> node" where
  "px_remove_link_impl px self other nd = (case other of
      None \<Rightarrow> (False, nd)
    | Some o' \<Rightarrow>
        if o' = self then (False, nd)
        else let (n, as) = detach_link (m_attachables (acts (nd_store nd) self)) o'; nd1 = in_store (set_attachables self as) nd
             in if n > 0 then (True, snd (px_remove_backlink px o' (Some self) nd1)) else (False, nd1))"

text \<open>\<open>remote_actor_proxy::link_impl\<close>, and the virtual function for any actor of the node.\<close>

definition proxy_link_impl :: "(nat \<Rightarrow> bool) \<Rightarrow> linking_operation \<Rightarrow> nat \<Rightarrow> nat option \<Rightarrow> node \<Rightarrow> bool \<times> node" where
  "proxy_link_impl px op self other nd = (case op of
      Establish_link_op \<Rightarrow> then_forward self Link_msg other (px_establish_link_impl px self other nd)
    | Remove_link_op \<Rightarrow> then_forward self Unlink_msg other (px_remove_link_impl px self other nd)
    | Establish_backlink_op \<Rightarrow> then_forward self Link_msg other (px_establish_backlink_impl px self other nd)
    | Remove_backlink_op \<Rightarrow> then_forward self Unlink_msg other (px_remove_backlink_impl self other nd))"

definition px_link_impl :: "(nat \<Rightarrow> bool) \<Rightarrow> linking_operation \<Rightarrow> nat \<Rightarrow> nat option \<Rightarrow> node \<Rightarrow> bool \<times> node" where
  "px_link_impl px op self other nd =
     (if px self then proxy_link_impl px op self other nd
      else case op of
          Establish_link_op \<Rightarrow> px_establish_link_impl px self other nd
        | Remove_link_op \<Rightarrow> px_remove_link_impl px self other nd
        | Establish_backlink_op \<Rightarrow> px_establish_backlink_impl px self other nd
        | Remove_backlink_op \<Rightarrow> px_remove_backlink_impl self other nd)"

definition local_link_to :: "(nat \<Rightarrow> bool) \<Rightarrow> nat \<Rightarrow> nat \<Rightarrow> node \<Rightarrow> node" where
  "local_link_to px self other nd = snd (px_establish_link_impl px self (Some other) nd)"

definition local_unlink_from :: "(nat \<Rightarrow> bool) \<Rightarrow> nat \<Rightarrow> nat \<Rightarrow> node \<Rightarrow> node" where
  "local_unlink_from px self other nd = snd (px_remove_link_impl px self (Some other) nd)"

subsection \<open>Termination\<close>

definition px_actor_exited :: "(nat \<Rightarrow> bool) \<Rightarrow> nat \<Rightarrow> nat \<Rightarrow> attachable \<Rightarrow> node \<Rightarrow> node" where
  "px_actor_exited px self reason a nd = (case a of
      Att_link obs \<Rightarrow> px_enqueue px obs self (with_high_priority invalid_message_id) (Exit_msg self reason) nd
    | Att_monitor obs \<Rightarrow> px_enqueue px obs self (with_high_priority invalid_message_id) (Down_msg self reason) nd
    | _ \<Rightarrow> in_store (actor_exited self reason a) nd)"

definition px_cleanup :: "(nat \<Rightarrow> bool) \<Rightarrow> nat \<Rightarrow> nat \<Rightarrow> node \<Rightarrow> node" where
  "px_cleanup px self reason nd =
     (let s = nd_store nd
      in if m_exit_reason (acts s self) \<noteq> not_exited then nd
         else fold (px_actor_exited px self reason) (m_attachables (acts s self))
                (in_store (\<lambda>s. s\<lparr>acts := (acts s)(self := \<lparr>m_exit_reason = reason, m_attachables = []\<rparr>)\<rparr>) nd))"

definition kill_proxy :: "(nat \<Rightarrow> bool) \<Rightarrow> nat \<Rightarrow> nat \<Rightarrow> node \<Rightarrow> node" where
  "kill_proxy px self reason nd = px_cleanup px self reason nd"

subsection \<open>The broker\<close>

text \<open>\<open>dispatch(hdr, msg)\<close> on the node of the receiver. The registry has no entry for a terminated actor. A link signal comes from the
  receiver itself; if the address in it is not that of a proxy, it is delivered like any other message.\<close>

definition nd_dispatch :: "(nat \<Rightarrow> bool) \<Rightarrow> dispatched \<Rightarrow> node \<Rightarrow> node" where
  "nd_dispatch px m nd = (case m of (dest, src, mid, msg) \<Rightarrow>
     if exited dest (nd_store nd) then nd
     else case msg of
         Link_msg other \<Rightarrow> if src = dest \<and> px other then local_link_to px other dest nd else nd\<lparr>nd_stray := nd_stray nd @ [(dest, msg)]\<rparr>
       | Unlink_msg other \<Rightarrow> if src = dest \<and> px other then local_unlink_from px other dest nd else nd\<lparr>nd_stray := nd_stray nd @ [(dest, msg)]\<rparr>
       | Sys_msg sm \<Rightarrow> px_enqueue px dest src mid sm nd)"

subsection \<open>Several nodes\<close>

type_synonym net = "nat \<Rightarrow> node"

definition is_remote :: "(nat \<Rightarrow> nat) \<Rightarrow> nat \<Rightarrow> nat \<Rightarrow> bool" where
  "is_remote nodeof n i \<longleftrightarrow> nodeof i \<noteq> n"

text \<open>The first message from node \<open>n\<close> to node \<open>m\<close> arrives: a connection keeps the order.\<close>

definition net_receive :: "(nat \<Rightarrow> nat) \<Rightarrow> nat \<Rightarrow> nat \<Rightarrow> net \<Rightarrow> net option" where
  "net_receive nodeof n m net = (case List.extract (\<lambda>msg. nodeof (fst msg) = m) (nd_out (net n)) of
      None \<Rightarrow> None
    | Some (xs, msg, ys) \<Rightarrow>
        (let net1 = net(n := (net n)\<lparr>nd_out := xs @ ys\<rparr>) in Some (net1(m := nd_dispatch (is_remote nodeof m) msg (net1 m)))))"

text \<open>Whose link a message is about: the actor that is represented by a proxy on the node of the receiver.\<close>

fun subject :: "dispatched \<Rightarrow> nat" where
  "subject (_, _, _, Link_msg other) = other" | "subject (_, _, _, Unlink_msg other) = other" | "subject (_, src, _, Sys_msg _) = src"

text \<open>
  The runs of a system of nodes. An actor \<open>a\<close> makes and removes links to those actors \<open>b\<close> for which \<open>ini a b\<close> holds. A proxy is
  killed with the reason its actor terminated with, or because the connection was lost; messages may get lost once a proxy was
  killed on one of the two nodes.
\<close>

inductive net_reach :: "(nat \<Rightarrow> nat) \<Rightarrow> (nat \<Rightarrow> nat \<Rightarrow> bool) \<Rightarrow> net \<Rightarrow> bool" for nodeof ini where
  net_init: "(\<And>n. actor_init (nd_store (net n)) \<and> nd_out (net n) = []) \<Longrightarrow> net_reach nodeof ini net"
| net_links: "net_reach nodeof ini net \<Longrightarrow> ini a b \<Longrightarrow> n = nodeof a \<Longrightarrow>
    net_reach nodeof ini (net(n := snd (px_link_impl (is_remote nodeof n) Establish_link_op a (Some b) (net n))))"
| net_unlinks: "net_reach nodeof ini net \<Longrightarrow> ini a b \<Longrightarrow> n = nodeof a \<Longrightarrow>
    net_reach nodeof ini (net(n := snd (px_link_impl (is_remote nodeof n) Remove_link_op a (Some b) (net n))))"
| net_monitors: "net_reach nodeof ini net \<Longrightarrow> n = nodeof a \<Longrightarrow> net_reach nodeof ini (net(n := in_store (monitor a (Some b)) (net n)))"
| net_exits: "net_reach nodeof ini net \<Longrightarrow> n = nodeof a \<Longrightarrow> r \<noteq> not_exited \<Longrightarrow>
    net_reach nodeof ini (net(n := px_cleanup (is_remote nodeof n) a r (net n)))"
| net_kills: "net_reach nodeof ini net \<Longrightarrow> n \<noteq> nodeof a \<Longrightarrow>
    exited a (nd_store (net (nodeof a))) \<and> r = m_exit_reason (acts (nd_store (net (nodeof a))) a) \<or> r = remote_link_unreachable \<Longrightarrow>
    net_reach nodeof ini (net(n := kill_proxy (is_remote nodeof n) a r (net n)))"
| net_arrives: "net_reach nodeof ini net \<Longrightarrow> net_receive nodeof n m net = Some net' \<Longrightarrow> net_reach nodeof ini net'"
| net_loses: "net_reach nodeof ini net \<Longrightarrow> nd_out (net n) = xs @ msg # ys \<Longrightarrow>
    exited (fst msg) (nd_store (net n)) \<or> exited (subject msg) (nd_store (net (nodeof (fst msg)))) \<Longrightarrow>
    net_reach nodeof ini (net(n := (net n)\<lparr>nd_out := xs @ ys\<rparr>))"

section \<open>A proxy refines an actor\<close>

text \<open>On one node, proxies behave as local actors do: every operation has the effect on the attachables and mailboxes that it has
  without proxies, and only adds messages for the broker.\<close>

lemma in_store_simps [simp]:
  "nd_store (in_store f nd) = f (nd_store nd)" "nd_out (in_store f nd) = nd_out nd" "nd_stray (in_store f nd) = nd_stray nd"
  by (simp_all add: in_store_def)

lemma forward_msg_simps [simp]:
  "nd_store (forward_msg self sender mid msg nd) = nd_store nd"
  "nd_out (forward_msg self sender mid msg nd) = nd_out nd @ [(self, sender, mid, msg)]"
  by (simp_all add: forward_msg_def)

lemma px_enqueue_simps [simp]:
  "nd_store (px_enqueue px r x mid m nd) = enqueue_to r x mid m (nd_store nd)"
  "nd_out (px_enqueue px r x mid m nd) = nd_out nd @ (if px r then [(r, x, mid, Sys_msg m)] else [])"
  by (simp_all add: px_enqueue_def Let_def)

lemma then_forward_simps [simp]:
  "fst (then_forward self msg (Some b) r) = fst r" "nd_store (snd (then_forward self msg other r)) = nd_store (snd r)"
  "nd_out (snd (then_forward self msg (Some b) r)) =
     nd_out (snd r) @ (if fst r then [(self, self, invalid_message_id, msg b)] else [])"
  by (auto simp: then_forward_def split: option.split)

lemmas px_link_defs = px_establish_backlink_impl_def px_establish_backlink_def px_establish_link_impl_def
  px_remove_backlink_impl_def px_remove_backlink_def px_remove_link_impl_def

lemmas base_link_defs = establish_backlink_impl_def establish_link_impl_def remove_backlink_impl_def remove_link_impl_def

lemma px_backlink_impl:
  "fst (px_establish_backlink_impl px self other nd) = fst (establish_backlink_impl self other (nd_store nd))"
  "nd_store (snd (px_establish_backlink_impl px self other nd)) = snd (establish_backlink_impl self other (nd_store nd))"
  "fst (px_remove_backlink_impl self other nd) = fst (remove_backlink_impl self other (nd_store nd))"
  "nd_store (snd (px_remove_backlink_impl self other nd)) = snd (remove_backlink_impl self other (nd_store nd))"
  by (auto simp: px_link_defs base_link_defs Let_def case_prod_beta split: option.split)

lemma px_backlink:
  "fst (px_establish_backlink px self (Some b) nd) = fst (establish_backlink_impl self (Some b) (nd_store nd))"
  "nd_store (snd (px_establish_backlink px self (Some b) nd)) = snd (establish_backlink_impl self (Some b) (nd_store nd))"
  "nd_store (snd (px_remove_backlink px self (Some b) nd)) = snd (remove_backlink_impl self (Some b) (nd_store nd))"
  by (simp_all add: px_establish_backlink_def px_remove_backlink_def px_backlink_impl)

lemma px_link_store:
  "nd_store (snd (px_establish_link_impl px self other nd)) = snd (establish_link_impl self other (nd_store nd))"
  "nd_store (snd (px_remove_link_impl px self other nd)) = snd (remove_link_impl self other (nd_store nd))"
  by (auto simp: px_establish_link_impl_def px_remove_link_impl_def establish_link_impl_def remove_link_impl_def
      px_backlink Let_def case_prod_beta split: option.split)

lemma px_link_impl_store: "nd_store (snd (px_link_impl px op self other nd)) = snd (link_impl op self other (nd_store nd))"
  by (cases op) (simp_all add: px_link_impl_def proxy_link_impl_def link_impl_def px_link_store px_backlink_impl)

lemma px_actor_exited_store [simp]:
  "nd_store (px_actor_exited px self r a nd) = actor_exited self r a (nd_store nd)"
  by (cases a) (simp_all add: px_actor_exited_def actor_exited_def)

lemma fold_px_exited_store [simp]:
  "nd_store (fold (px_actor_exited px self r) as nd) = fold (actor_exited self r) as (nd_store nd)"
  by (induction as arbitrary: nd) simp_all

lemma px_cleanup_store [simp]: "nd_store (px_cleanup px self r nd) = cleanup self r (nd_store nd)"
  by (simp add: px_cleanup_def cleanup_def Let_def)

text \<open>The link signals among what goes to the broker.\<close>

definition is_signal :: "dispatched \<Rightarrow> bool" where
  "is_signal m \<longleftrightarrow> (case snd (snd (snd m)) of Sys_msg sm \<Rightarrow> False | _ \<Rightarrow> True)"

definition signals :: "node \<Rightarrow> dispatched list" where
  "signals nd = filter is_signal (nd_out nd)"

lemma is_signal_simps [simp]:
  "is_signal (r, x, mid, Link_msg o')" "is_signal (r, x, mid, Unlink_msg o')" "\<not> is_signal (r, x, mid, Sys_msg m)"
  by (simp_all add: is_signal_def)

lemma px_enqueue_signals [simp]:
  "signals (px_enqueue px r x mid m nd) = signals nd" "signals (in_store f nd) = signals nd"
  "signals (nd\<lparr>nd_stray := st\<rparr>) = signals nd" "signals (nd\<lparr>nd_out := ms\<rparr>) = filter is_signal ms"
  "signals (forward_msg self x mid w nd) = signals nd @ filter is_signal [(self, x, mid, w)]"
  by (simp_all add: signals_def)

lemma px_establish_link_signals:
  assumes "a \<noteq> b"
  shows "signals (snd (px_establish_link_impl px a (Some b) nd)) = signals nd @
      (if px b \<and> \<not> exited a (nd_store nd) \<and> \<not> exited b (nd_store nd) \<and> Att_link a \<notin> set (att (nd_store nd) b)
       then [(b, b, invalid_message_id, Link_msg a)] else [])"
  using assms by (auto simp: px_link_defs then_forward_def exited_def Let_def)

lemma px_remove_link_signals:
  assumes "a \<noteq> b"
  shows "signals (snd (px_remove_link_impl px a (Some b) nd)) = signals nd @
      (if px b \<and> Att_link b \<in> set (att (nd_store nd) a) \<and> Att_link a \<in> set (att (nd_store nd) b)
       then [(b, b, invalid_message_id, Unlink_msg a)] else [])"
  using assms by (auto simp: px_link_defs then_forward_def detach_link_eq Let_def)

lemma px_exited_signals [simp]: "signals (px_actor_exited px a r p nd) = signals nd"
  by (cases p) (simp_all add: px_actor_exited_def)

lemma px_cleanup_signals [simp]: "signals (px_cleanup px a r nd) = signals nd"
proof -
  have "signals (fold (px_actor_exited px a r) as nd) = signals nd" for as nd
    by (induction as arbitrary: nd) simp_all
  then show ?thesis by (simp add: px_cleanup_def Let_def)
qed

section \<open>Every node keeps its links mutual\<close>

lemma link_inv_enqueue: "link_inv s \<Longrightarrow> link_inv (enqueue_to r x mid m s)"
  by (rule link_inv_frame) (auto simp: link_inv_def)

lemma link_inv_establish_impl: "link_inv s \<Longrightarrow> link_inv (snd (establish_link_impl a other s))"
  using link_inv_establish [of s a other] by (simp add: link_impl_def)

lemma link_inv_remove_impl: "link_inv s \<Longrightarrow> link_inv (snd (remove_link_impl a other s))"
  using link_inv_remove [of s a other] by (simp add: link_impl_def)

lemma link_inv_monitor: "link_inv s \<Longrightarrow> link_inv (monitor a whom s)"
  by (cases whom) (auto simp: monitor_def intro!: link_inv_attach)

lemma nd_dispatch_link_inv: "link_inv (nd_store nd) \<Longrightarrow> link_inv (nd_store (nd_dispatch px m nd))"
  by (cases m)
    (auto simp: nd_dispatch_def local_link_to_def local_unlink_from_def px_link_store split: wire_msg.split
      intro: link_inv_enqueue link_inv_establish_impl link_inv_remove_impl)

lemma net_receiveE:
  assumes "net_receive nodeof n m net = Some net'"
  obtains xs msg ys where "nd_out (net n) = xs @ msg # ys" "nodeof (fst msg) = m" "\<forall>x\<in>set xs. nodeof (fst x) \<noteq> m"
    "net' = (net(n := (net n)\<lparr>nd_out := xs @ ys\<rparr>))(m := nd_dispatch (is_remote nodeof m) msg ((net(n := (net n)\<lparr>nd_out := xs @ ys\<rparr>)) m))"
proof -
  obtain xs msg ys where e: "List.extract (\<lambda>msg. nodeof (fst msg) = m) (nd_out (net n)) = Some (xs, msg, ys)"
    using assms by (auto simp: net_receive_def split: option.splits)
  then have "nd_out (net n) = xs @ msg # ys" "nodeof (fst msg) = m" "\<forall>x\<in>set xs. nodeof (fst x) \<noteq> m"
    by (auto simp: extract_Some_iff)
  with e assms that show thesis by (auto simp: net_receive_def Let_def)
qed

lemma net_link_inv: "net_reach nodeof ini net \<Longrightarrow> link_inv (nd_store (net n))"
proof (induction arbitrary: n rule: net_reach.induct)
  case (net_init net)
  then show ?case using actor_reach_link_inv actor_reach.init by blast
next
  case (net_kills net n a r)
  then show ?case by (auto simp: kill_proxy_def exited_def remote_link_unreachable_def not_exited_def intro!: link_inv_cleanup)
next
  case (net_arrives net k m net')
  then show ?case by (auto elim!: net_receiveE intro!: nd_dispatch_link_inv)
qed (auto simp: px_link_impl_store intro: link_inv_establish link_inv_remove link_inv_monitor link_inv_cleanup)

section \<open>Reasons of killed proxies\<close>

lemma link_reasons [simp]:
  "reason_of (snd (establish_link_impl a other s)) i = reason_of s i" "reason_of (snd (remove_link_impl a other s)) i = reason_of s i"
  by (auto simp: base_link_defs exited_def Let_def case_prod_beta split: option.split)

lemma link_impl_reasons [simp]:
  "reason_of (snd (link_impl Establish_link_op a other s)) i = reason_of s i"
  "reason_of (snd (link_impl Remove_link_op a other s)) i = reason_of s i"
  by (simp_all add: link_impl_def)

lemma monitor_acts:
  "reason_of (monitor a whom s) i = reason_of s i" "Att_link j \<in> set (att (monitor a whom s) i) \<longleftrightarrow> Att_link j \<in> set (att s i)"
  by (auto simp: monitor_def attach_def Let_def split: option.split)

lemma dispatch_reasons [simp]: "reason_of (nd_store (nd_dispatch px m nd)) i = reason_of (nd_store nd) i"
  by (cases m) (auto simp: nd_dispatch_def local_link_to_def local_unlink_from_def px_link_store split: wire_msg.split)

lemma cleanup_reason: "reason_of (cleanup a r s) i = (if i = a \<and> reason_of s a = not_exited then r else reason_of s i)"
  by (simp add: cleanup_eq exited_def)

lemma arrival_reasons: "net_receive nodeof k m net = Some net' \<Longrightarrow> reason_of (nd_store (net' n)) i = reason_of (nd_store (net n)) i"
  by (erule net_receiveE) simp

lemma net_proxy_reason:
  "net_reach nodeof ini net \<Longrightarrow> n \<noteq> nodeof a \<Longrightarrow> reason_of (nd_store (net n)) a \<noteq> not_exited \<Longrightarrow>
   reason_of (nd_store (net n)) a \<in> {reason_of (nd_store (net (nodeof a))) a, remote_link_unreachable}"
proof (induction arbitrary: n a rule: net_reach.induct)
  case (net_init net)
  then show ?case by (simp add: actor_init_def)
next
  case (net_arrives net k m net')
  then show ?case using arrival_reasons [OF net_arrives.hyps(2)] by simp
qed (fastforce simp: px_link_impl_store monitor_acts kill_proxy_def cleanup_reason exited_def split: if_splits)+

section \<open>Both nodes agree on a link\<close>

abbreviation has_link :: "node \<Rightarrow> nat \<Rightarrow> nat \<Rightarrow> bool" where
  "has_link nd a b \<equiv> Att_link b \<in> set (att (nd_store nd) a)"

text \<open>The signals under way that tell the node of \<open>b\<close> about its link to \<open>a\<close>: \<open>True\<close> for a link, \<open>False\<close> for its removal.\<close>

definition concerns :: "nat \<Rightarrow> nat \<Rightarrow> dispatched \<Rightarrow> bool" where
  "concerns a b m \<longleftrightarrow> fst m = b \<and> subject m = a"

definition wants_link :: "dispatched \<Rightarrow> bool" where
  "wants_link m \<longleftrightarrow> (case snd (snd (snd m)) of Link_msg _ \<Rightarrow> True | _ \<Rightarrow> False)"

definition pending_links :: "nat \<Rightarrow> nat \<Rightarrow> node \<Rightarrow> bool list" where
  "pending_links a b nd = map wants_link (filter (concerns a b) (signals nd))"

lemma establish_links:
  assumes "c \<noteq> d"
  shows "Att_link j \<in> set (att (snd (establish_link_impl c (Some d) s)) i) \<longleftrightarrow> Att_link j \<in> set (att s i)
    \<or> \<not> exited c s \<and> \<not> exited d s \<and> Att_link c \<notin> set (att s d) \<and> (i = c \<and> j = d \<or> i = d \<and> j = c)"
  using assms by (auto simp: establish_link_eq)

lemma remove1_link:
  assumes "link_inv s"
  shows "Att_link e \<in> set (remove1 (Att_link d) (att s c)) \<longleftrightarrow> Att_link e \<in> set (att s c) \<and> e \<noteq> d"
proof (cases "e = d")
  case True
  have "count_list (att s c) (Att_link d) \<le> 1" using assms by (simp add: link_inv_def)
  then have "count_list (remove1 (Att_link d) (att s c)) (Att_link d) = 0" by (simp add: count_list_remove1)
  then have "Att_link d \<notin> set (remove1 (Att_link d) (att s c))" by (simp only: count_list_0_iff not_False_eq_True)
  with True show ?thesis by blast
qed (simp add: in_set_remove1)

lemma remove_links:
  assumes "c \<noteq> d" "link_inv s"
  shows "Att_link j \<in> set (att (snd (remove_link_impl c (Some d) s)) i) \<longleftrightarrow> Att_link j \<in> set (att s i)
    \<and> \<not> (Att_link d \<in> set (att s c) \<and> (i = c \<and> j = d \<or> i = d \<and> j = c))"
  using assms by (auto simp: remove_link_eq remove1_link)

lemma px_link_impl_local:
  assumes "\<not> px a"
  shows "px_link_impl px Establish_link_op a other nd = px_establish_link_impl px a other nd"
    "px_link_impl px Remove_link_op a other nd = px_remove_link_impl px a other nd"
  using assms by (simp_all add: px_link_impl_def)

lemma self_link [simp]:
  "px_establish_link_impl px a (Some a) nd = (False, nd)" "px_remove_link_impl px a (Some a) nd = (False, nd)"
  by (simp_all add: px_establish_link_impl_def px_remove_link_impl_def)

text \<open>Every signal comes from the node of its subject, and its receiver, who is also its sender, is on another node.\<close>

definition signal_ok :: "(nat \<Rightarrow> nat) \<Rightarrow> nat \<Rightarrow> dispatched \<Rightarrow> bool" where
  "signal_ok nodeof n m \<longleftrightarrow> fst (snd m) = fst m \<and> nodeof (subject m) = n \<and> nodeof (fst m) \<noteq> n"

lemma signal_ok_simps [simp]:
  "signal_ok nodeof n (b, x, mid, Link_msg a) \<longleftrightarrow> x = b \<and> nodeof a = n \<and> nodeof b \<noteq> n"
  "signal_ok nodeof n (b, x, mid, Unlink_msg a) \<longleftrightarrow> x = b \<and> nodeof a = n \<and> nodeof b \<noteq> n"
  by (auto simp: signal_ok_def)

lemma dispatch_signals:
  assumes "\<not> px (fst m)"
  shows "signals (nd_dispatch px m nd) = signals nd"
proof (cases m)
  case (fields dest src mid msg)
  have "signals (local_link_to px x dest nd) = signals nd \<and> signals (local_unlink_from px x dest nd) = signals nd" for x
    using assms fields
    by (cases "x = dest") (simp_all add: local_link_to_def local_unlink_from_def px_establish_link_signals px_remove_link_signals)
  then show ?thesis using fields by (auto simp: nd_dispatch_def split: wire_msg.split)
qed

lemma net_signals_ok: "net_reach nodeof ini net \<Longrightarrow> m \<in> set (signals (net n)) \<Longrightarrow> signal_ok nodeof n m"
proof (induction arbitrary: n m rule: net_reach.induct)
  case (net_links net a b n')
  then show ?case
    by (cases "a = b"; cases m) (auto simp: px_link_impl_local is_remote_def px_establish_link_signals split: if_splits)
next
  case (net_unlinks net a b n')
  then show ?case
    by (cases "a = b"; cases m) (auto simp: px_link_impl_local is_remote_def px_remove_link_signals split: if_splits)
next
  case (net_arrives net k m' net')
  from net_arrives.hyps(2) obtain xs msg ys where r: "nd_out (net k) = xs @ msg # ys" "nodeof (fst msg) = m'"
    "net' = (net(k := (net k)\<lparr>nd_out := xs @ ys\<rparr>))(m' := nd_dispatch (is_remote nodeof m') msg ((net(k := (net k)\<lparr>nd_out := xs @ ys\<rparr>)) m'))"
    by (rule net_receiveE)
  have "signals (net' n) = (if n = k then filter is_signal (xs @ ys) else signals (net n))"
    using r by (auto simp: dispatch_signals is_remote_def)
  then show ?case using net_arrives.prems net_arrives.IH [of m n] r(1) by (auto simp: signals_def split: if_splits)
next
  case (net_init net)
  then show ?case by (simp add: signals_def)
next
  case (net_loses net k xs msg ys)
  then show ?case by (auto simp: signals_def split: if_splits)
qed (auto simp: kill_proxy_def split: if_splits)

text \<open>Operations on other pairs of actors do not change what is known of \<open>a\<close> and \<open>b\<close>.\<close>

definition same_view :: "nat \<Rightarrow> nat \<Rightarrow> node \<Rightarrow> node \<Rightarrow> bool" where
  "same_view a b nd nd' \<longleftrightarrow> has_link nd' a b = has_link nd a b \<and> pending_links a b nd' = pending_links a b nd"

lemma concerns_simps [simp]:
  "concerns a b (d, x, mid, Link_msg c) \<longleftrightarrow> d = b \<and> c = a" "concerns a b (d, x, mid, Unlink_msg c) \<longleftrightarrow> d = b \<and> c = a"
  by (auto simp: concerns_def)

lemma wants_link_simps [simp]: "wants_link (d, x, mid, Link_msg c)" "\<not> wants_link (d, x, mid, Unlink_msg c)"
  by (simp_all add: wants_link_def)

lemma establish_view:
  assumes "c \<noteq> d"
  shows "has_link (snd (px_establish_link_impl px c (Some d) nd)) a b \<longleftrightarrow> has_link nd a b
      \<or> \<not> exited c (nd_store nd) \<and> \<not> exited d (nd_store nd) \<and> \<not> has_link nd d c \<and> (a = c \<and> b = d \<or> a = d \<and> b = c)"
    "pending_links a b (snd (px_establish_link_impl px c (Some d) nd)) = pending_links a b nd @
      (if px d \<and> \<not> exited c (nd_store nd) \<and> \<not> exited d (nd_store nd) \<and> \<not> has_link nd d c \<and> a = c \<and> b = d then [True] else [])"
  using assms by (auto simp: px_link_store establish_links pending_links_def px_establish_link_signals)

lemma remove_view:
  assumes "c \<noteq> d" "link_inv (nd_store nd)"
  shows "has_link (snd (px_remove_link_impl px c (Some d) nd)) a b \<longleftrightarrow> has_link nd a b
      \<and> \<not> (has_link nd c d \<and> (a = c \<and> b = d \<or> a = d \<and> b = c))"
    "pending_links a b (snd (px_remove_link_impl px c (Some d) nd)) = pending_links a b nd @
      (if px d \<and> has_link nd c d \<and> has_link nd d c \<and> a = c \<and> b = d then [False] else [])"
  using assms by (auto simp: px_link_store remove_links pending_links_def px_remove_link_signals)

lemma same_view_links:
  assumes "(c, d) \<noteq> (a, b)" "(c, d) \<noteq> (b, a)" "link_inv (nd_store nd)"
  shows "same_view a b nd (snd (px_establish_link_impl px c (Some d) nd))" "same_view a b nd (snd (px_remove_link_impl px c (Some d) nd))"
  using assms by (cases "c = d"; auto simp: same_view_def establish_view remove_view)+

lemma same_view_cleanup:
  "reason_of (cleanup c r (nd_store nd)) a = not_exited \<Longrightarrow> r \<noteq> not_exited \<Longrightarrow> same_view a b nd (px_cleanup px c r nd)"
  by (auto simp: same_view_def pending_links_def cleanup_eq exited_def split: if_splits)

lemma same_view_monitor: "same_view a b nd (in_store (monitor c whom) nd)"
  by (simp add: same_view_def pending_links_def monitor_acts)

text \<open>The four actors and proxies a link between \<open>a\<close> and \<open>b\<close> needs are running.\<close>

definition all_alive :: "(nat \<Rightarrow> nat) \<Rightarrow> net \<Rightarrow> nat \<Rightarrow> nat \<Rightarrow> bool" where
  "all_alive nodeof net a b \<longleftrightarrow> (\<forall>n\<in>{nodeof a, nodeof b}. \<forall>i\<in>{a, b}. \<not> exited i (nd_store (net n)))"

definition agree :: "(nat \<Rightarrow> nat) \<Rightarrow> net \<Rightarrow> nat \<Rightarrow> nat \<Rightarrow> bool" where
  "agree nodeof net a b \<longleftrightarrow>
     fold (\<lambda>x _. x) (pending_links a b (net (nodeof a))) (has_link (net (nodeof b)) b a) = has_link (net (nodeof a)) a b
     \<and> pending_links b a (net (nodeof b)) = []"

lemma agree_same_view:
  assumes "agree nodeof net a b" "same_view a b (net (nodeof a)) (net' (nodeof a))" "same_view b a (net (nodeof b)) (net' (nodeof b))"
  shows "agree nodeof net' a b"
  using assms by (simp add: agree_def same_view_def)

lemma same_view_refl [simp]: "same_view a b nd nd"
  by (simp add: same_view_def)

text \<open>The arrival of a signal at the node of \<open>b\<close> has the effect it asks for.\<close>

lemma dispatch_same_view:
  assumes "\<not> px (fst m)" "link_inv (nd_store nd)" "is_signal m \<Longrightarrow> \<not> concerns a b m" "is_signal m \<Longrightarrow> \<not> concerns b a m"
  shows "same_view a b nd (nd_dispatch px m nd)"
proof (cases m)
  case (fields dest src mid msg)
  have "same_view a b nd (nd\<lparr>nd_stray := st\<rparr>)" for st by (simp add: same_view_def pending_links_def)
  moreover have "same_view a b nd (px_enqueue px r x i sm nd)" for r x i sm by (simp add: same_view_def pending_links_def)
  ultimately show ?thesis
    using assms fields
    by (auto simp: nd_dispatch_def local_link_to_def local_unlink_from_def split: wire_msg.split intro!: same_view_links)
qed

lemma dispatch_signal:
  assumes "is_signal m" "concerns a b m" "fst (snd m) = b" "px a" "\<not> px b" "link_inv (nd_store nd)"
    "\<not> exited a (nd_store nd)" "\<not> exited b (nd_store nd)"
  shows "has_link (nd_dispatch px m nd) b a = wants_link m \<and> pending_links b a (nd_dispatch px m nd) = pending_links b a nd"
proof -
  have "has_link nd a b = has_link nd b a" using assms(6-8) by (simp add: link_inv_def)
  moreover have "a \<noteq> b" using assms(4,5) by auto
  moreover obtain mid where "m = (b, b, mid, Link_msg a) \<or> m = (b, b, mid, Unlink_msg a)"
    using assms(1-3) by (cases m rule: subject.cases) auto
  ultimately show ?thesis
    using assms(4-8) by (auto simp: nd_dispatch_def local_link_to_def local_unlink_from_def establish_view remove_view)
qed

lemma agree_arrives:
  assumes rec: "net_receive nodeof n m net = Some net'" and reach: "net_reach nodeof ini net" and ab: "nodeof a \<noteq> nodeof b"
    and alive: "all_alive nodeof net a b" and IH: "agree nodeof net a b"
  shows "agree nodeof net' a b"
proof -
  obtain xs msg ys where r: "nd_out (net n) = xs @ msg # ys" "nodeof (fst msg) = m" "\<forall>x\<in>set xs. nodeof (fst x) \<noteq> m"
    "net' = (net(n := (net n)\<lparr>nd_out := xs @ ys\<rparr>))(m := nd_dispatch (is_remote nodeof m) msg ((net(n := (net n)\<lparr>nd_out := xs @ ys\<rparr>)) m))"
    by (rule net_receiveE [OF rec])
  let ?net = "net(n := (net n)\<lparr>nd_out := xs @ ys\<rparr>)"
  have inv: "link_inv (nd_store (net k))" for k by (rule net_link_inv [OF reach])
  have ok: "is_signal msg \<Longrightarrow> signal_ok nodeof n msg" using net_signals_ok [OF reach, of msg n] r(1) by (simp add: signals_def)
  have noba: "is_signal msg \<Longrightarrow> \<not> concerns b a msg"
    using IH ok r(1) by (auto simp: agree_def pending_links_def signals_def signal_ok_def concerns_def)
  show ?thesis
  proof (cases "is_signal msg \<and> concerns a b msg")
    case False
    have "pending_links i j (?net k) = pending_links i j (net k)" if "(i, j) = (a, b) \<or> (i, j) = (b, a)" for i j k
      using that False noba r(1) by (auto simp: pending_links_def signals_def)
    then have agr: "agree nodeof ?net a b" by (intro agree_same_view [OF IH]) (simp_all add: same_view_def)
    have sv: "same_view i j (?net k) (net' k)" if "(i, j) = (a, b) \<or> (i, j) = (b, a)" for i j k
      using that False noba r(2) inv unfolding r(4)
      by (cases "k = m") (auto intro!: dispatch_same_view simp: is_remote_def)
    show ?thesis by (rule agree_same_view [OF agr]; rule sv; simp)
  next
    case True
    then have b: "fst msg = b" "fst (snd msg) = b" "n = nodeof a" "m = nodeof b" using ok r(2) by (auto simp: concerns_def signal_ok_def)
    have "filter (concerns a b) xs = []" using r(3) b(4) by (auto simp: filter_empty_conv concerns_def)
    then have p: "pending_links a b (net n) = wants_link msg # pending_links a b (?net n)"
      using True r(1) by (simp add: pending_links_def signals_def filter_empty_conv)
    have "has_link (net' m) b a = wants_link msg" "pending_links b a (net' m) = pending_links b a (net m)"
      using dispatch_signal [of msg a b "is_remote nodeof m" "?net m"] True b(2-4) ab inv alive
      by (auto simp: r(4) is_remote_def all_alive_def)
    moreover have "net' n = ?net n" using b ab by (simp add: r(4))
    ultimately show ?thesis using IH p b(3,4) by (simp add: agree_def)
  qed
qed

text \<open>Making or removing a link, by any actor but \<open>b\<close> to \<open>a\<close>, changes the state of \<open>a\<close> and the pending signals alike.\<close>

lemma agree_link_op:
  assumes reach: "net_reach nodeof ini net" and op: "op = Establish_link_op \<or> op = Remove_link_op" and n: "n = nodeof c"
    and cd: "(c, d) \<noteq> (b, a)" and ab: "nodeof a \<noteq> nodeof b"
    and alive: "all_alive nodeof net a b" and IH: "agree nodeof net a b"
  shows "agree nodeof (net(n := snd (px_link_impl (is_remote nodeof n) op c (Some d) (net n)))) a b"
proof -
  have inv: "link_inv (nd_store (net k))" for k by (rule net_link_inv [OF reach])
  show ?thesis
  proof (cases "(c, d) = (a, b)")
    case True
    then have "has_link (net n) b a = has_link (net n) a b" "a \<noteq> b"
      using inv [of n] alive n ab by (auto simp: link_inv_def all_alive_def)
    then show ?thesis
      using IH True n ab alive inv op by (auto simp: px_link_impl_local agree_def establish_view remove_view is_remote_def all_alive_def)
  next
    case False
    then show ?thesis using cd inv op by (intro agree_same_view [OF IH]) (auto simp: px_link_impl_local is_remote_def n intro!: same_view_links)
  qed
qed

lemma all_alive_mono:
  assumes "all_alive nodeof net' a b" "\<And>n i. reason_of (nd_store (net n)) i \<noteq> not_exited \<Longrightarrow> reason_of (nd_store (net' n)) i \<noteq> not_exited"
  shows "all_alive nodeof net a b"
  using assms by (auto simp: all_alive_def exited_def)

lemma net_agree:
  assumes "nodeof a \<noteq> nodeof b" "\<not> ini b a"
  shows "net_reach nodeof ini net \<Longrightarrow> all_alive nodeof net a b \<Longrightarrow> agree nodeof net a b"
proof (induction rule: net_reach.induct)
  case (net_init net)
  then show ?case by (simp add: agree_def pending_links_def signals_def actor_init_def)
next
  case (net_links net c d n)
  from net_links.prems have alive: "all_alive nodeof net a b" by (rule all_alive_mono) (auto simp: px_link_impl_store)
  show ?case using net_links.hyps assms by (intro agree_link_op [OF _ _ _ _ _ alive net_links.IH [OF alive]]) auto
next
  case (net_unlinks net c d n)
  from net_unlinks.prems have alive: "all_alive nodeof net a b" by (rule all_alive_mono) (auto simp: px_link_impl_store)
  show ?case using net_unlinks.hyps assms by (intro agree_link_op [OF _ _ _ _ _ alive net_unlinks.IH [OF alive]]) auto
next
  case (net_monitors net n c d)
  from net_monitors.prems have alive: "all_alive nodeof net a b" by (rule all_alive_mono) (auto simp: monitor_acts)
  show ?case by (rule agree_same_view [OF net_monitors.IH [OF alive]]) (auto intro: same_view_monitor)
next
  case (net_exits net n c r)
  from net_exits.prems have alive: "all_alive nodeof net a b" by (rule all_alive_mono) (auto simp: cleanup_reason)
  show ?case
    by (rule agree_same_view [OF net_exits.IH [OF alive]])
      (use net_exits.hyps(3) net_exits.prems in \<open>auto intro!: same_view_cleanup simp: all_alive_def exited_def\<close>)
next
  case (net_kills net n c r)
  then have r: "r \<noteq> not_exited" by (auto simp: exited_def remote_link_unreachable_def not_exited_def)
  from net_kills.prems have alive: "all_alive nodeof net a b" by (rule all_alive_mono) (auto simp: kill_proxy_def cleanup_reason)
  show ?case
    by (rule agree_same_view [OF net_kills.IH [OF alive]])
      (use r net_kills.prems in \<open>auto intro!: same_view_cleanup simp: kill_proxy_def all_alive_def exited_def\<close>)
next
  case (net_arrives net n m net')
  from net_arrives.prems have "all_alive nodeof net a b"
    by (rule all_alive_mono) (simp add: arrival_reasons [OF net_arrives.hyps(2)])
  with agree_arrives [OF net_arrives.hyps(2,1) assms(1)] net_arrives.IH show ?case by blast
next
  case (net_loses net n xs msg ys)
  from net_loses.prems have alive: "all_alive nodeof net a b" by (rule all_alive_mono) auto
  have "pending_links i j ((net(n := (net n)\<lparr>nd_out := xs @ ys\<rparr>)) k) = pending_links i j (net k)"
    if "(i, j) = (a, b) \<or> (i, j) = (b, a)" "k = nodeof i" for i j k
    using that alive net_loses.hyps(2,3) by (auto simp: pending_links_def signals_def concerns_def all_alive_def)
  then show ?case by (intro agree_same_view [OF net_loses.IH [OF alive]]) (simp_all add: same_view_def)
qed

section \<open>Properties\<close>

text \<open>Sample runs of two nodes: the actor \<open>Suc n\<close> is on the node \<open>n\<close>.\<close>

datatype net_event = Ev_link nat nat | Ev_unlink nat nat | Ev_exit nat nat | Ev_kill nat nat | Ev_arrive nat nat

abbreviation sample_nodeof :: "nat \<Rightarrow> nat" where
  "sample_nodeof i \<equiv> i - 1"

fun net_run :: "net_event list \<Rightarrow> net \<Rightarrow> net option" where
  "net_run [] net = Some net"
| "net_run (Ev_link a b # evs) net = net_run evs (net(a - 1 := snd (px_link_impl (is_remote sample_nodeof (a - 1)) Establish_link_op a (Some b) (net (a - 1)))))"
| "net_run (Ev_unlink a b # evs) net = net_run evs (net(a - 1 := snd (px_link_impl (is_remote sample_nodeof (a - 1)) Remove_link_op a (Some b) (net (a - 1)))))"
| "net_run (Ev_exit a r # evs) net =
     (if r = not_exited then None else net_run evs (net(a - 1 := px_cleanup (is_remote sample_nodeof (a - 1)) a r (net (a - 1)))))"
| "net_run (Ev_kill n a # evs) net =
     (if n = a - 1 \<or> \<not> exited a (nd_store (net (a - 1))) then None
      else net_run evs (net(n := kill_proxy (is_remote sample_nodeof n) a (reason_of (nd_store (net (a - 1))) a) (net n))))"
| "net_run (Ev_arrive n m # evs) net = (case net_receive sample_nodeof n m net of None \<Rightarrow> None | Some net' \<Rightarrow> net_run evs net')"

definition sample_net :: net where
  "sample_net n = \<lparr>nd_store = store0, nd_out = [], nd_stray = []\<rparr>"

lemma net_run_reach:
  "net_reach sample_nodeof ini net \<Longrightarrow> \<forall>a b. Ev_link a b \<in> set evs \<or> Ev_unlink a b \<in> set evs \<longrightarrow> ini a b \<Longrightarrow>
   net_run evs net = Some net' \<Longrightarrow> net_reach sample_nodeof ini net'"
proof (induction evs net rule: net_run.induct)
  case (6 n m evs net)
  then show ?case by (auto split: option.splits intro: net_reach.net_arrives)
qed (auto split: if_splits intro: net_reach.intros)

lemma sample_net_reach: "net_reach sample_nodeof ini sample_net"
  by (rule net_reach.net_init) (simp add: sample_net_def actor_init_def store0_def)

lemma run_result: "(case net_run evs net of None \<Rightarrow> False | Some net' \<Rightarrow> P net') \<Longrightarrow> \<exists>net'. net_run evs net = Some net' \<and> P net'"
  by (auto split: option.splits)

lemma run_the: "net_run evs net \<noteq> None \<Longrightarrow> net_run evs net = Some (the (net_run evs net))"
  by auto

lemma fold_last: "fold (\<lambda>x _. x) xs y = last (y # xs)"
  by (induction xs arbitrary: y) auto

text \<open>
  C11. If only one of two actors on different nodes makes and removes the links between them, then both nodes agree on the link: what the node
  of that actor knows is what the other node knows or, if signals are under way, what the last of them says. This holds for all runs in
  which the actors and their proxies are alive, whatever other links are made, and whatever the order in which messages arrive. On each node,
  the actor and the proxy of the other are linked to each other or not at all.
\<close>

theorem remote_links_agree:
  assumes "net_reach nodeof ini net" "nodeof a \<noteq> nodeof b" "\<not> ini b a"
    and "\<forall>n\<in>{nodeof a, nodeof b}. \<forall>i\<in>{a, b}. \<not> exited i (nd_store (net n))"
  shows "has_link (net (nodeof a)) a b = last (has_link (net (nodeof b)) b a # pending_links a b (net (nodeof a)))
    \<and> (\<forall>n\<in>{nodeof a, nodeof b}. has_link (net n) a b = has_link (net n) b a)"
proof -
  have "agree nodeof net a b" using net_agree [OF assms(2,3,1)] assms(4) by (simp add: all_alive_def)
  moreover have "has_link (net n) a b = has_link (net n) b a" if "n = nodeof a \<or> n = nodeof b" for n
    using net_link_inv [OF assms(1), of n] assms(4) that by (auto simp: link_inv_def)
  ultimately show ?thesis by (simp add: agree_def fold_last)
qed

definition sample_linked :: net where
  "sample_linked = the (net_run [Ev_link 1 2, Ev_arrive 0 1] sample_net)"

lemma sample_linked_reach: "net_reach sample_nodeof (\<lambda>x y. x = 1 \<and> y = 2) sample_linked"
proof (rule net_run_reach [OF sample_net_reach])
  have "net_run [Ev_link 1 2, Ev_arrive 0 1] sample_net \<noteq> None" by code_simp
  then show "net_run [Ev_link 1 2, Ev_arrive 0 1] sample_net = Some sample_linked" unfolding sample_linked_def by (rule run_the)
qed auto

theorem remote_links_agree_witness: "has_link (sample_linked 0) 1 2 \<and> has_link (sample_linked 1) 2 1"
proof -
  have "\<not> exited 1 (nd_store (sample_linked 0))" "\<not> exited 2 (nd_store (sample_linked 0))" "\<not> exited 1 (nd_store (sample_linked 1))"
    "\<not> exited 2 (nd_store (sample_linked 1))" "pending_links 1 2 (sample_linked 0) = []" "has_link (sample_linked 0) 1 2"
    by (code_simp, code_simp, code_simp, code_simp, code_simp, code_simp)
  then show ?thesis using remote_links_agree [OF sample_linked_reach, of 1 2] by simp
qed

text \<open>
  If both actors make and remove the link, the nodes can end up with different views: after one actor removes the link and, before it
  has learned that, the other one removes and makes it again, the signals cross. When all messages have arrived, one actor is linked
  to the other, but not the other way round.
\<close>

theorem remote_links_diverge:
  "\<exists>net. net_reach sample_nodeof (\<lambda>_ _. True) net \<and> nd_out (net 0) = [] \<and> nd_out (net 1) = []
    \<and> \<not> has_link (net 0) 1 2 \<and> has_link (net 1) 2 1"
proof -
  let ?evs = "[Ev_link 1 2, Ev_arrive 0 1, Ev_unlink 2 1, Ev_unlink 1 2, Ev_link 1 2, Ev_arrive 1 0, Ev_arrive 0 1, Ev_arrive 0 1]"
  have "case net_run ?evs sample_net of None \<Rightarrow> False
      | Some net \<Rightarrow> nd_out (net 0) = [] \<and> nd_out (net 1) = [] \<and> \<not> has_link (net 0) 1 2 \<and> has_link (net 1) 2 1"
    by code_simp
  then obtain net where "net_run ?evs sample_net = Some net" "nd_out (net 0) = []" "nd_out (net 1) = []"
      "\<not> has_link (net 0) 1 2" "has_link (net 1) 2 1"
    using run_result [where evs = ?evs] by blast
  with net_run_reach [OF sample_net_reach, of ?evs "\<lambda>_ _. True" net] show ?thesis by blast
qed

text \<open>
  The end of a remote actor is made known across nodes: if an actor is linked to a proxy that was killed, it has been sent an exit message,
  and the reason in it is the one the remote actor terminated with, or that the connection was lost.
\<close>

theorem remote_exit_told:
  assumes "net_reach nodeof ini net" "nodeof b \<noteq> n" "has_link (net n) a b" "exited b (nd_store (net n))"
  shows "\<exists>mid r. (a, b, mid, Exit_msg b r) \<in> set (sent (nd_store (net n)))
    \<and> (r = remote_link_unreachable \<or> r = m_exit_reason (acts (nd_store (net (nodeof b))) b))"
proof -
  have "told (nd_store (net n)) a b" using net_link_inv [OF assms(1), of n] assms(3,4) by (simp add: link_inv_def)
  moreover have "reason_of (nd_store (net n)) b \<in> {reason_of (nd_store (net (nodeof b))) b, remote_link_unreachable}"
    using assms(2,4) by (intro net_proxy_reason [OF assms(1)]) (auto simp: exited_def)
  ultimately show ?thesis by (auto simp: told_def)
qed

definition sample_killed :: net where
  "sample_killed = the (net_run [Ev_link 1 2, Ev_arrive 0 1, Ev_exit 2 5, Ev_kill 0 2] sample_net)"

theorem remote_exit_told_witness:
  "\<exists>mid r. (1, 2, mid, Exit_msg 2 r) \<in> set (sent (nd_store (sample_killed 0)))
    \<and> (r = remote_link_unreachable \<or> r = m_exit_reason (acts (nd_store (sample_killed 1)) 2))"
proof -
  let ?evs = "[Ev_link 1 2, Ev_arrive 0 1, Ev_exit 2 5, Ev_kill 0 2]"
  have "net_run ?evs sample_net \<noteq> None" by code_simp
  then have "net_run ?evs sample_net = Some sample_killed" unfolding sample_killed_def by (rule run_the)
  with net_run_reach [OF sample_net_reach, of ?evs "\<lambda>_ _. True"] have "net_reach sample_nodeof (\<lambda>_ _. True) sample_killed" by blast
  moreover have "has_link (sample_killed 0) 1 2" "exited 2 (nd_store (sample_killed 0))" by (code_simp, code_simp)
  ultimately show ?thesis using remote_exit_told [of sample_nodeof _ sample_killed 2 0 1] by simp
qed

text \<open>An actor linked to a remote one is told of its end twice: by the exit message for the proxy on the other node, which forwards it,
  and by the proxy on its own node when it is killed.\<close>

lemma remote_exit_told_twice:
  "\<exists>net. net_run [Ev_link 1 2, Ev_arrive 0 1, Ev_exit 2 5, Ev_arrive 1 0, Ev_kill 0 2] sample_net = Some net
    \<and> filter (\<lambda>m. fst m = 1) (sent (nd_store (net 0))) = replicate 2 (1, 2, with_high_priority invalid_message_id, Exit_msg 2 5)"
proof -
  let ?evs = "[Ev_link 1 2, Ev_arrive 0 1, Ev_exit 2 5, Ev_arrive 1 0, Ev_kill 0 2]"
  have "case net_run ?evs sample_net of None \<Rightarrow> False
      | Some net \<Rightarrow> filter (\<lambda>m. fst m = 1) (sent (nd_store (net 0))) = replicate 2 (1, 2, with_high_priority invalid_message_id, Exit_msg 2 5)"
    by code_simp
  then show ?thesis by (rule run_result)
qed

end
