(* ===== verification/Ieee_754.thy ===== *)
theory Ieee_754
  imports Binary_Serialization Complex_Main
begin

unbundle bit_operations_syntax

text \<open>
  Floating point numbers in the binary serialization (libcaf_core/caf/detail/ieee_754.hpp, and the operators for floating
  point types of binary_serializer.cpp and binary_deserializer.cpp). Finite values are rational numbers. The arithmetic of the two
  functions is exact for them, apart from halving into the range of the subnormal numbers, which rounds to even, and doubling beyond the
  largest number, which gives infinity. A loop that does not end is the result \<open>None\<close>. The sign of a zero is left out.
\<close>

section \<open>Definitions\<close>

record ieee_754_trait =
  tr_bits :: nat
  tr_expbits :: nat

definition float_trait :: ieee_754_trait where
  "float_trait = \<lparr>tr_bits = 32, tr_expbits = 8\<rparr>"

definition double_trait :: ieee_754_trait where
  "double_trait = \<lparr>tr_bits = 64, tr_expbits = 11\<rparr>"

definition significandbits :: "ieee_754_trait \<Rightarrow> nat" where
  "significandbits tr = tr_bits tr - tr_expbits tr - 1"

definition bias :: "ieee_754_trait \<Rightarrow> nat" where
  "bias tr = 2 ^ (tr_expbits tr - 1) - 1"

subsection \<open>Floating point values\<close>

datatype fp = Fp_num rat | Fp_inf bool | Fp_nan    \<comment> \<open>\<open>Fp_inf True\<close> is negative\<close>

fun fp_less :: "fp \<Rightarrow> rat \<Rightarrow> bool" where
  "fp_less (Fp_num r) c = (r < c)" | "fp_less (Fp_inf neg) c = neg" | "fp_less Fp_nan c = False"

fun fp_ge :: "fp \<Rightarrow> rat \<Rightarrow> bool" where
  "fp_ge (Fp_num r) c = (r \<ge> c)" | "fp_ge (Fp_inf neg) c = (\<not> neg)" | "fp_ge Fp_nan c = False"

fun fp_neg :: "fp \<Rightarrow> fp" where
  "fp_neg (Fp_num r) = Fp_num (- r)" | "fp_neg (Fp_inf neg) = Fp_inf (\<not> neg)" | "fp_neg Fp_nan = Fp_nan"

definition round_even :: "rat \<Rightarrow> int" where
  "round_even x = (let f = \<lfloor>x\<rfloor>; d = x - of_int f in if d < 1 / 2 then f else if d > 1 / 2 then f + 1 else if even f then f else f + 1)"

text \<open>Division by two: a result below the smallest normal number is a multiple of the smallest subnormal one.\<close>

fun fp_half :: "ieee_754_trait \<Rightarrow> fp \<Rightarrow> fp" where
  "fp_half tr (Fp_num r) =
     (let scale = 2 ^ (bias tr - 1) in
      Fp_num (if \<bar>r / 2\<bar> * scale < 1
              then of_int (round_even (r / 2 * scale * 2 ^ significandbits tr)) / (scale * 2 ^ significandbits tr)
              else r / 2))"
| "fp_half tr (Fp_inf neg) = Fp_inf neg"
| "fp_half tr Fp_nan = Fp_nan"

fun fp_double :: "ieee_754_trait \<Rightarrow> fp \<Rightarrow> fp" where
  "fp_double tr (Fp_num r) = (if \<bar>2 * r\<bar> \<ge> 2 ^ (bias tr + 1) then Fp_inf (r < 0) else Fp_num (2 * r))"
| "fp_double tr (Fp_inf neg) = Fp_inf neg"
| "fp_double tr Fp_nan = Fp_nan"

subsection \<open>Packing\<close>

text \<open>The variable \<open>shift\<close> is unsigned and wraps around.\<close>

partial_function (option) norm_down :: "ieee_754_trait \<Rightarrow> fp \<Rightarrow> nat \<Rightarrow> (fp \<times> nat) option" where
  "norm_down tr fnorm shift =
     (if fp_ge fnorm 2 then norm_down tr (fp_half tr fnorm) ((shift + 1) mod 2 ^ tr_bits tr) else Some (fnorm, shift))"

partial_function (option) norm_up :: "ieee_754_trait \<Rightarrow> fp \<Rightarrow> nat \<Rightarrow> (fp \<times> nat) option" where
  "norm_up tr fnorm shift =
     (if fp_less fnorm 1 then norm_up tr (fp_double tr fnorm) ((shift + (2 ^ tr_bits tr - 1)) mod 2 ^ tr_bits tr) else Some (fnorm, shift))"

declare norm_down.simps [code] norm_up.simps [code]

datatype pack_error = Undefined_conversion    \<comment> \<open>of a value that is not a number to an integer\<close>

definition pack_bits :: "ieee_754_trait \<Rightarrow> nat \<Rightarrow> rat \<Rightarrow> nat \<Rightarrow> nat" where
  "pack_bits tr sign fnorm shift =
     (let p = significandbits tr; m = 2 ^ tr_bits tr; pownum = 2 ^ p;
          significand = nat \<lfloor>fnorm * (pownum + 1 / 2)\<rfloor>;
          exp = (shift + bias tr) mod m
      in (sign * 2 ^ (tr_bits tr - 1) mod m) OR (exp * 2 ^ p mod m) OR significand)"

definition pack754 :: "ieee_754_trait \<Rightarrow> fp \<Rightarrow> (pack_error + nat) option" where
  "pack754 tr f =
     (if f = Fp_num 0 then Some (Inr 0)
      else let sign = (if fp_less f 0 then 1 else 0); fnorm = (if fp_less f 0 then fp_neg f else f)
           in case norm_down tr fnorm 0 of
                None \<Rightarrow> None
              | Some (f1, s1) \<Rightarrow>
                  (case norm_up tr f1 s1 of
                     None \<Rightarrow> None
                   | Some (Fp_num r, s2) \<Rightarrow> Some (Inr (pack_bits tr sign (r - 1) s2))
                   | Some (_, s2) \<Rightarrow> Some (Inl Undefined_conversion)))"

subsection \<open>Unpacking\<close>

fun fp_times :: "(fp \<Rightarrow> fp) \<Rightarrow> nat \<Rightarrow> fp \<Rightarrow> fp" where
  "fp_times f 0 x = x" | "fp_times f (Suc n) x = fp_times f n (f x)"

definition unpack754 :: "ieee_754_trait \<Rightarrow> nat \<Rightarrow> fp" where
  "unpack754 tr i =
     (if i = 0 then Fp_num 0
      else let p = significandbits tr;
               result = of_nat (i mod 2 ^ p) / 2 ^ p + 1;
               si = (if 2 * i < 2 ^ tr_bits tr then int i else int i - 2 ^ tr_bits tr);
               shift = (si div 2 ^ p) mod 2 ^ tr_expbits tr - int (bias tr);
               r1 = fp_times (fp_double tr) (nat shift) (Fp_num result);
               r2 = fp_times (fp_half tr) (nat (- shift)) r1
           in if odd (i div 2 ^ (tr_bits tr - 1)) then fp_neg r2 else r2)"

subsection \<open>Writing and reading\<close>

definition write_fp :: "ieee_754_trait \<Rightarrow> fp \<Rightarrow> (pack_error + nat list) option" where
  "write_fp tr f = map_option (map_sum id (\<lambda>n. write_int (tr_bits tr div 8) (int n))) (pack754 tr f)"

definition read_fp :: "ieee_754_trait \<Rightarrow> nat list \<Rightarrow> bin_error + fp \<times> nat list" where
  "read_fp tr buf = (case read_uint (tr_bits tr div 8) buf of Inl e \<Rightarrow> Inl e | Inr (n, buf') \<Rightarrow> Inr (unpack754 tr n, buf'))"

section \<open>The standard\<close>

text \<open>The fields of a bit pattern, and the value IEEE 754 gives it.\<close>

definition exp_field :: "ieee_754_trait \<Rightarrow> nat \<Rightarrow> nat" where
  "exp_field tr n = n div 2 ^ significandbits tr mod 2 ^ tr_expbits tr"

definition frac_field :: "ieee_754_trait \<Rightarrow> nat \<Rightarrow> nat" where
  "frac_field tr n = n mod 2 ^ significandbits tr"

definition sign_field :: "ieee_754_trait \<Rightarrow> nat \<Rightarrow> nat" where
  "sign_field tr n = n div 2 ^ (tr_bits tr - 1)"

definition ieee_value :: "ieee_754_trait \<Rightarrow> nat \<Rightarrow> fp" where
  "ieee_value tr n =
     (let e = exp_field tr n; m = of_nat (frac_field tr n) / 2 ^ significandbits tr; neg = (sign_field tr n = 1); sg = (if neg then - 1 else 1)
      in if e = 2 ^ tr_expbits tr - 1 then (if m = 0 then Fp_inf neg else Fp_nan)
         else if e = 0 then Fp_num (sg * m * 2 powi (1 - int (bias tr)))
         else Fp_num (sg * (1 + m) * 2 powi (int e - int (bias tr))))"

definition is_normal :: "ieee_754_trait \<Rightarrow> nat \<Rightarrow> bool" where
  "is_normal tr n \<longleftrightarrow> n < 2 ^ tr_bits tr \<and> 0 < exp_field tr n \<and> exp_field tr n < 2 ^ tr_expbits tr - 1"

text \<open>A format with room for a sign, two or more bits of exponent and a significand.\<close>

definition trait_ok :: "ieee_754_trait \<Rightarrow> bool" where
  "trait_ok tr \<longleftrightarrow> 2 \<le> tr_expbits tr \<and> tr_expbits tr + 1 < tr_bits tr"

lemma traits_ok: "trait_ok float_trait" "trait_ok double_trait"
  by (simp_all add: trait_ok_def float_trait_def double_trait_def)

lemma bits_split: "trait_ok tr \<Longrightarrow> tr_bits tr = significandbits tr + tr_expbits tr + 1"
  by (simp add: trait_ok_def significandbits_def)

lemma bias_pos: "trait_ok tr \<Longrightarrow> 1 \<le> bias tr" "trait_ok tr \<Longrightarrow> 2 * bias tr + 2 = 2 ^ tr_expbits tr"
proof -
  assume ok: "trait_ok tr"
  then obtain k where k: "tr_expbits tr = Suc (Suc k)" by (metis trait_ok_def le_iff_add add_2_eq_Suc)
  show "1 \<le> bias tr" "2 * bias tr + 2 = 2 ^ tr_expbits tr" by (simp_all add: bias_def k algebra_simps) (use one_le_power [of "2::nat" k] in linarith)+
qed

section \<open>Normalization\<close>

lemma norm_down_stop: "\<not> fp_ge f 2 \<Longrightarrow> norm_down tr f s = Some (f, s)"
  by (simp add: norm_down.simps)

lemma norm_up_stop: "\<not> fp_less f 1 \<Longrightarrow> norm_up tr f s = Some (f, s)"
  by (simp add: norm_up.simps)

lemma one_le_times: "1 \<le> a \<Longrightarrow> 1 \<le> b \<Longrightarrow> 1 \<le> a * b" for a b :: rat
  using mult_mono [of 1 a 1 b] by simp

lemma norm_down_pow:
  assumes "trait_ok tr" "1 \<le> x" "x < 2"
  shows "s < 2 ^ tr_bits tr \<Longrightarrow> norm_down tr (Fp_num (x * 2 ^ k)) s = Some (Fp_num x, (s + k) mod 2 ^ tr_bits tr)"
proof (induction k arbitrary: s)
  case 0
  then show ?case using assms by (simp add: norm_down_stop)
next
  case (Suc k)
  have big: "1 \<le> x * 2 ^ k" "1 \<le> x * 2 ^ k * 2 ^ (bias tr - 1)" by (intro one_le_times assms(2) one_le_power; simp)+
  then have "fp_ge (Fp_num (x * 2 ^ Suc k)) 2" "fp_half tr (Fp_num (x * 2 ^ Suc k)) = Fp_num (x * 2 ^ k)"
    by (simp_all add: Let_def)
  then have "norm_down tr (Fp_num (x * 2 ^ Suc k)) s = norm_down tr (Fp_num (x * 2 ^ k)) ((s + 1) mod 2 ^ tr_bits tr)"
    by (subst norm_down.simps) (simp only: if_True)
  also have "\<dots> = Some (Fp_num x, ((s + 1) mod 2 ^ tr_bits tr + k) mod 2 ^ tr_bits tr)" by (rule Suc.IH) simp
  finally show ?case by (simp add: mod_add_left_eq)
qed

lemma norm_up_pow:
  assumes "trait_ok tr" "1 \<le> x" "x < 2"
  shows "s < 2 ^ tr_bits tr \<Longrightarrow> norm_up tr (Fp_num (x / 2 ^ k)) s = Some (Fp_num x, (s + k * (2 ^ tr_bits tr - 1)) mod 2 ^ tr_bits tr)"
proof (induction k arbitrary: s)
  case 0
  then show ?case using assms by (simp add: norm_up_stop)
next
  case (Suc k)
  let ?m = "(2::nat) ^ tr_bits tr"
  have "x / 2 ^ k \<le> x" using assms(2) one_le_power [of "2::rat" k] by (simp add: divide_le_eq)
  with assms(3) have less: "x / 2 ^ k < 2" "0 \<le> x / 2 ^ k" using assms(2) by auto
  have "(2::rat) ^ 2 \<le> 2 ^ (bias tr + 1)" using bias_pos(1) [OF assms(1)] by (intro power_increasing) auto
  then have "2 * (x / 2 ^ Suc k) < 2 ^ (bias tr + 1)" using less by (simp add: power2_eq_square)
  moreover have "x < 2 * 2 ^ k" using less(1) by (simp add: divide_less_eq)
  ultimately have "fp_less (Fp_num (x / 2 ^ Suc k)) 1" "fp_double tr (Fp_num (x / 2 ^ Suc k)) = Fp_num (x / 2 ^ k)"
    using less assms(2) by simp_all
  then have "norm_up tr (Fp_num (x / 2 ^ Suc k)) s = norm_up tr (Fp_num (x / 2 ^ k)) ((s + (?m - 1)) mod ?m)"
    by (subst norm_up.simps) (simp only: if_True)
  also have "\<dots> = Some (Fp_num x, ((s + (?m - 1)) mod ?m + k * (?m - 1)) mod ?m)" by (rule Suc.IH) simp
  finally show ?case unfolding mod_add_left_eq by (simp only: mult_Suc add.assoc)
qed

section \<open>Packing\<close>

lemma or_disjoint: "b < 2 ^ k \<Longrightarrow> (a * 2 ^ k) OR b = a * 2 ^ k + b" for a b :: nat
proof -
  assume "b < 2 ^ k"
  then have "take_bit k b = b" by (simp add: take_bit_nat_eq_self)
  then have "\<not> bit b i" if "k \<le> i" for i using that by (metis bit_take_bit_iff not_less)
  moreover have "\<not> bit (a * 2 ^ k) i" if "i < k" for i
    using that by (simp add: push_bit_eq_mult [symmetric] bit_push_bit_iff_nat)
  ultimately have "a * 2 ^ k + b = (a * 2 ^ k) OR b" by (intro disjunctive_add) (meson not_less)
  then show ?thesis by simp
qed

lemma fields:
  assumes "trait_ok tr" "n < 2 ^ tr_bits tr"
  shows "n = sign_field tr n * 2 ^ (tr_bits tr - 1) + (exp_field tr n * 2 ^ significandbits tr + frac_field tr n)"
    "sign_field tr n = 0 \<or> sign_field tr n = 1" "exp_field tr n < 2 ^ tr_expbits tr" "frac_field tr n < 2 ^ significandbits tr"
proof -
  let ?p = "significandbits tr" and ?e = "tr_expbits tr"
  have b: "tr_bits tr - 1 = ?p + ?e" "tr_bits tr = Suc (?p + ?e)" using bits_split [OF assms(1)] by simp_all
  have "n = (n div 2 ^ ?p div 2 ^ ?e * 2 ^ ?e + n div 2 ^ ?p mod 2 ^ ?e) * 2 ^ ?p + n mod 2 ^ ?p" by (simp only: div_mult_mod_eq)
  moreover have "n div 2 ^ (?p + ?e) = n div 2 ^ ?p div 2 ^ ?e" by (simp add: power_add div_mult2_eq)
  ultimately have "n = n div 2 ^ (?p + ?e) * 2 ^ (?p + ?e) + (n div 2 ^ ?p mod 2 ^ ?e * 2 ^ ?p + n mod 2 ^ ?p)"
    by (simp only: power_add add_mult_distrib mult.assoc add.assoc mult.commute [of "2 ^ ?p"])
  then show "n = sign_field tr n * 2 ^ (tr_bits tr - 1) + (exp_field tr n * 2 ^ ?p + frac_field tr n)"
    unfolding sign_field_def exp_field_def frac_field_def b(1) .
  have "n div 2 ^ (?p + ?e) < 2" using assms(2) by (simp add: b less_mult_imp_div_less)
  then show "sign_field tr n = 0 \<or> sign_field tr n = 1" by (auto simp: sign_field_def b)
qed (simp_all add: exp_field_def frac_field_def)

lemma pack_bits_fields:
  assumes ok: "trait_ok tr" and n: "n < 2 ^ tr_bits tr" and shift: "(shift + bias tr) mod 2 ^ tr_bits tr = exp_field tr n"
  shows "pack_bits tr (sign_field tr n) (of_nat (frac_field tr n) / 2 ^ significandbits tr) shift = n"
proof -
  let ?p = "significandbits tr" and ?m = "frac_field tr n" and ?e = "exp_field tr n" and ?s = "sign_field tr n"
  note f = fields [OF ok n]
  have m: "(of_nat ?m :: rat) < 2 ^ ?p" using f(4) by (metis of_nat_less_iff of_nat_numeral of_nat_power)
  then have "(of_nat ?m :: rat) < 2 * 2 ^ ?p" by (rule order_less_le_trans) simp
  then have "\<lfloor>(of_nat ?m :: rat) / 2 ^ ?p * (2 ^ ?p + 1 / 2)\<rfloor> = int ?m"
    by (intro floor_unique) (simp_all add: algebra_simps)
  moreover have low: "?e * 2 ^ ?p + ?m < 2 ^ (tr_bits tr - 1)"
  proof -
    have "?e * 2 ^ ?p + ?m < (?e + 1) * 2 ^ ?p" using f(4) by simp
    also have "\<dots> \<le> 2 ^ tr_expbits tr * 2 ^ ?p" using f(3) by (intro mult_le_mono1) simp
    finally show ?thesis using bits_split [OF ok] by (simp add: power_add mult.commute)
  qed
  moreover have "?e * 2 ^ ?p mod 2 ^ tr_bits tr = ?e * 2 ^ ?p" "?s * 2 ^ (tr_bits tr - 1) mod 2 ^ tr_bits tr = ?s * 2 ^ (tr_bits tr - 1)"
    using n f(1) by (auto intro!: mod_less)
  ultimately show ?thesis
    using f(1) by (simp add: pack_bits_def Let_def shift or_disjoint [OF f(4)] or_disjoint [OF low, unfolded One_nat_def])
qed

lemma pow_split: "b \<le> e \<Longrightarrow> (2::rat) powi (int e - int b) = 2 ^ (e - b)" "e < b \<Longrightarrow> (2::rat) powi (int e - int b) = 1 / 2 ^ (b - e)"
proof -
  show "b \<le> e \<Longrightarrow> (2::rat) powi (int e - int b) = 2 ^ (e - b)" by (simp add: of_nat_diff [symmetric] del: of_nat_diff)
  assume "e < b"
  then have "int e - int b = - int (b - e)" by simp
  then show "(2::rat) powi (int e - int b) = 1 / 2 ^ (b - e)" by (simp only: power_int_minus power_int_of_nat) (simp add: field_simps)
qed

lemma normalize:
  assumes ok: "trait_ok tr" and x: "1 \<le> x" "x < 2" and e: "e < 2 ^ tr_bits tr"
  shows "\<exists>f1 s1 s2. norm_down tr (Fp_num (x * 2 powi (int e - int (bias tr)))) 0 = Some (f1, s1) \<and> norm_up tr f1 s1 = Some (Fp_num x, s2)
    \<and> (s2 + bias tr) mod 2 ^ tr_bits tr = e"
proof (cases "bias tr \<le> e")
  case True
  then have "norm_down tr (Fp_num (x * 2 powi (int e - int (bias tr)))) 0 = Some (Fp_num x, e - bias tr)"
    using norm_down_pow [OF ok x, of 0 "e - bias tr"] e by (simp add: pow_split)
  moreover have "norm_up tr (Fp_num x) (e - bias tr) = Some (Fp_num x, e - bias tr)" using x by (simp add: norm_up_stop)
  ultimately show ?thesis using True e by auto
next
  case False
  let ?k = "bias tr - e" and ?m = "(2::nat) ^ tr_bits tr"
  have "x / 2 ^ ?k \<le> x" using x(1) one_le_power [of "2::rat" ?k] by (simp add: divide_le_eq)
  then have "norm_down tr (Fp_num (x * 2 powi (int e - int (bias tr)))) 0 = Some (Fp_num (x / 2 ^ ?k), 0)"
    using False x by (simp add: pow_split norm_down_stop)
  moreover have "norm_up tr (Fp_num (x / 2 ^ ?k)) 0 = Some (Fp_num x, ?k * (?m - 1) mod ?m)"
    using norm_up_pow [OF ok x, of 0 ?k] by simp
  moreover have "(?k * (?m - 1) mod ?m + bias tr) mod ?m = e"
  proof -
    have "?k * ?m = ?k * (?m - 1) + ?k" by (metis add.commute mult_Suc_right Suc_diff_1 zero_less_numeral zero_less_power)
    then have "?k * (?m - 1) + bias tr = e + ?k * ?m" using False by simp
    then show ?thesis using e by (simp add: mod_add_left_eq)
  qed
  ultimately show ?thesis by blast
qed

lemma frac_bounds:
  assumes "trait_ok tr" "n < 2 ^ tr_bits tr"
  shows "1 \<le> 1 + of_nat (frac_field tr n) / (2::rat) ^ significandbits tr" "1 + of_nat (frac_field tr n) / (2::rat) ^ significandbits tr < 2"
proof -
  have "(of_nat (frac_field tr n) :: rat) < 2 ^ significandbits tr"
    using fields(4) [OF assms] by (metis of_nat_less_iff of_nat_numeral of_nat_power)
  then show "1 + of_nat (frac_field tr n) / (2::rat) ^ significandbits tr < 2" by (simp add: divide_less_eq)
qed simp

lemma ieee_value_normal:
  "is_normal tr n \<Longrightarrow> ieee_value tr n = Fp_num ((if sign_field tr n = 1 then - 1 else 1) *
     ((1 + of_nat (frac_field tr n) / 2 ^ significandbits tr) * 2 powi (int (exp_field tr n) - int (bias tr))))"
  by (simp add: ieee_value_def is_normal_def Let_def)

lemma pack_normal:
  assumes "trait_ok tr" "is_normal tr n"
  shows "pack754 tr (ieee_value tr n) = Some (Inr n)"
proof -
  let ?x = "1 + of_nat (frac_field tr n) / (2::rat) ^ significandbits tr" and ?e = "exp_field tr n"
  let ?v = "?x * 2 powi (int ?e - int (bias tr))"
  have n: "n < 2 ^ tr_bits tr" using assms(2) by (simp add: is_normal_def)
  note x = frac_bounds [OF assms(1) n]
  have e: "?e < 2 ^ tr_bits tr"
    by (rule order_less_le_trans [OF fields(3) [OF assms(1) n]]) (use bits_split [OF assms(1)] in \<open>intro power_increasing; simp\<close>)
  have "0 < ?x" using x(1) by linarith
  then have "0 < ?v" by (intro mult_pos_pos zero_less_power_int) auto
  moreover obtain f1 s1 s2 where nrm: "norm_down tr (Fp_num ?v) 0 = Some (f1, s1)" "norm_up tr f1 s1 = Some (Fp_num ?x, s2)"
    "(s2 + bias tr) mod 2 ^ tr_bits tr = ?e" using normalize [OF assms(1) x e] by blast
  moreover have "sign_field tr n = 0 \<or> sign_field tr n = 1" by (rule fields(2) [OF assms(1) n])
  ultimately show ?thesis
    using pack_bits_fields [OF assms(1) n nrm(3)] by (auto simp: pack754_def ieee_value_normal [OF assms(2)] Let_def)
qed

section \<open>Unpacking\<close>

lemma times_double:
  "1 \<le> x \<Longrightarrow> x < 2 \<Longrightarrow> i + j \<le> bias tr \<Longrightarrow> fp_times (fp_double tr) j (Fp_num (x * 2 ^ i)) = Fp_num (x * 2 ^ (i + j))"
proof (induction j arbitrary: i)
  case (Suc j)
  have "2 * (x * 2 ^ i) < 2 * (2 * 2 ^ i)" using Suc.prems(2) by simp
  also have "\<dots> = 2 ^ (i + 2)" by simp
  also have "(2::rat) ^ (i + 2) \<le> 2 ^ (bias tr + 1)" using Suc.prems(3) by (intro power_increasing) auto
  finally have "fp_double tr (Fp_num (x * 2 ^ i)) = Fp_num (x * 2 ^ Suc i)" using Suc.prems(1) by simp
  then show ?case using Suc.IH [of "Suc i"] Suc.prems by simp
qed simp

lemma times_half:
  "1 \<le> x \<Longrightarrow> x < 2 \<Longrightarrow> i + j \<le> bias tr - 1 \<Longrightarrow> fp_times (fp_half tr) j (Fp_num (x / 2 ^ i)) = Fp_num (x / 2 ^ (i + j))"
proof (induction j arbitrary: i)
  case (Suc j)
  have "(2::rat) ^ Suc i \<le> 2 ^ (bias tr - 1)" using Suc.prems(3) by (intro power_increasing) auto
  also have "\<dots> \<le> x * 2 ^ (bias tr - 1)" using Suc.prems(1) by simp
  finally have "1 \<le> x / 2 ^ Suc i * 2 ^ (bias tr - 1)" by (simp add: le_divide_eq)
  then have "fp_half tr (Fp_num (x / 2 ^ i)) = Fp_num (x / 2 ^ Suc i)" using Suc.prems(1) by (simp add: Let_def mult.commute)
  then show ?case using Suc.IH [of "Suc i"] Suc.prems by simp
qed simp

lemma exp_signed:
  assumes "trait_ok tr"
  shows "((if 2 * n < 2 ^ tr_bits tr then int n else int n - 2 ^ tr_bits tr) div 2 ^ significandbits tr) mod 2 ^ tr_expbits tr = int (exp_field tr n)"
proof -
  let ?p = "significandbits tr" and ?e = "tr_expbits tr"
  have "(2::int) ^ tr_bits tr = 2 * 2 ^ ?e * 2 ^ ?p" by (simp add: bits_split [OF assms] power_add)
  then have "int n - 2 ^ tr_bits tr = int n + (- (2 * 2 ^ ?e)) * 2 ^ ?p" by simp
  then have "(int n - 2 ^ tr_bits tr) div 2 ^ ?p = int n div 2 ^ ?p + (- 2) * 2 ^ ?e"
    using div_mult_self1 [of "2 ^ ?p" "int n" "- (2 * 2 ^ ?e)"] by (simp only: mult_minus_left power_not_zero [OF numeral_neq_zero] not_False_eq_True)
  then have "(int n - 2 ^ tr_bits tr) div 2 ^ ?p mod 2 ^ ?e = int n div 2 ^ ?p mod 2 ^ ?e" by (simp only: mod_mult_self1)
  moreover have "int n div 2 ^ ?p mod 2 ^ ?e = int (exp_field tr n)" by (simp add: exp_field_def zdiv_int zmod_int)
  ultimately show ?thesis by simp
qed

lemma unpack_normal:
  assumes "trait_ok tr" "is_normal tr n"
  shows "unpack754 tr n = ieee_value tr n"
proof -
  let ?x = "1 + of_nat (frac_field tr n) / (2::rat) ^ significandbits tr" and ?e = "exp_field tr n"
  let ?sh = "int ?e - int (bias tr)"
  have n: "n < 2 ^ tr_bits tr" and e: "0 < ?e" "?e < 2 ^ tr_expbits tr - 1" using assms(2) by (simp_all add: is_normal_def)
  from e(1) have "n \<noteq> 0" by (intro notI) (simp add: exp_field_def)
  note x = frac_bounds [OF assms(1) n]
  have "?e \<le> 2 * bias tr" using e(2) bias_pos(2) [OF assms(1)] by simp
  then have "fp_times (fp_half tr) (nat (- ?sh)) (fp_times (fp_double tr) (nat ?sh) (Fp_num ?x)) = Fp_num (?x * 2 powi ?sh)"
    using times_double [OF x, of 0 "?e - bias tr" tr] times_half [OF x, of 0 "bias tr - ?e" tr] e(1)
    by (cases "bias tr \<le> ?e") (simp_all add: pow_split nat_diff_distrib)
  moreover have "odd (n div 2 ^ (tr_bits tr - 1)) \<longleftrightarrow> sign_field tr n = 1"
    using fields(2) [OF assms(1) n] by (auto simp: sign_field_def)
  ultimately show ?thesis
    using \<open>n \<noteq> 0\<close> by (simp add: unpack754_def Let_def exp_signed [OF assms(1)] ieee_value_normal [OF assms(2)] frac_field_def add.commute)
qed

section \<open>Properties\<close>

text \<open>
  C16. On normal numbers \<open>pack754\<close> and \<open>unpack754\<close> are the encoding of IEEE 754: for every bit pattern of a normal number, single or double
  precision, packing its value terminates with exactly that pattern and unpacking the pattern gives that value; the bytes written for the
  value are read back as the value, whatever follows them.
\<close>

theorem pack754_is_ieee:
  assumes "tr = float_trait \<or> tr = double_trait" "is_normal tr n"
  shows "pack754 tr (ieee_value tr n) = Some (Inr n) \<and> unpack754 tr n = ieee_value tr n
    \<and> (\<exists>bs. write_fp tr (ieee_value tr n) = Some (Inr bs) \<and> length bs = tr_bits tr div 8 \<and> read_fp tr (bs @ rest) = Inr (ieee_value tr n, rest))"
proof -
  have ok: "trait_ok tr" using assms(1) traits_ok by auto
  have "n < 256 ^ (tr_bits tr div 8)"
    using assms by (auto simp: is_normal_def float_trait_def double_trait_def)
  then have "read_uint (tr_bits tr div 8) (write_int (tr_bits tr div 8) (int n) @ rest) = Inr (n, rest)"
    using read_uint_write_int [of "int n" "tr_bits tr div 8" rest] by (simp flip: of_nat_less_iff)
  then show ?thesis
    using pack_normal [OF ok assms(2)] unpack_normal [OF ok assms(2)] by (simp add: write_fp_def read_fp_def)
qed

theorem pack754_is_ieee_witness: "pack754 double_trait (ieee_value double_trait 0x3FF8000000000000) = Some (Inr 0x3FF8000000000000)"
proof -
  have "is_normal double_trait 0x3FF8000000000000"
    by (simp add: is_normal_def exp_field_def double_trait_def significandbits_def)
  then show ?thesis using pack754_is_ieee [of double_trait] by blast
qed

lemma norm_down_inf: "norm_down tr (Fp_inf False) s = None"
proof -
  have "f \<noteq> Fp_inf False" if "norm_down tr f s = Some r" for f r
    by (rule norm_down.raw_induct [where P = "\<lambda>_ f _ _. f \<noteq> Fp_inf False", OF _ that]) (fastforce split: if_splits)
  then show ?thesis by (cases "norm_down tr (Fp_inf False) s") auto
qed

text \<open>
  C31. Outside the normal numbers the conversion fails: packing an infinity does not return, and the smallest positive number of single
  precision is written as a pattern that stands for a large negative number. A value that is not a number is converted to an integer,
  which is undefined.
\<close>

theorem pack754_not_ieee:
  "pack754 tr (Fp_inf neg) = None \<and> pack754 tr Fp_nan = Some (Inl Undefined_conversion)
   \<and> ieee_value float_trait 1 = Fp_num (1 / 2 ^ 149)
   \<and> (\<exists>n. pack754 float_trait (Fp_num (1 / 2 ^ 149)) = Some (Inr n) \<and> unpack754 float_trait n = Fp_num (- (2 ^ 107)))"
proof -
  have fl: "bias float_trait = 127" "significandbits float_trait = 23" "tr_bits float_trait = 32" "tr_expbits float_trait = 8"
    by (simp_all add: float_trait_def bias_def significandbits_def)
  have inf: "pack754 tr (Fp_inf neg) = None" by (cases neg) (simp_all add: pack754_def norm_down_inf)
  have nan: "pack754 tr Fp_nan = Some (Inl Undefined_conversion)" by (simp add: pack754_def norm_down_stop norm_up_stop)
  have val: "ieee_value float_trait 1 = Fp_num (1 / 2 ^ 149)"
    by (simp add: ieee_value_def exp_field_def frac_field_def sign_field_def fl power_int_def power_one_over)
  have "norm_up float_trait (Fp_num (1 / 2 ^ 149)) 0 = Some (Fp_num 1, 4294967147)"
    using norm_up_pow [OF traits_ok(1), of 1 0 149] by (simp add: fl)
  moreover have "norm_down float_trait (Fp_num (1 / 2 ^ 149)) 0 = Some (Fp_num (1 / 2 ^ 149), 0)" by (simp add: norm_down_stop)
  moreover have "pack_bits float_trait 0 0 4294967147 = 4110417920" by (simp add: pack_bits_def fl)
  ultimately have "pack754 float_trait (Fp_num (1 / 2 ^ 149)) = Some (Inr 4110417920)" by (simp add: pack754_def)
  moreover have "unpack754 float_trait 4110417920 = Fp_num (- (2 ^ 107))"
    using times_double [of 1 0 107 float_trait] by (simp add: unpack754_def fl)
  ultimately show ?thesis using inf nan val by blast
qed

end
