(* ===== verification/Servants.thy ===== *)
theory Servants
  imports Broker
begin

text \<open>
  The servants of brokers: scribes and doormen (libcaf_io/caf/io/broker.hpp, libcaf_io/src/broker.cpp, class \<open>acceptor\<close> of
  caf/io/network/default_multiplexer.hpp and \<open>add_tcp_scribe\<close> and \<open>add_tcp_doorman\<close> of libcaf_io/src/default_multiplexer.cpp). A servant is
  registered with one broker, which may pass it on to a new broker, until it is disconnected. What a handler of a broker does is a
  sequence of later steps: every operation that calls a handler does so last.
\<close>

section \<open>Definitions\<close>

datatype servant_kind = Scribe | Doorman

text \<open>A servant, its handle (the number of its socket), whether its socket was told to stop reading, and how often its acceptor was started.\<close>

record servant =
  sv_kind :: servant_kind
  sv_hdl :: nat
  sv_broker :: nat
  sv_disconnected :: bool
  sv_stopped :: bool
  sv_starts :: nat

text \<open>All servants ever made, the maps \<open>m_scribes\<close> and \<open>m_doormen\<close> of the brokers from handles to servants, the brokers that are initialized,
  and the messages given to brokers: that a servant was closed, and that a doorman accepted a connection.\<close>

datatype io_msg = Closed_msg servant_kind nat | New_connection_msg nat nat

record io_state =
  servants :: "servant list"
  elements :: "servant_kind \<Rightarrow> nat \<Rightarrow> (nat \<times> nat) list"
  initialized :: "nat list"
  io_msgs :: "(nat \<times> io_msg) list"

datatype io_error = Invalid_handle

definition upd_servant :: "nat \<Rightarrow> (servant \<Rightarrow> servant) \<Rightarrow> io_state \<Rightarrow> io_state" where
  "upd_servant i f st = st\<lparr>servants := (servants st)[i := f (servants st ! i)]\<rparr>"

definition set_elements :: "servant_kind \<Rightarrow> nat \<Rightarrow> (nat \<times> nat) list \<Rightarrow> io_state \<Rightarrow> io_state" where
  "set_elements k b es st = st\<lparr>elements := (elements st)(k := (elements st k)(b := es))\<rparr>"

text \<open>\<open>map::insert\<close> and \<open>map::erase\<close>.\<close>

definition map_insert :: "nat \<Rightarrow> nat \<Rightarrow> (nat \<times> nat) list \<Rightarrow> (nat \<times> nat) list" where
  "map_insert h i es = (if h \<in> fst ` set es then es else insort_key fst (h, i) es)"

definition map_erase :: "nat \<Rightarrow> (nat \<times> nat) list \<Rightarrow> (nat \<times> nat) list" where
  "map_erase h es = filter (\<lambda>e. fst e \<noteq> h) es"

subsection \<open>Servants\<close>

definition set_broker :: "nat \<Rightarrow> nat \<Rightarrow> io_state \<Rightarrow> io_state" where
  "set_broker i b st = (if \<not> sv_disconnected (servants st ! i) then upd_servant i (\<lambda>sv. sv\<lparr>sv_broker := b\<rparr>) st else st)"

definition remove_from_broker :: "nat \<Rightarrow> io_state \<Rightarrow> io_state" where
  "remove_from_broker i st =
     (let sv = servants st ! i in set_elements (sv_kind sv) (sv_broker sv) (map_erase (sv_hdl sv) (elements st (sv_kind sv) (sv_broker sv))) st)"

definition sv_disconnect :: "nat \<Rightarrow> bool \<Rightarrow> io_state \<Rightarrow> io_state" where
  "sv_disconnect i invoke st =
     (let sv = servants st ! i
      in if sv_disconnected sv then st
         else let st1 = remove_from_broker i (upd_servant i (\<lambda>sv. sv\<lparr>sv_disconnected := True\<rparr>) st)
              in if invoke then st1\<lparr>io_msgs := io_msgs st1 @ [(sv_broker sv, Closed_msg (sv_kind sv) (sv_hdl sv))]\<rparr> else st1)"

definition sv_io_failure :: "nat \<Rightarrow> io_state \<Rightarrow> io_state" where
  "sv_io_failure i st = sv_disconnect i True st"

definition sv_stop_reading :: "nat \<Rightarrow> io_state \<Rightarrow> io_state" where
  "sv_stop_reading i st = sv_disconnect i False (upd_servant i (\<lambda>sv. sv\<lparr>sv_stopped := True\<rparr>) st)"

definition sv_launch :: "nat \<Rightarrow> io_state \<Rightarrow> io_state" where
  "sv_launch i st = upd_servant i (\<lambda>sv. sv\<lparr>sv_starts := sv_starts sv + 1\<rparr>) st"

subsection \<open>Brokers\<close>

definition by_id :: "servant_kind \<Rightarrow> nat \<Rightarrow> nat \<Rightarrow> io_state \<Rightarrow> io_error + nat" where
  "by_id k b h st = (case map_of (elements st k b) h of None \<Rightarrow> Inl Invalid_handle | Some i \<Rightarrow> Inr i)"

definition new_servant :: "servant_kind \<Rightarrow> nat \<Rightarrow> nat \<Rightarrow> io_state \<Rightarrow> nat \<times> io_state" where
  "new_servant k b h st = (length (servants st), st\<lparr>servants := servants st @
     [\<lparr>sv_kind = k, sv_hdl = h, sv_broker = b, sv_disconnected = False, sv_stopped = False, sv_starts = 0\<rparr>]\<rparr>)"

definition add_tcp_scribe :: "nat \<Rightarrow> nat \<Rightarrow> io_state \<Rightarrow> io_state" where
  "add_tcp_scribe b h st = (let (i, st1) = new_servant Scribe b h st in set_elements Scribe b (map_insert h i (elements st1 Scribe b)) st1)"

definition add_tcp_doorman :: "nat \<Rightarrow> nat \<Rightarrow> io_state \<Rightarrow> io_state" where
  "add_tcp_doorman b h st =
     (let (i, st1) = new_servant Doorman b h st; st2 = set_elements Doorman b (map_insert h i (elements st1 Doorman b)) st1
      in if b \<in> set (initialized st2) then sv_launch i st2 else st2)"

text \<open>The part of the handler for \<open>INITMSG\<close> that concerns servants.\<close>

definition launch_doormen :: "nat \<Rightarrow> io_state \<Rightarrow> io_state" where
  "launch_doormen b st = (let st1 = fold sv_launch (map snd (elements st Doorman b)) st in st1\<lparr>initialized := b # initialized st1\<rparr>)"

definition io_close :: "servant_kind \<Rightarrow> nat \<Rightarrow> nat \<Rightarrow> io_state \<Rightarrow> io_error + io_state" where
  "io_close k b h st = (case by_id k b h st of Inl e \<Rightarrow> Inl e | Inr i \<Rightarrow> Inr (sv_stop_reading i st))"

partial_function (option) close_loop :: "servant_kind \<Rightarrow> nat \<Rightarrow> io_state \<Rightarrow> io_state option" where
  "close_loop k b st = (case elements st k b of [] \<Rightarrow> Some st | (h, i) # _ \<Rightarrow> close_loop k b (sv_stop_reading i st))"

declare close_loop.simps [code]

definition io_close_all :: "nat \<Rightarrow> io_state \<Rightarrow> io_state option" where
  "io_close_all b st = (case close_loop Doorman b st of None \<Rightarrow> None | Some st1 \<Rightarrow> close_loop Scribe b st1)"

text \<open>\<open>fork\<close>: the new broker \<open>b'\<close> gets the connection.\<close>

definition fork :: "nat \<Rightarrow> nat \<Rightarrow> nat \<Rightarrow> io_state \<Rightarrow> io_error + io_state" where
  "fork b h b' st = (case by_id Scribe b h st of
      Inl e \<Rightarrow> Inl e
    | Inr i \<Rightarrow>
        (let st1 = set_elements Scribe b (map_erase h (elements st Scribe b)) st; st2 = set_broker i b' st1
         in Inr (set_elements Scribe b' (map_insert (sv_hdl (servants st2 ! i)) i (elements st2 Scribe b')) st2)))"

subsection \<open>Acceptors\<close>

text \<open>The result of \<open>accept\<close>: an error, an error that means that there is nothing to accept, or a socket.\<close>

datatype accept_result = Accept_error | Accept_would_block | Accept_ok nat

definition try_accept :: "accept_result \<Rightarrow> nat option option" where
  "try_accept r = (case r of Accept_error \<Rightarrow> None | Accept_would_block \<Rightarrow> Some None | Accept_ok fd \<Rightarrow> Some (Some fd))"

definition sv_new_connection :: "nat \<Rightarrow> nat \<Rightarrow> io_state \<Rightarrow> io_state" where
  "sv_new_connection i fd st =
     (let sv = servants st ! i; st1 = add_tcp_scribe (sv_broker sv) fd st
      in st1\<lparr>io_msgs := io_msgs st1 @ [(sv_broker sv, New_connection_msg (sv_hdl sv) fd)]\<rparr>)"

text \<open>\<open>handle_event\<close> for an acceptor that is in the loop (\<open>m_mgr\<close>); the operation is reading or not.\<close>

definition acceptor_event :: "bool \<Rightarrow> accept_result \<Rightarrow> nat \<Rightarrow> io_state \<Rightarrow> io_state" where
  "acceptor_event is_read r i st =
     (if is_read then (case try_accept r of Some (Some fd) \<Rightarrow> sv_new_connection i fd st | _ \<Rightarrow> st) else st)"

text \<open>
  The runs. The number of a new socket is not that of a socket in use. An acceptor reports events after its start, until it
  stops reading. A new broker has no servants yet. A broker is initialized once.
\<close>

definition fresh_fd :: "nat \<Rightarrow> io_state \<Rightarrow> bool" where
  "fresh_fd fd st \<longleftrightarrow> (\<forall>sv\<in>set (servants st). \<not> sv_disconnected sv \<longrightarrow> sv_hdl sv \<noteq> fd)"

inductive io_reach :: "io_state \<Rightarrow> bool" where
  io_start: "io_reach \<lparr>servants = [], elements = (\<lambda>_ _. []), initialized = [], io_msgs = []\<rparr>"
| io_scribe: "io_reach st \<Longrightarrow> fresh_fd fd st \<Longrightarrow> io_reach (add_tcp_scribe b fd st)"
| io_doorman: "io_reach st \<Longrightarrow> fresh_fd fd st \<Longrightarrow> io_reach (add_tcp_doorman b fd st)"
| io_init: "io_reach st \<Longrightarrow> b \<notin> set (initialized st) \<Longrightarrow> io_reach (launch_doormen b st)"
| io_fails: "io_reach st \<Longrightarrow> i < length (servants st) \<Longrightarrow> io_reach (sv_io_failure i st)"
| io_closes: "io_reach st \<Longrightarrow> io_close k b h st = Inr st' \<Longrightarrow> io_reach st'"
| io_closes_all: "io_reach st \<Longrightarrow> io_close_all b st = Some st' \<Longrightarrow> io_reach st'"
| io_forks: "io_reach st \<Longrightarrow> elements st Scribe b' = [] \<Longrightarrow> elements st Doorman b' = [] \<Longrightarrow> fork b h b' st = Inr st' \<Longrightarrow> io_reach st'"
| io_accepts: "io_reach st \<Longrightarrow> i < length (servants st) \<Longrightarrow> sv_kind (servants st ! i) = Doorman \<Longrightarrow> 0 < sv_starts (servants st ! i) \<Longrightarrow>
    \<not> sv_stopped (servants st ! i) \<Longrightarrow> (\<And>fd. r = Accept_ok fd \<Longrightarrow> fresh_fd fd st) \<Longrightarrow> io_reach (acceptor_event is_read r i st)"

section \<open>Ownership\<close>

abbreviation alive :: "servant \<Rightarrow> bool" where
  "alive sv \<equiv> \<not> sv_disconnected sv"

text \<open>The maps of the brokers hold exactly the servants that are not disconnected, each in the map of its broker and under its handle.\<close>

definition registered :: "io_state \<Rightarrow> servant_kind \<Rightarrow> nat \<Rightarrow> nat \<Rightarrow> nat \<Rightarrow> bool" where
  "registered st k b h i \<longleftrightarrow> i < length (servants st)
     \<and> (let sv = servants st ! i in alive sv \<and> sv_kind sv = k \<and> sv_broker sv = b \<and> sv_hdl sv = h)"

definition own_inv :: "io_state \<Rightarrow> bool" where
  "own_inv st \<longleftrightarrow> (\<forall>k b. distinct (map fst (elements st k b)))
     \<and> (\<forall>k b h i. (h, i) \<in> set (elements st k b) \<longleftrightarrow> registered st k b h i)
     \<and> (\<forall>i < length (servants st). \<forall>j < length (servants st). alive (servants st ! i) \<longrightarrow> alive (servants st ! j) \<longrightarrow>
          sv_hdl (servants st ! i) = sv_hdl (servants st ! j) \<longrightarrow> i = j)"

lemma own_invD:
  assumes "own_inv st"
  shows "distinct (map fst (elements st k b))" "(h, i) \<in> set (elements st k b) \<longleftrightarrow> registered st k b h i"
    "i < length (servants st) \<Longrightarrow> j < length (servants st) \<Longrightarrow> alive (servants st ! i) \<Longrightarrow> alive (servants st ! j) \<Longrightarrow>
       sv_hdl (servants st ! i) = sv_hdl (servants st ! j) \<Longrightarrow> i = j"
  using assms unfolding own_inv_def by blast+

lemma own_same:
  assumes "own_inv st" "i < length (servants st)" "alive (servants st ! i)" "registered st k b g j"
  shows "g = sv_hdl (servants st ! i) \<longleftrightarrow> j = i"
proof -
  have j: "j < length (servants st)" "alive (servants st ! j)" "sv_hdl (servants st ! j) = g"
    using assms(4) by (simp_all add: registered_def Let_def)
  have "i = j" if "g = sv_hdl (servants st ! i)" by (rule own_invD(3) [OF assms(1,2) j(1) assms(3) j(2)]) (simp add: that j(3))
  then show ?thesis using j(3) by metis
qed

text \<open>Handles stay unique if no servant is added, renamed or connected again.\<close>

lemma handles_kept:
  assumes "own_inv st" "length (servants st') = length (servants st)"
    and eq: "\<And>m. alive (servants st' ! m) \<Longrightarrow> m < length (servants st) \<Longrightarrow> alive (servants st ! m) \<and> sv_hdl (servants st ! m) = sv_hdl (servants st' ! m)"
  shows "\<forall>i < length (servants st'). \<forall>j < length (servants st'). alive (servants st' ! i) \<longrightarrow> alive (servants st' ! j) \<longrightarrow>
    sv_hdl (servants st' ! i) = sv_hdl (servants st' ! j) \<longrightarrow> i = j"
proof (intro allI impI)
  fix i j assume a: "i < length (servants st')" "j < length (servants st')" "alive (servants st' ! i)" "alive (servants st' ! j)"
    "sv_hdl (servants st' ! i) = sv_hdl (servants st' ! j)"
  then have l: "i < length (servants st)" "j < length (servants st)" by (simp_all add: assms(2))
  note e = eq [OF a(3) l(1)] eq [OF a(4) l(2)]
  show "i = j" by (rule own_invD(3) [OF assms(1) l conjunct1 [OF e(1)] conjunct1 [OF e(2)]]) (use a(5) e in simp)
qed

lemma map_insert_facts:
  assumes "h \<notin> fst ` set es"
  shows "set (map_insert h i es) = insert (h, i) (set es)" "distinct (map fst es) \<Longrightarrow> distinct (map fst (map_insert h i es))"
  using assms by (auto simp: map_insert_def set_insort_key distinct_map intro: distinct_insort) (auto simp: inj_on_def rev_image_eqI distinct_insort)

lemma map_erase_facts:
  "set (map_erase h es) = {e \<in> set es. fst e \<noteq> h}" "distinct (map fst es) \<Longrightarrow> distinct (map fst (map_erase h es))"
  by (auto simp: map_erase_def distinct_map_filter)

lemma elements_simps [simp]:
  "elements (upd_servant i f st) = elements st" "elements (set_elements k b es st) k' b' = (if k' = k \<and> b' = b then es else elements st k' b')"
  "servants (set_elements k b es st) = servants st" "servants (upd_servant i f st) = (servants st)[i := f (servants st ! i)]"
  "initialized (set_elements k b es st) = initialized st" "initialized (upd_servant i f st) = initialized st"
  "io_msgs (set_elements k b es st) = io_msgs st" "io_msgs (upd_servant i f st) = io_msgs st"
  by (auto simp: upd_servant_def set_elements_def)

text \<open>A new servant.\<close>

lemma own_inv_new:
  assumes "own_inv st" "fresh_fd h st"
  shows "own_inv (let (i, st1) = new_servant k b h st in set_elements k b (map_insert h i (elements st1 k b)) st1)"
proof -
  let ?sv = "\<lparr>sv_kind = k, sv_hdl = h, sv_broker = b, sv_disconnected = False, sv_stopped = False, sv_starts = 0\<rparr>"
  define st' where "st' = (let (i, st1) = new_servant k b h st in set_elements k b (map_insert h i (elements st1 k b)) st1)"
  have fresh: "sv_hdl (servants st ! i) \<noteq> h" if "i < length (servants st)" "alive (servants st ! i)" for i
    using assms(2) that by (auto simp: fresh_fd_def)
  have sv: "servants st' = servants st @ [?sv]" by (simp add: st'_def new_servant_def)
  have reg: "registered st' k' b' h' i \<longleftrightarrow> registered st k' b' h' i \<or> (k', b', h', i) = (k, b, h, length (servants st))" for k' b' h' i
    unfolding registered_def sv by (auto simp: nth_append less_Suc_eq Let_def)
  have nin: "h \<notin> fst ` set (elements st k b)" using fresh own_invD(2) [OF assms(1)] by (auto simp: registered_def Let_def)
  have el: "elements st' k' b' = (if k' = k \<and> b' = b then map_insert h (length (servants st)) (elements st k b) else elements st k' b')" for k' b'
    by (simp add: st'_def new_servant_def)
  have "\<forall>k' b'. distinct (map fst (elements st' k' b'))"
    using own_invD(1) [OF assms(1)] map_insert_facts(2) [OF nin] by (simp add: el)
  moreover have "(h', i) \<in> set (elements st' k' b') \<longleftrightarrow> registered st' k' b' h' i" for k' b' h' i
    using own_invD(2) [OF assms(1)] map_insert_facts(1) [OF nin] by (auto simp: el reg)
  moreover have "i = j" if "i < length (servants st')" "j < length (servants st')" "alive (servants st' ! i)" "alive (servants st' ! j)"
      "sv_hdl (servants st' ! i) = sv_hdl (servants st' ! j)" for i j
    using that own_invD(3) [OF assms(1), of i j] fresh unfolding sv by (auto simp: nth_append less_Suc_eq split: if_splits)
  ultimately show ?thesis unfolding st'_def [symmetric] own_inv_def by blast
qed

text \<open>A servant that changes without being disconnected, renamed or moved.\<close>

lemma own_inv_upd:
  assumes "own_inv st" "\<And>sv. sv_kind (f sv) = sv_kind sv" "\<And>sv. sv_hdl (f sv) = sv_hdl sv" "\<And>sv. sv_broker (f sv) = sv_broker sv"
    "\<And>sv. sv_disconnected (f sv) = sv_disconnected sv"
  shows "own_inv (upd_servant i f st)"
proof -
  have nth: "g ((servants st)[i := f (servants st ! i)] ! j) = g (servants st ! j)" if "\<And>sv. g (f sv) = g sv" for j and g :: "servant \<Rightarrow> 'a"
    using that by (cases "i < length (servants st)"; cases "i = j") (auto simp: linorder_not_less list_update_beyond)
  note nths = nth [of sv_kind, OF assms(2)] nth [of sv_hdl, OF assms(3)] nth [of sv_broker, OF assms(4)] nth [of sv_disconnected, OF assms(5)]
  have "registered (upd_servant i f st) = registered st"
    by (simp add: fun_eq_iff registered_def Let_def nths)
  then show ?thesis using assms(1) unfolding own_inv_def by (simp add: nths)
qed

lemma own_inv_frame [simp]: "own_inv (st\<lparr>io_msgs := ms\<rparr>) = own_inv st" "own_inv (st\<lparr>initialized := bs\<rparr>) = own_inv st"
  by (simp_all add: own_inv_def registered_def)

text \<open>Disconnecting a servant takes it, and nothing else, out of the maps.\<close>

lemma own_inv_disconnect:
  assumes "own_inv st" "i < length (servants st)"
  shows "own_inv (sv_disconnect i invoke st)"
proof (cases "alive (servants st ! i)")
  case True
  let ?sv = "servants st ! i"
  define st' where "st' = remove_from_broker i (upd_servant i (\<lambda>sv. sv\<lparr>sv_disconnected := True\<rparr>) st)"
  have sv: "servants st' = (servants st)[i := ?sv\<lparr>sv_disconnected := True\<rparr>]" by (simp add: st'_def remove_from_broker_def Let_def)
  have reg: "registered st' k b h j \<longleftrightarrow> registered st k b h j \<and> j \<noteq> i" for k b h j
    using assms(2) unfolding registered_def sv by (auto simp: nth_list_update Let_def split: if_splits)
  have el: "elements st' k b = (if k = sv_kind ?sv \<and> b = sv_broker ?sv then map_erase (sv_hdl ?sv) (elements st k b) else elements st k b)" for k b
    using assms(2) by (simp add: st'_def remove_from_broker_def Let_def)
  note same = own_same [OF assms(1,2) True]
  have ne: "registered st k b h i \<Longrightarrow> k = sv_kind ?sv \<and> b = sv_broker ?sv" for k b h by (simp add: registered_def Let_def)
  have "own_inv st'"
    unfolding own_inv_def
  proof (intro conjI)
    show "\<forall>k b. distinct (map fst (elements st' k b))" using own_invD(1) [OF assms(1)] by (simp add: el map_erase_facts)
    have "(h, j) \<in> set (elements st' k b) \<longleftrightarrow> registered st' k b h j" for k b h j
    proof (cases "k = sv_kind ?sv \<and> b = sv_broker ?sv")
      case True
      then have "(h, j) \<in> set (elements st' k b) \<longleftrightarrow> registered st k b h j \<and> h \<noteq> sv_hdl ?sv"
        by (simp add: el map_erase_facts own_invD(2) [OF assms(1)])
      then show ?thesis using same [of k b h j] by (simp only: reg) blast
    next
      case False
      then have "(h, j) \<in> set (elements st' k b) \<longleftrightarrow> registered st k b h j" by (simp only: el own_invD(2) [OF assms(1)] if_False)
      then show ?thesis using ne [of k b h] False by (simp only: reg) blast
    qed
    then show "\<forall>k b h j. (h, j) \<in> set (elements st' k b) \<longleftrightarrow> registered st' k b h j" by blast
  qed (rule handles_kept [OF assms(1)]; use assms(2) in \<open>auto simp: sv nth_list_update split: if_splits\<close>)
  with True show ?thesis by (simp add: sv_disconnect_def Let_def st'_def [symmetric])
qed (simp add: sv_disconnect_def assms)

lemma own_inv_stop: "own_inv st \<Longrightarrow> i < length (servants st) \<Longrightarrow> own_inv (sv_stop_reading i st)"
  unfolding sv_stop_reading_def by (rule own_inv_disconnect) (auto intro: own_inv_upd)

section \<open>Closing all servants\<close>

definition closed_sv :: "servant_kind \<Rightarrow> nat \<Rightarrow> servant \<Rightarrow> servant" where
  "closed_sv k b sv = (if alive sv \<and> sv_kind sv = k \<and> sv_broker sv = b then sv\<lparr>sv_stopped := True, sv_disconnected := True\<rparr> else sv)"

lemma stop_first:
  assumes "own_inv st" "elements st k b = (h, i) # es"
  shows "sv_stop_reading i st = set_elements k b es (st\<lparr>servants := (servants st)[i := closed_sv k b (servants st ! i)]\<rparr>)"
    "i < length (servants st)"
proof -
  have "registered st k b h i" using own_invD(2) [OF assms(1), of h i k b] assms(2) by simp
  then have i: "i < length (servants st)" "alive (servants st ! i)" "sv_kind (servants st ! i) = k" "sv_broker (servants st ! i) = b"
      "sv_hdl (servants st ! i) = h" by (simp_all add: registered_def Let_def)
  then show "i < length (servants st)" by simp
  have "map_erase h ((h, i) # es) = es" using own_invD(1) [OF assms(1), of k b] assms(2) by (auto simp: map_erase_def filter_id_conv rev_image_eqI)
  then show "sv_stop_reading i st = set_elements k b es (st\<lparr>servants := (servants st)[i := closed_sv k b (servants st ! i)]\<rparr>)"
    using i assms(2) by (simp add: sv_stop_reading_def sv_disconnect_def remove_from_broker_def upd_servant_def set_elements_def closed_sv_def Let_def)
qed

lemma close_loop_eq:
  "own_inv st \<Longrightarrow> close_loop k b st = Some (set_elements k b [] (st\<lparr>servants := map (closed_sv k b) (servants st)\<rparr>))
     \<and> own_inv (set_elements k b [] (st\<lparr>servants := map (closed_sv k b) (servants st)\<rparr>))"
proof (induction "length (elements st k b)" arbitrary: st)
  case 0
  have "closed_sv k b sv = sv" if "sv \<in> set (servants st)" for sv
    using that own_invD(2) [OF 0(2), of _ _ k b] 0(1) by (auto simp: closed_sv_def registered_def in_set_conv_nth Let_def)
  then have "map (closed_sv k b) (servants st) = servants st" by (simp add: map_idI)
  moreover have "set_elements k b [] st = st" using 0(1) by (simp add: set_elements_def fun_upd_idem)
  ultimately show ?case using 0 by (subst close_loop.simps) simp
next
  case (Suc n)
  then obtain h i es where es: "elements st k b = (h, i) # es" by (cases "elements st k b") auto
  note stop = stop_first [OF Suc.prems es]
  let ?st = "sv_stop_reading i st"
  have "own_inv ?st" by (rule own_inv_stop [OF Suc.prems stop(2)])
  moreover have "n = length (elements ?st k b)" using Suc.hyps(2) es by (simp add: stop(1))
  ultimately have IH: "close_loop k b ?st = Some (set_elements k b [] (?st\<lparr>servants := map (closed_sv k b) (servants ?st)\<rparr>))"
      "own_inv (set_elements k b [] (?st\<lparr>servants := map (closed_sv k b) (servants ?st)\<rparr>))"
    using Suc.hyps(1) by blast+
  have "map (closed_sv k b) ((servants st)[i := closed_sv k b (servants st ! i)]) = map (closed_sv k b) (servants st)"
    using stop(2) by (intro nth_equalityI) (auto simp: nth_list_update closed_sv_def)
  then have "set_elements k b [] (?st\<lparr>servants := map (closed_sv k b) (servants ?st)\<rparr>) =
      set_elements k b [] (st\<lparr>servants := map (closed_sv k b) (servants st)\<rparr>)"
    by (simp add: stop(1) set_elements_def)
  with IH es show ?case by (subst close_loop.simps) simp
qed

text \<open>A servant of a broker that closes all, of either kind.\<close>

definition closed_by :: "nat \<Rightarrow> servant \<Rightarrow> servant" where
  "closed_by b sv = (if alive sv \<and> sv_broker sv = b then sv\<lparr>sv_stopped := True, sv_disconnected := True\<rparr> else sv)"

lemma close_all_eq:
  assumes "own_inv st"
  shows "io_close_all b st = Some (set_elements Scribe b [] (set_elements Doorman b [] (st\<lparr>servants := map (closed_by b) (servants st)\<rparr>)))"
    "own_inv (set_elements Scribe b [] (set_elements Doorman b [] (st\<lparr>servants := map (closed_by b) (servants st)\<rparr>)))"
proof -
  let ?st = "set_elements Doorman b [] (st\<lparr>servants := map (closed_sv Doorman b) (servants st)\<rparr>)"
  have "closed_sv Scribe b (closed_sv Doorman b sv) = closed_by b sv" for sv
    by (cases "sv_kind sv") (simp_all add: closed_sv_def closed_by_def)
  then have "map (closed_sv Scribe b) (servants ?st) = map (closed_by b) (servants st)" by simp
  then have "?st\<lparr>servants := map (closed_sv Scribe b) (servants ?st)\<rparr> = set_elements Doorman b [] (st\<lparr>servants := map (closed_by b) (servants st)\<rparr>)"
    by (simp add: set_elements_def)
  moreover have d: "close_loop Doorman b st = Some ?st" "own_inv ?st" using close_loop_eq [OF assms, of Doorman b] by simp_all
  ultimately show "io_close_all b st = Some (set_elements Scribe b [] (set_elements Doorman b [] (st\<lparr>servants := map (closed_by b) (servants st)\<rparr>)))"
    "own_inv (set_elements Scribe b [] (set_elements Doorman b [] (st\<lparr>servants := map (closed_by b) (servants st)\<rparr>)))"
    using close_loop_eq [OF d(2), of Scribe b] by (simp_all add: io_close_all_def)
qed

section \<open>Reachable states\<close>

lemma own_inv_fork:
  assumes "own_inv st" "elements st Scribe b' = []" "fork b h b' st = Inr st'"
  shows "own_inv st'"
proof -
  obtain i where m: "map_of (elements st Scribe b) h = Some i"
    using assms(3) by (auto simp: fork_def by_id_def split: option.splits)
  then have "registered st Scribe b h i" using own_invD(2) [OF assms(1), of h i Scribe b] map_of_SomeD by fastforce
  then have i: "i < length (servants st)" "alive (servants st ! i)" "sv_kind (servants st ! i) = Scribe" "sv_broker (servants st ! i) = b"
      "sv_hdl (servants st ! i) = h" by (simp_all add: registered_def Let_def)
  have bb: "b' \<noteq> b" using m assms(2) by auto
  have st': "st' = set_elements Scribe b' [(h, i)] (set_elements Scribe b (map_erase h (elements st Scribe b)) (upd_servant i (\<lambda>sv. sv\<lparr>sv_broker := b'\<rparr>) st))"
    using assms(2,3) m i bb by (simp add: fork_def by_id_def set_broker_def Let_def map_insert_def upd_servant_def set_elements_def)
  have sv: "servants st' = (servants st)[i := (servants st ! i)\<lparr>sv_broker := b'\<rparr>]" by (simp add: st')
  have reg: "registered st' k c g j \<longleftrightarrow> (if j = i then (k, c, g) = (Scribe, b', h) else registered st k c g j)" for k c g j
    using i unfolding registered_def sv by (auto simp: nth_list_update Let_def)
  note same = own_same [OF assms(1) i(1,2), unfolded i(5)]
  have own: "registered st k c g i \<longleftrightarrow> (k, c, g) = (Scribe, b, h)" for k c g using i by (auto simp: registered_def Let_def)
  have none: "\<not> registered st Scribe b' g j" for g j using own_invD(2) [OF assms(1), of g j Scribe b'] assms(2) by simp
  have el: "elements st' k c = (if k = Scribe \<and> c = b' then [(h, i)] else if k = Scribe \<and> c = b then map_erase h (elements st Scribe b) else elements st k c)"
    for k c by (simp add: st')
  have "(g, j) \<in> set (elements st' k c) \<longleftrightarrow> registered st' k c g j" for k c g j
    using same [of k c g j] own [of k c g] none [of g j] bb
    by (cases "k = Scribe \<and> c = b'"; cases "k = Scribe \<and> c = b"; cases "j = i")
      (simp_all add: el reg map_erase_facts own_invD(2) [OF assms(1)], auto)
  moreover have "distinct (map fst (elements st' k c))" for k c
    using own_invD(1) [OF assms(1)] by (simp add: el map_erase_facts)
  moreover have "\<forall>i < length (servants st'). \<forall>j < length (servants st'). alive (servants st' ! i) \<longrightarrow> alive (servants st' ! j) \<longrightarrow>
      sv_hdl (servants st' ! i) = sv_hdl (servants st' ! j) \<longrightarrow> i = j"
    by (rule handles_kept [OF assms(1)]; use i(1) in \<open>auto simp: sv nth_list_update split: if_splits\<close>)
  ultimately show ?thesis unfolding own_inv_def by blast
qed

lemma own_inv_launch: "own_inv st \<Longrightarrow> own_inv (fold sv_launch is st)"
proof (induction "is" arbitrary: st)
  case (Cons i "is")
  have "own_inv (sv_launch i st)" unfolding sv_launch_def by (rule own_inv_upd [OF Cons.prems]) simp_all
  then show ?case using Cons.IH by simp
qed simp

lemma reach_own_inv: "io_reach st \<Longrightarrow> own_inv st"
proof (induction rule: io_reach.induct)
  case io_start
  then show ?case by (simp add: own_inv_def registered_def)
next
  case (io_scribe st fd b)
  then show ?case using own_inv_new [of st fd Scribe b] by (simp add: add_tcp_scribe_def)
next
  case (io_doorman st fd b)
  then show ?case
    using own_inv_new [of st fd Doorman b] own_inv_launch [of _ "[_]"] by (auto simp: add_tcp_doorman_def Let_def split: prod.splits)
next
  case (io_init st b)
  have "own_inv (fold sv_launch (map snd (elements st Doorman b)) st)" by (rule own_inv_launch [OF io_init.IH])
  then show ?case by (simp add: launch_doormen_def Let_def)
next
  case (io_fails st i)
  then show ?case by (simp add: sv_io_failure_def own_inv_disconnect)
next
  case (io_closes st k b h st')
  then obtain i where i: "map_of (elements st k b) h = Some i" "st' = sv_stop_reading i st"
    by (auto simp: io_close_def by_id_def split: option.splits)
  then have "registered st k b h i" using own_invD(2) [OF io_closes.IH, of h i k b] map_of_SomeD by fastforce
  then show ?case using i(2) own_inv_stop [OF io_closes.IH] by (simp add: registered_def)
next
  case (io_closes_all st b st')
  then show ?case using close_all_eq [OF io_closes_all.IH, of b] by simp
next
  case (io_forks st b' b h st')
  then show ?case using own_inv_fork by blast
next
  case (io_accepts st i r is_read)
  then show ?case
    using own_inv_new [of st _ Scribe]
    by (auto simp: acceptor_event_def try_accept_def sv_new_connection_def add_tcp_scribe_def Let_def split: accept_result.splits)
qed

text \<open>Acceptors are started once: when the broker is initialized, or later when they are added.\<close>

definition starts_ok :: "nat list \<Rightarrow> servant \<Rightarrow> bool" where
  "starts_ok bs sv \<longleftrightarrow> alive sv \<longrightarrow> sv_starts sv = (if sv_kind sv = Doorman \<and> sv_broker sv \<in> set bs then 1 else 0)"

lemma launch_nth:
  "distinct is \<Longrightarrow> set is \<subseteq> {..<length (servants st)} \<Longrightarrow> j < length (servants st) \<Longrightarrow>
   servants (fold sv_launch is st) ! j = (let sv = servants st ! j in if j \<in> set is then sv\<lparr>sv_starts := sv_starts sv + 1\<rparr> else sv)
   \<and> length (servants (fold sv_launch is st)) = length (servants st) \<and> initialized (fold sv_launch is st) = initialized st"
proof (induction "is" arbitrary: st)
  case (Cons i "is")
  then show ?case using Cons.IH [of "sv_launch i st"] by (auto simp: sv_launch_def nth_list_update Let_def)
qed simp

lemma distinct_ids:
  assumes "own_inv st"
  shows "distinct (map snd (elements st k b))"
proof -
  have "inj_on snd (set (elements st k b))" using own_invD(2) [OF assms] by (fastforce intro!: inj_onI simp: registered_def Let_def)
  moreover have "distinct (elements st k b)" using own_invD(1) [OF assms, of k b] by (simp add: distinct_map)
  ultimately show ?thesis by (simp add: distinct_map)
qed

lemma launch_starts:
  assumes "own_inv st" "b \<notin> set (initialized st)" "\<forall>sv\<in>set (servants st). starts_ok (initialized st) sv"
  shows "\<forall>sv\<in>set (servants (launch_doormen b st)). starts_ok (initialized (launch_doormen b st)) sv"
proof -
  let ?is = "map snd (elements st Doorman b)"
  have mem: "j \<in> set ?is \<longleftrightarrow> j < length (servants st) \<and> alive (servants st ! j) \<and> sv_kind (servants st ! j) = Doorman \<and> sv_broker (servants st ! j) = b" for j
    using own_invD(2) [OF assms(1), of _ j Doorman b] by (force simp: registered_def Let_def image_iff)
  then have "set ?is \<subseteq> {..<length (servants st)}" by auto
  note l = launch_nth [OF distinct_ids [OF assms(1)] this]
  have "starts_ok (b # initialized st) (servants (fold sv_launch ?is st) ! j)" if j: "j < length (servants st)" for j
    using l [OF j] mem [of j] assms(2,3) j by (auto simp: starts_ok_def Let_def)
  moreover have "length (servants (fold sv_launch ?is st)) = length (servants st) \<and> initialized (fold sv_launch ?is st) = initialized st"
    if "servants (fold sv_launch ?is st) \<noteq> []"
  proof (cases "servants st")
    case Nil
    then have "?is = []" using mem by (cases "elements st Doorman b") auto
    with that Nil show ?thesis by simp
  qed (use l [of 0] in simp)
  ultimately show ?thesis by (force simp: launch_doormen_def Let_def in_set_conv_nth)
qed

lemma starts_ok_update:
  "\<forall>sv\<in>set xs. starts_ok bs sv \<Longrightarrow> starts_ok bs x \<Longrightarrow> \<forall>sv\<in>set (xs[i := x]). starts_ok bs sv"
  using set_update_subset_insert [of xs i x] by blast

lemma disconnect_starts:
  assumes "\<forall>sv\<in>set (servants st). starts_ok (initialized st) sv"
  shows "\<forall>sv\<in>set (servants (sv_disconnect i invoke st)). starts_ok (initialized (sv_disconnect i invoke st)) sv"
proof -
  have "\<forall>sv\<in>set ((servants st)[i := (servants st ! i)\<lparr>sv_disconnected := True\<rparr>]). starts_ok (initialized st) sv"
    by (rule starts_ok_update [OF assms]) (simp add: starts_ok_def)
  then show ?thesis using assms by (simp add: sv_disconnect_def remove_from_broker_def Let_def)
qed

lemma stop_starts:
  assumes "\<forall>sv\<in>set (servants st). starts_ok (initialized st) sv" "i < length (servants st)"
  shows "\<forall>sv\<in>set (servants (sv_stop_reading i st)). starts_ok (initialized (sv_stop_reading i st)) sv"
proof -
  have "starts_ok (initialized st) ((servants st ! i)\<lparr>sv_stopped := True\<rparr>)" using assms by (simp add: starts_ok_def)
  note upd = starts_ok_update [OF assms(1) this, of i]
  show ?thesis unfolding sv_stop_reading_def by (rule disconnect_starts) (unfold elements_simps, rule upd)
qed

lemma by_id_registered: "own_inv st \<Longrightarrow> by_id k b h st = Inr i \<Longrightarrow> registered st k b h i"
  using own_invD(2) [of st h i k b] by (auto simp: by_id_def split: option.splits dest: map_of_SomeD)

lemma reach_starts: "io_reach st \<Longrightarrow> sv \<in> set (servants st) \<Longrightarrow> starts_ok (initialized st) sv"
proof (induction arbitrary: sv rule: io_reach.induct)
  case (io_init st b)
  then show ?case using launch_starts [OF reach_own_inv [OF io_init.hyps(1)]] by blast
next
  case (io_fails st i)
  then show ?case using disconnect_starts [of st i True] by (auto simp: sv_io_failure_def)
next
  case (io_closes st k b h st')
  then obtain i where i: "by_id k b h st = Inr i" "st' = sv_stop_reading i st" by (auto simp: io_close_def split: sum.splits)
  then have "i < length (servants st)" using by_id_registered [OF reach_own_inv [OF io_closes.hyps(1)]] by (auto simp: registered_def)
  then have "\<forall>sv\<in>set (servants st'). starts_ok (initialized st') sv" unfolding i(2) using io_closes.IH by (intro stop_starts) blast+
  then show ?case using io_closes.prems by blast
next
  case (io_closes_all st b st')
  then show ?case
    using close_all_eq(1) [OF reach_own_inv [OF io_closes_all.hyps(1)], of b] by (auto simp: closed_by_def starts_ok_def)
next
  case (io_forks st b' b h st')
  then obtain i where i: "by_id Scribe b h st = Inr i" by (auto simp: fork_def split: sum.splits)
  note r = by_id_registered [OF reach_own_inv [OF io_forks.hyps(1)] i]
  have "starts_ok (initialized st) ((servants st ! i)\<lparr>sv_broker := b'\<rparr>)"
    using r io_forks.IH [of "servants st ! i"] by (simp add: starts_ok_def registered_def Let_def)
  then have "\<forall>sv\<in>set ((servants st)[i := (servants st ! i)\<lparr>sv_broker := b'\<rparr>]). starts_ok (initialized st) sv"
    using io_forks.IH by (intro starts_ok_update) auto
  moreover have "servants st' = (servants st)[i := (servants st ! i)\<lparr>sv_broker := b'\<rparr>]" "initialized st' = initialized st"
    using io_forks.hyps(4) i r by (auto simp: fork_def set_broker_def registered_def Let_def)
  ultimately show ?case using io_forks.prems by simp
next
  case (io_doorman st fd b)
  then show ?case by (auto simp: add_tcp_doorman_def new_servant_def sv_launch_def Let_def starts_ok_def split: if_splits)
next
  case (io_accepts st i r is_read)
  then show ?case
    by (auto simp: acceptor_event_def try_accept_def sv_new_connection_def add_tcp_scribe_def new_servant_def Let_def starts_ok_def
        split: accept_result.splits if_splits)
qed (auto simp: add_tcp_scribe_def new_servant_def starts_ok_def)

section \<open>Properties\<close>

text \<open>
  C20. In every run, with connections added, accepted, passed on to other brokers, closed and failing in any order, a servant that is not
  disconnected is registered with exactly one broker, its own, under its handle, and a disconnected servant is registered with none; handles
  identify servants. The acceptor of a doorman in use has been started exactly once if the broker is initialized, and not before.
\<close>

theorem servants_owned:
  assumes "io_reach st" "i < length (servants st)"
  shows "(\<forall>k b h. by_id k b h st = Inr i \<longleftrightarrow>
      \<not> sv_disconnected (servants st ! i) \<and> (k, b, h) = (sv_kind (servants st ! i), sv_broker (servants st ! i), sv_hdl (servants st ! i)))
    \<and> (\<not> sv_disconnected (servants st ! i) \<and> sv_kind (servants st ! i) = Doorman \<longrightarrow>
        sv_starts (servants st ! i) = (if sv_broker (servants st ! i) \<in> set (initialized st) then 1 else 0))"
proof -
  have inv: "own_inv st" by (rule reach_own_inv [OF assms(1)])
  have "by_id k b h st = Inr i \<longleftrightarrow> (h, i) \<in> set (elements st k b)" for k b h
    unfolding by_id_def map_of_eq_Some_iff [OF own_invD(1) [OF inv], symmetric] by (simp split: option.split)
  then have "by_id k b h st = Inr i \<longleftrightarrow> registered st k b h i" for k b h by (simp add: own_invD(2) [OF inv])
  moreover have "starts_ok (initialized st) (servants st ! i)" using reach_starts [OF assms(1)] assms(2) by simp
  ultimately show ?thesis using assms(2) by (auto simp: registered_def starts_ok_def Let_def)
qed

text \<open>
  C27. Closing all connections and acceptors of a broker always ends, although each of its two loops runs until a map is empty and relies on
  \<open>stop_reading\<close> to take an element out: afterwards both maps are empty, every servant of the broker is stopped and disconnected, and
  the servants of other brokers are as before. No broker is sent a message.
\<close>

theorem close_all_ends:
  assumes "io_reach st"
  shows "\<exists>st'. io_close_all b st = Some st' \<and> (\<forall>k. elements st' k b = []) \<and> (\<forall>k c. c \<noteq> b \<longrightarrow> elements st' k c = elements st k c)
    \<and> servants st' = map (\<lambda>sv. if \<not> sv_disconnected sv \<and> sv_broker sv = b then sv\<lparr>sv_stopped := True, sv_disconnected := True\<rparr> else sv) (servants st)
    \<and> io_msgs st' = io_msgs st"
proof -
  have "elements (set_elements Scribe b [] (set_elements Doorman b [] st')) k b = []" for k st' by (cases k) simp_all
  then show ?thesis using close_all_eq(1) [OF reach_own_inv [OF assms], of b] by (auto simp: closed_by_def fun_eq_iff)
qed

text \<open>Broker 7 with a doorman on socket 3 that has accepted socket 4; the connection was passed on to broker 8.\<close>

definition sample_io :: io_state where
  "sample_io = projr (fork 7 4 8 (acceptor_event True (Accept_ok 4) 0 (launch_doormen 7 (add_tcp_doorman 7 3
     \<lparr>servants = [], elements = (\<lambda>_ _. []), initialized = [], io_msgs = []\<rparr>))))"

lemma sample_io_reach: "io_reach sample_io"
proof -
  let ?d = "launch_doormen 7 (add_tcp_doorman 7 3 \<lparr>servants = [], elements = (\<lambda>_ _. []), initialized = [], io_msgs = []\<rparr>)"
  have "io_reach ?d" by (intro io_reach.io_init io_reach.io_doorman io_reach.io_start) code_simp+
  moreover have "fresh_fd 4 ?d" "0 < length (servants ?d)" "sv_kind (servants ?d ! 0) = Doorman" "0 < sv_starts (servants ?d ! 0)"
    "\<not> sv_stopped (servants ?d ! 0)" by (code_simp, code_simp, code_simp, code_simp, code_simp)
  ultimately have a: "io_reach (acceptor_event True (Accept_ok 4) 0 ?d)" by (intro io_reach.io_accepts) auto
  have e: "elements (acceptor_event True (Accept_ok 4) 0 ?d) Scribe 8 = []" "elements (acceptor_event True (Accept_ok 4) 0 ?d) Doorman 8 = []"
    by (code_simp, code_simp)
  have "\<not> isl (fork 7 4 8 (acceptor_event True (Accept_ok 4) 0 ?d))" by code_simp
  then have "fork 7 4 8 (acceptor_event True (Accept_ok 4) 0 ?d) = Inr sample_io" by (simp add: sample_io_def)
  from io_reach.io_forks [OF a e this] show ?thesis .
qed

theorem servants_owned_witness: "by_id Scribe 8 4 sample_io = Inr 1 \<and> by_id Scribe 7 4 sample_io \<noteq> Inr 1"
proof -
  have "1 < length (servants sample_io)" "\<not> sv_disconnected (servants sample_io ! 1)" "sv_kind (servants sample_io ! 1) = Scribe"
    "sv_broker (servants sample_io ! 1) = 8" "sv_hdl (servants sample_io ! 1) = 4" by (code_simp, code_simp, code_simp, code_simp, code_simp)
  then show ?thesis using servants_owned [OF sample_io_reach, of 1] by simp
qed

theorem close_all_ends_witness: "\<exists>st'. io_close_all 8 sample_io = Some st' \<and> (\<forall>k. elements st' k 8 = [])"
  using close_all_ends [OF sample_io_reach, of 8] by blast

text \<open>An error of \<open>accept\<close>, and an error of the socket, have no effect: the broker is never told that an acceptor failed, and the loop goes on
  reporting the socket.\<close>

lemma accept_error_ignored: "acceptor_event True Accept_error i st = st" "acceptor_event False r i st = st"
  by (simp_all add: acceptor_event_def try_accept_def)

end
