(* ===== verification/Uniform_Name.thy ===== *)
theory Uniform_Name
  imports Type_Info_Map
begin

text \<open>
  Names of types that do not depend on the compiler (libcaf_core/src/to_uniform_name.cpp, \<open>filter_whitespaces\<close> of src/demangle.cpp and
  \<open>replace_all\<close> of caf/string_algorithms.hpp): the name the compiler gives a type is parsed into a tree, which is
  written again with the names of \<open>Type_Info_Map\<close>. Ranges of iterators are pairs of positions; \<open>None\<close> is a search that starts
  beyond the end of the string.
\<close>

section \<open>Definitions\<close>

subsection \<open>Integers\<close>

text \<open>\<open>platform_dependent_sizes\<close>; the size of \<open>long\<close> depends on the platform.\<close>

record platform_int_mapping =
  pim_name :: string
  pim_size :: nat
  pim_signed :: bool

definition pim :: "string \<Rightarrow> nat \<Rightarrow> bool \<Rightarrow> platform_int_mapping" where
  "pim n s sg = \<lparr>pim_name = n, pim_size = s, pim_signed = sg\<rparr>"

definition platform_dependent_sizes :: "nat \<Rightarrow> platform_int_mapping list" where
  "platform_dependent_sizes lw = [
     pim ''char'' 1 True, pim ''char16_t'' 2 True, pim ''char32_t'' 4 True, pim ''int'' 4 True, pim ''long'' lw True,
     pim ''long int'' lw True, pim ''long long'' 8 True, pim ''short'' 2 True, pim ''short int'' 2 True, pim ''signed char'' 1 True,
     pim ''signed int'' 4 True, pim ''signed long'' lw True, pim ''signed long int'' lw True, pim ''signed long long'' 8 True,
     pim ''signed short'' 2 True, pim ''signed short int'' 2 True, pim ''unsigned char'' 1 False, pim ''unsigned int'' 4 False,
     pim ''unsigned long'' lw False, pim ''unsigned long int'' lw False, pim ''unsigned long long'' 8 False,
     pim ''unsigned short'' 2 False, pim ''unsigned short int'' 2 False]"

definition map2decorated :: "nat \<Rightarrow> string \<Rightarrow> string" where
  "map2decorated lw nm = (case dropWhile (\<lambda>p. pim_name p < nm) (platform_dependent_sizes lw) of
      i # _ \<Rightarrow> if pim_name i = nm then (if pim_signed i then snd else fst) (mapped_int_names ! pim_size i)
               else mapped_name_by_decorated_name nm
    | [] \<Rightarrow> mapped_name_by_decorated_name nm)"

subsection \<open>Trees\<close>

record pt_flags =
  m_const :: bool
  m_pointer :: bool
  m_volatile :: bool
  m_lvalue_ref :: bool
  m_rvalue_ref :: bool

definition no_flags :: pt_flags where
  "no_flags = \<lparr>m_const = False, m_pointer = False, m_volatile = False, m_lvalue_ref = False, m_rvalue_ref = False\<rparr>"

datatype parse_tree = Parse_tree (pt_flags: pt_flags) (m_name: string) (m_children: "parse_tree list") (m_template_parameters: "parse_tree list")

subsection \<open>Parsing\<close>

text \<open>\<open>find_end\<close>, on what follows the opening bracket: the distance of the closing one.\<close>

fun find_end :: "nat \<Rightarrow> string \<Rightarrow> nat option" where
  "find_end opened [] = None"
| "find_end opened (c # cs) =
     (if c = CHR ''<'' then map_option Suc (find_end (opened + 1) cs)
      else if c = CHR ''>'' then (if opened = 1 then Some 0 else map_option Suc (find_end (opened - 1) cs))
      else map_option Suc (find_end opened cs))"

text \<open>The list \<open>subranges\<close>: from a \<open><\<close> to its \<open>>\<close>. The first argument is the position at which the rest of the string starts.\<close>

function subranges :: "nat \<Rightarrow> string \<Rightarrow> (nat \<times> nat) list option" where
  "subranges pos str =
     (let skipped = takeWhile (\<lambda>c. c \<noteq> CHR ''<'') str; rest = dropWhile (\<lambda>c. c \<noteq> CHR ''<'') str; sub_first = pos + length skipped
      in if rest = [] then Some []
         else case find_end 1 (tl rest) of
             None \<Rightarrow> None
           | Some k \<Rightarrow> map_option (Cons (sub_first, sub_first + 1 + k)) (subranges (sub_first + k + 2) (drop (k + 1) (tl rest))))"
  by pat_completeness auto
termination
proof (relation "measure (\<lambda>(_, str). length str)")
  fix str rest :: string and pos pos' k :: nat
  assume r: "rest = dropWhile (\<lambda>c. c \<noteq> CHR ''<'') str" "rest \<noteq> []"
  then have "length rest \<le> length str" "0 < length rest" by (auto simp: length_dropWhile_le)
  then show "((pos', drop (k + 1) (tl rest)), (pos, str)) \<in> measure (\<lambda>(_, str). length str)" by (cases rest) auto
qed simp

declare subranges.simps [simp del]

definition is_in_subrange :: "(nat \<times> nat) list \<Rightarrow> nat \<Rightarrow> bool" where
  "is_in_subrange rs i \<longleftrightarrow> list_ex (\<lambda>(a, b). a \<le> i \<and> i < b) rs"

text \<open>The positions found by searching for \<open>::\<close> again and again.\<close>

fun scope_ops :: "nat \<Rightarrow> string \<Rightarrow> nat list" where
  "scope_ops i (a # b # cs) = (if a = CHR '':'' \<and> b = CHR '':'' then i # scope_ops (i + 2) cs else scope_ops (i + 1) (b # cs))"
| "scope_ops i cs = []"

text \<open>The ranges of the children: what is between those that are in no subrange.\<close>

fun child_ranges :: "nat \<Rightarrow> nat list \<Rightarrow> nat \<Rightarrow> (nat \<times> nat) list" where
  "child_ranges intermediate [] last_pos = [(intermediate, last_pos)]"
| "child_ranges intermediate (p # ps) last_pos = (intermediate, p) # child_ranges (p + 2) ps last_pos"

definition slice :: "string \<Rightarrow> nat \<times> nat \<Rightarrow> string" where
  "slice str r = take (snd r - fst r) (drop (fst r) str)"

definition children_of :: "string \<Rightarrow> (nat \<times> nat) list \<Rightarrow> string list" where
  "children_of str rs =
     (let ops = filter (\<lambda>i. \<not> is_in_subrange rs i) (scope_ops 0 str)
      in if ops = [] then [] else map (slice str) (child_ranges 0 ops (length str)))"

text \<open>Tokens of the parts outside of templates; the last token is kept apart.\<close>

definition isalnum :: "char \<Rightarrow> bool" where
  "isalnum c \<longleftrightarrow> CHR ''0'' \<le> c \<and> c \<le> CHR ''9'' \<or> CHR ''A'' \<le> c \<and> c \<le> CHR ''Z'' \<or> CHR ''a'' \<le> c \<and> c \<le> CHR ''z''"

definition islegal :: "char \<Rightarrow> bool" where
  "islegal c \<longleftrightarrow> isalnum c \<or> c = CHR '':'' \<or> c = CHR ''_''"

type_synonym tokens = "string list \<times> string"

definition add_char :: "char \<Rightarrow> tokens \<Rightarrow> tokens" where
  "add_char c t = (case t of (ts, cur) \<Rightarrow>
     if islegal c then (if cur \<noteq> [] \<and> \<not> islegal (last cur) then (ts @ [cur], [c]) else (ts, cur @ [c]))
     else if c = CHR '' '' then (ts @ [cur], [])
     else if c = CHR ''&'' then (if cur = [] \<or> last cur = CHR ''&'' then (ts, cur @ [c]) else (ts @ [cur], [c]))
     else if c = CHR ''*'' then (ts @ [cur], [c])
     else t)"

definition end_range :: "tokens \<Rightarrow> tokens" where
  "end_range t = (fst t @ [snd t], [])"

fun non_template_ranges :: "nat \<Rightarrow> (nat \<times> nat) list \<Rightarrow> nat \<Rightarrow> (nat \<times> nat) list" where
  "non_template_ranges i [] last_pos = [(i, last_pos)]"
| "non_template_ranges i ((a, b) # rs) last_pos = (i, a) # non_template_ranges (b + 1) rs last_pos"

definition tokens_of :: "string list \<Rightarrow> string list" where
  "tokens_of parts = (let t = fold (\<lambda>part t. end_range (fold add_char part t)) parts ([], []) in fst t @ [snd t])"

definition add_token :: "string \<Rightarrow> pt_flags \<times> string \<Rightarrow> pt_flags \<times> string" where
  "add_token tok r = (case r of (fl, nm) \<Rightarrow>
     if tok = ''const'' then (fl\<lparr>m_const := True\<rparr>, nm)
     else if tok = ''volatile'' then (fl\<lparr>m_volatile := True\<rparr>, nm)
     else if tok = ''&'' then (fl\<lparr>m_lvalue_ref := True\<rparr>, nm)
     else if tok = ''&&'' then (fl\<lparr>m_rvalue_ref := True\<rparr>, nm)
     else if tok = ''*'' then (fl\<lparr>m_pointer := True\<rparr>, nm)
     else if tok = ''class'' \<or> tok = ''struct'' then r
     else if tok \<noteq> [] then (fl, (if nm \<noteq> [] then nm @ '' '' else nm) @ tok)
     else r)"

definition leaf_data :: "string \<Rightarrow> (nat \<times> nat) list \<Rightarrow> pt_flags \<times> string" where
  "leaf_data str rs = fold add_token (tokens_of (map (slice str) (non_template_ranges 0 rs (length str)))) (no_flags, [])"

text \<open>\<open>parse_tpl_args\<close> up to the calls of \<open>parse\<close>: the arguments between top-level commas; the first is what was read so far.\<close>

fun tpl_args :: "int \<Rightarrow> string \<Rightarrow> string \<Rightarrow> string list" where
  "tpl_args open_brackets sofar [] = [sofar]"
| "tpl_args open_brackets sofar (c # cs) =
     (if c = CHR ''<'' then tpl_args (open_brackets + 1) (sofar @ [c]) cs
      else if c = CHR ''>'' then tpl_args (open_brackets - 1) (sofar @ [c]) cs
      else if c = CHR '','' \<and> open_brackets = 0 then sofar # tpl_args open_brackets [] cs
      else tpl_args open_brackets (sofar @ [c]) cs)"

text \<open>The lengths of the parts, for the termination of \<open>parse\<close>.\<close>

lemma slice_length: "length (slice str r) \<le> snd r - fst r"
  by (simp add: slice_def)

lemma scope_ops_bounds: "p \<in> set (scope_ops i str) \<Longrightarrow> i \<le> p \<and> p + 2 \<le> i + length str"
  by (induction i str rule: scope_ops.induct) (fastforce split: if_splits)+

lemma scope_ops_sorted: "sorted_wrt (\<lambda>p q. p + 2 \<le> q) (scope_ops i str)"
  by (induction i str rule: scope_ops.induct) (auto dest: scope_ops_bounds)

lemma child_ranges_weight:
  "sorted_wrt (\<lambda>p q. p + 2 \<le> q) ps \<Longrightarrow> \<forall>p\<in>set ps. i \<le> p \<and> p + 2 \<le> n \<Longrightarrow> i \<le> n \<Longrightarrow>
   (\<Sum>r\<leftarrow>child_ranges i ps n. 2 * (snd r - fst r) + 2) + 2 * length ps = 2 * (n - i) + 2"
proof (induction i ps n rule: child_ranges.induct)
  case (2 i p ps n)
  then show ?case by auto
qed simp

lemma tpl_args_weight:
  "(\<Sum>s\<leftarrow>tpl_args b sofar str. 2 * length s + 2) \<le> 2 * (length sofar + length str) + 2"
  by (induction b sofar str rule: tpl_args.induct) auto

lemma find_end_bound: "find_end opened str = Some k \<Longrightarrow> k < length str"
  by (induction opened str arbitrary: k rule: find_end.induct) (auto split: if_splits)

lemma subranges_none: "CHR ''<'' \<notin> set str \<Longrightarrow> subranges pos str = Some []"
  using dropWhile_eq_Nil_conv [of "\<lambda>c. c \<noteq> CHR ''<''" str] by (subst subranges.simps) (auto simp: Let_def)

lemma subranges_step:
  assumes "CHR ''<'' \<notin> set pre"
  shows "subranges pos (pre @ CHR ''<'' # rest) = (case find_end 1 rest of None \<Rightarrow> None
    | Some k \<Rightarrow> map_option (Cons (pos + length pre, pos + length pre + 1 + k)) (subranges (pos + length pre + k + 2) (drop (k + 1) rest)))"
proof -
  have "takeWhile (\<lambda>c. c \<noteq> CHR ''<'') (pre @ CHR ''<'' # rest) = pre" "dropWhile (\<lambda>c. c \<noteq> CHR ''<'') (pre @ CHR ''<'' # rest) = CHR ''<'' # rest"
    using assms by (induction pre) auto
  then show ?thesis by (subst subranges.simps) (simp only: Let_def list.sel list.distinct if_False)
qed

lemma subranges_bounds: "subranges pos str = Some rs \<Longrightarrow> (a, b) \<in> set rs \<Longrightarrow> pos \<le> a \<and> a < b \<and> b < pos + length str"
proof (induction "length str" arbitrary: pos str rs rule: less_induct)
  case less
  show ?case
  proof (cases "CHR ''<'' \<in> set str")
    case True
    then obtain pre rest where s: "str = pre @ CHR ''<'' # rest" "CHR ''<'' \<notin> set pre" by (metis split_list_first)
    then obtain k rs' where k: "find_end 1 rest = Some k" "subranges (pos + length pre + k + 2) (drop (k + 1) rest) = Some rs'"
        "rs = (pos + length pre, pos + length pre + 1 + k) # rs'"
      using less.prems(1) by (auto simp: subranges_step split: option.splits)
    have "k < length rest" by (rule find_end_bound [OF k(1)])
    then show ?thesis using less.hyps [OF _ k(2)] less.prems(2) k(3) s(1) by fastforce
  qed (use less.prems subranges_none in auto)
qed

definition weight :: "string list \<Rightarrow> nat" where
  "weight ss = (\<Sum>s\<leftarrow>ss. 2 * length s + 2)"

lemma children_weight:
  assumes "children_of str rs \<noteq> []"
  shows "weight (children_of str rs) \<le> 2 * length str"
proof -
  let ?ops = "filter (\<lambda>i. \<not> is_in_subrange rs i) (scope_ops 0 str)"
  have ops: "?ops \<noteq> []" "children_of str rs = map (slice str) (child_ranges 0 ?ops (length str))"
    using assms by (auto simp: children_of_def Let_def split: if_splits)
  have sum: "(\<Sum>r\<leftarrow>child_ranges 0 ?ops (length str). 2 * (snd r - fst r) + 2) + 2 * length ?ops = 2 * (length str - 0) + 2"
    by (rule child_ranges_weight [OF sorted_wrt_filter [OF scope_ops_sorted]]) (auto dest: scope_ops_bounds)
  have "weight (map (slice str) rs') \<le> (\<Sum>r\<leftarrow>rs'. 2 * (snd r - fst r) + 2)" for rs'
    unfolding weight_def by (induction rs') (use slice_length [of str] in \<open>fastforce intro: add_mono\<close>)+
  from this [of "child_ranges 0 ?ops (length str)"] have "weight (children_of str rs) \<le> (\<Sum>r\<leftarrow>child_ranges 0 ?ops (length str). 2 * (snd r - fst r) + 2)"
    by (simp only: ops(2))
  moreover have "1 \<le> length ?ops" using ops(1) by (cases ?ops) simp_all
  ultimately show ?thesis using sum by linarith
qed

lemma params_weight:
  assumes "subranges 0 str = Some ((a, b) # rs)"
  shows "weight (tpl_args 0 [] (slice str (a + 1, b))) < 2 * length str + 1"
proof -
  have "a < b" "b < length str" using subranges_bounds [OF assms, of a b] by auto
  then have "length (slice str (a + 1, b)) + 1 \<le> length str" using slice_length [of str "(a + 1, b)"] by simp
  then show ?thesis using tpl_args_weight [of 0 "[]" "slice str (a + 1, b)"] unfolding weight_def by simp
qed

function (sequential) parse :: "string \<Rightarrow> parse_tree option" and parse_list :: "string list \<Rightarrow> parse_tree list option" where
  "parse str = (case subranges 0 str of
      None \<Rightarrow> None
    | Some rs \<Rightarrow>
        let children = children_of str rs; (fl, nm) = leaf_data str rs
        in if children \<noteq> [] then map_option (\<lambda>ts. Parse_tree no_flags [] ts []) (parse_list children)
           else case rs of
               [] \<Rightarrow> Some (Parse_tree fl nm [] [])
             | (a, b) # _ \<Rightarrow> map_option (Parse_tree fl nm []) (parse_list (tpl_args 0 [] (slice str (a + 1, b)))))"
| "parse_list [] = Some []"
| "parse_list (s # ss) = (case parse s of None \<Rightarrow> None | Some t \<Rightarrow> map_option (Cons t) (parse_list ss))"
  by pat_completeness auto
termination
proof (relation "measure (\<lambda>x. case x of Inl str \<Rightarrow> 2 * length str + 1 | Inr ss \<Rightarrow> weight ss)")
qed (auto simp: less_Suc_eq_le children_weight dest: params_weight, auto simp: weight_def)

declare parse.simps [simp del]

subsection \<open>Writing\<close>

definition join_flags :: "pt_flags \<Rightarrow> pt_flags \<Rightarrow> pt_flags" where
  "join_flags c f = \<lparr>m_const = m_const f \<or> m_const c, m_pointer = m_pointer f \<or> m_pointer c, m_volatile = m_volatile f \<or> m_volatile c,
     m_lvalue_ref = m_lvalue_ref f \<or> m_lvalue_ref c, m_rvalue_ref = m_rvalue_ref f \<or> m_rvalue_ref c\<rparr>"

text \<open>The flags of a node after \<open>propagate_flags\<close>.\<close>

fun propagate_flags :: "parse_tree \<Rightarrow> pt_flags" where
  "propagate_flags (Parse_tree fl nm cs ps) = fold join_flags (map propagate_flags cs) fl"

definition add_scope :: "string \<Rightarrow> string \<Rightarrow> string" where
  "add_scope child sub_result = (if sub_result \<noteq> [] then sub_result @ ''::'' else sub_result) @ child"

definition add_param :: "string \<Rightarrow> string \<Rightarrow> string" where
  "add_param tparam full_name = (if last full_name \<noteq> CHR ''<'' then full_name @ '','' else full_name) @ tparam"

fun compile :: "nat \<Rightarrow> bool \<Rightarrow> parse_tree \<Rightarrow> string" where
  "compile lw parent_invoked (Parse_tree fl nm cs ps) =
     (let f = propagate_flags (Parse_tree fl nm cs ps);
          before = (if parent_invoked then [] else (if m_volatile f then ''volatile '' else []) @ (if m_const f then ''const '' else []));
          body = (if cs \<noteq> [] then map2decorated lw (fold add_scope (map (compile lw True) cs) [])
                  else map2decorated lw
                    (if ps \<noteq> [] then fold add_param (map (compile lw False) ps) (map2decorated lw nm @ ''<'') @ ''>'' else map2decorated lw nm));
          after = (if parent_invoked then []
                   else (if m_pointer f then ''*'' else []) @ (if m_lvalue_ref f then ''&'' else []) @ (if m_rvalue_ref f then ''&&'' else []))
      in map2decorated lw (before @ body @ after))"

text \<open>\<open>replace_all\<close>, from a position on; the text to replace is not empty.\<close>

fun replace_all :: "string \<Rightarrow> string \<Rightarrow> string \<Rightarrow> string" where
  "replace_all what rep [] = []"
| "replace_all what rep (c # cs) =
     (if take (length what) (c # cs) = what \<and> what \<noteq> [] then rep @ replace_all what rep (drop (length what - 1) cs)
      else c # replace_all what rep cs)"

definition to_uniform_name :: "nat \<Rightarrow> string \<Rightarrow> string option" where
  "to_uniform_name lw dname = map_option (\<lambda>t. replace_all ''anonymous namespace'' ''$'' (compile lw False t)) (parse dname)"

text \<open>The loop of \<open>filter_whitespaces\<close>, with the result so far.\<close>

function filter_whitespaces :: "string \<Rightarrow> string \<Rightarrow> string" where
  "filter_whitespaces result [] = result"
| "filter_whitespaces result (c # cs) =
     (if c = CHR '' ''
      then let previous_c = (if result = [] then CHR '' '' else last result)
           in case dropWhile (\<lambda>d. d = CHR '' '') cs of
                [] \<Rightarrow> result
              | d # ds \<Rightarrow> filter_whitespaces (result @ (if isalnum d \<and> isalnum previous_c then [CHR '' '', d] else [d])) ds
      else filter_whitespaces (result @ [c]) cs)"
  by pat_completeness auto
termination
proof (relation "measure (\<lambda>(_, str). length str)")
  fix cs d ds and r r' :: string and c
  assume "dropWhile (\<lambda>d. d = CHR '' '') cs = d # ds"
  then show "((r, ds), (r', c # cs)) \<in> measure (\<lambda>(_, str). length str)"
    using length_dropWhile_le [of "\<lambda>d. d = CHR '' ''" cs] by simp
qed auto

section \<open>When parsing is safe\<close>

text \<open>The number of brackets that are open at the end of a string; a closing bracket without an opening one is ignored.\<close>

fun depth :: "nat \<Rightarrow> string \<Rightarrow> nat" where
  "depth d [] = d"
| "depth d (c # cs) = depth (if c = CHR ''<'' then d + 1 else if c = CHR ''>'' then d - 1 else d) cs"

lemma depth_append [simp]: "depth d (x @ y) = depth (depth d x) y"
  by (induction d x rule: depth.induct) auto

lemma depth_flat: "CHR ''<'' \<notin> set x \<Longrightarrow> depth 0 x = 0"
  by (induction x) auto

lemma find_end_depth:
  assumes "0 < opened"
  shows "find_end opened str = None \<Longrightarrow> 0 < depth opened str"
    "find_end opened str = Some k \<Longrightarrow> depth opened (take (k + 1) str) = 0 \<and> str ! k = CHR ''>''"
  using assms by (induction opened str arbitrary: k rule: find_end.induct) (auto split: if_splits)

lemma subranges_depth: "subranges pos str = None \<longleftrightarrow> 0 < depth 0 str"
proof (induction "length str" arbitrary: pos str rule: less_induct)
  case less
  show ?case
  proof (cases "CHR ''<'' \<in> set str")
    case True
    then obtain pre rest where s: "str = pre @ CHR ''<'' # rest" "CHR ''<'' \<notin> set pre" by (metis split_list_first)
    have d: "depth 0 str = depth 1 rest" by (simp add: s depth_flat)
    show ?thesis
    proof (cases "find_end 1 rest")
      case None
      then show ?thesis using find_end_depth(1) [of 1 rest] d by (simp add: s subranges_step)
    next
      case (Some k)
      have "depth 1 rest = depth 0 (drop (k + 1) rest)"
        using find_end_depth(2) [OF zero_less_one Some] by (metis append_take_drop_id depth_append)
      then show ?thesis using less [of "drop (k + 1) rest"] Some d by (simp add: s subranges_step)
    qed
  qed (simp add: subranges_none depth_flat)
qed

text \<open>Positions outside of the subranges are at depth 0.\<close>

lemma outside_depth:
  "subranges pos str = Some rs \<Longrightarrow> p < length str \<Longrightarrow> str ! p \<noteq> CHR ''>'' \<Longrightarrow> \<not> is_in_subrange rs (pos + p) \<Longrightarrow> depth 0 (take p str) = 0"
proof (induction "length str" arbitrary: pos str rs p rule: less_induct)
  case less
  show ?case
  proof (cases "CHR ''<'' \<in> set (take p str)")
    case True
    then obtain pre rest0 where t: "take p str = pre @ CHR ''<'' # rest0" "CHR ''<'' \<notin> set pre" by (metis split_list_first)
    let ?rest = "rest0 @ drop p str"
    have s: "str = pre @ CHR ''<'' # ?rest" by (metis append.assoc append_Cons append_take_drop_id t(1))
    have p: "p = length pre + 1 + length rest0" using arg_cong [OF t(1), of length] less.prems(2) by simp
    obtain k rs' where k: "find_end 1 ?rest = Some k" "subranges (pos + length pre + k + 2) (drop (k + 1) ?rest) = Some rs'"
        "rs = (pos + length pre, pos + length pre + 1 + k) # rs'"
      using less.prems(1) t(2) by (subst (asm) s) (auto simp: subranges_step split: option.splits)
    note fe = find_end_depth(2) [OF zero_less_one k(1)] and kl = find_end_bound [OF k(1)]
    have "k < length rest0"
    proof (rule ccontr)
      assume "\<not> k < length rest0"
      moreover have "?rest ! length rest0 = str ! p" using less.prems(2) by (simp add: nth_append)
      then have "k \<noteq> length rest0" using fe less.prems(3) by auto
      ultimately show False using less.prems(4) k(3) p by (auto simp: is_in_subrange_def)
    qed
    let ?r = "drop (k + 1) ?rest" and ?q = "length rest0 - (k + 1)"
    have tk: "take p str = pre @ CHR ''<'' # take (k + 1) ?rest @ take ?q ?r" unfolding t(1) using \<open>k < length rest0\<close> by simp
    have r: "?r = drop (k + 1) rest0 @ drop p str" using \<open>k < length rest0\<close> by simp
    have "?r ! ?q = str ! p" "?q < length ?r" unfolding r using less.prems(2) by (simp_all add: nth_append)
    moreover have "pos + length pre + k + 2 + ?q = pos + p" using p \<open>k < length rest0\<close> by simp
    then have "\<not> is_in_subrange rs' (pos + length pre + k + 2 + ?q)" using less.prems(4) k(3) by (simp only: is_in_subrange_def) simp
    moreover have "length ?r < length str" using arg_cong [OF s, of length] by simp
    ultimately have "depth 0 (take ?q ?r) = 0" using less.hyps [OF _ k(2), of ?q] less.prems(3) by simp
    then show ?thesis unfolding tk using fe t(2) by (simp add: depth_flat)
  qed (simp add: depth_flat)
qed

lemma scope_ops_colon: "p \<in> set (scope_ops i str) \<Longrightarrow> str ! (p - i) = CHR '':'' \<and> str ! (p - i + 1) = CHR '':''"
proof (induction i str rule: scope_ops.induct)
  case (1 i a b cs)
  show ?case
  proof (cases "a = CHR '':'' \<and> b = CHR '':'' \<and> p = i")
    case False
    then have "(if a = CHR '':'' \<and> b = CHR '':'' then p \<in> set (scope_ops (i + 2) cs) else p \<in> set (scope_ops (i + 1) (b # cs)))"
      using 1(3) by (auto split: if_splits)
    then show ?thesis
      using 1(1,2) scope_ops_bounds [of p "i + 2" cs] scope_ops_bounds [of p "i + 1" "b # cs"]
      by (cases "a = CHR '':'' \<and> b = CHR '':''") (auto simp: Suc_diff_Suc nth_Cons' numeral_2_eq_2)
  qed simp
qed auto

lemma depth_slice:
  assumes "i \<le> j" "depth 0 (take i str) = 0" "depth 0 (take j str) = 0"
  shows "depth 0 (slice str (i, j)) = 0"
proof -
  have "take j str = take i str @ slice str (i, j)" using assms(1) by (simp add: slice_def take_add [symmetric])
  then show ?thesis using assms(2,3) by simp
qed

lemma child_ranges_depth:
  "sorted_wrt (\<lambda>p q. p + 2 \<le> q) ps \<Longrightarrow> \<forall>p\<in>set ps. i \<le> p \<and> p + 2 \<le> n \<and> depth 0 (take p str) = 0 \<and> depth 0 (take (p + 2) str) = 0 \<Longrightarrow>
   i \<le> n \<Longrightarrow> depth 0 (take i str) = 0 \<Longrightarrow> depth 0 (take n str) = 0 \<Longrightarrow> r \<in> set (child_ranges i ps n) \<Longrightarrow> depth 0 (slice str r) = 0"
proof (induction i ps n rule: child_ranges.induct)
  case (2 i p ps n)
  then show ?case by (auto intro: depth_slice)
qed (auto intro: depth_slice)

lemma children_depth:
  assumes "subranges 0 str = Some rs" "s \<in> set (children_of str rs)"
  shows "depth 0 s = 0"
proof -
  let ?ops = "filter (\<lambda>i. \<not> is_in_subrange rs i) (scope_ops 0 str)"
  have all: "depth 0 str = 0" using subranges_depth [of 0 str] assms(1) by simp
  have top: "depth 0 (take p str) = 0 \<and> depth 0 (take (p + 2) str) = 0 \<and> p + 2 \<le> length str" if "p \<in> set ?ops" for p
  proof -
    have p: "p + 2 \<le> length str" "str ! p = CHR '':''" "str ! (p + 1) = CHR '':''"
      using that scope_ops_bounds [of p 0 str] scope_ops_colon [of p 0 str] by auto
    have "depth 0 (take p str) = 0" using outside_depth [OF assms(1), of p] that p by simp
    moreover have "take (p + 2) str = take p str @ [CHR '':'', CHR '':'']"
      using p by (simp add: take_Suc_conv_app_nth numeral_2_eq_2)
    ultimately show ?thesis using p(1) by simp
  qed
  obtain r where "r \<in> set (child_ranges 0 ?ops (length str))" "s = slice str r"
    using assms(2) by (auto simp: children_of_def Let_def split: if_splits)
  then show ?thesis
    using child_ranges_depth [OF sorted_wrt_filter [OF scope_ops_sorted], of "\<lambda>i. \<not> is_in_subrange rs i" 0 str 0 "length str" str r] top all by auto
qed

lemma tpl_args_depth:
  "find_end (Suc d) str = Some k \<Longrightarrow> depth 0 sofar = d \<Longrightarrow> s \<in> set (tpl_args (int d) sofar (take k str)) \<Longrightarrow> depth 0 s = 0"
proof (induction str arbitrary: d k sofar)
  case (Cons c cs)
  consider (op) "c = CHR ''<''" | (last) "c = CHR ''>''" "d = 0" | (cl) d' where "c = CHR ''>''" "d = Suc d'"
    | (other) "c \<noteq> CHR ''<''" "c \<noteq> CHR ''>''"
    by (cases d) auto
  then show ?case
  proof cases
    case op
    then obtain k' where "k = Suc k'" "find_end (Suc (Suc d)) cs = Some k'" using Cons.prems(1) by auto
    then show ?thesis using Cons.IH [of "Suc d" k' "sofar @ [c]"] Cons.prems(2,3) op by (simp add: add.commute)
  next
    case last
    then show ?thesis using Cons.prems by auto
  next
    case cl
    then obtain k' where "k = Suc k'" "find_end (Suc d') cs = Some k'" using Cons.prems(1) by auto
    then show ?thesis using Cons.IH [of d' k' "sofar @ [c]"] Cons.prems(2,3) cl by simp
  next
    case other
    then obtain k' where k: "k = Suc k'" "find_end (Suc d) cs = Some k'" using Cons.prems(1) by auto
    then show ?thesis
      using Cons.IH [OF k(2), of "sofar @ [c]"] Cons.IH [OF k(2), of "[]"] Cons.prems(2,3) other by (auto split: if_splits)
  qed
qed simp

lemma params_depth:
  assumes "subranges 0 str = Some ((a, b) # rs)" "s \<in> set (tpl_args 0 [] (slice str (a + 1, b)))"
  shows "depth 0 s = 0"
proof -
  have "CHR ''<'' \<in> set str" using assms(1) subranges_none by fastforce
  then obtain pre rest where str: "str = pre @ CHR ''<'' # rest" "CHR ''<'' \<notin> set pre" by (metis split_list_first)
  then obtain k where k: "find_end 1 rest = Some k" "a = length pre" "b = length pre + 1 + k"
    using assms(1) by (auto simp: subranges_step split: option.splits)
  then have "slice str (a + 1, b) = take k rest" by (simp add: slice_def str)
  then show ?thesis using tpl_args_depth [of 0 rest k "[]" s] k(1) assms(2) by simp
qed

lemma parse_depth:
  "parse str = None \<longleftrightarrow> 0 < depth 0 str" "(\<forall>s\<in>set ss. depth 0 s = 0) \<Longrightarrow> parse_list ss \<noteq> None"
proof (induction str and ss rule: parse_parse_list.induct)
  case (1 str)
  show ?case
  proof (cases "subranges 0 str")
    case None
    then show ?thesis using subranges_depth [of 0 str] by (simp add: parse.simps)
  next
    case (Some rs)
    obtain fl nm where l: "leaf_data str rs = (fl, nm)" by fastforce
    have "parse str \<noteq> None"
    proof (cases "children_of str rs = []")
      case True
      then show ?thesis
        using 1(2) [OF Some refl l [symmetric] refl] params_depth [of str] Some by (fastforce simp: parse.simps [of str] l split: list.splits)
    next
      case False
      then show ?thesis
        using 1(1) [OF Some refl l [symmetric] refl] children_depth [OF Some] Some by (fastforce simp: parse.simps [of str] l)
    qed
    then show ?thesis using subranges_depth [of 0 str] Some by simp
  qed
next
  case (3 s ss)
  then show ?case by (auto split: option.splits)
qed simp

section \<open>Names as compilers write them\<close>

text \<open>A type with its qualifiers: a qualified name, each part of which has a name of one or more words and may have template arguments.\<close>

datatype cty = Cty pt_flags "(string list \<times> cty list) list"

fun joined :: "string \<Rightarrow> string list \<Rightarrow> string" where
  "joined sep [] = []" | "joined sep [x] = x" | "joined sep (x # y # ys) = x @ sep @ joined sep (y # ys)"

definition quals :: "pt_flags \<Rightarrow> string" where
  "quals fl = joined '' '' ((if m_const fl then [''const''] else []) @ (if m_volatile fl then [''volatile''] else []))"

definition marks :: "pt_flags \<Rightarrow> string" where
  "marks fl = (if m_pointer fl then ''*'' else []) @ (if m_lvalue_ref fl then ''&'' else []) @ (if m_rvalue_ref fl then ''&&'' else [])"

text \<open>The qualifiers follow the name, after a space unless it ends with a bracket.\<close>

definition suffix :: "pt_flags \<Rightarrow> bool \<Rightarrow> string" where
  "suffix fl has_args = (if quals fl \<noteq> [] \<and> \<not> has_args then '' '' else []) @ quals fl @ marks fl"

definition seg_text :: "string list \<Rightarrow> string list \<Rightarrow> string" where
  "seg_text ws args = joined '' '' ws @ (if args = [] then [] else ''<'' @ joined '','' args @ ''>'')"

fun show_cty :: "cty \<Rightarrow> string" where
  "show_cty (Cty fl segs) = joined ''::'' (map (\<lambda>(ws, args). seg_text ws (map show_cty args)) segs) @ suffix fl (snd (last segs) \<noteq> [])"

definition word_ok :: "string \<Rightarrow> bool" where
  "word_ok w \<longleftrightarrow> w \<noteq> [] \<and> (\<forall>c\<in>set w. isalnum c \<or> c = CHR ''_'') \<and> w \<notin> {''const'', ''volatile'', ''class'', ''struct''}"

fun cty_ok :: "cty \<Rightarrow> bool" where
  "cty_ok (Cty fl segs) \<longleftrightarrow> segs \<noteq> [] \<and> \<not> (m_lvalue_ref fl \<and> m_rvalue_ref fl)
     \<and> (\<forall>(ws, args)\<in>set segs. ws \<noteq> [] \<and> (\<forall>w\<in>set ws. word_ok w) \<and> (\<forall>a\<in>set args. cty_ok a))"

definition leaf_tree :: "pt_flags \<Rightarrow> string list \<Rightarrow> parse_tree list \<Rightarrow> parse_tree" where
  "leaf_tree fl ws params = Parse_tree fl (joined '' '' ws) [] params"

text \<open>The tree of a type: qualifiers belong to the last part of the name.\<close>

fun tree_of :: "cty \<Rightarrow> parse_tree" where
  "tree_of (Cty fl segs) =
     (let leaves = map (\<lambda>(ws, args). (ws, map tree_of args)) segs
      in if length segs = 1 then leaf_tree fl (fst (hd leaves)) (snd (hd leaves))
         else Parse_tree no_flags [] (map (\<lambda>(ws, ps). leaf_tree no_flags ws ps) (butlast leaves) @ [leaf_tree fl (fst (last leaves)) (snd (last leaves))]) [])"

subsection \<open>Brackets and commas\<close>

text \<open>The depth after a string that closes no bracket it did not open and, if \<open>cm\<close> holds, has no comma at depth 0.\<close>

fun level :: "bool \<Rightarrow> nat \<Rightarrow> string \<Rightarrow> nat option" where
  "level cm d [] = Some d"
| "level cm d (c # cs) =
     (if c = CHR ''<'' then level cm (d + 1) cs
      else if c = CHR ''>'' then (if d = 0 then None else level cm (d - 1) cs)
      else if c = CHR '','' \<and> cm \<and> d = 0 then None
      else level cm d cs)"

lemma level_append [simp]: "level cm d (x @ y) = Option.bind (level cm d x) (\<lambda>e. level cm e y)"
  by (induction cm d x rule: level.induct) auto

definition plain :: "string \<Rightarrow> bool" where
  "plain x \<longleftrightarrow> (\<forall>c\<in>set x. c \<noteq> CHR ''<'' \<and> c \<noteq> CHR ''>'' \<and> c \<noteq> CHR '','' \<and> c \<noteq> CHR '':'')"

lemma plain_append [simp]: "plain (x @ y) \<longleftrightarrow> plain x \<and> plain y" "plain []"
  by (auto simp: plain_def)

lemma level_plain [simp]: "plain x \<Longrightarrow> level cm d x = Some d"
  by (induction x) (auto simp: plain_def)

lemma find_end_level:
  assumes "level False d y = Some e"
  shows "find_end (Suc d) (y @ r) = map_option (\<lambda>k. length y + k) (find_end (Suc e) r)"
proof (cases "find_end (Suc e) r")
  case None
  then show ?thesis using assms by (induction False d y rule: level.induct) (auto split: if_splits)
next
  case (Some k)
  then show ?thesis using assms by (induction False d y rule: level.induct) (auto split: if_splits)
qed

lemma tpl_args_level: "level True d x = Some e \<Longrightarrow> tpl_args (int d) sofar (x @ r) = tpl_args (int e) (sofar @ x) r"
  by (induction True d x arbitrary: sofar rule: level.induct) (auto simp: add.commute of_nat_diff split: if_splits)

lemma tpl_args_joined:
  assumes "xs \<noteq> []" "\<forall>x\<in>set xs. level True 0 x = Some 0"
  shows "tpl_args 0 [] (joined '','' xs) = xs"
  using assms
proof (induction "'',''" xs rule: joined.induct)
  case (2 x)
  then show ?case using tpl_args_level [of 0 x 0 "[]" "[]"] by simp
next
  case (3 x y ys)
  then show ?case using tpl_args_level [of 0 x 0 "[]" "'','' @ joined '','' (y # ys)"] by simp
qed simp

lemma level_joined:
  "\<forall>x\<in>set xs. level cm (Suc d) x = Some (Suc d) \<Longrightarrow> level cm (Suc d) (joined '','' xs) = Some (Suc d)"
  by (induction "'',''" xs rule: joined.induct) auto

lemma level_seg: "plain (joined '' '' ws) \<Longrightarrow> \<forall>x\<in>set args. level cm (Suc d) x = Some (Suc d) \<Longrightarrow> level cm d (seg_text ws args) = Some d"
  by (simp add: seg_text_def level_joined)

lemma legal_plain: "word_ok w \<Longrightarrow> plain w"
  by (auto simp: word_ok_def plain_def isalnum_def)

lemma joined_plain: "plain sep \<Longrightarrow> \<forall>x\<in>set xs. plain x \<Longrightarrow> plain (joined sep xs)"
  by (induction sep xs rule: joined.induct) auto

lemma words_plain: "\<forall>w\<in>set ws. word_ok w \<Longrightarrow> plain (joined '' '' ws)"
  by (rule joined_plain) (auto simp: legal_plain, simp add: plain_def)

lemma suffix_plain: "plain (suffix fl b)"
  by (auto simp: suffix_def quals_def marks_def plain_def)

lemma level_scopes: "\<forall>x\<in>set xs. level cm d x = Some d \<Longrightarrow> level cm d (joined ''::'' xs) = Some d"
  by (induction "''::''" xs rule: joined.induct) auto

lemma level_show: "cty_ok t \<Longrightarrow> level cm d (show_cty t) = Some d"
proof (induction t arbitrary: d)
  case (Cty fl segs)
  have "level cm d (seg_text ws (map show_cty args)) = Some d" if "(ws, args) \<in> set segs" for ws args
    using Cty.prems that Cty.IH [of "(ws, args)" args] by (intro level_seg words_plain) (fastforce simp: snds.simps)+
  then have "level cm d (joined ''::'' (map (\<lambda>(ws, args). seg_text ws (map show_cty args)) segs)) = Some d"
    by (intro level_scopes) auto
  then show ?case by (simp add: suffix_plain)
qed

subsection \<open>The parts of a qualified name\<close>

lemma subranges_skip: "CHR ''<'' \<notin> set pre \<Longrightarrow> subranges pos (pre @ r) = subranges (pos + length pre) r"
proof (cases "CHR ''<'' \<in> set r")
  case True
  then obtain p2 rest where "r = p2 @ CHR ''<'' # rest" "CHR ''<'' \<notin> set p2" by (metis split_list_first)
  moreover assume "CHR ''<'' \<notin> set pre"
  ultimately show ?thesis
    using subranges_step [of "pre @ p2" pos rest] subranges_step [of p2 "pos + length pre" rest] by (simp only: append.assoc set_append Un_iff length_append add.assoc not_False_eq_True simp_thms)
qed (simp add: subranges_none)

lemma subranges_append:
  "subranges pos x = Some rs \<Longrightarrow> subranges pos (x @ r) = map_option ((@) rs) (subranges (pos + length x) r)"
proof (induction "length x" arbitrary: pos x rs rule: less_induct)
  case less
  show ?case
  proof (cases "CHR ''<'' \<in> set x")
    case True
    then obtain pre rest where x: "x = pre @ CHR ''<'' # rest" "CHR ''<'' \<notin> set pre" by (metis split_list_first)
    then obtain k rs' where k: "find_end 1 rest = Some k" "subranges (pos + length pre + k + 2) (drop (k + 1) rest) = Some rs'"
        "rs = (pos + length pre, pos + length pre + 1 + k) # rs'"
      using less.prems(1) by (auto simp: subranges_step split: option.splits)
    have kl: "k < length rest" by (rule find_end_bound [OF k(1)])
    have "find_end o' (y @ r) = Some j" if "find_end o' y = Some j" for o' y j
      using that by (induction o' y arbitrary: j rule: find_end.induct) (auto split: if_splits)
    then have "find_end 1 (rest @ r) = Some k" using k(1) by blast
    moreover have "subranges (pos + length pre + k + 2) (drop (k + 1) rest @ r) = map_option ((@) rs') (subranges (pos + length x) r)"
    proof -
      have "pos + length pre + k + 2 + length (drop (k + 1) rest) = pos + length x" using kl by (simp add: x)
      moreover have "length (drop (k + 1) rest) < length x" by (simp add: x(1))
      ultimately show ?thesis using less.hyps [OF _ k(2)] by metis
    qed
    ultimately show ?thesis using x(2) k(3) kl by (cases "subranges (pos + length x) r") (simp_all add: x(1) subranges_step)
  next
    case False
    then show ?thesis using less.prems by (cases "subranges (pos + length x) r") (simp_all add: subranges_none subranges_skip)
  qed
qed

lemma scope_ops_split: "c \<noteq> CHR '':'' \<Longrightarrow> scope_ops i (x @ c # r) = scope_ops i x @ scope_ops (i + length x + 1) r"
  by (induction i x rule: scope_ops.induct) (cases r; simp)+

lemma scope_ops_join:
  assumes "x \<noteq> []" "last x \<noteq> CHR '':''"
  shows "scope_ops i (x @ ''::'' @ r) = scope_ops i x @ (i + length x) # scope_ops (i + length x + 2) r"
proof -
  obtain x' c where x: "x = x' @ [c]" using assms(1) by (metis append_butlast_last_id)
  then show ?thesis using assms(2) scope_ops_split [of c i x' "''::'' @ r"] scope_ops_split [of c i x' "[]"] by simp
qed

fun separators :: "nat \<Rightarrow> string list \<Rightarrow> nat list" where
  "separators i (x # y # ys) = (i + length x) # separators (i + length x + 2) (y # ys)" | "separators i xs = []"

text \<open>A part that has scope operators only within brackets.\<close>

definition closed_part :: "string \<Rightarrow> bool" where
  "closed_part x \<longleftrightarrow> x \<noteq> [] \<and> last x \<noteq> CHR '':''
     \<and> (\<forall>pos. \<exists>rs. subranges pos x = Some rs \<and> (\<forall>p\<in>set (scope_ops pos x). is_in_subrange rs p))"

lemma in_subrange_append: "is_in_subrange (rs @ rs') p \<longleftrightarrow> is_in_subrange rs p \<or> is_in_subrange rs' p"
  by (simp add: is_in_subrange_def)

lemma in_subrange_bounds: "subranges pos x = Some rs \<Longrightarrow> is_in_subrange rs p \<Longrightarrow> pos \<le> p \<and> p < pos + length x"
  using subranges_bounds [of pos x rs] by (fastforce simp: is_in_subrange_def list_ex_iff)

lemma joined_parts:
  "xs \<noteq> [] \<Longrightarrow> \<forall>x\<in>set xs. closed_part x \<Longrightarrow>
   \<exists>rs. subranges pos (joined ''::'' xs) = Some rs \<and> filter (\<lambda>p. \<not> is_in_subrange rs p) (scope_ops pos (joined ''::'' xs)) = separators pos xs"
proof (induction "''::''" xs arbitrary: pos rule: joined.induct)
  case (2 x)
  then show ?case by (fastforce simp: closed_part_def filter_empty_conv)
next
  case (3 x y ys)
  let ?r = "joined ''::'' (y # ys)" and ?q = "pos + length x + 2"
  obtain rs1 where x: "subranges pos x = Some rs1" "\<forall>p\<in>set (scope_ops pos x). is_in_subrange rs1 p" "x \<noteq> []" "last x \<noteq> CHR '':''"
    using 3(3) unfolding closed_part_def by (meson list.set_intros(1))
  obtain rs2 where r: "subranges ?q ?r = Some rs2" "filter (\<lambda>p. \<not> is_in_subrange rs2 p) (scope_ops ?q ?r) = separators ?q (y # ys)"
    using 3(1) [of ?q] 3(3) by auto
  have "subranges pos (x @ ''::'' @ ?r) = Some (rs1 @ rs2)"
    using subranges_append [OF x(1), of "''::'' @ ?r"] subranges_skip [of "''::''" "pos + length x" ?r] r(1) by simp
  moreover have "\<not> is_in_subrange rs1 p" if "p \<ge> pos + length x" for p using in_subrange_bounds [OF x(1), of p] that by auto
  then have "filter (\<lambda>p. \<not> is_in_subrange (rs1 @ rs2) p) (scope_ops ?q ?r) = separators ?q (y # ys)"
    unfolding r(2) [symmetric] by (intro filter_cong) (auto simp: in_subrange_append dest!: scope_ops_bounds)
  moreover have "\<not> is_in_subrange (rs1 @ rs2) (pos + length x)"
    using in_subrange_bounds [OF x(1), of "pos + length x"] in_subrange_bounds [OF r(1), of "pos + length x"] by (auto simp: in_subrange_append)
  moreover have "filter (\<lambda>p. \<not> is_in_subrange (rs1 @ rs2) p) (scope_ops pos x) = []"
    using x(2) by (simp add: filter_empty_conv in_subrange_append)
  ultimately show ?case using scope_ops_join [OF x(3,4), of pos ?r] by simp
qed simp

lemma slices_joined:
  "xs \<noteq> [] \<Longrightarrow> map (slice (pre @ joined ''::'' xs)) (child_ranges (length pre) (separators (length pre) xs) (length pre + length (joined ''::'' xs))) = xs"
proof (induction "''::''" xs arbitrary: pre rule: joined.induct)
  case (2 x)
  then show ?case by (simp add: slice_def)
next
  case (3 x y ys)
  then show ?case using 3(1) [of "pre @ x @ ''::''"] by (simp add: slice_def add.assoc)
qed simp

lemma children_joined:
  assumes "xs \<noteq> []" "\<forall>x\<in>set xs. closed_part x" "subranges 0 (joined ''::'' xs) = Some rs"
  shows "children_of (joined ''::'' xs) rs = (if length xs = 1 then [] else xs)"
proof -
  have "filter (\<lambda>p. \<not> is_in_subrange rs p) (scope_ops 0 (joined ''::'' xs)) = separators 0 xs"
    using joined_parts [OF assms(1,2), of 0] assms(3) by auto
  moreover have "separators 0 xs = [] \<longleftrightarrow> length xs = 1" using assms(1) by (cases xs; cases "tl xs") auto
  ultimately show ?thesis using slices_joined [OF assms(1), of "[]"] by (simp add: children_of_def Let_def)
qed

subsection \<open>Tokens\<close>

lemma legal_chars [simp]:
  "islegal CHR ''c''" "islegal CHR ''o''" "islegal CHR ''n''" "islegal CHR ''s''" "islegal CHR ''t''" "islegal CHR ''v''" "islegal CHR ''l''"
  "islegal CHR ''a''" "islegal CHR ''i''" "islegal CHR ''e''" "\<not> islegal CHR '' ''" "\<not> islegal CHR ''*''" "\<not> islegal CHR ''&''"
  by code_simp+

lemma legal_word: "word_ok w \<Longrightarrow> c \<in> set w \<Longrightarrow> islegal c"
  by (auto simp: word_ok_def islegal_def)

lemma add_word: "\<forall>c\<in>set w. islegal c \<Longrightarrow> cur = [] \<or> islegal (last cur) \<Longrightarrow> fold add_char w (ts, cur) = (ts, cur @ w)"
proof (induction w arbitrary: cur)
  case (Cons c w)
  then have "add_char c (ts, cur) = (ts, cur @ [c])" by (auto simp: add_char_def)
  then show ?case using Cons.IH [of "cur @ [c]"] Cons.prems by simp
qed simp

lemma add_words:
  "ws \<noteq> [] \<Longrightarrow> \<forall>w\<in>set ws. word_ok w \<Longrightarrow> fold add_char (joined '' '' ws) (ts, []) = (ts @ butlast ws, last ws)"
proof (induction "'' ''" ws arbitrary: ts rule: joined.induct)
  case (2 w)
  then have "\<forall>c\<in>set w. islegal c" by (auto intro: legal_word)
  then show ?case using add_word [of w "[]" ts] by simp
next
  case (3 w v ws)
  have "\<forall>c\<in>set w. islegal c" using 3(3) by (auto intro: legal_word)
  then have "fold add_char w (ts, []) = (ts, w)" using add_word [of w "[]" ts] by simp
  then show ?case using 3(1) [of "ts @ [w]"] 3(3) by (simp add: add_char_def)
qed simp

lemma name_tokens:
  "\<forall>w\<in>set ws. word_ok w \<Longrightarrow> fold add_token ws (no_flags, []) = (no_flags, joined '' '' ws)"
proof (induction ws rule: rev_induct)
  case (snoc w ws)
  have "joined '' '' ws = [] \<longleftrightarrow> ws = []" using snoc.prems by (cases ws; cases "tl ws") (auto simp: word_ok_def)
  moreover have "joined '' '' (ws @ [w]) = (if ws = [] then w else joined '' '' ws @ '' '' @ w)"
    by (induction "'' ''" ws rule: joined.induct) auto
  moreover have "w \<noteq> ''&''" "w \<noteq> ''&&''" "w \<noteq> ''*''" using legal_word [of w] snoc.prems by auto
  ultimately show ?case using snoc by (auto simp: add_token_def word_ok_def)
qed simp

text \<open>The tokens of the qualifiers, which follow the last word or, after template arguments, start anew.\<close>

definition suffix_toks :: "pt_flags \<Rightarrow> string list" where
  "suffix_toks fl = (if m_const fl then [''const''] else []) @ (if m_volatile fl then [''volatile''] else []) @
     (if m_pointer fl then [''*''] else []) @ (if m_lvalue_ref fl then [''&''] else []) @ (if m_rvalue_ref fl then [''&&''] else [])"

lemma flag_tokens: "fold add_token (suffix_toks fl) (no_flags, nm) = (fl, nm)"
  by (cases fl) (simp add: suffix_toks_def add_token_def no_flags_def)

lemma add_char_simps:
  "islegal c \<Longrightarrow> add_char c (ts, []) = (ts, [c])" "islegal c \<Longrightarrow> islegal (last cur) \<Longrightarrow> add_char c (ts, cur) = (ts, cur @ [c])"
  "add_char CHR '' '' (ts, cur) = (ts @ [cur], [])" "add_char CHR ''*'' (ts, cur) = (ts @ [cur], ''*'')"
  "add_char CHR ''&'' (ts, []) = (ts, ''&'')" "cur \<noteq> [] \<Longrightarrow> last cur \<noteq> CHR ''&'' \<Longrightarrow> add_char CHR ''&'' (ts, cur) = (ts @ [cur], ''&'')"
  "last cur = CHR ''&'' \<Longrightarrow> add_char CHR ''&'' (ts, cur) = (ts, cur @ ''&'')"
  by (simp_all add: add_char_def)

lemma suffix_tokens:
  assumes "\<not> (m_lvalue_ref fl \<and> m_rvalue_ref fl)"
  shows "w \<noteq> [] \<Longrightarrow> islegal (last w) \<Longrightarrow> end_range (fold add_char (suffix fl False) (ts, w)) = (ts @ [w] @ suffix_toks fl, [])"
    "\<exists>ex\<in>{[], [[]]}. end_range (fold add_char (suffix fl True) (ts, [])) = (ts @ ex @ suffix_toks fl, [])"
proof -
  show "end_range (fold add_char (suffix fl False) (ts, w)) = (ts @ [w] @ suffix_toks fl, [])" if w: "w \<noteq> []" "islegal (last w)"
  proof -
    have "last w \<noteq> CHR ''&''" using w(2) by auto
    then show ?thesis
      using assms w
      by (cases "m_const fl"; cases "m_volatile fl"; cases "m_pointer fl"; cases "m_lvalue_ref fl"; cases "m_rvalue_ref fl")
        (simp_all add: suffix_def quals_def marks_def suffix_toks_def add_char_simps end_range_def)
  qed
  show "\<exists>ex\<in>{[], [[]]}. end_range (fold add_char (suffix fl True) (ts, [])) = (ts @ ex @ suffix_toks fl, [])"
    using assms
    by (cases "m_const fl"; cases "m_volatile fl"; cases "m_pointer fl"; cases "m_lvalue_ref fl"; cases "m_rvalue_ref fl")
      (simp_all add: suffix_def quals_def marks_def suffix_toks_def add_char_simps end_range_def)
qed

lemma leaf_data_words:
  assumes "ws \<noteq> []" "\<forall>w\<in>set ws. word_ok w" "\<not> (m_lvalue_ref fl \<and> m_rvalue_ref fl)"
  shows "fold add_token (tokens_of [joined '' '' ws @ suffix fl False]) (no_flags, []) = (fl, joined '' '' ws)"
    "fold add_token (tokens_of [joined '' '' ws, suffix fl True]) (no_flags, []) = (fl, joined '' '' ws)"
proof -
  have "word_ok (last ws)" using assms(1,2) by simp
  then have w: "last ws \<noteq> []" "islegal (last (last ws))" using legal_word [of "last ws" "last (last ws)"] by (simp_all add: word_ok_def)
  have "tokens_of [joined '' '' ws @ suffix fl False] = ws @ suffix_toks fl @ [[]]"
    using suffix_tokens(1) [OF assms(3) w, of "butlast ws"] assms(1) by (simp add: tokens_of_def add_words [OF assms(1,2), of "[]", simplified])
  then show "fold add_token (tokens_of [joined '' '' ws @ suffix fl False]) (no_flags, []) = (fl, joined '' '' ws)"
    by (simp add: name_tokens [OF assms(2)] flag_tokens) (simp add: add_token_def)
  obtain ex where ex: "ex \<in> {[], [[]]}" "end_range (fold add_char (suffix fl True) (ws, [])) = (ws @ ex @ suffix_toks fl, [])"
    using suffix_tokens(2) [OF assms(3), of ws] by blast
  have "tokens_of [joined '' '' ws, suffix fl True] = ws @ ex @ suffix_toks fl @ [[]]"
    using ex(2) assms(1) by (simp add: tokens_of_def add_words [OF assms(1,2), of "[]", simplified] end_range_def)
  moreover have "fold add_token ex (no_flags, nm) = (no_flags, nm)" for nm using ex(1) by (auto simp: add_token_def)
  ultimately show "fold add_token (tokens_of [joined '' '' ws, suffix fl True]) (no_flags, []) = (fl, joined '' '' ws)"
    by (simp add: name_tokens [OF assms(2)] flag_tokens) (simp add: add_token_def)
qed

subsection \<open>Parsing what was written\<close>

lemma words_nonempty: "ws \<noteq> [] \<Longrightarrow> \<forall>w\<in>set ws. word_ok w \<Longrightarrow> joined '' '' ws \<noteq> []"
  by (cases ws; cases "tl ws") (auto simp: word_ok_def)

lemma scope_ops_plain: "CHR '':'' \<notin> set x \<Longrightarrow> scope_ops i x = []"
  by (induction i x rule: scope_ops.induct) auto

definition balanced :: "string \<Rightarrow> bool" where
  "balanced x \<longleftrightarrow> (\<forall>cm d. level cm d x = Some d)"

lemma level_commas: "\<forall>x\<in>set xs. balanced x \<Longrightarrow> level False d (joined '','' xs) = Some d"
  by (induction "'',''" xs rule: joined.induct) (auto simp: balanced_def)

text \<open>One part of a name: its subranges, what they contain, and its scope operators.\<close>

lemma part_subranges:
  assumes "plain n" "plain sfx" "\<forall>x\<in>set args. balanced x"
  shows "subranges pos (n @ ''<'' @ joined '','' args @ ''>'' @ sfx) = Some [(pos + length n, pos + length n + 1 + length (joined '','' args))]"
proof -
  have flat: "CHR ''<'' \<notin> set n" "CHR ''<'' \<notin> set sfx" using assms(1,2) by (auto simp: plain_def)
  have "find_end 1 (joined '','' args @ ''>'' @ sfx) = Some (length (joined '','' args))"
    using find_end_level [OF level_commas [OF assms(3)], of 0 "''>'' @ sfx"] by simp
  then show ?thesis using subranges_step [OF flat(1), of pos "joined '','' args @ ''>'' @ sfx"] flat(2) by (simp add: subranges_none)
qed

lemma part_closed:
  assumes "plain n" "n \<noteq> []" "plain sfx" "\<forall>x\<in>set args. balanced x"
  shows "closed_part (n @ (if args = [] then [] else ''<'' @ joined '','' args @ ''>'') @ sfx)"
proof (cases "args = []")
  case True
  have "CHR ''<'' \<notin> set (n @ sfx)" "CHR '':'' \<notin> set (n @ sfx)" using assms(1,3) by (auto simp: plain_def)
  moreover from this have "last (n @ sfx) \<noteq> CHR '':''" using assms(2) by (metis append_is_Nil_conv last_in_set)
  ultimately show ?thesis using True assms(2) by (simp add: closed_part_def subranges_none scope_ops_plain)
next
  case False
  let ?y = "joined '','' args"
  have colon: "CHR '':'' \<notin> set n" "CHR '':'' \<notin> set sfx" using assms(1,3) by (auto simp: plain_def)
  have "scope_ops pos (n @ ''<'' @ ?y @ ''>'' @ sfx) = scope_ops (pos + length n + 1) ?y" for pos
    using scope_ops_split [of "CHR ''<''" pos n "?y @ ''>'' @ sfx"] scope_ops_split [of "CHR ''>''" "pos + length n + 1" ?y sfx] colon
    by (simp add: scope_ops_plain)
  then have "\<forall>p\<in>set (scope_ops pos (n @ ''<'' @ ?y @ ''>'' @ sfx)). is_in_subrange [(pos + length n, pos + length n + 1 + length ?y)] p" for pos
    using scope_ops_bounds [of _ "pos + length n + 1" ?y] by (fastforce simp: is_in_subrange_def)
  moreover have "last (n @ ''<'' @ ?y @ ''>'' @ sfx) \<noteq> CHR '':''" using colon(2) by (cases "sfx = []") (auto dest: last_in_set)
  ultimately show ?thesis using False assms(2) part_subranges [OF assms(1,3,4)] by (simp add: closed_part_def)
qed

lemma parse_part:
  assumes ws: "ws \<noteq> []" "\<forall>w\<in>set ws. word_ok w" and fl: "\<not> (m_lvalue_ref fl \<and> m_rvalue_ref fl)"
    and args: "\<forall>x\<in>set args. balanced x" "parse_list args = Some params"
  shows "parse (seg_text ws args @ suffix fl (args \<noteq> [])) = Some (leaf_tree fl ws params)"
proof -
  let ?n = "joined '' '' ws" and ?s = "suffix fl (args \<noteq> [])" and ?y = "joined '','' args"
  let ?x = "seg_text ws args @ ?s"
  have x: "?x = ?n @ (if args = [] then [] else ''<'' @ ?y @ ''>'') @ ?s" by (simp add: seg_text_def)
  have n: "plain ?n" "?n \<noteq> []" using words_plain [OF ws(2)] words_nonempty [OF ws] by simp_all
  have cl: "closed_part ?x" unfolding x by (rule part_closed [OF n suffix_plain args(1)])
  then obtain rs where rs: "subranges 0 ?x = Some rs" by (auto simp: closed_part_def)
  have ch: "children_of ?x rs = []" using children_joined [of "[?x]" rs] cl rs by simp
  show ?thesis
  proof (cases "args = []")
    case True
    have "CHR ''<'' \<notin> set ?x" using n(1) suffix_plain [of fl False] True by (auto simp: seg_text_def plain_def)
    then have "rs = []" using rs by (simp add: subranges_none)
    moreover from this have "leaf_data ?x rs = (fl, ?n)"
      using leaf_data_words(1) [OF ws fl] True by (simp add: leaf_data_def slice_def seg_text_def)
    ultimately show ?thesis using rs ch args(2) True unfolding parse.simps [of ?x] by (simp add: leaf_tree_def)
  next
    case False
    then have r: "rs = [(length ?n, length ?n + 1 + length ?y)]" using rs part_subranges [OF n(1) suffix_plain args(1)] by (simp add: seg_text_def)
    have "leaf_data ?x rs = (fl, ?n)"
      using leaf_data_words(2) [OF ws fl] False by (simp add: leaf_data_def slice_def seg_text_def r)
    moreover have "slice ?x (length ?n + 1, length ?n + 1 + length ?y) = ?y" using False by (simp add: slice_def seg_text_def)
    moreover have "tpl_args 0 [] ?y = args" using tpl_args_joined [OF False] args(1) by (simp add: balanced_def)
    ultimately show ?thesis using rs ch args(2) r unfolding parse.simps [of ?x] by (simp add: leaf_tree_def)
  qed
qed

text \<open>The parts of a qualified name, the last one with the qualifiers.\<close>

definition flagged :: "pt_flags \<Rightarrow> 'a list \<Rightarrow> ('a \<times> pt_flags) list" where
  "flagged fl segs = map (\<lambda>s. (s, no_flags)) (butlast segs) @ [(last segs, fl)]"

definition part_text :: "(string list \<times> cty list) \<times> pt_flags \<Rightarrow> string" where
  "part_text p = (case p of ((ws, args), f) \<Rightarrow> seg_text ws (map show_cty args) @ suffix f (args \<noteq> []))"

definition part_tree :: "(string list \<times> cty list) \<times> pt_flags \<Rightarrow> parse_tree" where
  "part_tree p = (case p of ((ws, args), f) \<Rightarrow> leaf_tree f ws (map tree_of args))"

lemma joined_snoc: "joined sep (xs @ [x @ y]) = joined sep (xs @ [x]) @ y"
proof (induction xs)
  case (Cons a xs)
  then show ?case by (cases xs) auto
qed simp

lemma no_suffix [simp]: "suffix no_flags b = []"
  by (simp add: suffix_def quals_def marks_def no_flags_def)

lemma show_parts: "segs \<noteq> [] \<Longrightarrow> show_cty (Cty fl segs) = joined ''::'' (map part_text (flagged fl segs))"
proof (induction segs rule: rev_induct)
  case (snoc s segs)
  obtain ws args where s: "s = (ws, args)" by fastforce
  have "map part_text (flagged fl (segs @ [s])) = map (\<lambda>(ws, args). seg_text ws (map show_cty args)) segs @ [seg_text ws (map show_cty args) @ suffix fl (args \<noteq> [])]"
    by (simp add: flagged_def part_text_def s comp_def case_prod_beta)
  then show ?case by (simp add: joined_snoc s del: flagged_def)
qed simp

lemma tree_parts:
  "length segs \<noteq> 1 \<Longrightarrow> segs \<noteq> [] \<Longrightarrow> tree_of (Cty fl segs) = Parse_tree no_flags [] (map part_tree (flagged fl segs)) []"
  "tree_of (Cty fl [s]) = part_tree (s, fl)"
proof -
  show "tree_of (Cty fl [s]) = part_tree (s, fl)" by (simp add: part_tree_def case_prod_beta)
  assume "length segs \<noteq> 1" "segs \<noteq> []"
  then show "tree_of (Cty fl segs) = Parse_tree no_flags [] (map part_tree (flagged fl segs)) []"
    by (simp add: Let_def flagged_def part_tree_def map_butlast [symmetric] last_map case_prod_beta comp_def)
qed

lemma parse_list_map: "(\<And>x. x \<in> set xs \<Longrightarrow> parse (f x) = Some (g x)) \<Longrightarrow> parse_list (map f xs) = Some (map g xs)"
  by (induction xs) auto

lemma flagged_set: "segs \<noteq> [] \<Longrightarrow> (s, f) \<in> set (flagged fl segs) \<Longrightarrow> s \<in> set segs \<and> (f = no_flags \<or> f = fl)"
  by (auto simp: flagged_def dest: in_set_butlastD)

lemma parse_joined:
  assumes "xs \<noteq> []" "length xs \<noteq> 1" "\<forall>x\<in>set xs. closed_part x" "parse_list xs = Some ts"
  shows "parse (joined ''::'' xs) = Some (Parse_tree no_flags [] ts [])"
proof -
  obtain rs where rs: "subranges 0 (joined ''::'' xs) = Some rs" using joined_parts [OF assms(1,3), of 0] by blast
  have "children_of (joined ''::'' xs) rs = xs" using children_joined [OF assms(1,3) rs] assms(2) by simp
  then show ?thesis using rs assms(1,4) unfolding parse.simps [of "joined ''::'' xs"] by (simp add: case_prod_beta)
qed

lemma parse_show: "cty_ok t \<Longrightarrow> parse (show_cty t) = Some (tree_of t)"
proof (induction t)
  case (Cty fl segs)
  have fl: "\<not> (m_lvalue_ref fl \<and> m_rvalue_ref fl)" "segs \<noteq> []" using Cty.prems by auto
  have "closed_part (part_text p) \<and> parse (part_text p) = Some (part_tree p)" if p: "p \<in> set (flagged fl segs)" for p
  proof -
    obtain ws args f where p': "p = ((ws, args), f)" by (metis surj_pair)
    have s: "(ws, args) \<in> set segs" "\<not> (m_lvalue_ref f \<and> m_rvalue_ref f)"
      using flagged_set [OF fl(2), of "(ws, args)" f fl] p p' fl(1) by (auto simp: no_flags_def)
    have ws: "ws \<noteq> []" "\<forall>w\<in>set ws. word_ok w" and ok: "\<forall>a\<in>set args. cty_ok a" using Cty.prems s(1) by auto
    have "parse (show_cty a) = Some (tree_of a)" if "a \<in> set args" for a
      using Cty.IH [of "(ws, args)" args a] s(1) ok that by (auto simp: snds.simps)
    then have pl: "parse_list (map show_cty args) = Some (map tree_of args)" by (rule parse_list_map)
    have bal: "\<forall>x\<in>set (map show_cty args). balanced x" using level_show ok by (auto simp: balanced_def)
    have "closed_part (part_text p)"
      using part_closed [OF words_plain [OF ws(2)] words_nonempty [OF ws] suffix_plain bal] by (simp add: p' part_text_def seg_text_def)
    moreover have "parse (part_text p) = Some (part_tree p)"
      using parse_part [OF ws s(2) bal pl] by (simp add: p' part_text_def part_tree_def)
    ultimately show ?thesis by blast
  qed
  then have parts: "\<forall>x\<in>set (map part_text (flagged fl segs)). closed_part x" "parse_list (map part_text (flagged fl segs)) = Some (map part_tree (flagged fl segs))"
    "\<forall>p\<in>set (flagged fl segs). parse (part_text p) = Some (part_tree p)"
    by (auto intro: parse_list_map)
  have len: "length (flagged fl segs) = length segs" using fl(2) by (simp add: flagged_def)
  show ?case
  proof (cases "length segs = 1")
    case True
    then obtain s where "segs = [s]" by (auto simp: length_Suc_conv)
    then show ?thesis using parts(3) show_parts [OF fl(2), of fl] tree_parts(2) [of fl s] by (simp add: flagged_def)
  next
    case False
    then have "map part_text (flagged fl segs) \<noteq> []" "length (map part_text (flagged fl segs)) \<noteq> 1" using len fl(2) by auto
    from parse_joined [OF this parts(1,2)] show ?thesis using show_parts [OF fl(2), of fl] tree_parts(1) [OF False fl(2), of fl] by simp
  qed
qed

section \<open>Properties\<close>

text \<open>
  Parsing the name of a type ends for every string. It reads beyond the end of the string exactly if a bracket is left open, that is,
  if a \<open><\<close> has no \<open>>\<close> that closes it; closing brackets that were never opened do no harm.
\<close>

theorem uniform_name_safe: "to_uniform_name lw str = None \<longleftrightarrow> 0 < depth 0 str"
  using parse_depth(1) [of str] by (simp add: to_uniform_name_def)

text \<open>
  C25. The parser recovers the structure of a type from the text a compiler writes for it: for every type with a qualified name, names of several
  words, nested template arguments and qualifiers, parsing the text gives the tree of the type, with each name, each argument and
  each qualifier in its place.
\<close>

theorem uniform_name_parses:
  assumes "cty_ok t"
  shows "parse (show_cty t) = Some (tree_of t)"
  using parse_show [OF assms] .

text \<open>\<open>std::map<unsigned int,foo const*>::iterator&\<close>.\<close>

definition sample_cty :: cty where
  "sample_cty = Cty (no_flags\<lparr>m_lvalue_ref := True\<rparr>)
     [([''std''], []), ([''map''], [Cty no_flags [([''unsigned'', ''int''], [])],
        Cty (no_flags\<lparr>m_const := True, m_pointer := True\<rparr>) [([''foo''], [])]]), ([''iterator''], [])]"

theorem uniform_name_parses_witness: "parse ''std::map<unsigned int,foo const*>::iterator&'' = Some (tree_of sample_cty)"
proof -
  have "cty_ok sample_cty" "show_cty sample_cty = ''std::map<unsigned int,foo const*>::iterator&''" by (code_simp, code_simp)
  then show ?thesis using uniform_name_parses [of sample_cty] by simp
qed

text \<open>The table of integers is sorted, as the search needs it: every name in it is found.\<close>

lemma platform_names_sorted: "sorted_wrt (<) (map pim_name (platform_dependent_sizes lw))"
  by code_simp

lemma sorted_search:
  "sorted_wrt (<) (map f xs) \<Longrightarrow> x \<in> set xs \<Longrightarrow> \<exists>ys. dropWhile (\<lambda>p. f p < f x) xs = x # ys" for f :: "'a \<Rightarrow> string"
  by (induction xs) auto

lemma map2decorated_integers:
  "p \<in> set (platform_dependent_sizes lw) \<Longrightarrow>
   map2decorated lw (pim_name p) = (if pim_signed p then snd else fst) (mapped_int_names ! pim_size p)"
  using sorted_search [OF platform_names_sorted, of p lw] by (auto simp: map2decorated_def)

text \<open>The characters of UTF-16 and UTF-32 strings are taken for signed integers, while the table of names expects unsigned ones.\<close>

lemma utf16_string_not_found:
  "to_uniform_name 8 ''char16_t'' = Some ''@i16''"
  "map2decorated 8 ''std::basic_string<@i16,std::char_traits<@i16>,std::allocator<@i16>>'' = ''std::basic_string<@i16,std::char_traits<@i16>,std::allocator<@i16>>''"
  "map2decorated 8 ''std::basic_string<@u16,std::char_traits<@u16>,std::allocator<@u16>>'' = ''@u16str''"
  by (code_simp, code_simp, code_simp)

text \<open>A space after an underscore is dropped, which joins the qualifier to the name; pointers to pointers, and qualified pointers, lose
  their structure.\<close>

lemma names_confused:
  "filter_whitespaces [] ''foo_ const'' = ''foo_const''"
  "to_uniform_name 8 ''int**'' = to_uniform_name 8 ''int*''" "to_uniform_name 8 ''int*const'' = to_uniform_name 8 ''int const*''"
  by (code_simp, code_simp, code_simp)

end
