(* ===== verification/Blocking_Mailbox.thy ===== *)
theory Blocking_Mailbox
  imports Single_Reader_Queue
begin

text \<open>
  Waiting for messages: \<open>synchronized_enqueue\<close> and the two \<open>synchronized_await\<close> of
  caf/detail/single_reader_queue.hpp, which a thread of its own uses (caf/policy/no_scheduling.hpp). The reader marks the queue as blocked
  with an atomic exchange and sleeps on a condition variable; the writer that finds the mark wakes it up. One step is one access to
  the stack, or one operation on the mutex or the condition variable.
\<close>

section \<open>Definitions\<close>

subsection \<open>Threads\<close>

text \<open>Where the reader is in \<open>synchronized_await\<close>.\<close>

datatype await_pc =
    Idle           \<comment> \<open>not in the function\<close>
  | Check          \<comment> \<open>calls \<open>can_fetch_more\<close>\<close>
  | Try            \<comment> \<open>calls \<open>try_block\<close>\<close>
  | Lock           \<comment> \<open>locks the mutex\<close>
  | Test           \<comment> \<open>evaluates \<open>blocked()\<close>, with the mutex\<close>
  | Enter          \<comment> \<open>calls \<open>wait\<close>, with the mutex\<close>
  | Wait           \<comment> \<open>sleeps\<close>
  | Woken          \<comment> \<open>locks the mutex again\<close>
  | Timed          \<comment> \<open>locks the mutex again, after a timeout\<close>
  | Undo           \<comment> \<open>calls \<open>try_unblock\<close>, with the mutex\<close>
  | Leave bool     \<comment> \<open>releases the mutex and returns\<close>
  | Done bool      \<comment> \<open>has returned\<close>

text \<open>Where a writer is in \<open>synchronized_enqueue\<close> after \<open>enqueue\<close> has returned \<open>unblocked_reader\<close>.\<close>

datatype notify_pc = N_none | N_lock | N_notify | N_unlock

datatype holder = Reader | Writer nat

record bm_sys =
  bm_sq :: sqsys
  bm_pc :: await_pc
  bm_timed :: bool          \<comment> \<open>whether the call has a time limit\<close>
  bm_mtx :: "holder option"
  bm_note :: "nat \<Rightarrow> notify_pc"

abbreviation bm_q :: "bm_sys \<Rightarrow> single_reader_queue" where
  "bm_q s \<equiv> queue (bm_sq s)"

subsection \<open>\<open>synchronized_await\<close>\<close>

text \<open>The next step of the reader; \<open>None\<close> if it has to wait for the mutex or for a notification, or is not in the function.\<close>

definition reader_next :: "bm_sys \<Rightarrow> bm_sys option" where
  "reader_next s = (case bm_pc s of
      Check \<Rightarrow> Some (s\<lparr>bm_pc := if can_fetch_more (bm_q s) then Done True else Try\<rparr>)
    | Try \<Rightarrow> (case try_block (bm_q s) of
          (True, q') \<Rightarrow> Some (s\<lparr>bm_pc := Lock,
             bm_sq := (bm_sq s)\<lparr>queue := q', blocks := if blocked (bm_q s) then blocks (bm_sq s) else Suc (blocks (bm_sq s))\<rparr>\<rparr>)
        | (False, _) \<Rightarrow> Some (s\<lparr>bm_pc := Done True\<rparr>))
    | Lock \<Rightarrow> if bm_mtx s = None then Some (s\<lparr>bm_pc := Test, bm_mtx := Some Reader\<rparr>) else None
    | Test \<Rightarrow> Some (s\<lparr>bm_pc := if blocked (bm_q s) then Enter else Leave True\<rparr>)
    | Enter \<Rightarrow> Some (s\<lparr>bm_pc := Wait, bm_mtx := None\<rparr>)
    | Woken \<Rightarrow> if bm_mtx s = None then Some (s\<lparr>bm_pc := Test, bm_mtx := Some Reader\<rparr>) else None
    | Timed \<Rightarrow> if bm_mtx s = None then Some (s\<lparr>bm_pc := Undo, bm_mtx := Some Reader\<rparr>) else None
    | Undo \<Rightarrow> (case try_unblock (bm_q s) of
          (True, q') \<Rightarrow> Some (s\<lparr>bm_pc := Leave False, bm_sq := (bm_sq s)\<lparr>queue := q', wakeups := Suc (wakeups (bm_sq s))\<rparr>\<rparr>)
        | (False, _) \<Rightarrow> Some (s\<lparr>bm_pc := Leave True\<rparr>))
    | Leave r \<Rightarrow> Some (s\<lparr>bm_pc := Done r, bm_mtx := None\<rparr>)
    | _ \<Rightarrow> None)"

subsection \<open>\<open>synchronized_enqueue\<close>\<close>

text \<open>One pass of \<open>enqueue\<close>.\<close>

definition write_pass :: "nat \<Rightarrow> bm_sys \<Rightarrow> bm_sys option" where
  "write_pass i s = (let sq = bm_sq s in case writers sq i of
      None \<Rightarrow> None
    | Some (e, n) \<Rightarrow> (case enqueue_pass e n (queue sq) of
          (Inl e', q') \<Rightarrow> Some (s\<lparr>bm_sq := sq\<lparr>queue := q', writers := (writers sq)(i \<mapsto> (e', n))\<rparr>\<rparr>)
        | (Inr Queue_closed, q') \<Rightarrow> Some (s\<lparr>bm_sq := sq\<lparr>queue := q', writers := (writers sq)(i := None)\<rparr>\<rparr>)
        | (Inr res, q') \<Rightarrow> Some (s\<lparr>bm_sq := sq\<lparr>queue := q', writers := (writers sq)(i := None), enqueued := enqueued sq @ [n],
              wakeups := wakeups sq + (if res = Unblocked_reader then 1 else 0)\<rparr>,
            bm_note := (bm_note s)(i := if res = Unblocked_reader then N_lock else N_none)\<rparr>)))"

text \<open>The rest: the mutex, \<open>notify_one\<close>, and the destructor of the guard.\<close>

definition notify_next :: "nat \<Rightarrow> bm_sys \<Rightarrow> bm_sys option" where
  "notify_next i s = (case bm_note s i of
      N_none \<Rightarrow> None
    | N_lock \<Rightarrow> if bm_mtx s = None then Some (s\<lparr>bm_mtx := Some (Writer i), bm_note := (bm_note s)(i := N_notify)\<rparr>) else None
    | N_notify \<Rightarrow> Some (s\<lparr>bm_pc := if bm_pc s = Wait then Woken else bm_pc s, bm_note := (bm_note s)(i := N_unlock)\<rparr>)
    | N_unlock \<Rightarrow> Some (s\<lparr>bm_mtx := None, bm_note := (bm_note s)(i := N_none)\<rparr>))"

subsection \<open>Runs\<close>

text \<open>The steps that the \<open>N\<close> threads and the reader make by themselves, once they are in one of the functions.\<close>

inductive bm_int :: "nat \<Rightarrow> bm_sys \<Rightarrow> bm_sys \<Rightarrow> bool" for N where
  int_write: "i < N \<Longrightarrow> write_pass i s = Some s' \<Longrightarrow> bm_int N s s'"
| int_notify: "i < N \<Longrightarrow> notify_next i s = Some s' \<Longrightarrow> bm_int N s s'"
| int_reader: "reader_next s = Some s' \<Longrightarrow> bm_int N s s'"

text \<open>
  All steps: new messages, calls of the reader, which takes messages or closes the queue between two calls, spurious wake-ups and the time limit.
\<close>

inductive bm_step :: "nat \<Rightarrow> bm_sys \<Rightarrow> bm_sys \<Rightarrow> bool" for N where
  bm_internal: "bm_int N s s' \<Longrightarrow> bm_step N s s'"
| bm_load: "i < N \<Longrightarrow> writers (bm_sq s) i = None \<Longrightarrow> bm_note s i = N_none \<Longrightarrow> \<not> in_queue (bm_q s) n \<Longrightarrow>
    (\<And>j e. writers (bm_sq s) j \<noteq> Some (e, n)) \<Longrightarrow>
    bm_step N s (s\<lparr>bm_sq := (bm_sq s)\<lparr>writers := (writers (bm_sq s))(i \<mapsto> (m_stack (bm_q s), n))\<rparr>\<rparr>)"
| bm_await: "bm_pc s = Idle \<or> bm_pc s = Done r \<Longrightarrow> \<not> closed (bm_q s) \<Longrightarrow> bm_step N s (s\<lparr>bm_pc := Check, bm_timed := timed\<rparr>)"
| bm_pop: "bm_pc s = Idle \<or> bm_pc s = Done r \<Longrightarrow> \<not> closed (bm_q s) \<Longrightarrow> take_head (bm_q s) = Some (Inr (res, q')) \<Longrightarrow>
    bm_step N s (s\<lparr>bm_pc := Idle, bm_sq := (bm_sq s)\<lparr>queue := q', dequeued := dequeued (bm_sq s) @ (case res of None \<Rightarrow> [] | Some n \<Rightarrow> [n])\<rparr>\<rparr>)"
| bm_close: "bm_pc s = Idle \<or> bm_pc s = Done r \<Longrightarrow> \<not> closed (bm_q s) \<Longrightarrow> close (bm_q s) = Some (Inr (ns, q')) \<Longrightarrow>
    bm_step N s (s\<lparr>bm_pc := Idle, bm_sq := (bm_sq s)\<lparr>queue := q', dequeued := dequeued (bm_sq s) @ ns\<rparr>\<rparr>)"
| bm_spurious: "bm_pc s = Wait \<Longrightarrow> bm_step N s (s\<lparr>bm_pc := Woken\<rparr>)"
| bm_timeout: "bm_pc s = Wait \<Longrightarrow> bm_timed s \<Longrightarrow> bm_step N s (s\<lparr>bm_pc := Timed\<rparr>)"

definition bm_init :: "bm_sys \<Rightarrow> bool" where
  "bm_init s \<longleftrightarrow> sq_init (bm_sq s) \<and> bm_pc s = Idle \<and> bm_mtx s = None \<and> (\<forall>i. bm_note s i = N_none)"

inductive bm_reach :: "nat \<Rightarrow> bm_sys \<Rightarrow> bool" for N where
  bm_start: "bm_init s \<Longrightarrow> bm_reach N s"
| bm_next: "bm_reach N s \<Longrightarrow> bm_step N s s' \<Longrightarrow> bm_reach N s'"

text \<open>However the steps of the threads are ordered, the reader returns and reports data.\<close>

inductive returns_data :: "nat \<Rightarrow> bm_sys \<Rightarrow> bool" for N where
  returned: "bm_pc s = Done True \<Longrightarrow> returns_data N s"
| runs: "bm_int N s s' \<Longrightarrow> (\<And>t. bm_int N s t \<Longrightarrow> returns_data N t) \<Longrightarrow> returns_data N s"

section \<open>Invariant\<close>

fun has_mutex :: "await_pc \<Rightarrow> bool" where
  "has_mutex Test = True" | "has_mutex Enter = True" | "has_mutex Undo = True" | "has_mutex (Leave _) = True" | "has_mutex _ = False"

text \<open>Between \<open>try_block\<close> and the end of the function.\<close>

fun waiting :: "await_pc \<Rightarrow> bool" where
  "waiting Lock = True" | "waiting Test = True" | "waiting Enter = True" | "waiting Wait = True" | "waiting Woken = True"
| "waiting Timed = True" | "waiting Undo = True" | "waiting _ = False"

definition mutex_ok :: "bm_sys \<Rightarrow> bool" where
  "mutex_ok s \<longleftrightarrow> (bm_mtx s = Some Reader \<longleftrightarrow> has_mutex (bm_pc s))
     \<and> (\<forall>i. bm_mtx s = Some (Writer i) \<longleftrightarrow> bm_note s i \<in> {N_notify, N_unlock})"

definition reader_ok :: "bm_sys \<Rightarrow> bool" where
  "reader_ok s \<longleftrightarrow> (blocked (bm_q s) \<longrightarrow> waiting (bm_pc s)) \<and> (bm_pc s \<noteq> Idle \<longrightarrow> \<not> closed (bm_q s))
     \<and> (bm_pc s = Try \<or> waiting (bm_pc s) \<longrightarrow> m_head (bm_q s) = Null)
     \<and> (waiting (bm_pc s) \<longrightarrow> m_stack (bm_q s) \<noteq> Stack_empty_dummy)
     \<and> (bm_pc s = Leave True \<or> bm_pc s = Done True \<longrightarrow> can_fetch_more (bm_q s))"

text \<open>No lost wake-up: whoever removed the mark still has to notify the reader.\<close>

definition noted :: "nat \<Rightarrow> notify_pc set \<Rightarrow> (nat \<Rightarrow> notify_pc) \<Rightarrow> bool" where
  "noted N A f \<longleftrightarrow> (\<exists>i<N. f i \<in> A)"

definition threads_ok :: "nat \<Rightarrow> bm_sys \<Rightarrow> bool" where
  "threads_ok N s \<longleftrightarrow> (\<forall>i. N \<le> i \<longrightarrow> bm_note s i = N_none \<and> writers (bm_sq s) i = None)
     \<and> (\<forall>i. writers (bm_sq s) i \<noteq> None \<longrightarrow> bm_note s i = N_none)"

definition notify_ok :: "nat \<Rightarrow> bm_sys \<Rightarrow> bool" where
  "notify_ok N s \<longleftrightarrow> (bm_pc s = Enter \<and> \<not> blocked (bm_q s) \<longrightarrow> noted N {N_lock} (bm_note s))
     \<and> (bm_pc s = Wait \<and> \<not> blocked (bm_q s) \<longrightarrow> noted N {N_lock, N_notify} (bm_note s))"

lemma noted_here: "i < N \<Longrightarrow> x \<in> A \<Longrightarrow> noted N A (f(i := x))"
  by (auto simp: noted_def)

lemma noted_there: "noted N A f \<Longrightarrow> f i \<notin> A \<Longrightarrow> noted N A (f(i := x))"
  by (auto simp: noted_def)

lemma noted_mono: "noted N A f \<Longrightarrow> A \<subseteq> B \<Longrightarrow> noted N B f"
  by (auto simp: noted_def)

definition bm_inv :: "nat \<Rightarrow> bm_sys \<Rightarrow> bool" where
  "bm_inv N s \<longleftrightarrow> mutex_ok s \<and> reader_ok s \<and> threads_ok N s \<and> notify_ok N s"

lemma enqueue_pass_result:
  assumes "enqueue_pass e n q = (r, q')"
  shows "m_head q' = m_head q \<and> (case r of
      Inl e' \<Rightarrow> e \<noteq> Null \<and> e \<noteq> m_stack q \<and> e' = m_stack q \<and> m_stack q' = m_stack q
    | Inr Queue_closed \<Rightarrow> e = Null \<and> q' = q
    | Inr res \<Rightarrow> m_stack q' = Node n \<and> m_stack q \<noteq> Null \<and> res = (if blocked q then Unblocked_reader else Success))"
  using assms by (auto simp: enqueue_pass_def Let_def blocked_def split: if_splits)

lemma write_pass_cases:
  assumes "write_pass i s = Some s'"
  obtains (retry) e n q' where "writers (bm_sq s) i = Some (e, n)" "enqueue_pass e n (bm_q s) = (Inl (m_stack (bm_q s)), q')"
      "e \<noteq> Null" "e \<noteq> m_stack (bm_q s)" "m_stack q' = m_stack (bm_q s)" "m_head q' = m_head (bm_q s)"
      "s' = s\<lparr>bm_sq := (bm_sq s)\<lparr>queue := q', writers := (writers (bm_sq s))(i \<mapsto> (m_stack (bm_q s), n))\<rparr>\<rparr>"
  | (rejected) e n where "writers (bm_sq s) i = Some (e, n)" "enqueue_pass e n (bm_q s) = (Inr Queue_closed, bm_q s)"
      "s' = s\<lparr>bm_sq := (bm_sq s)\<lparr>queue := bm_q s, writers := (writers (bm_sq s))(i := None)\<rparr>\<rparr>"
  | (pushed) e n q' res where "writers (bm_sq s) i = Some (e, n)" "enqueue_pass e n (bm_q s) = (Inr res, q')"
      "res = (if blocked (bm_q s) then Unblocked_reader else Success)"
      "m_stack q' = Node n" "m_head q' = m_head (bm_q s)" "\<not> closed (bm_q s)"
      "s' = s\<lparr>bm_sq := (bm_sq s)\<lparr>queue := q', writers := (writers (bm_sq s))(i := None), enqueued := enqueued (bm_sq s) @ [n],
         wakeups := wakeups (bm_sq s) + (if res = Unblocked_reader then 1 else 0)\<rparr>,
         bm_note := (bm_note s)(i := if res = Unblocked_reader then N_lock else N_none)\<rparr>"
proof -
  from assms obtain e n where w: "writers (bm_sq s) i = Some (e, n)"
    by (auto simp: write_pass_def Let_def split: option.splits)
  obtain r q' where r: "enqueue_pass e n (bm_q s) = (r, q')" by (cases "enqueue_pass e n (bm_q s)")
  note res = enqueue_pass_result [OF r]
  show thesis
  proof (cases r)
    case (Inl e')
    with assms w r res show thesis by (intro retry [of e n q']) (auto simp: write_pass_def Let_def)
  next
    case (Inr x)
    show thesis
    proof (cases "x = Queue_closed")
      case True
      with Inr assms w r res show thesis by (intro rejected [of e n]) (auto simp: write_pass_def Let_def)
    next
      case False
      have x: "m_stack q' = Node n" "m_stack (bm_q s) \<noteq> Null" "x = (if blocked (bm_q s) then Unblocked_reader else Success)" "m_head q' = m_head (bm_q s)"
        using res Inr False by (cases x; simp)+
      let ?s = "s\<lparr>bm_sq := (bm_sq s)\<lparr>queue := q', writers := (writers (bm_sq s))(i := None), enqueued := enqueued (bm_sq s) @ [n],
         wakeups := wakeups (bm_sq s) + (if x = Unblocked_reader then 1 else 0)\<rparr>,
         bm_note := (bm_note s)(i := if x = Unblocked_reader then N_lock else N_none)\<rparr>"
      have "write_pass i s = Some ?s"
        unfolding write_pass_def Let_def w r Inr option.case prod.case sum.case using False by (cases x) simp_all
      then have s': "s' = ?s" using assms by (metis option.inject)
      from x(2) have "\<not> closed (bm_q s)" by (simp add: closed_def)
      from pushed [OF w r [unfolded Inr] x(3,1,4) this s'] show thesis .
    qed
  qed
qed

lemma stack_simps [simp]:
  "blocked q \<Longrightarrow> \<not> closed q" "m_stack q = Node n \<Longrightarrow> \<not> blocked q" "m_stack q = Node n \<Longrightarrow> \<not> closed q"
  "m_stack q = Node n \<Longrightarrow> can_fetch_more q"
  by (simp_all add: blocked_def closed_def can_fetch_more_def is_dummy_def)

lemma stack_cong:
  "m_stack q = m_stack q' \<Longrightarrow> blocked q = blocked q'" "m_stack q = m_stack q' \<Longrightarrow> closed q = closed q'"
  "m_stack q = m_stack q' \<Longrightarrow> m_head q = m_head q' \<Longrightarrow> can_fetch_more q = can_fetch_more q'"
  by (simp_all add: blocked_def closed_def can_fetch_more_def)

lemma bm_writer:
  assumes "bm_inv N s" "writers (bm_sq s) i = Some w"
  shows "i < N \<and> bm_note s i = N_none"
  using assms by (cases "N \<le> i") (auto simp: bm_inv_def threads_ok_def)

lemma write_pass_inv:
  assumes "write_pass i s = Some s'" "bm_inv N s"
  shows "bm_inv N s'"
  using assms(1)
proof (cases rule: write_pass_cases)
  case (retry e n q')
  have q': "blocked q' = blocked (bm_q s)" "closed q' = closed (bm_q s)" "can_fetch_more q' = can_fetch_more (bm_q s)"
    by (rule stack_cong; simp add: retry)+
  show ?thesis
    using assms(2) bm_writer [OF assms(2) retry(1)] unfolding retry(7) bm_inv_def mutex_ok_def reader_ok_def threads_ok_def notify_ok_def
    by (simp add: q' retry(5,6) linorder_not_le)
next
  case (rejected e n)
  show ?thesis
    using assms(2) unfolding rejected(3) bm_inv_def mutex_ok_def reader_ok_def threads_ok_def notify_ok_def by simp
next
  case (pushed e n q' res)
  note N = bm_writer [OF assms(2) pushed(1)]
  have q': "\<not> blocked q'" "\<not> closed q'" "can_fetch_more q'" using pushed(4) by simp_all
  have "mutex_ok s'" "threads_ok N s'" using assms(2) N unfolding pushed(7) bm_inv_def mutex_ok_def threads_ok_def by simp_all
  moreover have "reader_ok s'" using assms(2) unfolding pushed(7) bm_inv_def reader_ok_def by (simp add: q' pushed(4,5))
  moreover have "notify_ok N s'"
    using assms(2) N noted_there [of N _ "bm_note s" i N_none] unfolding pushed(7) bm_inv_def notify_ok_def
    by (cases "blocked (bm_q s)") (simp_all add: pushed(3) noted_here)
  ultimately show ?thesis by (simp add: bm_inv_def)
qed

lemma mutex_free:
  assumes "bm_inv N s" "bm_mtx s \<noteq> Some Reader"
  shows "\<not> has_mutex (bm_pc s)" "bm_pc s \<noteq> Enter"
  using assms by (auto simp: bm_inv_def mutex_ok_def)

lemma notify_next_inv:
  assumes "notify_next i s = Some s'" "bm_inv N s"
  shows "bm_inv N s'"
proof (cases "bm_note s i")
  case N_lock
  with assms(1) have s': "bm_mtx s = None" "s' = s\<lparr>bm_mtx := Some (Writer i), bm_note := (bm_note s)(i := N_notify)\<rparr>"
    by (auto simp: notify_next_def split: if_splits)
  have "i < N" using assms(2) N_lock by (cases "N \<le> i") (auto simp: bm_inv_def threads_ok_def)
  with assms(2) N_lock mutex_free [OF assms(2)] show ?thesis
    unfolding s'(2) bm_inv_def mutex_ok_def reader_ok_def threads_ok_def notify_ok_def by (auto simp: s'(1) noted_here)
next
  case N_notify
  with assms(1) have s': "s' = s\<lparr>bm_pc := if bm_pc s = Wait then Woken else bm_pc s, bm_note := (bm_note s)(i := N_unlock)\<rparr>"
    by (auto simp: notify_next_def)
  have m: "bm_mtx s = Some (Writer i)" using assms(2) N_notify by (auto simp: bm_inv_def mutex_ok_def)
  then have pc: "\<not> has_mutex (bm_pc s)" "bm_pc s \<noteq> Enter" using mutex_free [OF assms(2)] by simp_all
  have "mutex_ok s'" "threads_ok N s'"
    using assms(2) N_notify m pc unfolding s' bm_inv_def mutex_ok_def threads_ok_def by auto
  moreover have "reader_ok s'" using assms(2) unfolding s' bm_inv_def reader_ok_def by auto
  moreover have "notify_ok N s'" using pc unfolding s' notify_ok_def by auto
  ultimately show ?thesis by (simp add: bm_inv_def)
next
  case N_unlock
  with assms(1) have s': "s' = s\<lparr>bm_mtx := None, bm_note := (bm_note s)(i := N_none)\<rparr>"
    by (auto simp: notify_next_def)
  have m: "bm_mtx s = Some (Writer i)" using assms(2) N_unlock by (auto simp: bm_inv_def mutex_ok_def)
  then have pc: "\<not> has_mutex (bm_pc s)" "bm_pc s \<noteq> Enter" using mutex_free [OF assms(2)] by simp_all
  have "mutex_ok s'" "threads_ok N s'"
    using assms(2) N_unlock m pc unfolding s' bm_inv_def mutex_ok_def threads_ok_def by auto
  moreover have "reader_ok s'" using assms(2) unfolding s' bm_inv_def reader_ok_def by auto
  moreover have "notify_ok N s'"
    using assms(2) N_unlock pc noted_there [of N "{N_lock, N_notify}" "bm_note s" i] unfolding s' bm_inv_def notify_ok_def by auto
  ultimately show ?thesis by (simp add: bm_inv_def)
qed (use assms in \<open>simp add: notify_next_def\<close>)

lemma try_block_stack:
  "try_block q = (True, q') \<Longrightarrow> m_stack q' = Reader_blocked_dummy \<and> m_head q' = m_head q \<and> \<not> closed q'"
  "try_block q = (False, q') \<Longrightarrow> \<not> closed q \<Longrightarrow> can_fetch_more q"
  "try_unblock q = (True, q') \<Longrightarrow> m_stack q' = Stack_empty_dummy \<and> m_head q' = m_head q \<and> \<not> closed q' \<and> \<not> blocked q'"
  "try_unblock q = (False, q') \<Longrightarrow> \<not> blocked q"
  by (auto simp: try_block_def try_unblock_def can_fetch_more_def is_dummy_def closed_def blocked_def split: if_splits)

lemma not_blocked_more:
  "\<not> blocked q \<Longrightarrow> m_stack q \<noteq> Stack_empty_dummy \<Longrightarrow> can_fetch_more q" "\<not> can_fetch_more q \<Longrightarrow> m_head q = Null"
  by (auto simp: can_fetch_more_def is_dummy_def blocked_def)

lemmas reader_next_splits = await_pc.splits prod.splits bool.splits if_splits

lemma reader_next_inv:
  assumes "reader_next s = Some s'" "bm_inv N s"
  shows "bm_inv N s'"
proof -
  have inv: "mutex_ok s" "reader_ok s" "threads_ok N s" "notify_ok N s" using assms(2) by (simp_all add: bm_inv_def)
  have "mutex_ok s'" "threads_ok N s'"
    using assms(1) inv(1,3) by (auto simp: reader_next_def mutex_ok_def threads_ok_def split: reader_next_splits)
  moreover have "notify_ok N s'"
    using assms(1) inv(4) by (auto simp: reader_next_def notify_ok_def noted_mono split: reader_next_splits)
  moreover have "reader_ok s'"
    using assms(1) inv(2)
    by (auto simp: reader_next_def reader_ok_def not_blocked_more split: reader_next_splits dest: try_block_stack)
  ultimately show ?thesis by (simp add: bm_inv_def)
qed

text \<open>Each step is one of the queue, or leaves the queue alone.\<close>

lemma write_pass_sq:
  assumes "write_pass i s = Some s'"
  shows "sq_step (bm_sq s) (bm_sq s')"
  using assms
proof (cases rule: write_pass_cases)
  case (retry e n q')
  show ?thesis unfolding retry(7) using sq_step.retry [OF retry(1,2)] by simp
next
  case (rejected e n)
  show ?thesis unfolding rejected(3) using sq_step.rejected [OF rejected(1,2)] by simp
next
  case (pushed e n q' res)
  have "res \<noteq> Queue_closed" by (simp add: pushed(3))
  then show ?thesis unfolding pushed(7) using sq_step.pushed [OF pushed(1,2)] by simp
qed

lemma notify_next_sq: "notify_next i s = Some s' \<Longrightarrow> bm_sq s' = bm_sq s"
  by (auto simp: notify_next_def split: notify_pc.splits if_splits)

lemma reader_next_sq:
  assumes "reader_next s = Some s'" "bm_inv N s"
  shows "bm_sq s' = bm_sq s \<or> sq_step (bm_sq s) (bm_sq s')"
proof (cases "bm_pc s")
  case Try
  then have q: "m_head (bm_q s) = Null" "\<not> closed (bm_q s)" "\<not> blocked (bm_q s)" using assms(2) by (auto simp: bm_inv_def reader_ok_def)
  obtain r q' where r: "try_block (bm_q s) = (r, q')" by (cases "try_block (bm_q s)")
  show ?thesis
  proof (cases r)
    case True
    have "m_stack (bm_q s) = Stack_empty_dummy" using r q(3) True by (auto simp: try_block_def blocked_def split: if_splits)
    then have "\<not> can_fetch_more (bm_q s)" using q(1) by (simp add: can_fetch_more_def is_dummy_def)
    from sq_step.block [OF this q(2,3), of q'] r True show ?thesis using assms(1) Try q(3) by (auto simp: reader_next_def)
  qed (use assms(1) Try r in \<open>auto simp: reader_next_def\<close>)
next
  case Undo
  obtain r q' where r: "try_unblock (bm_q s) = (r, q')" by (cases "try_unblock (bm_q s)")
  then show ?thesis using assms(1) Undo sq_step.unblock [of "bm_sq s" q'] by (cases r) (auto simp: reader_next_def)
qed (use assms(1) in \<open>auto simp: reader_next_def split: if_splits\<close>)

lemma bm_int_inv: "bm_int N s s' \<Longrightarrow> bm_inv N s \<Longrightarrow> bm_inv N s'"
  by (auto elim!: bm_int.cases intro: write_pass_inv notify_next_inv reader_next_inv)

lemma bm_int_sq: "bm_int N s s' \<Longrightarrow> bm_inv N s \<Longrightarrow> bm_sq s' = bm_sq s \<or> sq_step (bm_sq s) (bm_sq s')"
  by (auto elim!: bm_int.cases dest: write_pass_sq notify_next_sq reader_next_sq)

lemma take_head_not_blocked: "take_head q = Some (Inr (res, q')) \<Longrightarrow> \<not> blocked q \<Longrightarrow> \<not> blocked q'"
  by (auto simp: take_head_def fetch_new_data_def Let_def blocked_def split: if_splits option.splits prod.splits ptr.splits)

lemma close_not_blocked: "close q = Some (Inr (ns, q')) \<Longrightarrow> \<not> blocked q'"
  by (auto simp: close_def clear_cached_elements_def fetch_new_data_def Let_def blocked_def is_dummy_def
      split: if_splits option.splits prod.splits sum.splits)

lemma bm_step_inv:
  assumes "bm_step N s s'" "bm_inv N s"
  shows "bm_inv N s' \<and> (bm_sq s' = bm_sq s \<or> sq_step (bm_sq s) (bm_sq s'))"
  using assms
proof (cases rule: bm_step.cases)
  case bm_internal
  then show ?thesis using assms(2) bm_int_inv bm_int_sq by blast
next
  case (bm_load i n)
  have "sq_step (bm_sq s) ((bm_sq s)\<lparr>writers := (writers (bm_sq s))(i \<mapsto> (m_stack (bm_q s), n))\<rparr>)"
    by (rule sq_step.load) (use bm_load in simp_all)
  then show ?thesis
    using assms(2) bm_load(2,4) unfolding bm_load(1) bm_inv_def mutex_ok_def reader_ok_def threads_ok_def notify_ok_def by simp
next
  case (bm_await r timed)
  have "\<not> has_mutex (bm_pc s)" "\<not> waiting (bm_pc s)" using bm_await(2) by auto
  then show ?thesis
    using assms(2) bm_await(3) unfolding bm_await(1) bm_inv_def mutex_ok_def reader_ok_def threads_ok_def notify_ok_def by simp
next
  case (bm_pop r res q')
  have m: "\<not> has_mutex (bm_pc s)" using bm_pop(2) by auto
  have nb: "\<not> blocked (bm_q s)" using assms(2) bm_pop(2) by (auto simp: bm_inv_def reader_ok_def)
  have "sq_step (bm_sq s) (bm_sq s')" unfolding bm_pop(1) using sq_step.pop [OF bm_pop(3) nb bm_pop(4)] by simp
  then show ?thesis
    using assms(2) m take_head_not_blocked [OF bm_pop(4) nb]
    unfolding bm_pop(1) bm_inv_def mutex_ok_def reader_ok_def threads_ok_def notify_ok_def by simp
next
  case (bm_close r ns q')
  have m: "\<not> has_mutex (bm_pc s)" using bm_close(2) by auto
  have nb: "\<not> blocked (bm_q s)" using assms(2) bm_close(2) by (auto simp: bm_inv_def reader_ok_def)
  have "sq_step (bm_sq s) (bm_sq s')" unfolding bm_close(1) using sq_step.closes [OF bm_close(3) nb bm_close(4)] by simp
  then show ?thesis
    using assms(2) m close_not_blocked [OF bm_close(4)]
    unfolding bm_close(1) bm_inv_def mutex_ok_def reader_ok_def threads_ok_def notify_ok_def by simp
qed (auto simp: bm_inv_def mutex_ok_def reader_ok_def threads_ok_def notify_ok_def)

lemma bm_reach_inv: "bm_reach N s \<Longrightarrow> bm_inv N s \<and> sq_reach (bm_sq s)"
proof (induction rule: bm_reach.induct)
  case (bm_start s)
  then have "bm_inv N s"
    by (auto simp: bm_init_def sq_init_def sq_new_def bm_inv_def mutex_ok_def reader_ok_def threads_ok_def notify_ok_def blocked_def)
  then show ?case using bm_start by (simp add: bm_init_def sq_reach.init)
next
  case (bm_next s s')
  with bm_step_inv [OF bm_next(2)] show ?case by (auto intro: sq_reach.step)
qed

section \<open>The reader returns\<close>

text \<open>What is left to do: writers that have not pushed their node, those that will fail once more because the stack has changed since they
  read it, and the steps of the rest.\<close>

fun reader_weight :: "await_pc \<Rightarrow> nat" where
  "reader_weight Check = 1" | "reader_weight Try = 1" | "reader_weight Lock = 3" | "reader_weight Test = 2" | "reader_weight Enter = 5"
| "reader_weight Wait = 4" | "reader_weight Woken = 3" | "reader_weight Timed = 3" | "reader_weight Undo = 2" | "reader_weight (Leave _) = 1"
| "reader_weight _ = 0"

fun notify_weight :: "notify_pc \<Rightarrow> nat" where
  "notify_weight N_none = 0" | "notify_weight N_lock = 3" | "notify_weight N_notify = 2" | "notify_weight N_unlock = 1"

definition stale :: "sqsys \<Rightarrow> nat \<Rightarrow> bool" where
  "stale sq i \<longleftrightarrow> (case writers sq i of None \<Rightarrow> False | Some (e, _) \<Rightarrow> e \<noteq> m_stack (queue sq))"

definition todo :: "nat \<Rightarrow> bm_sys \<Rightarrow> nat \<times> nat \<times> nat" where
  "todo N s = (card {i. i < N \<and> writers (bm_sq s) i \<noteq> None}, card {i. i < N \<and> stale (bm_sq s) i},
     (\<Sum>i<N. notify_weight (bm_note s i)) + reader_weight (bm_pc s))"

abbreviation todo_less :: "((nat \<times> nat \<times> nat) \<times> (nat \<times> nat \<times> nat)) set" where
  "todo_less \<equiv> less_than <*lex*> less_than <*lex*> less_than"

text \<open>A call that has not returned yet and will find data.\<close>

definition pending :: "bm_sys \<Rightarrow> bool" where
  "pending s \<longleftrightarrow> can_fetch_more (bm_q s) \<and> bm_pc s \<notin> {Idle, Leave False, Done False}"

lemma card_drop: "i < N \<Longrightarrow> P i \<Longrightarrow> \<not> Q i \<Longrightarrow> (\<And>j. Q j \<Longrightarrow> P j) \<Longrightarrow> card {j. j < N \<and> Q j} < card {j. j < (N::nat) \<and> P j}"
  by (rule psubset_card_mono) auto

lemma sum_notify: "i < (N::nat) \<Longrightarrow> (\<Sum>j<N. notify_weight ((f(i := x)) j)) + notify_weight (f i) = (\<Sum>j<N. notify_weight (f j)) + notify_weight x"
proof -
  assume i: "i < N"
  have "(\<Sum>j<N. notify_weight ((f(i := x)) j)) = notify_weight x + (\<Sum>j\<in>{..<N} - {i}. notify_weight (f j))"
    using i sum.remove [of "{..<N}" i "\<lambda>j. notify_weight ((f(i := x)) j)"] by simp
  then show ?thesis using i sum.remove [of "{..<N}" i "\<lambda>j. notify_weight (f j)"] by simp
qed

lemma write_pass_progress:
  assumes "write_pass i s = Some s'" "i < N" "pending s"
  shows "(todo N s', todo N s) \<in> todo_less \<and> pending s'"
  using assms(1)
proof (cases rule: write_pass_cases)
  case (retry e n q')
  have "can_fetch_more q' = can_fetch_more (bm_q s)" by (rule stack_cong) (simp_all add: retry)
  moreover have "card {j. j < N \<and> stale (bm_sq s') j} < card {j. j < N \<and> stale (bm_sq s) j}"
    by (rule card_drop [OF assms(2)]) (use retry(1,4) in \<open>auto simp: retry(5,7) stale_def split: if_splits option.splits\<close>)
  moreover have "{j. j < N \<and> writers (bm_sq s') j \<noteq> None} = {j. j < N \<and> writers (bm_sq s) j \<noteq> None}"
    using retry(1) by (auto simp: retry(7))
  ultimately show ?thesis using assms(3) by (auto simp: todo_def pending_def retry(7))
next
  case (rejected e n)
  have "card {j. j < N \<and> writers (bm_sq s') j \<noteq> None} < card {j. j < N \<and> writers (bm_sq s) j \<noteq> None}"
    by (rule card_drop [OF assms(2)]) (use rejected(1) in \<open>auto simp: rejected(3) split: if_splits\<close>)
  then show ?thesis using assms(3) by (auto simp: todo_def pending_def rejected(3))
next
  case (pushed e n q' res)
  have "card {j. j < N \<and> writers (bm_sq s') j \<noteq> None} < card {j. j < N \<and> writers (bm_sq s) j \<noteq> None}"
    by (rule card_drop [OF assms(2)]) (use pushed(1) in \<open>auto simp: pushed(7) split: if_splits\<close>)
  then show ?thesis using assms(3) pushed(4) by (auto simp: todo_def pending_def pushed(7))
qed

lemma todo_later:
  assumes "bm_sq s' = bm_sq s" "(\<Sum>i<N. notify_weight (bm_note s' i)) + reader_weight (bm_pc s') < (\<Sum>i<N. notify_weight (bm_note s i)) + reader_weight (bm_pc s)"
  shows "(todo N s', todo N s) \<in> todo_less"
  using assms by (simp add: todo_def)

lemma notify_next_progress:
  assumes "notify_next i s = Some s'" "i < N" "pending s"
  shows "(todo N s', todo N s) \<in> todo_less \<and> pending s'"
proof
  obtain x where x: "bm_note s' = (bm_note s)(i := x)" "notify_weight x < notify_weight (bm_note s i)"
    "reader_weight (bm_pc s') \<le> reader_weight (bm_pc s)" "bm_pc s' = bm_pc s \<or> bm_pc s' = Woken"
    using assms(1) by (auto simp: notify_next_def split: notify_pc.splits if_splits)
  have "(\<Sum>i<N. notify_weight (bm_note s' i)) < (\<Sum>i<N. notify_weight (bm_note s i))"
    using sum_notify [OF assms(2), of "bm_note s" x] x(2) unfolding x(1) by linarith
  with x(3) show "(todo N s', todo N s) \<in> todo_less" by (intro todo_later notify_next_sq [OF assms(1)]) simp
  show "pending s'" using assms(3) x(4) notify_next_sq [OF assms(1)] by (auto simp: pending_def)
qed

lemma reader_next_progress:
  assumes "reader_next s = Some s'" "pending s" "bm_inv N s"
  shows "(todo N s', todo N s) \<in> todo_less \<and> pending s'"
proof -
  have q: "\<not> blocked (bm_q s) \<and> fst (try_block (bm_q s)) = False" if "m_head (bm_q s) = Null"
    using that assms(2) by (auto simp: pending_def can_fetch_more_def is_dummy_def blocked_def try_block_def)
  then have u: "\<not> fst (try_unblock (bm_q s))" if "m_head (bm_q s) = Null"
    using that by (auto simp: try_unblock_def blocked_def)
  have h: "bm_pc s = Try \<or> waiting (bm_pc s) \<Longrightarrow> m_head (bm_q s) = Null" using assms(3) by (auto simp: bm_inv_def reader_ok_def)
  have "bm_sq s' = bm_sq s \<and> bm_note s' = bm_note s \<and> reader_weight (bm_pc s') < reader_weight (bm_pc s) \<and> bm_pc s' \<notin> {Idle, Leave False, Done False}"
    using assms(1,2) h q u by (cases "bm_pc s") (auto simp: reader_next_def pending_def split: prod.splits bool.splits if_splits)
  then show ?thesis using assms(2) by (auto simp: pending_def intro!: todo_later)
qed

lemma bm_int_progress:
  assumes "bm_int N s s'" "pending s" "bm_inv N s"
  shows "(todo N s', todo N s) \<in> todo_less \<and> pending s'"
  using assms by (cases rule: bm_int.cases) (auto dest: write_pass_progress notify_next_progress reader_next_progress)

text \<open>As long as the call has not returned, one of the threads can go on.\<close>

lemma notify_enabled:
  assumes "bm_inv N s" "i < N" "bm_note s i \<in> {N_lock, N_notify, N_unlock}" "bm_mtx s \<noteq> Some Reader"
  shows "\<exists>s'. bm_int N s s'"
proof (cases "bm_mtx s")
  case None
  then have "notify_next i s \<noteq> None" using assms(3) by (auto simp: notify_next_def)
  then show ?thesis using assms(2) int_notify by blast
next
  case (Some h)
  then obtain j where j: "bm_mtx s = Some (Writer j)" using assms(4) by (cases h) auto
  then have "bm_note s j \<in> {N_notify, N_unlock}" using assms(1) by (auto simp: bm_inv_def mutex_ok_def)
  then have "notify_next j s \<noteq> None" "j < N"
    using assms(1) by (auto simp: notify_next_def bm_inv_def threads_ok_def linorder_not_le [symmetric])
  then show ?thesis using int_notify by blast
qed

lemma bm_int_enabled:
  assumes "bm_inv N s" "pending s" "bm_pc s \<noteq> Done True"
  shows "\<exists>s'. bm_int N s s'"
proof (cases "reader_next s")
  case None
  have w: "bm_pc s \<in> {Lock, Woken, Timed} \<and> bm_mtx s \<noteq> None \<or> bm_pc s = Wait"
    using None assms(2,3) by (cases "bm_pc s") (auto simp: reader_next_def pending_def split: if_splits prod.splits bool.splits)
  then have m: "bm_mtx s \<noteq> Some Reader" using assms(1) by (auto simp: bm_inv_def mutex_ok_def)
  have "noted N {N_lock, N_notify, N_unlock} (bm_note s)"
  proof (cases "bm_pc s = Wait")
    case True
    then have "\<not> blocked (bm_q s)" using assms(1,2) by (auto simp: bm_inv_def reader_ok_def pending_def can_fetch_more_def is_dummy_def blocked_def)
    then show ?thesis using assms(1) True by (auto simp: bm_inv_def notify_ok_def elim: noted_mono)
  next
    case False
    with w m obtain j where "bm_mtx s = Some (Writer j)" by (metis holder.exhaust option.exhaust)
    then have "bm_note s j \<in> {N_notify, N_unlock}" using assms(1) by (auto simp: bm_inv_def mutex_ok_def)
    then show ?thesis using assms(1) by (auto simp: noted_def bm_inv_def threads_ok_def linorder_not_le [symmetric])
  qed
  then show ?thesis using notify_enabled [OF assms(1) _ _ m] by (auto simp: noted_def)
qed (blast intro: int_reader)

lemma pending_returns: "bm_inv N s \<Longrightarrow> pending s \<Longrightarrow> returns_data N s"
proof (induction s rule: wf_induct_rule [OF wf_inv_image [of todo_less "todo N"]])
  case (2 s)
  show ?case
  proof (cases "bm_pc s = Done True")
    case False
    obtain s' where "bm_int N s s'" using bm_int_enabled [OF 2(2,3) False] by blast
    then show ?thesis
    proof (rule runs)
      fix t assume t: "bm_int N s t"
      show "returns_data N t"
        using 2(1) [of t] bm_int_progress [OF t 2(3,2)] bm_int_inv [OF t 2(2)] by (simp add: inv_image_def)
    qed
  qed (rule returned)
qed auto

section \<open>Properties\<close>

text \<open>
  C8. There are no lost wake-ups: once there is a message for a reader that called \<open>synchronized_await\<close>, the call returns and reports data, in every
  order of the steps of reader and writers, without spurious wake-ups or the time limit, and for any number of writers, among them
  those that still push or notify. This holds at each point of the call, also between the test of the mark and the beginning of \<open>wait\<close>.
\<close>

theorem await_returns:
  assumes "bm_reach N s" "can_fetch_more (bm_q s)" "bm_pc s \<notin> {Idle, Leave False, Done False}"
  shows "returns_data N s"
  using pending_returns [of N s] bm_reach_inv [OF assms(1)] assms(2,3) by (simp add: pending_def)

text \<open>A run in which the message arrives after the reader has seen the mark and before it sleeps.\<close>

lemma reader_reach: "bm_reach N s \<Longrightarrow> reader_next s = Some s' \<Longrightarrow> bm_reach N s'"
  by (erule bm_next) (rule bm_internal, rule int_reader)

definition bm_at :: "sqsys \<Rightarrow> await_pc \<Rightarrow> holder option \<Rightarrow> notify_pc \<Rightarrow> bm_sys" where
  "bm_at sq pc m n = \<lparr>bm_sq = sq, bm_pc = pc, bm_timed = False, bm_mtx = m, bm_note = (\<lambda>i. N_none)(0 := n)\<rparr>"

lemma enter_reach: "bm_reach 1 (bm_at sq_blocked Enter (Some Reader) N_none)"
proof -
  have "bm_init (bm_at sq_example Idle None N_none)" by (auto simp: bm_init_def bm_at_def sq_init_def sq_example_def)
  then have "bm_reach 1 (bm_at sq_example Idle None N_none)" by (rule bm_start)
  from bm_next [OF this bm_await [of _ True, where timed = False]] have "bm_reach 1 (bm_at sq_example Check None N_none)"
    by (simp add: bm_at_def sq_example_def sq_new_def closed_def)
  from reader_reach [OF this, of "bm_at sq_example Try None N_none"] have "bm_reach 1 (bm_at sq_example Try None N_none)"
    by (simp add: reader_next_def bm_at_def sq_example_def sq_new_def can_fetch_more_def is_dummy_def)
  from reader_reach [OF this, of "bm_at sq_blocked Lock None N_none"] have "bm_reach 1 (bm_at sq_blocked Lock None N_none)"
    by (simp add: reader_next_def bm_at_def sq_blocked_def sq_example_def sq_new_def try_block_def blocked_def)
  from reader_reach [OF this, of "bm_at sq_blocked Test (Some Reader) N_none"] have "bm_reach 1 (bm_at sq_blocked Test (Some Reader) N_none)"
    by (simp add: reader_next_def bm_at_def)
  from reader_reach [OF this, of "bm_at sq_blocked Enter (Some Reader) N_none"] show ?thesis
    by (simp add: reader_next_def bm_at_def sq_blocked_def blocked_def)
qed

definition sq_arrived :: sqsys where
  "sq_arrived = \<lparr>queue = \<lparr>m_stack = Node 7, m_head = Null, nxt = (\<lambda>n. Null)(7 := Null)\<rparr>,
     writers = (\<lambda>i. None), enqueued = [7], dequeued = [], blocks = 1, wakeups = 1\<rparr>"

lemma arrived_reach: "bm_reach 1 (bm_at sq_arrived Enter (Some Reader) N_lock)"
proof -
  let ?s = "bm_at sq_blocked Enter (Some Reader) N_none"
  let ?t = "bm_at (sq_blocked\<lparr>writers := (writers sq_blocked)(0 \<mapsto> (m_stack (queue sq_blocked), 7))\<rparr>) Enter (Some Reader) N_none"
  have "\<not> in_queue (queue sq_blocked) 7"
    using in_queue_iff [of "queue sq_blocked" "[]" "[]"] by (simp add: sq_blocked_def sq_example_def sq_new_def holds_def)
  then have "bm_step 1 ?s (?s\<lparr>bm_sq := (bm_sq ?s)\<lparr>writers := (writers (bm_sq ?s))(0 \<mapsto> (m_stack (bm_q ?s), 7))\<rparr>\<rparr>)"
    by (intro bm_load) (simp_all add: bm_at_def sq_blocked_def sq_example_def)
  from bm_next [OF enter_reach this] have t: "bm_reach 1 ?t" by (simp add: bm_at_def)
  have "write_pass 0 ?t = Some (bm_at sq_arrived Enter (Some Reader) N_lock)"
    by (simp add: write_pass_def bm_at_def sq_blocked_def sq_example_def sq_new_def sq_arrived_def enqueue_pass_def is_dummy_def fun_eq_iff)
  then show ?thesis by (intro bm_next [OF t bm_internal] int_write) simp_all
qed

theorem await_returns_witness: "returns_data 1 (bm_at sq_arrived Enter (Some Reader) N_lock)"
  using await_returns [OF arrived_reach] by (simp add: bm_at_def sq_arrived_def)

text \<open>
  When \<open>synchronized_await\<close> has returned, the queue is open and no longer marked as blocked, as \<open>no_scheduling\<close> requires. If it reports data,
  as it always does without a time limit, taking a message succeeds.
\<close>

theorem await_result:
  assumes "bm_reach N s" "bm_pc s = Done r"
  shows "\<not> closed (bm_q s) \<and> \<not> blocked (bm_q s) \<and> (r \<longrightarrow> (\<exists>n q'. take_head (bm_q s) = Some (Inr (Some n, q'))))"
proof -
  have ok: "reader_ok s" "sq_reach (bm_sq s)" using bm_reach_inv [OF assms(1)] by (simp_all add: bm_inv_def)
  then have nb: "\<not> closed (bm_q s)" "\<not> blocked (bm_q s)" and more: "r \<Longrightarrow> can_fetch_more (bm_q s)"
    using assms(2) by (auto simp: reader_ok_def)
  obtain c st where h: "holds (bm_q s) c st" using sq_reach_inv [OF ok(2)] by (auto simp: sq_inv_def)
  have "contents c st \<noteq> []" if r
    using more [OF that] h nb by (auto simp: contents_def can_fetch_more_def is_dummy_def holds_def closed_def)
  with take_head_holds [OF h nb] nb show ?thesis by (cases "contents c st") auto
qed

theorem await_result_witness: "\<not> blocked (queue sq_arrived) \<and> (\<exists>n q'. take_head (queue sq_arrived) = Some (Inr (Some n, q')))"
proof -
  let ?s = "\<lambda>pc m n. bm_at sq_arrived pc m n"
  have n: "bm_int 1 (?s pc m n) (?s pc' m' n')" if "notify_next 0 (?s pc m n) = Some (?s pc' m' n')" for pc m n pc' m' n'
    using that by (intro int_notify [of 0]) simp_all
  have "bm_reach 1 (?s Wait None N_lock)"
    using reader_reach [OF arrived_reach, of "?s Wait None N_lock"] by (simp add: reader_next_def bm_at_def)
  from bm_next [OF this bm_internal [OF n]] have "bm_reach 1 (?s Wait (Some (Writer 0)) N_notify)"
    by (simp add: notify_next_def bm_at_def)
  from bm_next [OF this bm_internal [OF n]] have "bm_reach 1 (?s Woken (Some (Writer 0)) N_unlock)"
    by (simp add: notify_next_def bm_at_def)
  from bm_next [OF this bm_internal [OF n]] have "bm_reach 1 (?s Woken None N_none)"
    by (simp add: notify_next_def bm_at_def)
  from reader_reach [OF this] have "bm_reach 1 (?s Test (Some Reader) N_none)" by (simp add: reader_next_def bm_at_def)
  from reader_reach [OF this] have "bm_reach 1 (?s (Leave True) (Some Reader) N_none)" by (simp add: reader_next_def bm_at_def sq_arrived_def blocked_def)
  from reader_reach [OF this] have "bm_reach 1 (?s (Done True) None N_none)" by (simp add: reader_next_def bm_at_def)
  from await_result [OF this, of True] show ?thesis by (simp add: bm_at_def)
qed

end
