(* ===== verification/Blocking_Actor.thy ===== *)
theory Blocking_Actor
  imports Event_Actor Single_Reader_Queue
begin

text \<open>
  Blocking actors: the receive functions of an actor with a thread of its own (\<open>proper_actor<Base, Policies, true>\<close> in
  caf/detail/proper_actor.hpp), the invoke policy that allows receives inside of handlers (caf/policy/nestable_invoke.hpp) and the life
  of the thread (caf/policy/no_resume.hpp, caf/policy/no_scheduling.hpp). The mailbox is the list of its contents; what arrives
  while the actor waits is an argument: one batch of messages for each return of \<open>await_data\<close>. Handlers are arbitrary functions on the state, so
  that they can receive messages themselves.
\<close>

section \<open>Definitions\<close>

subsection \<open>State and user code\<close>

text \<open>A call ends with an exception, or does not end because nothing arrives any more.\<close>

datatype blk_stop = Raised exn | Starved

record 'u blk_actor =
  ba_la :: "'u content local_actor"
  ba_trap_exit :: bool
  ba_pending :: "u32 list"                     \<comment> \<open>\<open>m_pending_timeouts\<close>\<close>
  ba_next_timeout :: u32                       \<comment> \<open>\<open>m_next_timeout_id\<close>\<close>
  ba_unlinked :: "nat list"
  ba_effects :: "'u content la_effect list"
  ba_mailbox :: "'u element list"
  ba_arrivals :: "'u element list list"
  ba_cache :: "'u element option list"         \<comment> \<open>\<open>None\<close> is a null pointer\<close>
  ba_taken :: "'u element list"                \<comment> \<open>the messages that ended a receive, an observation\<close>

record ('b, 'u) blk_code =
  bc_run :: "'b \<Rightarrow> 'u content \<Rightarrow> 'u blk_actor \<Rightarrow> (blk_stop + 'u content option option) \<times> 'u blk_actor"
  bc_run_timeout :: "'b \<Rightarrow> 'u blk_actor \<Rightarrow> (blk_stop + unit) \<times> 'u blk_actor"
  bc_timeout :: "'b \<Rightarrow> nat option"
  bc_sync_failure :: "('u blk_actor \<Rightarrow> (blk_stop + unit) \<times> 'u blk_actor) option"

definition ba_quit :: "nat \<Rightarrow> 'u blk_actor \<Rightarrow> blk_stop \<times> 'u blk_actor" where
  "ba_quit reason a = (Raised (Exn_actor_exited reason), a\<lparr>ba_la := (ba_la a)\<lparr>m_planned_exit_reason := reason\<rparr>\<rparr>)"

subsection \<open>Timeouts\<close>

definition ba_request_timeout :: "nat \<Rightarrow> 'u blk_actor \<Rightarrow> u32 \<times> 'u blk_actor" where
  "ba_request_timeout t a =
     (let tid = ba_next_timeout a + 1; self = la_id (ba_la a);
          a1 = (if t = 0
                then a\<lparr>ba_mailbox := ba_mailbox a @ [\<lparr>el_sender = Some self, el_mid = invalid_message_id, el_msg = C_timeout tid, el_marked = False\<rparr>]\<rparr>
                else a\<lparr>ba_effects := ba_effects a @ [Delayed t self (Some self) invalid_message_id (C_timeout tid)]\<rparr>)
      in (tid, a1\<lparr>ba_next_timeout := tid, ba_pending := ba_pending a @ [tid]\<rparr>))"

definition ba_handle_timeout :: "('b, 'u) blk_code \<Rightarrow> 'b \<Rightarrow> u32 \<Rightarrow> 'u blk_actor \<Rightarrow> (blk_stop + unit) \<times> 'u blk_actor" where
  "ba_handle_timeout code bhvr tid a =
     (if tid \<in> set (ba_pending a) then bc_run_timeout code bhvr (a\<lparr>ba_pending := remove1 tid (ba_pending a)\<rparr>) else (Inr (), a))"

definition pop_timeout :: "'u blk_actor \<Rightarrow> 'u blk_actor" where
  "pop_timeout a = a\<lparr>ba_pending := butlast (ba_pending a)\<rparr>"

definition push_timeout :: "'u blk_actor \<Rightarrow> 'u blk_actor" where
  "push_timeout a = (let tid = ba_next_timeout a + 1 in a\<lparr>ba_next_timeout := tid, ba_pending := ba_pending a @ [tid]\<rparr>)"

definition ba_waits_for_timeout :: "u32 \<Rightarrow> 'u blk_actor \<Rightarrow> bool" where
  "ba_waits_for_timeout tid a \<longleftrightarrow> tid \<in> set (ba_pending a)"

definition ba_is_active_timeout :: "u32 \<Rightarrow> 'u blk_actor \<Rightarrow> bool" where
  "ba_is_active_timeout tid a \<longleftrightarrow> ba_pending a \<noteq> [] \<and> last (ba_pending a) = tid"

subsection \<open>Handling one message\<close>

type_synonym 'u node = "nat option \<times> message_id \<times> 'u content"

definition ba_node :: "'u blk_actor \<Rightarrow> 'u node" where
  "ba_node a = (node_sender (ba_la a), node_mid (ba_la a), node_msg (ba_la a))"

definition ba_set_node :: "'u node \<Rightarrow> 'u blk_actor \<Rightarrow> 'u blk_actor" where
  "ba_set_node n a = (let (s, mid, m) = n in a\<lparr>ba_la := (ba_la a)\<lparr>node_sender := s, node_mid := mid, node_msg := m\<rparr>\<rparr>)"

text \<open>The policy for nested receives. An element is marked only while it is processed, and then it is in no queue.\<close>

definition nst_begin :: "'u element \<Rightarrow> 'u blk_actor \<Rightarrow> 'u node \<times> 'u blk_actor" where
  "nst_begin node a = (ba_node a, push_timeout (ba_set_node (el_sender node, el_mid node, el_msg node) a))"

definition nst_cleanup :: "'u node \<Rightarrow> 'u blk_actor \<Rightarrow> 'u blk_actor" where
  "nst_cleanup previous a = pop_timeout (ba_set_node previous a)"

definition ba_filter_msg :: "'u element \<Rightarrow> 'u blk_actor \<Rightarrow> (blk_stop + msg_type) \<times> 'u blk_actor" where
  "ba_filter_msg node a =
     (let mid = el_mid node;
          response_or_ordinary = (\<lambda>a. if is_response mid
             then (Inr (if awaits (ba_la a) mid then Sync_response else Expired_sync_response), a) else (Inr Ordinary, a))
      in case el_msg node of
          C_exit source reason \<Rightarrow>
            let a1 = a\<lparr>ba_unlinked := source # ba_unlinked a\<rparr>
            in if \<not> ba_trap_exit a1
               then if reason \<noteq> normal then (let (e, a2) = ba_quit reason a1 in (Inl e, a2)) else (Inr Normal_exit, a1)
               else response_or_ordinary a1
        | C_timeout tid \<Rightarrow>
            if ba_is_active_timeout tid a then (Inr (Timeout tid), a)
            else if ba_waits_for_timeout tid a then (Inr Inactive_timeout, a) else (Inr Expired_timeout, a)
        | C_sync_timeout \<Rightarrow> if is_response mid then (Inr Timeout_response, a) else response_or_ordinary a
        | _ \<Rightarrow> response_or_ordinary a)"

definition ba_respond :: "'u content \<Rightarrow> 'u blk_actor \<Rightarrow> 'u blk_actor" where
  "ba_respond m a = (let (la, p) = make_response_promise (ba_la a) in a\<lparr>ba_la := la, ba_effects := ba_effects a @ deliver p m\<rparr>)"

definition ba_invoke_fun :: "('b, 'u) blk_code \<Rightarrow> 'b \<Rightarrow> 'u content \<Rightarrow> 'u blk_actor \<Rightarrow> (blk_stop + bool) \<times> 'u blk_actor" where
  "ba_invoke_fun code bhvr msg a = (case bc_run code bhvr msg a of
      (Inl e, a1) \<Rightarrow> (Inl e, a1)
    | (Inr None, a1) \<Rightarrow> (Inr False, a1)
    | (Inr (Some None), a1) \<Rightarrow>
        (let mid = node_mid (ba_la a1)
         in if is_request mid \<and> \<not> is_answered mid then (Inr True, ba_respond C_unit a1) else (Inr True, a1))
    | (Inr (Some (Some m)), a1) \<Rightarrow> (Inr True, ba_respond m a1))"

definition ba_handle_sync_failure :: "('b, 'u) blk_code \<Rightarrow> 'u blk_actor \<Rightarrow> (blk_stop + unit) \<times> 'u blk_actor" where
  "ba_handle_sync_failure code a =
     (case bc_sync_failure code of Some f \<Rightarrow> f a | None \<Rightarrow> (let (e, a1) = ba_quit unhandled_sync_failure a in (Inl e, a1)))"

definition ba_mark_arrived :: "message_id \<Rightarrow> 'u blk_actor \<Rightarrow> 'u blk_actor" where
  "ba_mark_arrived rid a = a\<lparr>ba_la := mark_arrived rid (ba_la a)\<rparr>"

definition ba_handle_response :: "('b, 'u) blk_code \<Rightarrow> bool \<Rightarrow> 'b \<Rightarrow> 'u element \<Rightarrow> message_id \<Rightarrow> 'u blk_actor
    \<Rightarrow> (blk_stop + hm_result) \<times> 'u blk_actor" where
  "ba_handle_response code failure_on_mismatch bhvr node awaited a =
     (if mid_valid awaited \<and> el_mid node = awaited
      then (let (previous, a1) = nst_begin node a
            in case ba_invoke_fun code bhvr (el_msg node) a1 of
                 (Inl e, a2) \<Rightarrow> (Inl e, a2)
               | (Inr res, a2) \<Rightarrow>
                   (case (if \<not> res \<and> failure_on_mismatch then ba_handle_sync_failure code a2 else (Inr (), a2)) of
                      (Inl e, a3) \<Rightarrow> (Inl e, a3)
                    | (Inr _, a3) \<Rightarrow> (Inr Hm_handled, nst_cleanup previous (ba_mark_arrived awaited a3))))
      else (Inr Hm_cache, a))"

definition ba_handle_ordinary :: "('b, 'u) blk_code \<Rightarrow> 'b \<Rightarrow> 'u element \<Rightarrow> message_id \<Rightarrow> 'u blk_actor
    \<Rightarrow> (blk_stop + hm_result) \<times> 'u blk_actor" where
  "ba_handle_ordinary code bhvr node awaited a =
     (if \<not> mid_valid awaited
      then (let (previous, a1) = nst_begin node a
            in case ba_invoke_fun code bhvr (el_msg node) a1 of
                 (Inl e, a2) \<Rightarrow> (Inl e, a2)
               | (Inr res, a2) \<Rightarrow> (Inr (if res then Hm_handled else Hm_cache), nst_cleanup previous a2))
      else (Inr Hm_cache, a))"

definition ba_handle_message :: "('b, 'u) blk_code \<Rightarrow> 'b \<Rightarrow> 'u element \<Rightarrow> message_id \<Rightarrow> 'u blk_actor
    \<Rightarrow> (blk_stop + hm_result) \<times> 'u blk_actor" where
  "ba_handle_message code bhvr node awaited a =
     (if el_marked node then (Inr Hm_skip, a)
      else case ba_filter_msg node a of
        (Inl e, a1) \<Rightarrow> (Inl e, a1)
      | (Inr ty, a1) \<Rightarrow> (case ty of
          Normal_exit \<Rightarrow> (Inr Hm_drop, a1)
        | Expired_sync_response \<Rightarrow> (Inr Hm_drop, a1)
        | Expired_timeout \<Rightarrow> (Inr Hm_drop, a1)
        | Inactive_timeout \<Rightarrow> (Inr Hm_skip, a1)
        | Non_normal_exit \<Rightarrow> (Inr Hm_handled, a1)
        | Timeout tid \<Rightarrow> (case ba_handle_timeout code bhvr tid a1 of
              (Inl e, a2) \<Rightarrow> (Inl e, a2)
            | (Inr _, a2) \<Rightarrow> (Inr Hm_handled, if mid_valid awaited then ba_mark_arrived awaited a2 else a2))
        | Timeout_response \<Rightarrow> ba_handle_response code False bhvr node awaited a1
        | Sync_response \<Rightarrow> ba_handle_response code True bhvr node awaited a1
        | Ordinary \<Rightarrow> ba_handle_ordinary code bhvr node awaited a1))"

text \<open>\<open>invoke_message\<close> for a pointer that may be null: the result and the pointer afterwards. The message that ends the receive is noted.\<close>

definition ba_invoke_message :: "('b, 'u) blk_code \<Rightarrow> 'b \<Rightarrow> message_id \<Rightarrow> 'u element option \<Rightarrow> 'u blk_actor
    \<Rightarrow> (blk_stop + bool \<times> 'u element option) \<times> 'u blk_actor" where
  "ba_invoke_message code bhvr awaited node_ptr a = (case node_ptr of
      None \<Rightarrow> (Inr (False, None), a)
    | Some node \<Rightarrow> (case ba_handle_message code bhvr node awaited a of
          (Inl e, a1) \<Rightarrow> (Inl e, a1\<lparr>ba_taken := ba_taken a1 @ [node]\<rparr>)
        | (Inr Hm_handled, a1) \<Rightarrow> (Inr (True, None), a1\<lparr>ba_taken := ba_taken a1 @ [node]\<rparr>)
        | (Inr Hm_cache, a1) \<Rightarrow> (Inr (False, Some node), a1)
        | (Inr Hm_skip, a1) \<Rightarrow> (Inr (False, Some node), a1)
        | (Inr Hm_drop, a1) \<Rightarrow> (Inr (False, None), a1)))"

subsection \<open>Receiving\<close>

text \<open>The first part of \<open>dequeue_response\<close>: the cache. An exception destroys the local vector.\<close>

partial_function (option) cache_phase :: "('b, 'u) blk_code \<Rightarrow> 'b \<Rightarrow> message_id \<Rightarrow> 'u element option list \<Rightarrow> 'u blk_actor
    \<Rightarrow> ((blk_stop + bool) \<times> 'u blk_actor) option" where
  "cache_phase code bhvr mid tmp_vec a = (case ba_cache a of
      [] \<Rightarrow> Some (Inr False, a\<lparr>ba_cache := tmp_vec @ ba_cache a\<rparr>)
    | tmp # rest \<Rightarrow> (case ba_invoke_message code bhvr mid tmp (a\<lparr>ba_cache := rest\<rparr>) of
          (Inl e, a1) \<Rightarrow> Some (Inl e, a1)
        | (Inr (handled, tmp'), a1) \<Rightarrow>
            if handled then Some (Inr True, a1\<lparr>ba_cache := tmp_vec @ ba_cache a1\<rparr>)
            else cache_phase code bhvr mid (tmp_vec @ [tmp']) a1))"

text \<open>The second part: the loop over the mailbox.\<close>

partial_function (option) mailbox_phase :: "('b, 'u) blk_code \<Rightarrow> 'b \<Rightarrow> message_id \<Rightarrow> 'u blk_actor
    \<Rightarrow> ((blk_stop + unit) \<times> 'u blk_actor) option" where
  "mailbox_phase code bhvr mid a = (case ba_mailbox a of
      [] \<Rightarrow> (case ba_arrivals a of
          [] \<Rightarrow> Some (Inl Starved, a)
        | es # later \<Rightarrow> mailbox_phase code bhvr mid (a\<lparr>ba_mailbox := es, ba_arrivals := later\<rparr>))
    | msg # rest \<Rightarrow> (case ba_invoke_message code bhvr mid (Some msg) (a\<lparr>ba_mailbox := rest\<rparr>) of
          (Inl e, a1) \<Rightarrow> Some (Inl e, a1)
        | (Inr (handled, msg'), a1) \<Rightarrow>
            if handled then Some (Inr (), a1)
            else mailbox_phase code bhvr mid (case msg' of Some m \<Rightarrow> a1\<lparr>ba_cache := ba_cache a1 @ [Some m]\<rparr> | None \<Rightarrow> a1)))"

declare cache_phase.simps [code] mailbox_phase.simps [code]

text \<open>The scope guard removes the timeout unless the call is still waiting.\<close>

definition timeout_guard :: "u32 option \<Rightarrow> (blk_stop + unit) \<times> 'u blk_actor \<Rightarrow> (blk_stop + unit) \<times> 'u blk_actor" where
  "timeout_guard tid r = (case tid of
      Some t \<Rightarrow> if fst r = Inl Starved then r else (fst r, (snd r)\<lparr>ba_pending := remove1 t (ba_pending (snd r))\<rparr>)
    | None \<Rightarrow> r)"

definition ask_timeout :: "('b, 'u) blk_code \<Rightarrow> 'b \<Rightarrow> 'u blk_actor \<Rightarrow> u32 option \<times> 'u blk_actor" where
  "ask_timeout code bhvr a =
     (case bc_timeout code bhvr of Some t \<Rightarrow> (let (tid, a1) = ba_request_timeout t a in (Some tid, a1)) | None \<Rightarrow> (None, a))"

definition dequeue_response :: "('b, 'u) blk_code \<Rightarrow> 'b \<Rightarrow> message_id \<Rightarrow> 'u blk_actor \<Rightarrow> ((blk_stop + unit) \<times> 'u blk_actor) option" where
  "dequeue_response code bhvr mid a = (case cache_phase code bhvr mid [] a of
      None \<Rightarrow> None
    | Some (Inl e, a1) \<Rightarrow> Some (Inl e, a1)
    | Some (Inr handled, a1) \<Rightarrow>
        if handled then Some (Inr (), a1)
        else (let (tid, a2) = ask_timeout code bhvr a1 in map_option (timeout_guard tid) (mailbox_phase code bhvr mid a2)))"

subsection \<open>The thread\<close>

definition ns_enqueue :: "nat \<Rightarrow> nat \<Rightarrow> nat option \<Rightarrow> message_id \<Rightarrow> single_reader_queue \<Rightarrow> 'u content la_effect list \<times> single_reader_queue" where
  "ns_enqueue exit_reason ptr sender mid q = (case enqueue ptr q of
      (Inr Queue_closed, q1) \<Rightarrow> (if is_request mid then sync_request_bouncer C_sync_exited exit_reason sender mid else [], q1)
    | (_, q1) \<Rightarrow> ([], q1))"

datatype resume_error = Empty_optional

text \<open>\<open>resume\<close> of \<open>no_resume\<close> after \<open>act()\<close>: how it ended, what the exception handlers of the actor say, and \<open>on_exit\<close>, whose
  exceptions are ignored. The result is the reason \<open>cleanup\<close> is called with.\<close>

definition nr_resume :: "exn option \<Rightarrow> nat option \<Rightarrow> (nat \<Rightarrow> nat) \<Rightarrow> resume_error + nat" where
  "nr_resume outcome handled exit_fun = (case outcome of
      None \<Rightarrow> Inr (exit_fun normal)
    | Some (Exn_actor_exited r) \<Rightarrow> Inr (exit_fun r)
    | Some Exn_other \<Rightarrow> (case handled of Some r \<Rightarrow> Inr (exit_fun r) | None \<Rightarrow> Inl Empty_optional))"

section \<open>Which message is received\<close>

datatype verdict = Take | Keep | Drop

definition response_verdict :: "message_id \<Rightarrow> 'u element \<Rightarrow> verdict" where
  "response_verdict awaited e = (if mid_valid awaited \<and> el_mid e = awaited then Take else Keep)"

definition plain_verdict :: "('u content \<Rightarrow> bool) \<Rightarrow> message_id \<Rightarrow> 'u blk_actor \<Rightarrow> 'u element \<Rightarrow> verdict" where
  "plain_verdict accepts awaited a e =
     (if is_response (el_mid e) then if awaits (ba_la a) (el_mid e) then response_verdict awaited e else Drop
      else if \<not> mid_valid awaited \<and> accepts (el_msg e) then Take else Keep)"

text \<open>What a receive does with a message, if the behavior accepts the contents \<open>accepts\<close>: take it, which ends the receive, keep it
  for later, or drop it.\<close>

definition verdict :: "('u content \<Rightarrow> bool) \<Rightarrow> message_id \<Rightarrow> 'u blk_actor \<Rightarrow> 'u element \<Rightarrow> verdict" where
  "verdict accepts awaited a e =
     (if el_marked e then Keep
      else case el_msg e of
          C_exit source reason \<Rightarrow> if \<not> ba_trap_exit a then if reason \<noteq> normal then Take else Drop else plain_verdict accepts awaited a e
        | C_timeout tid \<Rightarrow> if ba_is_active_timeout tid a then Take else if ba_waits_for_timeout tid a then Keep else Drop
        | C_sync_timeout \<Rightarrow> if is_response (el_mid e) then response_verdict awaited e else plain_verdict accepts awaited a e
        | _ \<Rightarrow> plain_verdict accepts awaited a e)"

definition kept :: "('u content \<Rightarrow> bool) \<Rightarrow> message_id \<Rightarrow> 'u blk_actor \<Rightarrow> 'u element list \<Rightarrow> 'u element list" where
  "kept accepts awaited a = filter (\<lambda>e. verdict accepts awaited a e \<noteq> Drop)"



lemma verdict_frame [simp]:
  "verdict acc mid (a\<lparr>ba_unlinked := u\<rparr>) = verdict acc mid a" "verdict acc mid (a\<lparr>ba_next_timeout := t\<rparr>) = verdict acc mid a"
  "verdict acc mid (a\<lparr>ba_mailbox := m\<rparr>) = verdict acc mid a" "verdict acc mid (a\<lparr>ba_cache := c\<rparr>) = verdict acc mid a"
  "verdict acc mid (a\<lparr>ba_arrivals := r\<rparr>) = verdict acc mid a"
  by (simp_all add: fun_eq_iff verdict_def plain_verdict_def ba_is_active_timeout_def ba_waits_for_timeout_def split: content.split)

lemma kept_frame [simp]:
  "kept acc mid (a\<lparr>ba_unlinked := u\<rparr>) = kept acc mid a" "kept acc mid (a\<lparr>ba_next_timeout := t\<rparr>) = kept acc mid a"
  "kept acc mid (a\<lparr>ba_mailbox := m\<rparr>) = kept acc mid a" "kept acc mid (a\<lparr>ba_cache := c\<rparr>) = kept acc mid a"
  "kept acc mid (a\<lparr>ba_arrivals := r\<rparr>) = kept acc mid a"
  by (simp_all add: kept_def)



definition same_actor :: "'u blk_actor \<Rightarrow> 'u blk_actor \<Rightarrow> bool" where
  "same_actor a a' \<longleftrightarrow> (\<exists>u t. a' = a\<lparr>ba_unlinked := u, ba_next_timeout := t\<rparr>)"




lemma same_actor_trans: "same_actor (a\<lparr>ba_unlinked := u\<rparr>) a' \<Longrightarrow> same_actor a a'"
  by (auto simp: same_actor_def)













section \<open>Receiving\<close>





text \<open>The messages of the cache, without the null pointers.\<close>

definition cached :: "'u element option list \<Rightarrow> 'u element list" where
  "cached c = List.map_filter (\<lambda>x. x) c"

lemma cached_simps [simp]:
  "cached [] = []" "cached (None # c) = cached c" "cached (Some e # c) = e # cached c" "cached (c @ c') = cached c @ cached c'"
  "cached (map Some es) = es"
  by (simp_all add: cached_def List.map_filter_def) (induction es; simp)






definition waiting_msgs :: "'u blk_actor \<Rightarrow> 'u element list" where
  "waiting_msgs a = cached (ba_cache a) @ ba_mailbox a @ concat (ba_arrivals a)"


text \<open>An actor with the messages 1 and 2 in its cache and 3 in its mailbox, and behaviors that accept one number.\<close>

definition user_msg :: "nat \<Rightarrow> nat element" where
  "user_msg n = \<lparr>el_sender = Some 9, el_mid = invalid_message_id, el_msg = C_user n, el_marked = False\<rparr>"

definition blk_sample :: "nat blk_actor" where
  "blk_sample = \<lparr>ba_la = \<lparr>la_id = 1, m_last_request_id = invalid_message_id, m_pending_responses = [], node_sender = None,
       node_mid = invalid_message_id, node_msg = C_unit, m_planned_exit_reason = 0, is_blocking = True, is_registered_flag = True\<rparr>,
     ba_trap_exit = False, ba_pending = [], ba_next_timeout = 0, ba_unlinked = [], ba_effects = [],
     ba_mailbox = [user_msg 3], ba_arrivals = [[user_msg 4]], ba_cache = [Some (user_msg 1), Some (user_msg 2)], ba_taken = []\<rparr>"

definition number_code :: "(blk_stop + nat content option option) \<Rightarrow> (nat, nat) blk_code" where
  "number_code res = \<lparr>bc_run = (\<lambda>b m a. if m = C_user b then (res, a) else (Inr None, a)), bc_run_timeout = (\<lambda>b a. (Inr (), a)),
     bc_timeout = (\<lambda>b. None), bc_sync_failure = None\<rparr>"



text \<open>A handler that is started from the cache and receives a message itself does not see the messages in front of its own, which are in a local
  vector at that time: here the handler of 2 waits for 1, which has arrived long ago. The same handler is started
  from the mailbox without trouble.\<close>

definition nested_code :: "(nat, nat) blk_code" where
  "nested_code = (number_code (Inr (Some None)))\<lparr>bc_run := (\<lambda>b m a. if m = C_user b
     then (case dequeue_response (number_code (Inr (Some None))) 1 invalid_message_id a of
             Some (Inl s, a') \<Rightarrow> (Inl s, a') | Some (Inr _, a') \<Rightarrow> (Inr (Some None), a') | None \<Rightarrow> (Inl Starved, a))
     else (Inr None, a))\<rparr>"

lemma nested_receive_starves:
  "map_option fst (dequeue_response nested_code 2 invalid_message_id blk_sample) = Some (Inl Starved)"
  "map_option fst (dequeue_response nested_code 2 invalid_message_id (blk_sample\<lparr>ba_cache := [], ba_mailbox := [user_msg 1, user_msg 2]\<rparr>)) = Some (Inr ())"
  by (code_simp, code_simp)

text \<open>An exception of a handler that is started from the cache destroys the messages in front of its own.\<close>

lemma exception_loses_messages:
  "map_option (map el_msg \<circ> waiting_msgs \<circ> snd) (dequeue_response (number_code (Inl (Raised Exn_other))) 2 invalid_message_id blk_sample) = Some [C_user 3, C_user 4]"
  "map_option (map el_msg \<circ> waiting_msgs \<circ> snd) (dequeue_response (number_code (Inl (Raised Exn_other))) 3 invalid_message_id blk_sample)
     = Some [C_user 1, C_user 2, C_user 4]"
  by (code_simp, code_simp)

text \<open>A message that is dropped from the cache leaves a null pointer there.\<close>

lemma dropped_leaves_null:
  "map_option (\<lambda>r. ba_cache (snd r)) (dequeue_response (number_code (Inr (Some None))) 3 invalid_message_id
     (blk_sample\<lparr>ba_cache := [Some ((user_msg 1)\<lparr>el_msg := C_timeout 5\<rparr>)]\<rparr>)) = Some [None]"
  by code_simp

text \<open>An exception that no handler of the actor takes care of makes \<open>resume\<close> read an empty optional; in all other cases the actor is cleaned up.\<close>

lemma nr_resume_fails_iff: "nr_resume outcome handled exit_fun = Inl Empty_optional \<longleftrightarrow> outcome = Some Exn_other \<and> handled = None"
  by (auto simp: nr_resume_def split: option.splits exn.splits)

end
