(* ===== verification/Spec2Isabelle.thy ===== *)
theory Spec2Isabelle
  imports Vslab_System Atom_Val Message_Id Behavior_Stack Event_Actor Single_Reader_Queue Actor_Namespace
    Basp_Network Broker Work_Stealing Timer_Printer Message_Matching Messages Socket_Stream
    Ripemd_160 Typed_Messaging Shared_Spinlock Remote_Links Ieee_754 Servants Uniform_Name
    Blocking_Mailbox Blocking_Actor
begin

text \<open>
  A verification library for the actor framework CAF and the factorisation program that is built on it.

  \<^bold>\<open>The program.\<close> src/vslab is a distributed factorisation program: a client splits a number with the help of
  workers, which run Pollard's rho method in slices, and a manager creates workers and forwards messages; they find
  each other through groups. It uses the actor framework CAF (src/actor-framework), of which libcaf_core holds actors,
  messages, behaviors, groups, the scheduler and serialization, and libcaf_io the network: brokers, the multiplexer and the Binary
  Actor System Protocol (BASP). Numbers have 512 bits and come from boost::multiprecision, of which the repository has a copy.

  \<^bold>\<open>How the parts work together.\<close> An actor sends by putting an element into the mailbox of the receiver, which is given to the
  scheduler if it was blocked. A worker thread of the scheduler takes it from a job queue, its own or another one's, and resumes it: the
  actor takes messages from its mailbox, by priority if it has that policy, classifies them (exit messages, timeouts, responses, and
  so on), and matches them with the pattern of its current behavior; what does not match is kept in a cache. The end of an
  actor is told to links, monitors and groups. A message to an actor of another node is given to a proxy and from there to the BASP broker,
  which serializes it and writes it to a connection; the multiplexer watches the sockets. The broker of the other node reads header and payload,
  makes proxies for the actors it names, and delivers it.

  \<^bold>\<open>Theories.\<close> Each theory begins with its model, in the order of the sources, and goes on with the lemmas and properties.
  Paths are below libcaf_core or libcaf_io unless they begin with vslab.

    \<^item> \<open>Prelude\<close>: machine integers, collections of facts, lists. \<open>Cxx_Text\<close>: number and text conversions of the C++ library.
    \<^item> \<open>Int512\<close>, \<open>Miller_Rabin\<close>: checked 512-bit arithmetic, gcd and the primality test (vslab/third_party/boost). A prime is always found to be
      one; the small cases are exact.
    \<^item> \<open>Vslab_Worker\<close>, \<open>Vslab_Actors\<close>, \<open>Vslab_System\<close>: the actors of vslab/src/main.cpp and the running system, as a step relation over the states of
      client, manager, workers, groups and mailboxes. What a worker reports divides its number, a slice is Floyd's cycle search, one slice is alive at a
      time and a computation is not lost; the client divides a factor out completely; in every reachable state all of this holds together.
    \<^item> \<open>Atom_Val\<close>, \<open>Message_Id\<close>, \<open>Messages\<close>, \<open>Message_Matching\<close>: atoms (caf/detail/atom_val.hpp), message ids, the representations of messages
      (src/message.cpp, src/decorated_tuple.cpp, src/message_builder.cpp), patterns with wildcards, match expressions with their cache of type tokens, and combined behaviors
      (caf/detail/matcher.hpp, caf/match_expr.hpp, src/behavior_impl.cpp). The matcher is compared with a declarative definition of matching, the cache
      is shown to be invisible.
    \<^item> \<open>Behavior_Stack\<close>, \<open>Message_Policies\<close>, \<open>Local_Actor\<close>, \<open>Abstract_Actor\<close>, \<open>Event_Actor\<close>: behavior stacks, priorities, sending and
      requests, the life cycle with links, monitors and groups, and the loop that runs an actor (src/local_actor.cpp, src/abstract_actor.cpp, caf/policy, caf/mixin).
      No message is lost or handled twice by a resumed actor; links are mutual and told once.
    \<^item> \<open>Blocking_Mailbox\<close>, \<open>Blocking_Actor\<close>: actors with a thread of their own, which wait on a condition variable (\<open>synchronized_await\<close>,
      caf/policy/no_scheduling.hpp) and receive messages inside of handlers (caf/detail/proper_actor.hpp, caf/policy/nestable_invoke.hpp). No wake-up is lost; a receive
      takes the first message that fits and keeps the others.
    \<^item> \<open>Single_Reader_Queue\<close>, \<open>Double_Ended_Queue\<close>, \<open>Shared_Spinlock\<close>: the mailbox, the job queue and the readers-writer lock, each with the
      interleavings of its atomic accesses (caf/detail, src/shared_spinlock.cpp); the mailbox is first-in first-out and wakes its reader once, the job queue
      implements a double-ended queue, the lock excludes. The anchor of proxies (src/actor_proxy.cpp) is a user of the lock.
    \<^item> \<open>Work_Stealing\<close>, \<open>Timer_Printer\<close>: the scheduler (caf/scheduler, caf/policy/work_stealing.hpp) and its utility actors (src/abstract_coordinator.cpp).
      A job is in one queue or run by one worker; shutting down reaches all workers.
    \<^item> \<open>Group_Manager\<close>, \<open>Actor_Registry\<close>, \<open>Actor_Namespace\<close>, \<open>Node_Id\<close>, \<open>Ripemd_160\<close>: groups with proxies of other nodes, the tables of
      local and remote actors, and node identifiers with the hash they are made of.
    \<^item> \<open>String_Serialization\<close>, \<open>Binary_Serialization\<close>, \<open>Type_Info_Map\<close>, \<open>Message_Serialization\<close>: the two formats, the table of types and the values of all built-in and
      announced types, up to whole messages. What is written is read back; what is read, from any bytes, is well typed; and
      reading ends.
    \<^item> \<open>Ieee_754\<close>, \<open>Uniform_Name\<close>: floating point values in the binary format (caf/detail/ieee_754.hpp), and the conversion of the names a
      compiler gives to types into those of the table (src/to_uniform_name.cpp, src/demangle.cpp). Packing agrees with IEEE 754 on normal numbers, and
      only there; the parser recovers the structure of a type from its text, and is safe on balanced text.
    \<^item> \<open>Multiplexer\<close>, \<open>Socket_Stream\<close>, \<open>Broker\<close>: the event loop with both backends, connections with receive policies and two write buffers, and brokers
      (src/default_multiplexer.cpp, src/broker.cpp). \<open>Servants\<close>: the scribes and doormen of brokers, which can be passed on from one broker to
      another (caf/io/broker.hpp). A connection has exactly one owner, and closing all of them ends.
    \<^item> \<open>Basp\<close>, \<open>Basp_Broker\<close>, \<open>Basp_Network\<close>, \<open>Typed_Messaging\<close>: the protocol, its broker, two brokers that are connected, and the broker with the
      serialization of \<open>Message_Serialization\<close> in place of a parameter. \<open>Remote_Links\<close>: proxies and links between actors of several nodes
      (src/remote_actor_proxy.cpp); the nodes agree on a link that one side manages, and can disagree if both do.

  \<^bold>\<open>Interfaces.\<close> Where one component relies on another, a locale states what it relies on, and the interpretation on the model shows it:
  \<open>handler_store\<close> (behavior stacks), \<open>group_bus\<close> (groups), \<open>fifo_mailbox\<close> (mailbox), \<open>job_queue\<close> (queues of the scheduler), \<open>proxy_table\<close> (namespace),
  \<open>interest_backend\<close> (poll), \<open>growing_table\<close> (types).

  \<^bold>\<open>Model.\<close> Structures are records, tagged unions are datatypes, exceptions and failed requirements are values of a sum or \<open>None\<close>. Actors, connections,
  nodes of lists and threads are numbers. Integers are words where they wrap around, and otherwise numbers whose range is proved or assumed. Concurrency is
  a step relation: one step is one access to an atomic variable, or what a lock protects. What the program calls but does not define is a
  parameter: handlers of the user, clocks and dice, addresses the allocator returns, the bits of event masks, \<open>epoll_ctl\<close>, the results
  of \<open>recv\<close> and \<open>send\<close>. Where a theorem needs documented behavior of a parameter, that is a named hypothesis, which its witness satisfies.

  \<^bold>\<open>Loops.\<close> Loops that end are total functions with a measure. Those that may not are \<open>partial_function\<close>s with \<open>None\<close> for running on: dividing out a factor of zero,
  and the traversals of linked lists in a heap, for which it is shown that they return on the lists of reachable states. The search
  in the cache of type tokens is bounded by the size of the cache, which is shown to be enough. Messages that contain messages are read to the
  depth of the length of the buffer; a greater depth gives the same result. Request numbers have 61 bits.

  \<^bold>\<open>Not modelled.\<close> Code that only calls the operating system or the compiler: creating sockets and pipes, MAC addresses and UUIDs, the demangling of the
  C++ library, memory pools, logging, singletons. The asio backend, which depends on a library. Templates that compute types (type_list.hpp,
  type_traits.hpp, int_list.hpp) and wrappers without behavior of their own (actor, channel, group and typed handles, spawn, the \<open>on\<close> notation). The receive loops built
  on the receive of a blocking actor, and the blocking functions of the middleman that pass requests to the BASP broker. Values of type \<open>long double\<close>, which the C++ library writes as text.
  Examples, unit tests, the manual, and what vslab does not use of boost.
\<close>

end
